(* ===== verification/Prelude.thy ===== *)
theory Prelude
  imports Main "HOL-Library.Word"
begin

text \<open>
  Shared vocabulary of the development: machine integers, the ways a Dropbear
  process can stop, the result type of fallible code with its sequencing
  operator, a small calculus for reasoning about such code (\<open>safe\<close>), bounded
  memory accesses, and the big-endian 32 bit encoding every SSH message uses.
\<close>

unbundle bit_operations_syntax

section \<open>Types\<close>

type_synonym byte = "8 word"
type_synonym u32 = "32 word"

text \<open>
  How a process stops.  \<open>Exit\<close> is \<open>dropbear_exit\<close> (exit code failure) and \<open>Close\<close>
  is \<open>dropbear_close\<close> (exit code success); both are ordinary outcomes of
  untrusted input.  \<open>Assert_fail\<close> is \<open>dropbear_assert\<close> going wrong, \<open>Mem_fault\<close>
  an access outside its object or to a freed one, \<open>Arith_fault\<close> a division by
  zero and \<open>Diverge\<close> a loop that never ends; these four are the faults the code
  means to exclude.
\<close>

datatype exit = Exit string | Close string | Assert_fail string | Mem_fault | Arith_fault | Diverge

fun fault :: "exit \<Rightarrow> bool" where
  "fault (Exit _) = False"
| "fault (Close _) = False"
| "fault (Assert_fail _) = True"
| "fault Mem_fault = True"
| "fault Arith_fault = True"
| "fault Diverge = True"

type_synonym 'a res = "exit + 'a"

text \<open>Return codes of functions that report failure to their caller.\<close>

datatype ret_code = DROPBEAR_SUCCESS | DROPBEAR_FAILURE

definition bindE :: "'a res \<Rightarrow> ('a \<Rightarrow> 'b res) \<Rightarrow> 'b res" where
  "bindE m f = (case m of Inl e \<Rightarrow> Inl e | Inr x \<Rightarrow> f x)"

abbreviation returnE :: "'a \<Rightarrow> 'a res" where
  "returnE x \<equiv> Inr x"

abbreviation dropbear_exit :: "string \<Rightarrow> 'a res" where
  "dropbear_exit msg \<equiv> Inl (Exit msg)"

abbreviation dropbear_close :: "string \<Rightarrow> 'a res" where
  "dropbear_close msg \<equiv> Inl (Close msg)"

definition dropbear_assert :: "bool \<Rightarrow> string \<Rightarrow> unit res" where
  "dropbear_assert c msg = (if c then returnE () else Inl (Assert_fail msg))"

text \<open>
  A block of memory is a byte list; reading or writing outside it is a fault.
\<close>

definition mem_read :: "byte list \<Rightarrow> nat \<Rightarrow> nat \<Rightarrow> byte list res" where
  "mem_read mem off n =
     (if off + n \<le> length mem then returnE (take n (drop off mem)) else Inl Mem_fault)"

definition mem_write :: "byte list \<Rightarrow> nat \<Rightarrow> byte list \<Rightarrow> byte list res" where
  "mem_write mem off bs =
     (if off + length bs \<le> length mem
      then returnE (take off mem @ bs @ drop (off + length bs) mem) else Inl Mem_fault)"

text \<open>Remainder of unsigned numbers.\<close>

definition umod :: "u32 \<Rightarrow> u32 \<Rightarrow> u32 res" where
  "umod a b = (if b = 0 then Inl Arith_fault else returnE (a mod b))"

text \<open>\<open>for (i = 0; i < n; ++i) out[i] = in[i] ^ buf[i]\<close>, for the bytes of \<open>in\<close>.\<close>

definition xor_bytes :: "byte list \<Rightarrow> byte list \<Rightarrow> byte list" where
  "xor_bytes x buf = map (\<lambda>i. x ! i XOR buf ! i) [0..<length x]"

text \<open>The constant time comparison of \<open>dbutil.c\<close>.\<close>

fun memcmp_loop :: "byte \<Rightarrow> byte list \<Rightarrow> byte list \<Rightarrow> byte" where
  "memcmp_loop c (x # xs) (y # ys) = memcmp_loop (c OR (x XOR y)) xs ys"
| "memcmp_loop c _ _ = c"

definition constant_time_memcmp :: "byte list \<Rightarrow> byte list \<Rightarrow> nat \<Rightarrow> byte res" where
  "constant_time_memcmp a b n =
     bindE (mem_read a 0 n) (\<lambda>xa. bindE (mem_read b 0 n) (\<lambda>xb. returnE (memcmp_loop 0 xa xb)))"

text \<open>The portable \<open>STORE32H\<close> and \<open>LOAD32H\<close> of libtomcrypt's headers.\<close>

definition STORE32H :: "u32 \<Rightarrow> byte list" where
  "STORE32H x = [ucast (drop_bit 24 x AND 255), ucast (drop_bit 16 x AND 255),
                 ucast (drop_bit 8 x AND 255), ucast (x AND 255)]"

definition LOAD32H :: "byte list \<Rightarrow> u32" where
  "LOAD32H y = push_bit 24 (ucast (y ! 0 AND 255)) OR push_bit 16 (ucast (y ! 1 AND 255))
               OR push_bit 8 (ucast (y ! 2 AND 255)) OR ucast (y ! 3 AND 255)"

text \<open>C strings are compared up to their terminator; the model keeps them as byte lists.\<close>

definition str :: "string \<Rightarrow> byte list" where
  "str s = map of_char s"

section \<open>Sequencing\<close>

named_theorems safe_intros "introduction rules for \<open>safe\<close>"
named_theorems u32_nat "moving 32 bit comparisons to natural numbers"

lemma bindE_simps [simp]:
  "bindE (Inl e) f = Inl e"
  "bindE (Inr x) f = f x"
  by (simp_all add: bindE_def)

lemma bindE_assoc: "bindE (bindE m f) g = bindE m (\<lambda>x. bindE (f x) g)"
  by (simp add: bindE_def split: sum.split)

lemma bindE_eq_Inr: "bindE m f = Inr y \<longleftrightarrow> (\<exists>x. m = Inr x \<and> f x = Inr y)"
  by (simp add: bindE_def split: sum.split)

lemma bindE_eq_Inl: "bindE m f = Inl e \<longleftrightarrow> m = Inl e \<or> (\<exists>x. m = Inr x \<and> f x = Inl e)"
  by (simp add: bindE_def split: sum.split)

lemma bindE_cong [fundef_cong]:
  "m = m' \<Longrightarrow> (\<And>x. m' = Inr x \<Longrightarrow> f x = f' x) \<Longrightarrow> bindE m f = bindE m' f'"
  by (simp add: bindE_def split: sum.split)

lemma dropbear_assert_simps [simp]:
  "dropbear_assert True msg = Inr ()"
  "dropbear_assert False msg = Inl (Assert_fail msg)"
  by (simp_all add: dropbear_assert_def)

lemma dropbear_assert_eq_Inr [simp]: "dropbear_assert c msg = Inr u \<longleftrightarrow> c"
  by (simp add: dropbear_assert_def)

text \<open>
  \<open>safe m Q\<close>: running \<open>m\<close> never faults, and if it returns, the result satisfies
  \<open>Q\<close>.  Stopping through \<open>dropbear_exit\<close> or \<open>dropbear_close\<close> is allowed.
\<close>

definition safe :: "'a res \<Rightarrow> ('a \<Rightarrow> bool) \<Rightarrow> bool" where
  "safe m Q = (case m of Inl e \<Rightarrow> \<not> fault e | Inr x \<Rightarrow> Q x)"

lemma safe_simps [simp]:
  "safe (Inr x) Q = Q x"
  "safe (Inl e) Q = (\<not> fault e)"
  by (simp_all add: safe_def)

lemma safe_bindE [safe_intros]: "safe m (\<lambda>x. safe (f x) Q) \<Longrightarrow> safe (bindE m f) Q"
  by (auto simp: safe_def split: sum.splits)

lemma safe_weaken: "safe m P \<Longrightarrow> (\<And>x. m = Inr x \<Longrightarrow> P x \<Longrightarrow> Q x) \<Longrightarrow> safe m Q"
  by (auto simp: safe_def split: sum.splits)

lemma safe_if [safe_intros]:
  "(c \<Longrightarrow> safe m Q) \<Longrightarrow> (\<not> c \<Longrightarrow> safe n Q) \<Longrightarrow> safe (if c then m else n) Q"
  by simp

lemma safe_InrD: "safe m Q \<Longrightarrow> m = Inr x \<Longrightarrow> Q x"
  by simp

lemma safe_conj: "safe m P \<Longrightarrow> safe m Q \<Longrightarrow> safe m (\<lambda>x. P x \<and> Q x)"
  by (auto simp: safe_def split: sum.splits)

lemma safe_no_fault: "safe m Q \<Longrightarrow> m \<noteq> Inl Mem_fault \<and> m \<noteq> Inl (Assert_fail s)"
  by auto

lemma safe_assert [safe_intros]: "c \<Longrightarrow> Q () \<Longrightarrow> safe (dropbear_assert c msg) Q"
  by simp

section \<open>Memory\<close>

lemma mem_read_ok: "off + n \<le> length mem \<Longrightarrow> mem_read mem off n = Inr (take n (drop off mem))"
  by (simp add: mem_read_def)

lemma mem_write_ok:
  "off + length bs \<le> length mem \<Longrightarrow>
     mem_write mem off bs = Inr (take off mem @ bs @ drop (off + length bs) mem)"
  by (simp add: mem_write_def)

lemma mem_write_length: "mem_write mem off bs = Inr mem' \<Longrightarrow> length mem' = length mem"
  by (auto simp: mem_write_def split: if_splits)

lemma take_write_prefix:
  "off + length bs \<le> length mem \<Longrightarrow>
     take (off + length bs) (take off mem @ bs @ drop (off + length bs) mem) = take off mem @ bs"
  by simp

lemma take_drop_split: "i \<le> j \<Longrightarrow> take j xs = take i xs @ take (j - i) (drop i xs)"
  by (metis le_add_diff_inverse take_add)

section \<open>Words\<close>

lemma u32_le_nat [u32_nat]: "(a::u32) \<le> b \<longleftrightarrow> unat a \<le> unat b"
  by (rule word_le_nat_alt)

lemma u32_less_nat [u32_nat]: "(a::u32) < b \<longleftrightarrow> unat a < unat b"
  by (rule word_less_nat_alt)

lemma u32_eq_nat: "(a::u32) = b \<longleftrightarrow> unat a = unat b"
  by (rule word_unat_eq_iff)

lemma unat_u32_bound [simp]: "unat (x::u32) < 4294967296"
  using unsigned_less [of x] by simp

lemma unat_byte_bound [simp]: "unat (x::byte) < 256"
  using unsigned_less [of x] by simp

lemma unat_u32_add: "unat a + unat b < 4294967296 \<Longrightarrow> unat ((a::u32) + b) = unat a + unat b"
  by (simp add: unat_word_ariths)

lemma unat_u32_sub: "unat b \<le> unat a \<Longrightarrow> unat ((a::u32) - b) = unat a - unat b"
  by (simp add: unat_sub word_le_nat_alt)

lemma unat_u32_of_nat: "n < 4294967296 \<Longrightarrow> unat (of_nat n :: u32) = n"
  by (simp add: unat_of_nat)

lemma unat_ucast_byte [simp]: "unat (ucast (b::byte) :: u32) = unat b"
proof -
  have "unat b < 4294967296"
    using unat_byte_bound [of b] by linarith
  then show ?thesis
    by (simp add: unsigned_ucast_eq take_bit_nat_eq_self)
qed

lemma u32_of_nat_unat [simp]: "(of_nat (unat x) :: u32) = x"
  by simp

section \<open>Big-endian 32 bit integers\<close>

lemma length_STORE32H [simp]: "length (STORE32H x) = 4"
  by (simp add: STORE32H_def)

lemma unat_byte_less: "unat (x :: byte) < 256"
  using unsigned_less [of x] by simp

lemma byte_and_255: "(x::byte) AND 255 = x"
proof -
  have "(255::byte) = - 1" by simp
  then show ?thesis by (simp only: and.right_neutral)
qed

lemma u32_ucast_and_255: "(ucast (x AND (255::u32)) :: byte) = ucast x"
proof -
  have m: "(255::u32) = mask 8" by (simp add: mask_eq_exp_minus_1)
  show ?thesis unfolding m by (rule bit_word_eqI) (simp add: bit_simps)
qed

lemma LOAD32H_STORE32H [simp]: "LOAD32H (STORE32H x) = x"
proof (rule bit_word_eqI)
  fix n assume "n < LENGTH(32)"
  then have n: "n < 32" by simp
  consider "n < 8" | "8 \<le> n" "n < 16" | "16 \<le> n" "n < 24" | "24 \<le> n" by linarith
  then show "bit (LOAD32H (STORE32H x)) n = bit x n"
    by cases (use n in \<open>auto simp: LOAD32H_def STORE32H_def byte_and_255 u32_ucast_and_255 bit_simps\<close>)
qed

lemma STORE32H_inj: "STORE32H x = STORE32H y \<Longrightarrow> x = y"
  by (metis LOAD32H_STORE32H)

lemma STORE32H_LOAD32H_bytes: "STORE32H (LOAD32H [a, b, c, d]) = [a, b, c, d]"
proof -
  have "(ucast (drop_bit 24 (LOAD32H [a, b, c, d])) :: byte) = a"
    by (rule bit_word_eqI) (auto simp: LOAD32H_def byte_and_255 bit_simps dest: bit_imp_le_length)
  moreover have "(ucast (drop_bit 16 (LOAD32H [a, b, c, d])) :: byte) = b"
    by (rule bit_word_eqI) (auto simp: LOAD32H_def byte_and_255 bit_simps dest: bit_imp_le_length)
  moreover have "(ucast (drop_bit 8 (LOAD32H [a, b, c, d])) :: byte) = c"
    by (rule bit_word_eqI) (auto simp: LOAD32H_def byte_and_255 bit_simps dest: bit_imp_le_length)
  moreover have "(ucast (LOAD32H [a, b, c, d]) :: byte) = d"
    by (rule bit_word_eqI) (auto simp: LOAD32H_def byte_and_255 bit_simps dest: bit_imp_le_length)
  ultimately show ?thesis
    by (simp add: STORE32H_def u32_ucast_and_255)
qed

lemma length_4_cases: "length y = 4 \<Longrightarrow> \<exists>a b c d. y = [a, b, c, d]"
  by (auto simp: length_Suc_conv numeral_eq_Suc)

lemma STORE32H_LOAD32H: "length y = 4 \<Longrightarrow> STORE32H (LOAD32H y) = y"
  using length_4_cases STORE32H_LOAD32H_bytes by blast

section \<open>Strings\<close>

lemma length_str [simp]: "length (str s) = length s"
  by (simp add: str_def)

section \<open>Comparison\<close>

lemma memcmp_loop_0: "length xs = length ys \<Longrightarrow> memcmp_loop c xs ys = 0 \<longleftrightarrow> c = 0 \<and> xs = ys"
proof (induction c xs ys rule: memcmp_loop.induct)
  case (1 c x xs y ys)
  have "x XOR y = 0 \<longleftrightarrow> x = y"
    by (metis bit.xor_self xor.assoc xor.right_neutral)
  then show ?case using 1 by (auto simp: or_eq_0_iff)
qed auto

lemma constant_time_memcmp_eq:
  "n \<le> length a \<Longrightarrow> n \<le> length b \<Longrightarrow>
     \<exists>c. constant_time_memcmp a b n = Inr c \<and> (c = 0 \<longleftrightarrow> take n a = take n b)"
  by (simp add: constant_time_memcmp_def mem_read_ok memcmp_loop_0)

lemma length_xor_bytes [simp]: "length (xor_bytes xs ys) = length xs"
  by (simp add: xor_bytes_def)

lemma xor_bytes_append: "length k = length x \<Longrightarrow> xor_bytes (x @ y) (k @ l) = xor_bytes x k @ xor_bytes y l"
  by (intro nth_equalityI) (auto simp: xor_bytes_def nth_append)

lemma xor_bytes_self: "xor_bytes (xor_bytes x k) k = x"
  by (auto simp: xor_bytes_def xor.assoc intro!: nth_equalityI)

lemma xor_bytes_zeros: "n \<le> length k \<Longrightarrow> xor_bytes (replicate n 0) k = take n k"
  by (auto simp: xor_bytes_def intro!: nth_equalityI)

lemma xor_bytes_map2: "length x \<le> length k \<Longrightarrow> xor_bytes x k = map2 (XOR) x k"
  by (intro nth_equalityI) (auto simp: xor_bytes_def)

end
