(* ===== verification/Wire.thy ===== *)
theory Wire
  imports Buffer
begin

text \<open>
  The wire encodings of RFC 4251 as \<open>buffer.c\<close> writes and reads them.  The locale
  \<open>codec\<close> is the contract between a writer and a reader of one kind of field: the
  writer appends a fixed encoding, the reader takes that encoding off and gives the
  value back.  It is interpreted for bytes, booleans, integers, strings and
  mpints, and whole messages (sequences of such fields) follow.
\<close>

section \<open>Multiple precision integers\<close>

lemma nat_bits_0 [simp]: "nat_bits 0 = 0"
  by (simp add: nat_bits.simps)

lemma nat_bits_pos: "0 < q \<Longrightarrow> nat_bits q = Suc (nat_bits (q div 2))"
  by (simp add: nat_bits.simps)

lemma nat_bits_zero_iff [simp]: "nat_bits q = 0 \<longleftrightarrow> q = 0"
  by (cases "q = 0") (simp_all add: nat_bits_pos)

lemma less_two_power_nat_bits: "q < 2 ^ nat_bits q"
proof (induction q rule: nat_bits.induct)
  case (1 q)
  show ?case
  proof (cases "0 < q")
    case True
    then have "q div 2 < 2 ^ nat_bits (q div 2)" by (rule 1)
    then show ?thesis using True by (simp add: nat_bits_pos)
  qed simp
qed

lemma two_power_nat_bits_le: "0 < q \<Longrightarrow> 2 ^ (nat_bits q - 1) \<le> q"
proof (induction q rule: nat_bits.induct)
  case (1 q)
  show ?case
  proof (cases "q = 1")
    case False
    then have "0 < q div 2" using "1.prems" by simp
    moreover from this have "2 ^ (nat_bits (q div 2) - 1) \<le> q div 2"
      using 1 by blast
    ultimately show ?thesis
      using "1.prems" by (cases "nat_bits (q div 2)") (simp_all add: nat_bits_pos)
  qed (simp add: nat_bits_pos)
qed

lemma length_ubin_bytes [simp]: "length (ubin_bytes n t) = n"
  by (induction n arbitrary: t) simp_all

lemma fold_ubin_bytes:
  "fold (\<lambda>b a. a * 256 + unat b) (ubin_bytes n t) 0 = t mod 256 ^ n"
proof (induction n arbitrary: t)
  case (Suc n)
  have "t mod 256 ^ Suc n = t div 256 mod 256 ^ n * 256 + t mod 256"
    by (simp add: mod_mult2_eq)
  then show ?case
    by (simp add: Suc unat_of_nat)
qed simp

lemma hd_ubin_bytes: "ubin_bytes (Suc n) t ! 0 = of_nat (t div 256 ^ n mod 256)"
proof (induction n arbitrary: t)
  case (Suc n)
  have "ubin_bytes (Suc (Suc n)) t ! 0 = ubin_bytes (Suc n) (t div 256) ! 0"
    by (simp add: nth_append)
  also have "\<dots> = of_nat (t div 256 ^ Suc n mod 256)"
    by (simp only: Suc) (simp add: div_mult2_eq mult.commute)
  finally show ?case .
qed simp

text \<open>The bytes \<open>buf_putmpint\<close> writes for a non-negative number, length word apart.\<close>

definition mpint_bytes :: "int \<Rightarrow> byte list" where
  "mpint_bytes m =
     (if m = 0 then []
      else (if mp_count_bits m mod 8 = 0 then [0] else []) @ ubin_bytes (mp_ubin_size m) (nat m))"

lemma ubin_size_bound: "m \<ge> 0 \<Longrightarrow> nat m < 256 ^ mp_ubin_size m"
proof -
  assume "m \<ge> 0"
  then have "nat m < 2 ^ mp_count_bits m"
    using less_two_power_nat_bits [of "nat m"] by (simp add: mp_count_bits_def)
  also have "\<dots> \<le> 2 ^ (8 * mp_ubin_size m)"
    by (rule power_increasing) (auto simp: mp_ubin_size_def)
  also have "\<dots> = 256 ^ mp_ubin_size m"
    by (simp add: power_mult)
  finally show ?thesis .
qed

lemma mp_from_to_ubin: "m \<ge> 0 \<Longrightarrow> mp_from_ubin (ubin_bytes (mp_ubin_size m) (nat m)) = m"
  using ubin_size_bound [of m] by (simp add: mp_from_ubin_def fold_ubin_bytes)

lemma mp_from_mpint_bytes: "m \<ge> 0 \<Longrightarrow> mp_from_ubin (mpint_bytes m) = m"
  using mp_from_to_ubin [of m] by (simp add: mpint_bytes_def mp_from_ubin_def)

lemma mp_count_bits_pos: "0 < m \<Longrightarrow> 0 < mp_count_bits m"
  using nat_bits_zero_iff [of "nat m"] by (simp add: mp_count_bits_def del: nat_bits_zero_iff)

lemma length_mpint_bytes:
  "0 < m \<Longrightarrow> length (mpint_bytes m) = mp_count_bits m div 8 + 1"
  by (simp add: mpint_bytes_def mp_ubin_size_def)

text \<open>The sign bit of the first byte is clear: the encoding is that of a non-negative number.\<close>

lemma and_128_small:
  assumes "n < 128"
  shows "(of_nat n :: byte) AND push_bit (8 - 1) 1 = 0"
proof (rule bit_word_eqI)
  fix k
  have "\<not> bit n 7"
    using assms by (simp add: bit_iff_odd)
  then show "bit ((of_nat n :: byte) AND push_bit (8 - 1) 1) k = bit (0 :: byte) k"
    by (simp only: bit_and_iff bit_push_bit_iff bit_of_nat_iff bit_1_iff bit_0_eq) 
      (cases k "7 :: nat" rule: linorder_cases; auto)
qed

lemma mpint_first_byte:
  assumes "0 < m"
  shows "mpint_bytes m ! 0 AND push_bit (8 - 1) 1 = 0"
proof (cases "mp_count_bits m mod 8 = 0")
  case True
  then show ?thesis using assms by (simp add: mpint_bytes_def)
next
  case False
  define n where "n = mp_count_bits m div 8"
  have s: "mp_ubin_size m = Suc n"
    using False by (simp add: mp_ubin_size_def n_def)
  have "nat m < 2 ^ mp_count_bits m"
    using assms less_two_power_nat_bits [of "nat m"] by (simp add: mp_count_bits_def)
  also have "\<dots> \<le> 2 ^ (8 * n + 7)"
    by (rule power_increasing) (auto simp: n_def)
  also have "\<dots> = 128 * 256 ^ n"
    by (simp add: power_add power_mult)
  finally have d: "nat m div 256 ^ n < 128"
    by (simp add: div_less_iff_less_mult)
  have "mpint_bytes m ! 0 = of_nat (nat m div 256 ^ n)"
    using assms False d hd_ubin_bytes [of n "nat m"] by (simp add: mpint_bytes_def s)
  then show ?thesis
    using and_128_small [OF d] by simp
qed

definition mpint_wire :: "int \<Rightarrow> byte list" where
  "mpint_wire m = STORE32H (of_nat (length (mpint_bytes m))) @ mpint_bytes m"

lemma mpint_len_word:
  assumes "0 < m" "mp_count_bits m < 4294967288"
  shows "(of_nat (mp_count_bits m) :: u32) div 8 + 1 = of_nat (length (mpint_bytes m))"
    "(of_nat (mp_count_bits m) :: u32) mod 8 = 0 \<longleftrightarrow> mp_count_bits m mod 8 = 0"
    "unat (of_nat (length (mpint_bytes m)) :: u32) = length (mpint_bytes m)"
proof -
  have b: "unat (of_nat (mp_count_bits m) :: u32) = mp_count_bits m"
    using assms by (simp add: unat_u32_of_nat)
  have l: "length (mpint_bytes m) = mp_count_bits m div 8 + 1"
    using assms by (simp add: length_mpint_bytes)
  show c: "unat (of_nat (length (mpint_bytes m)) :: u32) = length (mpint_bytes m)"
    using assms by (intro unat_u32_of_nat) (simp add: l)
  show "(of_nat (mp_count_bits m) :: u32) div 8 + 1 = of_nat (length (mpint_bytes m))"
    using assms b c l by (simp add: u32_eq_nat unat_u32_add unat_div)
  show "(of_nat (mp_count_bits m) :: u32) mod 8 = 0 \<longleftrightarrow> mp_count_bits m mod 8 = 0"
    using b by (simp add: u32_eq_nat unat_mod)
qed

lemma buf_putmpint_0: "wf_buf b \<Longrightarrow> buf_putmpint b 0 = buf_putint b 0"
  by (simp add: buf_putmpint_def buf_putint_eq)

text \<open>The length word, then the padding byte if any, then the magnitude.\<close>

lemma buf_putmpint_pos:
  assumes "wf_buf b" "0 < m" "mp_count_bits m < 4294967288"
  shows "buf_putmpint b m = bindE (buf_putint b (of_nat (length (mpint_bytes m)))) (\<lambda>b.
     bindE (if mp_count_bits m mod 8 = 0 then buf_putbyte b 0 else Inr b) (\<lambda>b.
     buf_putbytes b (ubin_bytes (mp_ubin_size m) (nat m)) (of_nat (mp_ubin_size m))))"
proof -
  note lw = mpint_len_word [OF assms(2,3)]
  let ?l = "of_nat (length (mpint_bytes m)) :: u32"
  let ?pad = "if mp_count_bits m mod 8 = 0 then 1 else 0 :: u32"
  have l: "length (mpint_bytes m) = mp_count_bits m div 8 + 1"
    using assms by (simp add: length_mpint_bytes)
  have sz: "unat (of_nat (mp_ubin_size m) :: u32) = mp_ubin_size m"
    using assms by (intro unat_u32_of_nat) (auto simp: mp_ubin_size_def)
  have d: "?l - ?pad = of_nat (mp_ubin_size m)"
    using assms by (auto simp: l mp_ubin_size_def)
  have p: "?l > 0"
    using lw l by (simp add: u32_nat)
  show ?thesis
    unfolding buf_putmpint_def Let_def lw
    using assms p sz d by (simp add: mp_to_ubin_def buf_putbytes_def mem_read_ok lw(1) cong: if_cong)
qed

lemma buf_putmpint_eq:
  assumes "wf_buf b" "0 \<le> m" "mp_count_bits m < 4294967288"
  shows "length (mpint_wire m) \<le> room b \<Longrightarrow> buf_putmpint b m = Inr (overwrite b (mpint_wire m))"
    and "room b < length (mpint_wire m) \<Longrightarrow> \<exists>msg. buf_putmpint b m = Inl (Exit msg)"
proof -
  let ?l = "of_nat (length (mpint_bytes m)) :: u32"
  let ?u = "ubin_bytes (mp_ubin_size m) (nat m)"
  have z: "mpint_wire 0 = STORE32H 0"
    by (simp add: mpint_wire_def mpint_bytes_def)
  let ?b4 = "overwrite b (STORE32H ?l)" and ?b5 = "overwrite b (STORE32H ?l @ [0])"
  have w: "4 \<le> room b \<Longrightarrow> wf_buf ?b4 \<and> room ?b4 = room b - 4"
    "5 \<le> room b \<Longrightarrow> wf_buf ?b5 \<and> room ?b5 = room b - 5"
    using assms by (simp_all add: wf_overwrite room_overwrite)
  have sz: "unat (of_nat (mp_ubin_size m) :: u32) = mp_ubin_size m"
    using assms by (intro unat_u32_of_nat) (auto simp: mp_ubin_size_def)
  have oo: "length xs + length ys \<le> room b \<Longrightarrow> overwrite (overwrite b xs) ys = overwrite b (xs @ ys)" for xs ys
    using assms(1) by (rule overwrite_overwrite)
  have "(if length (mpint_wire m) \<le> room b then buf_putmpint b m = Inr (overwrite b (mpint_wire m))
      else (\<exists>msg. buf_putmpint b m = Inl (Exit msg)))"
  proof (cases "m = 0")
    case True
    then show ?thesis using assms by (simp add: z buf_putmpint_0 buf_putint_eq)
  next
    case False
    then have m: "0 < m" using assms by simp
    note eq = buf_putmpint_pos [OF assms(1) m assms(3)]
    show ?thesis
    proof (cases "mp_count_bits m mod 8 = 0")
      case True
      then have wire: "mpint_wire m = STORE32H ?l @ [0] @ ?u"
        using m by (simp add: mpint_wire_def mpint_bytes_def)
      show ?thesis
        using w True m assms(1) sz oo [of "STORE32H ?l" "[0]"] oo [of "STORE32H ?l @ [0]" ?u]
        unfolding eq wire by (auto simp: buf_putint_eq buf_putbyte_eq buf_putbytes_eq)
    next
      case pad: False
      then have wire: "mpint_wire m = STORE32H ?l @ ?u"
        using m by (simp add: mpint_wire_def mpint_bytes_def)
      show ?thesis
        using w pad m assms(1) sz oo [of "STORE32H ?l" ?u]
        unfolding eq wire by (auto simp: buf_putint_eq buf_putbytes_eq)
    qed
  qed
  then show "length (mpint_wire m) \<le> room b \<Longrightarrow> buf_putmpint b m = Inr (overwrite b (mpint_wire m))"
    "room b < length (mpint_wire m) \<Longrightarrow> \<exists>msg. buf_putmpint b m = Inl (Exit msg)"
    by (simp_all split: if_splits)
qed

lemma buf_getmpint_eq:
  assumes "wf_buf b" "unread b = STORE32H l @ rest"
  shows "buf_getmpint b =
     (if l = 0 then Inr (Some 0, advance b 4)
      else if 1030 < unat l then Inr (None, advance b 4)
      else if rest = [] then Inl (Exit ''Bad buf_getptr'')
      else if rest ! 0 AND push_bit (8 - 1) 1 \<noteq> 0 then Inr (None, advance b 4)
      else if length rest < unat l then Inl (Exit ''Bad buf_getptr'')
      else Inr (Some (mp_from_ubin (take (unat l) rest)), advance b (4 + unat l)))"
proof -
  have b4: "wf_buf (advance b 4)" "unread (advance b 4) = rest"
    using assms by (simp_all add: wf_advance unread_advance)
  have r: "n \<le> length rest \<Longrightarrow>
      mem_read (b_data b) (unat (b_pos (advance b 4))) n = Inr (take n rest)" for n
    using read_at_pos [of "advance b 4" n] b4 by simp
  have m: "unat BUF_MAX_MPINT = 1030"
    by (simp add: BUF_MAX_MPINT_def)
  have h: "rest \<noteq> [] \<Longrightarrow> hd (take 1 rest) = rest ! 0"
    by (cases rest; simp)
  show ?thesis
    using b4 r m h by (auto simp: buf_getmpint_def buf_getint_eq assms u32_nat buf_getptr_eq
        buf_incrpos_eq advance_advance not_le Suc_le_eq)
qed

section \<open>Writer and reader of one kind of field\<close>

locale codec =
  fixes put :: "buffer \<Rightarrow> 'a \<Rightarrow> buffer res"
    and get :: "buffer \<Rightarrow> ('a \<times> buffer) res"
    and enc :: "'a \<Rightarrow> byte list"
    and ok :: "'a \<Rightarrow> bool"
  assumes put_ok: "wf_buf b \<Longrightarrow> ok v \<Longrightarrow> length (enc v) \<le> room b \<Longrightarrow> put b v = Inr (overwrite b (enc v))"
    and put_full: "wf_buf b \<Longrightarrow> ok v \<Longrightarrow> room b < length (enc v) \<Longrightarrow> \<exists>msg. put b v = Inl (Exit msg)"
    and get_enc: "wf_buf b \<Longrightarrow> ok v \<Longrightarrow> unread b = enc v @ rest \<Longrightarrow>
        get b = Inr (v, advance b (length (enc v)))"
begin

lemma put_iff:
  assumes "wf_buf b" "ok v"
  shows "put b v = Inr b' \<longleftrightarrow> length (enc v) \<le> room b \<and> b' = overwrite b (enc v)"
  using put_ok [OF assms] put_full [OF assms] by (cases "length (enc v) \<le> room b") auto

lemma put_safe:
  assumes "wf_buf b" "ok v"
  shows "safe (put b v) (wrote_to b)"
  using put_ok [OF assms] put_full [OF assms] wrote_to_overwrite [OF assms(1), of "enc v"]
  by (cases "length (enc v) \<le> room b") auto

lemma put_get:
  assumes "wf_buf b" "ok v" "put b v = Inr b'"
  shows "bindE (buf_setpos b' (b_pos b)) get = Inr (v, b')"
proof -
  have l: "length (enc v) \<le> room b" and b': "b' = overwrite b (enc v)"
    using assms by (simp_all add: put_iff)
  have wf': "wf_buf b'"
    unfolding b' using wf_overwrite [OF assms(1) l] .
  have p: "unat (b_pos b) \<le> unat (b_len b')"
    using len_overwrite [OF assms(1) l] by (simp add: b')
  let ?bk = "b'\<lparr>b_pos := b_pos b\<rparr>"
  have wf: "wf_buf ?bk"
    using wf_setpos [OF wf' p] .
  have "unread ?bk = enc v @ drop (length (enc v)) (unread b)"
    unfolding b' by (rule unread_back [OF assms(1) l])
  from get_enc [OF wf assms(2) this] show ?thesis
    using p by (simp add: buf_setpos_eq advance_def b' overwrite_def)
qed

end

lemma buf_getint_STORE32H:
  "wf_buf b \<Longrightarrow> unread b = STORE32H v @ rest \<Longrightarrow> buf_getint b = Inr (v, advance b 4)"
  by (simp add: buf_getint_eq)

interpretation byte_codec: codec buf_putbyte buf_getbyte "\<lambda>v. [v]" "\<lambda>_. True"
  by unfold_locales (simp_all add: buf_putbyte_eq buf_getbyte_eq)

interpretation bool_codec: codec buf_putbyte buf_getbool "\<lambda>v. [v]" "\<lambda>v. v \<in> {0, 1}"
  by unfold_locales (auto simp: buf_putbyte_eq buf_getbool_def buf_getbyte_eq)

interpretation int_codec: codec buf_putint buf_getint STORE32H "\<lambda>_. True"
  by unfold_locales (simp_all add: buf_putint_eq buf_getint_STORE32H)

text \<open>A string field, as its callers use it: the length argument is that of the block.\<close>

definition put_string :: "buffer \<Rightarrow> byte list \<Rightarrow> buffer res" where
  "put_string b s = buf_putstring b s (of_nat (length s))"

definition get_string :: "buffer \<Rightarrow> (byte list \<times> buffer) res" where
  "get_string b = bindE (buf_getstring b) (\<lambda>((s, l), b). returnE (take (unat l) s, b))"

interpretation string_codec: codec put_string get_string
  "\<lambda>s. STORE32H (of_nat (length s)) @ s" "\<lambda>s. length s \<le> 9000"
  by unfold_locales
    (simp_all add: put_string_def get_string_def buf_putstring_eq buf_getstring_eq unat_u32_of_nat)

definition get_mpint :: "buffer \<Rightarrow> (int \<times> buffer) res" where
  "get_mpint b = bindE (buf_getmpint b) (\<lambda>(m, b).
     case m of None \<Rightarrow> dropbear_exit ''Bad mpint'' | Some m \<Rightarrow> returnE (m, b))"

lemma buf_getmpint_wire:
  assumes "wf_buf b" "0 \<le> m" "mp_count_bits m < 8240" "unread b = mpint_wire m @ rest"
  shows "buf_getmpint b = Inr (Some m, advance b (length (mpint_wire m)))"
proof (cases "m = 0")
  case True
  then show ?thesis
    using assms by (simp add: mpint_wire_def mpint_bytes_def buf_getmpint_eq)
next
  case False
  then have m: "0 < m" using assms by simp
  then have l: "length (mpint_bytes m) = mp_count_bits m div 8 + 1"
    by (simp add: length_mpint_bytes)
  then have b: "1 \<le> length (mpint_bytes m)" "length (mpint_bytes m) \<le> 1030"
    using assms(3) by simp_all
  then have u: "unat (of_nat (length (mpint_bytes m)) :: u32) = length (mpint_bytes m)"
    by (intro unat_u32_of_nat) simp
  with b have "(of_nat (length (mpint_bytes m)) :: u32) \<noteq> 0" "mpint_bytes m \<noteq> []"
    by (auto simp: u32_eq_nat)
  then show ?thesis
    using assms u b mpint_first_byte [OF m] mp_from_mpint_bytes [of m]
    by (simp add: mpint_wire_def buf_getmpint_eq nth_append)
qed

interpretation mpint_codec: codec buf_putmpint get_mpint mpint_wire
  "\<lambda>m. 0 \<le> m \<and> mp_count_bits m < 8240"
  by unfold_locales (auto simp: buf_putmpint_eq get_mpint_def buf_getmpint_wire)

section \<open>Messages\<close>

text \<open>
  A packet payload is a sequence of fields, written by one call each and read back
  by the calls of the same kinds.
\<close>

datatype field = F_byte byte | F_bool byte | F_int u32 | F_string "byte list" | F_mpint int

datatype kind = K_byte | K_bool | K_int | K_string | K_mpint

fun kind_of :: "field \<Rightarrow> kind" where
  "kind_of (F_byte _) = K_byte"
| "kind_of (F_bool _) = K_bool"
| "kind_of (F_int _) = K_int"
| "kind_of (F_string _) = K_string"
| "kind_of (F_mpint _) = K_mpint"

fun field_ok :: "field \<Rightarrow> bool" where
  "field_ok (F_bool v) = (v \<in> {0, 1})"
| "field_ok (F_string s) = (length s \<le> 9000)"
| "field_ok (F_mpint m) = (0 \<le> m \<and> mp_count_bits m < 8240)"
| "field_ok _ = True"

fun enc_field :: "field \<Rightarrow> byte list" where
  "enc_field (F_byte v) = [v]"
| "enc_field (F_bool v) = [v]"
| "enc_field (F_int v) = STORE32H v"
| "enc_field (F_string s) = STORE32H (of_nat (length s)) @ s"
| "enc_field (F_mpint m) = mpint_wire m"

fun put_field :: "buffer \<Rightarrow> field \<Rightarrow> buffer res" where
  "put_field b (F_byte v) = buf_putbyte b v"
| "put_field b (F_bool v) = buf_putbyte b v"
| "put_field b (F_int v) = buf_putint b v"
| "put_field b (F_string s) = put_string b s"
| "put_field b (F_mpint m) = buf_putmpint b m"

fun get_field :: "kind \<Rightarrow> buffer \<Rightarrow> (field \<times> buffer) res" where
  "get_field K_byte b = bindE (buf_getbyte b) (\<lambda>(v, b). returnE (F_byte v, b))"
| "get_field K_bool b = bindE (buf_getbool b) (\<lambda>(v, b). returnE (F_bool v, b))"
| "get_field K_int b = bindE (buf_getint b) (\<lambda>(v, b). returnE (F_int v, b))"
| "get_field K_string b = bindE (get_string b) (\<lambda>(v, b). returnE (F_string v, b))"
| "get_field K_mpint b = bindE (get_mpint b) (\<lambda>(v, b). returnE (F_mpint v, b))"

lemma get_field_enc:
  assumes "wf_buf b" "field_ok f" "unread b = enc_field f @ rest"
  shows "get_field (kind_of f) b = Inr (f, advance b (length (enc_field f)))"
proof (cases f)
  case (F_byte v)
  then show ?thesis using assms byte_codec.get_enc [of b v] by simp
next
  case (F_bool v)
  then show ?thesis using assms bool_codec.get_enc [of b v] by simp
next
  case (F_int v)
  then show ?thesis using assms int_codec.get_enc [of b v] by simp
next
  case (F_string s)
  then show ?thesis using assms string_codec.get_enc [of b s] by simp
next
  case (F_mpint m)
  then show ?thesis using assms mpint_codec.get_enc [of b m] by simp
qed

interpretation fld: codec put_field "get_field k" enc_field "\<lambda>f. kind_of f = k \<and> field_ok f" for k
proof (unfold_locales, goal_cases)
  case (1 b f)
  then show ?case
    by (cases f) (auto simp: byte_codec.put_ok int_codec.put_ok string_codec.put_ok mpint_codec.put_ok)
next
  case (2 b f)
  then show ?case
    by (cases f) (auto simp: byte_codec.put_full int_codec.put_full string_codec.put_full mpint_codec.put_full)
next
  case (3 b f rest)
  then show ?case
    using get_field_enc [of b f rest] by auto
qed

fun put_fields :: "buffer \<Rightarrow> field list \<Rightarrow> buffer res" where
  "put_fields b [] = returnE b"
| "put_fields b (f # fs) = bindE (put_field b f) (\<lambda>b. put_fields b fs)"

fun get_fields :: "kind list \<Rightarrow> buffer \<Rightarrow> (field list \<times> buffer) res" where
  "get_fields [] b = returnE ([], b)"
| "get_fields (k # ks) b =
     bindE (get_field k b) (\<lambda>(f, b). bindE (get_fields ks b) (\<lambda>(fs, b). returnE (f # fs, b)))"

definition enc_fields :: "field list \<Rightarrow> byte list" where
  "enc_fields fs = concat (map enc_field fs)"

lemma put_fields_iff:
  assumes "wf_buf b" "\<forall>f \<in> set fs. field_ok f"
  shows "put_fields b fs = Inr b' \<longleftrightarrow> length (enc_fields fs) \<le> room b \<and> b' = overwrite b (enc_fields fs)"
  using assms
proof (induction fs arbitrary: b)
  case (Cons f fs)
  have put: "put_field b f = Inr c \<longleftrightarrow> length (enc_field f) \<le> room b \<and> c = overwrite b (enc_field f)" for c
    using fld.put_iff [of b f "kind_of f"] Cons.prems by simp
  show ?case
  proof (cases "length (enc_field f) \<le> room b")
    case True
    then have "put_field b f = Inr (overwrite b (enc_field f))"
      by (simp add: put)
    then show ?thesis
      using True Cons by (auto simp: wf_overwrite room_overwrite enc_fields_def overwrite_overwrite)
  next
    case False
    then obtain e where "put_field b f = Inl e"
      using put by (cases "put_field b f") auto
    then show ?thesis using False by (simp add: enc_fields_def)
  qed
qed (auto simp: enc_fields_def)

lemma get_fields_enc:
  assumes "wf_buf b" "\<forall>f \<in> set fs. field_ok f" "unread b = enc_fields fs @ rest"
  shows "get_fields (map kind_of fs) b = Inr (fs, advance b (length (enc_fields fs)))"
  using assms
proof (induction fs arbitrary: b)
  case (Cons f fs)
  then have l: "length (enc_field f) \<le> length (unread b)" and
    g: "get_field (kind_of f) b = Inr (f, advance b (length (enc_field f)))"
    using get_field_enc [of b f "enc_fields fs @ rest"] by (simp_all add: enc_fields_def)
  moreover have "wf_buf (advance b (length (enc_field f)))"
    "unread (advance b (length (enc_field f))) = enc_fields fs @ rest"
    using Cons.prems l by (simp_all add: wf_advance unread_advance enc_fields_def)
  ultimately show ?case
    using Cons by (simp add: advance_advance enc_fields_def)
qed (simp add: enc_fields_def)

section \<open>Sequences of buffer calls\<close>

text \<open>A call on a buffer whose results other than the buffer itself are dropped.\<close>

datatype buf_op =
  Op_setlen u32 | Op_incrlen u32 | Op_setpos u32 | Op_incrpos u32 | Op_decrpos u32
| Op_incrwritepos u32 | Op_resize "nat \<Rightarrow> byte" u32
| Op_getbyte | Op_getbool | Op_getint | Op_getstring | Op_getstringbuf bool | Op_eatstring | Op_getmpint
| Op_getptrcopy u32 | Op_newcopy
| Op_putbyte byte | Op_putint u32 | Op_putbytes "byte list" u32 | Op_putstring "byte list" u32
| Op_putbufstring buffer | Op_putmpint int

fun run_op :: "buf_op \<Rightarrow> buffer \<Rightarrow> buffer res" where
  "run_op (Op_setlen l) b = buf_setlen b l"
| "run_op (Op_incrlen l) b = buf_incrlen b l"
| "run_op (Op_setpos p) b = buf_setpos b p"
| "run_op (Op_incrpos n) b = buf_incrpos b n"
| "run_op (Op_decrpos n) b = buf_decrpos b n"
| "run_op (Op_incrwritepos n) b = buf_incrwritepos b n"
| "run_op (Op_resize mem n) b = buf_resize mem b n"
| "run_op Op_getbyte b = bindE (buf_getbyte b) (\<lambda>(_, b). returnE b)"
| "run_op Op_getbool b = bindE (buf_getbool b) (\<lambda>(_, b). returnE b)"
| "run_op Op_getint b = bindE (buf_getint b) (\<lambda>(_, b). returnE b)"
| "run_op Op_getstring b = bindE (buf_getstring b) (\<lambda>(_, b). returnE b)"
| "run_op (Op_getstringbuf incl) b = bindE (buf_getstringbuf_int b incl) (\<lambda>(_, b). returnE b)"
| "run_op Op_eatstring b = buf_eatstring b"
| "run_op Op_getmpint b = bindE (buf_getmpint b) (\<lambda>(_, b). returnE b)"
| "run_op (Op_getptrcopy l) b = buf_getptrcopy b l"
| "run_op Op_newcopy b = buf_newcopy b"
| "run_op (Op_putbyte v) b = buf_putbyte b v"
| "run_op (Op_putint v) b = buf_putint b v"
| "run_op (Op_putbytes bs l) b = buf_putbytes b bs l"
| "run_op (Op_putstring bs l) b = buf_putstring b bs l"
| "run_op (Op_putbufstring s) b = buf_putbufstring b s"
| "run_op (Op_putmpint m) b = buf_putmpint b m"

text \<open>The caller's side: source blocks are as long as the length argument says.\<close>

fun op_ok :: "buf_op \<Rightarrow> bool" where
  "op_ok (Op_putbytes bs l) = (unat l \<le> length bs)"
| "op_ok (Op_putstring bs l) = (unat l \<le> length bs)"
| "op_ok (Op_putbufstring s) = wf_buf s"
| "op_ok (Op_putmpint m) = (mp_count_bits m < 4294967288)"
| "op_ok _ = True"

fun run_ops :: "buf_op list \<Rightarrow> buffer \<Rightarrow> buffer res" where
  "run_ops [] b = returnE b"
| "run_ops (op # ops) b = bindE (run_op op b) (run_ops ops)"

lemma safe_buf_getmpint:
  assumes "wf_buf b"
  shows "safe (buf_getmpint b) (\<lambda>(m, b'). read_from b b')"
  using assms
proof (cases rule: string_cases)
  case 1
  then show ?thesis by (simp add: buf_getmpint_def buf_getint_short assms)
next
  case (2 l rest)
  then show ?thesis using assms by (simp add: buf_getmpint_eq read_from_advance)
qed

lemma safe_buf_putmpint:
  assumes "wf_buf b" "mp_count_bits m < 4294967288"
  shows "safe (buf_putmpint b m) (wrote_to b)"
proof (cases "m < 0")
  case True
  then show ?thesis by (simp add: buf_putmpint_def)
next
  case False
  then show ?thesis
    using buf_putmpint_eq [OF assms(1) _ assms(2)] wrote_to_overwrite [OF assms(1), of "mpint_wire m"]
    by (cases "length (mpint_wire m) \<le> room b") auto
qed

lemmas safe_reads = safe_buf_getbyte safe_buf_getbool safe_buf_getint safe_buf_getstring
  safe_buf_getstringbuf_int safe_buf_getmpint

lemmas safe_writes = safe_buf_putbyte safe_buf_putint safe_buf_putbytes safe_buf_putstring
  safe_buf_putbufstring safe_buf_putmpint

lemmas safe_moves = safe_buf_setlen safe_buf_incrlen safe_buf_setpos safe_buf_incrpos safe_buf_decrpos
  safe_buf_incrwritepos safe_buf_resize safe_buf_eatstring safe_buf_getptrcopy safe_buf_newcopy

lemma run_op_safe:
  assumes "wf_buf b" "op_ok op"
  shows "safe (run_op op b) wf_buf"
  using assms
  by (cases op) (auto intro!: safe_bindE safe_reads [THEN safe_weaken] safe_writes [THEN safe_weaken]
      safe_moves [THEN safe_weaken])

text \<open>
  C1. Memory safety of the buffer layer.  Any sequence of calls of \<open>buffer.c\<close>, with
  any arguments, on a well-formed buffer either stops through \<open>dropbear_exit\<close> or
  ends in a well-formed buffer (\<open>pos \<le> len \<le> size\<close>, block of \<open>size\<close> bytes); no
  call accesses memory outside its block.
\<close>

theorem buffer_calls_safe:
  assumes "wf_buf b" "\<forall>op \<in> set ops. op_ok op"
  shows "safe (run_ops ops b) wf_buf"
  using assms
proof (induction ops arbitrary: b)
  case (Cons op ops)
  then show ?case
    by (auto intro!: safe_bindE safe_weaken [OF run_op_safe])
qed simp

theorem buffer_calls_safe_witness:
  "safe (run_ops [Op_putint 7, Op_putstring [1, 2, 3] 3, Op_setpos 0, Op_getint, Op_getstring, Op_decrpos 2]
     (buf_of (replicate 20 0))) wf_buf"
  by (rule buffer_calls_safe) (simp_all add: wf_buf_of)

text \<open>
  C4. Wire round trip.  Any sequence of fields (bytes, booleans, integers, strings
  up to \<open>MAX_STRING_LEN\<close>, non-negative mpints below 8240 bits) written with the
  \<open>buf_put*\<close> calls and read from where it began with the matching \<open>buf_get*\<close> calls
  gives back exactly the fields, and the reader ends where the writer stopped.
\<close>

theorem message_roundtrip:
  assumes "wf_buf b" "\<forall>f \<in> set fs. field_ok f" "put_fields b fs = Inr b'"
  shows "bindE (buf_setpos b' (b_pos b)) (get_fields (map kind_of fs)) = Inr (fs, b')"
proof -
  have l: "length (enc_fields fs) \<le> room b" and b': "b' = overwrite b (enc_fields fs)"
    using assms by (simp_all add: put_fields_iff)
  have p: "unat (b_pos b) \<le> unat (b_len b')"
    using len_overwrite [OF assms(1) l] by (simp add: b')
  have "wf_buf (b'\<lparr>b_pos := b_pos b\<rparr>)"
    using wf_setpos [OF wf_overwrite [OF assms(1) l]] p by (simp add: b')
  moreover have "unread (b'\<lparr>b_pos := b_pos b\<rparr>) = enc_fields fs @ drop (length (enc_fields fs)) (unread b)"
    unfolding b' by (rule unread_back [OF assms(1) l])
  ultimately show ?thesis
    using get_fields_enc assms(2) p by (simp add: buf_setpos_eq) (simp add: advance_def b' overwrite_def)
qed

theorem message_roundtrip_witness:
  "\<exists>b'. put_fields (buf_of (replicate 40 0)) [F_byte 50, F_string (str ''root''), F_bool 1, F_mpint 255, F_int 9]
      = Inr b'
     \<and> bindE (buf_setpos b' 0) (get_fields [K_byte, K_string, K_bool, K_mpint, K_int])
        = Inr ([F_byte 50, F_string (str ''root''), F_bool 1, F_mpint 255, F_int 9], b')"
proof -
  let ?fs = "[F_byte 50, F_string (str ''root''), F_bool 1, F_mpint 255, F_int 9]"
  let ?b = "buf_of (replicate 40 0)"
  have wf: "wf_buf ?b" by (simp add: wf_buf_of)
  have ok: "\<forall>f \<in> set ?fs. field_ok f" by code_simp
  have "length (enc_fields ?fs) \<le> room ?b" by code_simp
  then obtain b' where b': "put_fields ?b ?fs = Inr b'"
    using put_fields_iff [OF wf ok] by blast
  from message_roundtrip [OF wf ok b'] b' show ?thesis
    by (auto simp: buf_of_def)
qed

end
