(* ===== verification/Algo.thy ===== *)
theory Algo
  imports Wire
begin

text \<open>
  Algorithm negotiation, \<open>src/src/common-algo.c\<close>: writing a name list, taking a
  received one apart in place, and choosing the algorithm both sides will use.
  The lemmas show that a list one side writes is read back by the other as the
  usable names, that the choice is the one RFC 4253 asks for, and that the two
  sides of a connection choose the same name.
\<close>

section \<open>Definitions\<close>

text \<open>
  An entry of an algorithm table; the tables end at the first entry whose name is
  \<open>NULL\<close>, so a table is the list of the entries before it.  Names are C strings
  without their terminator.
\<close>

record ('d, 'm) algo_type =
  al_name :: "byte list"
  al_val :: byte
  al_data :: "'d option"
  al_usable :: bool
  al_mode :: "'m option"

definition MAX_PROPOSED_ALGO :: nat where "MAX_PROPOSED_ALGO = 50"
definition MAX_NAME_LEN :: nat where "MAX_NAME_LEN = 64"

definition KEXGUESS2_ALGO_NAME :: "byte list" where
  "KEXGUESS2_ALGO_NAME = str ''kexguess2@matt.ucc.asn.au''"

abbreviation comma :: byte where "comma \<equiv> 44"

fun put_algos :: "buffer \<Rightarrow> ('d, 'm) algo_type list \<Rightarrow> bool \<Rightarrow> bool \<Rightarrow> buffer res" where
  "put_algos buf [] useall donefirst = returnE buf"
| "put_algos buf (a # algos) useall donefirst =
     (if al_usable a \<or> useall then
        bindE (if donefirst then buf_putbyte buf comma else returnE buf) (\<lambda>buf.
        bindE (buf_putbytes buf (al_name a) (of_nat (length (al_name a)))) (\<lambda>buf.
        put_algos buf algos useall True))
      else put_algos buf algos useall donefirst)"

definition buf_put_algolist_all :: "buffer \<Rightarrow> ('d, 'm) algo_type list \<Rightarrow> bool \<Rightarrow> buffer res" where
  "buf_put_algolist_all buf localalgos useall =
     (let startpos = b_pos buf in
      bindE (buf_putint buf 0) (\<lambda>buf.
      bindE (put_algos buf localalgos useall False) (\<lambda>buf.
      let l = b_pos buf - startpos - 4 in
      bindE (buf_setpos buf startpos) (\<lambda>buf.
      bindE (buf_putint buf l) (\<lambda>buf.
      buf_incrwritepos buf l)))))"

definition buf_put_algolist :: "buffer \<Rightarrow> ('d, 'm) algo_type list \<Rightarrow> buffer res" where
  "buf_put_algolist buf localalgos = buf_put_algolist_all buf localalgos False"

text \<open>
  The list is cut up in place: commas become terminators and the result is the list
  of offsets at which the names start.
\<close>

function get_algolist_loop :: "byte list \<Rightarrow> nat \<Rightarrow> nat \<Rightarrow> nat list \<Rightarrow> nat \<Rightarrow> (byte list \<times> nat list) res" where
  "get_algolist_loop algolist algolist_len max_count ret_list i =
     (if i < algolist_len then
        bindE (mem_read algolist i 1) (\<lambda>c.
        if hd c = 0 then returnE (algolist, [])
        else if hd c = comma then
          if length ret_list \<ge> max_count then dropbear_exit ''Too many remote algorithms''
          else get_algolist_loop (algolist[i := 0]) algolist_len max_count (ret_list @ [i + 1]) (i + 1)
        else get_algolist_loop algolist algolist_len max_count ret_list (i + 1))
      else returnE (algolist, ret_list))"
  by pat_completeness auto
termination by (relation "measure (\<lambda>(_, n, _, _, i). n - i)") auto

text \<open>
  The count for an over-long list is set to zero and at once to one again, so the
  length makes no difference.
\<close>

definition get_algolist :: "byte list \<Rightarrow> u32 \<Rightarrow> nat \<Rightarrow> (byte list \<times> nat list) res" where
  "get_algolist algolist algolist_len ret_count =
     (if ret_count = 0 then returnE (algolist, [])
      else
        let max_count = ret_count;
            ret_count = (if unat algolist_len > MAX_PROPOSED_ALGO * (MAX_NAME_LEN + 1) then 0 else ret_count);
            ret_list = [0] in
        get_algolist_loop algolist (unat algolist_len) max_count ret_list 0)"

text \<open>The C string at an offset of a block.\<close>

definition cstr_at :: "byte list \<Rightarrow> nat \<Rightarrow> byte list" where
  "cstr_at mem off = takeWhile (\<lambda>c. c \<noteq> 0) (drop off mem)"

text \<open>The names a received list is taken apart into.\<close>

definition remote_names :: "byte list \<times> u32 \<Rightarrow> byte list list res" where
  "remote_names = (\<lambda>(algolist, l).
     bindE (get_algolist algolist l MAX_PROPOSED_ALGO) (\<lambda>(algolist, offs).
     returnE (map (cstr_at algolist) offs)))"

definition buf_has_algo :: "buffer \<Rightarrow> byte list \<Rightarrow> (ret_code \<times> buffer) res" where
  "buf_has_algo buf algo =
     (let orig_pos = b_pos buf in
      bindE (buf_getstring buf) (\<lambda>(algolist, buf).
      bindE (remote_names algolist) (\<lambda>remotenames.
      bindE (buf_setpos buf orig_pos) (\<lambda>buf.
      returnE (if algo \<in> set remotenames then DROPBEAR_SUCCESS else DROPBEAR_FAILURE, buf)))))"

fun first_usable_algo :: "('d, 'm) algo_type list \<Rightarrow> ('d, 'm) algo_type option" where
  "first_usable_algo [] = None"
| "first_usable_algo (a # algos) = (if al_usable a then Some a else first_usable_algo algos)"

text \<open>The two nested loops; \<open>None\<close> is a \<open>NULL\<close> name.\<close>

fun match_serv :: "byte list option \<Rightarrow> nat \<Rightarrow> byte list option list \<Rightarrow> nat option" where
  "match_serv cli j [] = None"
| "match_serv cli j (serv # servnames) =
     (case (serv, cli) of
        (Some s, Some c) \<Rightarrow> if s = c then Some j else match_serv cli (j + 1) servnames
      | _ \<Rightarrow> match_serv cli (j + 1) servnames)"

fun match_cli :: "nat \<Rightarrow> byte list option list \<Rightarrow> byte list option list \<Rightarrow> (nat \<times> nat) option" where
  "match_cli i [] servnames = None"
| "match_cli i (cli # clinames) servnames =
     (case match_serv cli 0 servnames of
        Some j \<Rightarrow> Some (i, j)
      | None \<Rightarrow> match_cli (i + 1) clinames servnames)"

text \<open>
  The result is the entry chosen and the guess flag (1 for a good guess; it is only
  stored when the caller asks for it).  \<open>localnames\<close> has \<open>MAX_PROPOSED_ALGO\<close> elements.
\<close>

definition buf_match_algo :: "bool \<Rightarrow> buffer \<Rightarrow> ('d, 'm) algo_type list \<Rightarrow> bool
    \<Rightarrow> (('d, 'm) algo_type option \<times> bool \<times> buffer) res" where
  "buf_match_algo isserver buf localalgos kexguess2 =
     bindE (buf_getstring buf) (\<lambda>(algolist, buf).
     bindE (remote_names algolist) (\<lambda>names.
     if length localalgos > MAX_PROPOSED_ALGO then Inl Mem_fault
     else
       let remotenames = map Some names;
           localnames = map (\<lambda>a. if al_usable a then Some (al_name a) else None) localalgos;
           clinames = (if isserver then remotenames else localnames);
           servnames = (if isserver then localnames else remotenames) in
       case match_cli 0 clinames servnames of
         None \<Rightarrow> returnE (None, False, buf)
       | Some (i, j) \<Rightarrow>
           returnE (Some (localalgos ! (if isserver then j else i)),
                    if kexguess2 then i = 0 else i = 0 \<and> j = 0, buf)))"

definition algolist_string :: "('d, 'm) algo_type list \<Rightarrow> byte list res" where
  "algolist_string algos =
     bindE (buf_new 200) (\<lambda>b.
     bindE (buf_put_algolist b algos) (\<lambda>b.
     bindE (buf_setpos b (b_len b)) (\<lambda>b.
     bindE (buf_putbyte b 0) (\<lambda>b.
     bindE (buf_setpos b 4) (\<lambda>b.
     bindE (buf_getptr b (b_len b - b_pos b)) (\<lambda>p.
     returnE (cstr_at (b_data b) p)))))))"

fun check_algo :: "byte list \<Rightarrow> ('d, 'm) algo_type list \<Rightarrow> ('d, 'm) algo_type option" where
  "check_algo algo_name [] = None"
| "check_algo algo_name (a # algos) = (if al_name a = algo_name then Some a else check_algo algo_name algos)"

text \<open>
  The user's list is cut up in place like a received one.  After a comma, \<open>c\<close> is
  advanced once in the body and once more by the \<open>for\<close>.
\<close>

function check_user_loop :: "byte list \<Rightarrow> ('d, 'm) algo_type list \<Rightarrow> nat \<Rightarrow> nat
    \<Rightarrow> ('d, 'm) algo_type list \<Rightarrow> ('d, 'm) algo_type list res" where
  "check_user_loop work_list algos c start new_algos =
     (if c < length work_list then
        let oc = work_list ! c in
        if length new_algos \<ge> MAX_PROPOSED_ALGO then dropbear_exit ''Too many algorithms''
        else if oc = comma \<or> oc = 0 then
          let work_list = work_list[c := 0];
              name = cstr_at work_list start;
              new_algos = (case check_algo name algos of
                  Some match_algo \<Rightarrow>
                    (case check_algo name new_algos of Some _ \<Rightarrow> new_algos | None \<Rightarrow> new_algos @ [match_algo])
                | None \<Rightarrow> new_algos);
              c = c + 1;
              start = c in
          if oc = 0 then returnE new_algos
          else check_user_loop work_list algos (c + 1) start new_algos
        else check_user_loop work_list algos (c + 1) start new_algos
      else Inl Mem_fault)"
  by pat_completeness auto
termination by (relation "measure (\<lambda>(w, _, c, _, _). length w - c)") auto

text \<open>The new contents of the table \<open>algos\<close>; the return value is its length.\<close>

definition check_user_algos :: "byte list \<Rightarrow> ('d, 'm) algo_type list \<Rightarrow> ('d, 'm) algo_type list res" where
  "check_user_algos user_algo_list algos = check_user_loop (user_algo_list @ [0]) algos 0 0 []"

declare get_algolist_loop.simps [simp del] check_user_loop.simps [simp del]

section \<open>Name lists\<close>

text \<open>What a comma separated list stands for.\<close>

fun split_names :: "byte list \<Rightarrow> byte list list" where
  "split_names [] = [[]]"
| "split_names (c # cs) = (if c = comma then [] # split_names cs
     else (c # hd (split_names cs)) # tl (split_names cs))"

fun join_names :: "byte list list \<Rightarrow> byte list" where
  "join_names [] = []"
| "join_names [n] = n"
| "join_names (n # m # ns) = n @ comma # join_names (m # ns)"

lemma split_names_not_Nil [simp]: "split_names cs \<noteq> []"
  by (induction cs) auto

lemma split_names_append_comma:
  "comma \<notin> set n \<Longrightarrow> split_names (n @ comma # cs) = n # split_names cs"
  by (induction n) auto

lemma split_names_no_comma: "comma \<notin> set n \<Longrightarrow> split_names n = [n]"
  by (induction n) auto

lemma split_join_names: "ns \<noteq> [] \<Longrightarrow> \<forall>n \<in> set ns. comma \<notin> set n \<Longrightarrow> split_names (join_names ns) = ns"
  by (induction ns rule: join_names.induct) (auto simp: split_names_append_comma split_names_no_comma)

text \<open>Cutting the list up in place.\<close>

fun comma_positions :: "byte list \<Rightarrow> nat list" where
  "comma_positions [] = []"
| "comma_positions (c # cs) = (if c = comma then [0] else []) @ map Suc (comma_positions cs)"

definition cut :: "byte list \<Rightarrow> byte list" where
  "cut cs = map (\<lambda>c. if c = comma then 0 else c) cs"

lemma cstr_at_Cons [simp]:
  "cstr_at (x # m) (Suc k) = cstr_at m k"
  "cstr_at (x # m) 0 = (if x = 0 then [] else x # cstr_at m 0)"
  by (simp_all add: cstr_at_def)

lemma names_of_cut:
  "0 \<notin> set cs \<Longrightarrow> map (cstr_at (cut cs @ [0])) (0 # map Suc (comma_positions cs)) = split_names cs"
proof (induction cs)
  case Nil
  then show ?case by (simp add: cut_def cstr_at_def)
next
  case (Cons c cs)
  then have IH: "cstr_at (cut cs @ [0]) 0 # map (\<lambda>k. cstr_at (cut cs @ [0]) (Suc k)) (comma_positions cs)
      = split_names cs"
    by (simp add: o_def)
  then have "cstr_at (cut cs @ [0]) 0 = hd (split_names cs)"
    "map (\<lambda>k. cstr_at (cut cs @ [0]) (Suc k)) (comma_positions cs) = tl (split_names cs)"
    by (metis list.sel(1), metis list.sel(3))
  then show ?case
    using Cons.prems IH by (auto simp: cut_def o_def)
qed

lemma length_split_names: "length (split_names cs) = Suc (length (comma_positions cs))"
  by (induction cs) auto

lemma get_algolist_loop_eq:
  assumes "0 \<notin> set cs"
  shows "get_algolist_loop (pre @ cs @ [0]) (length pre + length cs) m offs (length pre) =
     (if length offs + length (comma_positions cs) \<le> m \<or> comma_positions cs = []
      then Inr (pre @ cut cs @ [0], offs @ map (\<lambda>k. length pre + Suc k) (comma_positions cs))
      else Inl (Exit ''Too many remote algorithms''))"
  using assms
proof (induction cs arbitrary: pre offs)
  case Nil
  then show ?case by (simp add: get_algolist_loop.simps cut_def)
next
  case (Cons c cs)
  have r: "mem_read (pre @ (c # cs) @ [0]) (length pre) 1 = Inr [c]"
    by (simp add: mem_read_def)
  note IH = Cons.IH [of "pre @ [if c = comma then 0 else c]" "offs @ (if c = comma then [length pre + 1] else [])"]
  show ?case
    using Cons.prems IH r
    by (subst get_algolist_loop.simps) (auto simp: cut_def o_def)
qed

lemma remote_names_eq:
  assumes "0 \<notin> set cs" "length (split_names cs) \<le> 50" "unat l = length cs"
  shows "remote_names (cs @ [0], l) = Inr (split_names cs)"
proof -
  have "get_algolist (cs @ [0]) l 50 = Inr (cut cs @ [0], 0 # map Suc (comma_positions cs))"
    using get_algolist_loop_eq [OF assms(1), of "[]" 50 "[0]"] assms
    by (simp add: get_algolist_def length_split_names)
  then show ?thesis
    using names_of_cut [OF assms(1)] by (simp add: remote_names_def MAX_PROPOSED_ALGO_def)
qed

text \<open>Whatever was received, taking it apart stays inside its block.\<close>

lemma get_algolist_loop_safe:
  assumes "n < length al" "i \<le> n" "\<forall>off \<in> set offs. off \<le> n" "length offs \<le> m" "0 < m"
  shows "safe (get_algolist_loop al n m offs i)
     (\<lambda>(al', offs'). length al' = length al \<and> length offs' \<le> m \<and> (\<forall>off \<in> set offs'. off \<le> n))"
  using assms
proof (induction al n m offs i rule: get_algolist_loop.induct)
  case (1 al n m offs i)
  show ?case
  proof (cases "i < n")
    case True
    then have r: "mem_read al i 1 = Inr [al ! i]"
      using "1.prems" by (simp add: mem_read_def Cons_nth_drop_Suc [symmetric])
    show ?thesis
      using 1(1) [OF True r] 1(2) [OF True r] "1.prems" True r
      by (subst get_algolist_loop.simps) (auto simp: less_Suc_eq_le)
  next
    case False
    then show ?thesis using "1.prems" by (subst get_algolist_loop.simps) simp
  qed
qed

lemma remote_names_safe:
  assumes "length s = unat l + 1"
  shows "safe (remote_names (s, l)) (\<lambda>names. length names \<le> 50)"
  unfolding remote_names_def prod.case
  using assms get_algolist_loop_safe [of "unat l" s 0 "[0]" 50]
  by (auto simp: get_algolist_def MAX_PROPOSED_ALGO_def Let_def intro!: safe_bindE elim!: safe_weaken)

section \<open>Writing a list\<close>

definition usable_names :: "('d, 'm) algo_type list \<Rightarrow> bool \<Rightarrow> byte list list" where
  "usable_names algos useall = map al_name (filter (\<lambda>a. al_usable a \<or> useall) algos)"

fun enc_names :: "bool \<Rightarrow> byte list list \<Rightarrow> byte list" where
  "enc_names donefirst [] = []"
| "enc_names donefirst (n # ns) = (if donefirst then [comma] else []) @ n @ enc_names True ns"

lemma enc_names_join: "enc_names False ns = join_names ns"
  by (induction ns rule: join_names.induct) auto

lemma put_algos_eq:
  assumes "wf_buf b" "\<forall>a \<in> set algos. length (al_name a) < 4294967296"
  shows "put_algos b algos useall first = Inr b' \<longleftrightarrow>
     length (enc_names first (usable_names algos useall)) \<le> room b
     \<and> b' = overwrite b (enc_names first (usable_names algos useall))"
  using assms
proof (induction algos arbitrary: b first)
  case Nil
  then show ?case by (auto simp: usable_names_def)
next
  case (Cons a algos)
  let ?sep = "if first then [comma] else []"
  have sep: "(if first then buf_putbyte b comma else Inr b) =
      (if length ?sep \<le> room b then Inr (overwrite b ?sep) else Inl (Exit ''Bad buf_incrlen''))"
    using Cons.prems by (simp add: buf_putbyte_eq)
  have nm: "wf_buf c \<Longrightarrow> buf_putbytes c (al_name a) (of_nat (length (al_name a))) =
      (if length (al_name a) \<le> room c then Inr (overwrite c (al_name a)) else Inl (Exit ''Bad buf_getwriteptr''))" for c
    using Cons.prems by (simp add: buf_putbytes_eq unat_u32_of_nat)
  have w: "length ?sep \<le> room b \<Longrightarrow> wf_buf (overwrite b ?sep)"
    using Cons.prems(1) by (rule wf_overwrite)
  show ?case
  proof (cases "al_usable a \<or> useall")
    case True
    let ?c = "overwrite b (?sep @ al_name a)"
    let ?rest = "enc_names True (usable_names algos useall)"
    have enc: "enc_names first (usable_names (a # algos) useall) = (?sep @ al_name a) @ ?rest"
      using True by (simp add: usable_names_def)
    show ?thesis
    proof (cases "length (?sep @ al_name a) \<le> room b")
      case fits: True
      then have s1: "length ?sep \<le> room b" by simp
      have w1: "wf_buf (overwrite b ?sep)" and r1: "room (overwrite b ?sep) = room b - length ?sep"
        using wf_overwrite [OF Cons.prems(1) s1] room_overwrite [OF Cons.prems(1) s1] .
      have c: "wf_buf ?c" "room ?c = room b - length (?sep @ al_name a)"
        using wf_overwrite [OF Cons.prems(1) fits] room_overwrite [OF Cons.prems(1) fits] .
      have oo: "overwrite (overwrite b ?sep) (al_name a) = ?c"
        using Cons.prems(1) fits by (intro overwrite_overwrite) simp_all
      have "length (al_name a) \<le> room (overwrite b ?sep)"
        using fits r1 by simp
      then have "put_algos b (a # algos) useall first = put_algos ?c algos useall True"
        using True sep s1 nm [OF w1] oo by (simp del: length_append)
      moreover have "put_algos ?c algos useall True = Inr b' \<longleftrightarrow>
          length ?rest \<le> room ?c \<and> b' = overwrite ?c ?rest"
        using c Cons.prems by (intro Cons.IH) simp_all
      moreover have "length ?rest \<le> room ?c \<longleftrightarrow> length ((?sep @ al_name a) @ ?rest) \<le> room b"
        unfolding c(2) length_append [of "?sep @ al_name a" ?rest] using fits by linarith
      moreover have "length ((?sep @ al_name a) @ ?rest) \<le> room b \<Longrightarrow>
          overwrite ?c ?rest = overwrite b ((?sep @ al_name a) @ ?rest)"
        using Cons.prems(1) by (intro overwrite_overwrite) simp_all
      ultimately show ?thesis
        unfolding enc by auto
    next
      case False
      then have "\<exists>e. put_algos b (a # algos) useall first = Inl e"
        using True sep nm [OF w] room_overwrite [OF Cons.prems(1), of ?sep]
        by (cases "length ?sep \<le> room b") auto
      then show ?thesis
        unfolding enc using False by auto
    qed
  next
    case False
    then show ?thesis using Cons by (simp add: usable_names_def)
  qed
qed

lemma refill_length:
  assumes "wf_buf b" "4 + length js \<le> room b"
  defines "l \<equiv> of_nat (length js)"
  shows "bindE (buf_setpos (overwrite b (STORE32H 0 @ js)) (b_pos b)) (\<lambda>c. bindE (buf_putint c l) (\<lambda>c. buf_incrwritepos c l))
     = Inr (overwrite b (STORE32H l @ js))"
proof -
  let ?c = "overwrite b (STORE32H 0 @ js)"
  let ?cs = "?c\<lparr>b_pos := b_pos b\<rparr>"
  note wf = wf_bufD [OF assms(1)]
  have len: "length (STORE32H 0 @ js) \<le> room b" using assms(2) by simp
  have rb: "room b \<le> 1000000000" using room_bound [OF assms(1)] .
  have l: "unat l = length js" unfolding l_def using assms(2) rb by (intro unat_u32_of_nat) linarith
  have p: "unat (b_pos b) \<le> unat (b_len ?c)" using len_overwrite [OF assms(1) len] by simp
  have w0: "wf_buf ?cs" and r0: "room ?cs = room b"
    using wf_setpos [OF wf_overwrite [OF assms(1) len] p] by (simp_all add: room_def)
  have w1: "wf_buf (overwrite ?cs (STORE32H l))" and r1: "room (overwrite ?cs (STORE32H l)) = room b - 4"
    using assms(2) w0 r0 by (simp_all add: wf_overwrite room_overwrite)
  have tl: "length (take (unat (b_pos b)) (b_data b)) = unat (b_pos b)" using wf by simp
  have d: "b_data (overwrite ?cs (STORE32H l)) = b_data (overwrite b (STORE32H l @ js))"
    using tl by (simp add: overwrite_def)
  have ps: "unat (b_pos b + (4 + l)) = unat (b_pos b) + (4 + length js)"
    using unat_pos_overwrite [OF assms(1), of "4 + length js"] assms(2) by (simp add: l_def)
  have p4: "unat (b_pos b + 4) = unat (b_pos b) + 4"
    using unat_pos_overwrite [OF assms(1), of 4] assms(2) by simp
  have m: "max (max (max (b_len b) (b_pos b + (4 + l))) (b_pos b + 4)) (b_pos b + (4 + l))
      = max (b_len b) (b_pos b + (4 + l))"
    using ps p4 by (simp add: max_def u32_nat)
  have r: "(overwrite ?cs (STORE32H l))\<lparr>b_pos := b_pos (overwrite ?cs (STORE32H l)) + l,
      b_len := max (b_len (overwrite ?cs (STORE32H l))) (b_pos (overwrite ?cs (STORE32H l)) + l)\<rparr>
      = overwrite b (STORE32H l @ js)"
    using d m by (simp add: overwrite_def add.assoc l_def)
  show ?thesis
    using p w0 r0 w1 r1 l assms(2) r by (simp add: buf_setpos_eq buf_putint_eq buf_incrwritepos_eq)
qed

text \<open>The encoding of a table: length word, then the usable names with commas between.\<close>

definition enc_algos :: "('d, 'm) algo_type list \<Rightarrow> bool \<Rightarrow> byte list" where
  "enc_algos algos useall = (let js = join_names (usable_names algos useall) in STORE32H (of_nat (length js)) @ js)"

lemma buf_put_algolist_all_iff:
  assumes "wf_buf b" "\<forall>a \<in> set algos. length (al_name a) < 4294967296"
  shows "buf_put_algolist_all b algos useall = Inr b' \<longleftrightarrow>
     length (enc_algos algos useall) \<le> room b \<and> b' = overwrite b (enc_algos algos useall)"
proof (cases "4 \<le> room b")
  case False
  then show ?thesis
    using assms by (simp add: buf_put_algolist_all_def buf_putint_eq enc_algos_def Let_def)
next
  case True
  let ?js = "join_names (usable_names algos useall)"
  let ?b4 = "overwrite b (STORE32H 0)"
  have b4: "wf_buf ?b4" "room ?b4 = room b - 4"
    using True assms by (simp_all add: wf_overwrite room_overwrite)
  have put: "put_algos ?b4 algos useall False = Inr c \<longleftrightarrow> 4 + length ?js \<le> room b
      \<and> c = overwrite b (STORE32H 0 @ ?js)" for c
    using put_algos_eq [OF b4(1) assms(2), of useall False c] b4 True assms(1)
    by (auto simp: enc_names_join overwrite_overwrite)
  show ?thesis
  proof (cases "4 + length ?js \<le> room b")
    case fits: True
    have pos: "b_pos (overwrite b (STORE32H 0 @ ?js)) - b_pos b - 4 = of_nat (length ?js)"
      by (simp add: overwrite_def)
    have "put_algos ?b4 algos useall False = Inr (overwrite b (STORE32H 0 @ ?js))"
      using put fits by simp
    then show ?thesis
      using True assms fits refill_length [OF assms(1) fits] pos
      by (auto simp: buf_put_algolist_all_def buf_putint_eq enc_algos_def Let_def)
  next
    case False
    then obtain e where "put_algos ?b4 algos useall False = Inl e"
      using put by (cases "put_algos ?b4 algos useall False") auto
    then show ?thesis
      using True False assms by (simp add: buf_put_algolist_all_def buf_putint_eq enc_algos_def Let_def)
  qed
qed

section \<open>Choosing an algorithm\<close>

text \<open>The rule of RFC 4253: the first name on the client's list that the server has too.\<close>

definition negotiate :: "byte list list \<Rightarrow> byte list list \<Rightarrow> byte list option" where
  "negotiate cli serv = find (\<lambda>n. n \<in> set serv) cli"

definition somes :: "'a option list \<Rightarrow> 'a list" where
  "somes xs = concat (map (\<lambda>x. case x of None \<Rightarrow> [] | Some n \<Rightarrow> [n]) xs)"

lemma somes_simps [simp]:
  "somes [] = []" "somes (None # xs) = somes xs" "somes (Some n # xs) = n # somes xs"
  by (simp_all add: somes_def)

lemma somes_map_Some [simp]: "somes (map Some xs) = xs"
  by (induction xs) simp_all

lemma set_somes: "n \<in> set (somes xs) \<longleftrightarrow> Some n \<in> set xs"
  by (induction xs) (auto simp: somes_def split: option.splits)

lemma somes_localnames:
  "somes (map (\<lambda>a. if al_usable a then Some (al_name a) else None) algos) = usable_names algos False"
  by (induction algos) (simp_all add: usable_names_def)

lemma match_serv_None: "match_serv cli j servs = None \<longleftrightarrow> (\<forall>c. cli = Some c \<longrightarrow> Some c \<notin> set servs)"
  by (induction servs arbitrary: j) (auto split: option.splits)

lemma match_serv_Some:
  "match_serv cli j servs = Some k \<Longrightarrow>
     j \<le> k \<and> k - j < length servs \<and> cli \<noteq> None \<and> servs ! (k - j) = cli"
proof (induction servs arbitrary: j)
  case (Cons s ss)
  show ?case
  proof (cases "match_serv cli (j + 1) ss = Some k")
    case True
    from Cons.IH [OF this] have "k - j = Suc (k - (j + 1))" "j + 1 \<le> k" "k - (j + 1) < length ss"
      "cli \<noteq> None" "ss ! (k - (j + 1)) = cli" by auto
    then show ?thesis by simp
  next
    case False
    with Cons.prems show ?thesis by (auto split: option.splits if_splits)
  qed
qed simp

lemma match_cli_negotiate:
  "(case match_cli i clis servs of
      None \<Rightarrow> negotiate (somes clis) (somes servs) = None
    | Some (a, b) \<Rightarrow> i \<le> a \<and> a - i < length clis \<and> b < length servs \<and> clis ! (a - i) = servs ! b
        \<and> (\<exists>n. servs ! b = Some n \<and> negotiate (somes clis) (somes servs) = Some n))"
proof (induction clis arbitrary: i)
  case Nil
  then show ?case by (simp add: negotiate_def)
next
  case (Cons cli clis)
  show ?case
  proof (cases "match_serv cli 0 servs")
    case None
    then have "negotiate (somes (cli # clis)) (somes servs) = negotiate (somes clis) (somes servs)"
      by (cases cli) (auto simp: negotiate_def match_serv_None set_somes)
    moreover have "(cli # clis) ! (a - i) = clis ! (a - (i + 1))" if "i + 1 \<le> a" for a
      using that by (simp add: nth_Cons' )
    ultimately show ?thesis
      using None Cons.IH [of "i + 1"] by (cases "match_cli (i + 1) clis servs") auto
  next
    case (Some j)
    then have j: "j < length servs" "cli \<noteq> None" "servs ! j = cli"
      using match_serv_Some [of cli 0 servs j] by auto
    then obtain n where n: "cli = Some n" by blast
    then have "n \<in> set (somes servs)"
      using j by (metis nth_mem set_somes)
    then show ?thesis
      using Some j n by (simp add: negotiate_def)
  qed
qed

lemma buf_match_algo_eq:
  assumes "wf_buf b" "unread b = STORE32H (of_nat (length cs)) @ cs @ rest" "length cs \<le> 9000"
    "0 \<notin> set cs" "length (split_names cs) \<le> 50" "length algos \<le> 50"
  shows "\<exists>r g. buf_match_algo isserver b algos kexguess2 = Inr (r, g, advance b (4 + length cs))
     \<and> map_option al_name r = (if isserver then negotiate (split_names cs) (usable_names algos False)
                               else negotiate (usable_names algos False) (split_names cs))
     \<and> (\<forall>a. r = Some a \<longrightarrow> a \<in> set algos \<and> al_usable a)"
proof -
  have l: "unat (of_nat (length cs) :: u32) = length cs"
    using assms(3) by (intro unat_u32_of_nat) simp
  have gs: "buf_getstring b = Inr ((cs @ [0], of_nat (length cs)), advance b (4 + length cs))"
    using assms l by (simp add: buf_getstring_eq)
  have rn: "remote_names (cs @ [0], of_nat (length cs)) = Inr (split_names cs)"
    using assms l by (intro remote_names_eq)
  let ?loc = "map (\<lambda>a. if al_usable a then Some (al_name a) else None) algos"
  let ?rem = "map Some (split_names cs)"
  define cli where "cli = (if isserver then ?rem else ?loc)"
  define srv where "srv = (if isserver then ?loc else ?rem)"
  have eq: "buf_match_algo isserver b algos kexguess2 = (case match_cli 0 cli srv of
      None \<Rightarrow> Inr (None, False, advance b (4 + length cs))
    | Some (i, j) \<Rightarrow> Inr (Some (algos ! (if isserver then j else i)),
        if kexguess2 then i = 0 else i = 0 \<and> j = 0, advance b (4 + length cs)))"
    unfolding buf_match_algo_def gs bindE_simps prod.case rn Let_def cli_def srv_def
    using assms(6) by (simp add: MAX_PROPOSED_ALGO_def)
  have neg: "negotiate (somes cli) (somes srv) =
      (if isserver then negotiate (split_names cs) (usable_names algos False)
       else negotiate (usable_names algos False) (split_names cs))"
    by (simp add: cli_def srv_def somes_localnames)
  have loc: "al_name (algos ! j) = n \<and> al_usable (algos ! j) \<and> algos ! j \<in> set algos"
    if "j < length algos" "?loc ! j = Some n" for j n
    using that by (auto split: if_splits)
  show ?thesis
  proof (cases "match_cli 0 cli srv")
    case None
    then show ?thesis
      using match_cli_negotiate [where i = 0 and clis = cli and servs = srv] eq neg by auto
  next
    case (Some ab)
    obtain i j where ab: "ab = (i, j)" by (cases ab)
    obtain n where n: "i < length cli" "j < length srv" "cli ! i = Some n" "srv ! j = Some n"
      "negotiate (somes cli) (somes srv) = Some n"
      using match_cli_negotiate [where i = 0 and clis = cli and servs = srv] Some ab by auto
    have "(if isserver then j else i) < length algos" "?loc ! (if isserver then j else i) = Some n"
      using n(1-4) by (simp_all add: cli_def srv_def split: if_splits)
    from loc [OF this] show ?thesis
      using eq Some ab neg n(5) by simp
  qed
qed

section \<open>Both sides agree\<close>

text \<open>
  A table as the code has it: at most \<open>MAX_PROPOSED_ALGO\<close> entries with printable
  names, at least one of them usable, and a list that fits in a string.
\<close>

definition table_ok :: "('d, 'm) algo_type list \<Rightarrow> bool" where
  "table_ok algos \<longleftrightarrow> length algos \<le> 50
     \<and> (\<forall>a \<in> set algos. comma \<notin> set (al_name a) \<and> 0 \<notin> set (al_name a) \<and> length (al_name a) \<le> MAX_NAME_LEN)
     \<and> usable_names algos False \<noteq> [] \<and> length (join_names (usable_names algos False)) \<le> 9000"

lemma usable_names_subset: "set (usable_names algos False) \<subseteq> al_name ` set algos"
  by (auto simp: usable_names_def)

lemma set_join_names: "c \<in> set (join_names ns) \<Longrightarrow> c = comma \<or> (\<exists>n \<in> set ns. c \<in> set n)"
  by (induction ns rule: join_names.induct) auto

lemma length_name_le_join: "n \<in> set ns \<Longrightarrow> length n \<le> length (join_names ns)"
  by (induction ns rule: join_names.induct) auto

lemma table_ok_join:
  assumes "table_ok algos"
  defines "js \<equiv> join_names (usable_names algos False)"
  shows "split_names js = usable_names algos False" "0 \<notin> set js" "length js \<le> 9000"
    "length (split_names js) \<le> 50"
proof -
  let ?us = "usable_names algos False"
  have u: "\<forall>n \<in> set ?us. comma \<notin> set n \<and> 0 \<notin> set n"
    using assms(1) usable_names_subset [of algos] by (auto simp: table_ok_def)
  show s: "split_names js = ?us"
    unfolding js_def using assms(1) u by (intro split_join_names) (auto simp: table_ok_def)
  show "0 \<notin> set js"
    unfolding js_def using u set_join_names [of 0 ?us] by auto
  show "length js \<le> 9000"
    using assms(1) by (simp add: js_def table_ok_def)
  have "length ?us \<le> length algos"
    by (simp add: usable_names_def)
  then show "length (split_names js) \<le> 50"
    using assms(1) s by (simp add: table_ok_def)
qed

lemma match_written_list:
  assumes "table_ok remote" "length localalgos \<le> 50" "wf_buf b" "buf_put_algolist b remote = Inr b'"
  shows "\<exists>r g. buf_match_algo isserver (b'\<lparr>b_pos := b_pos b\<rparr>) localalgos kexguess2 = Inr (r, g, b')
     \<and> map_option al_name r =
         (if isserver then negotiate (usable_names remote False) (usable_names localalgos False)
          else negotiate (usable_names localalgos False) (usable_names remote False))
     \<and> (\<forall>a. r = Some a \<longrightarrow> a \<in> set localalgos \<and> al_usable a)"
proof -
  let ?js = "join_names (usable_names remote False)"
  let ?e = "STORE32H (of_nat (length ?js)) @ ?js"
  note t = table_ok_join [OF assms(1)]
  have short: "\<forall>a \<in> set remote. length (al_name a) < 4294967296"
    using assms(1) by (auto simp: table_ok_def MAX_NAME_LEN_def)
  have fit: "length ?e \<le> room b" and b': "b' = overwrite b ?e"
    using assms(4) buf_put_algolist_all_iff [OF assms(3) short, of False b']
    by (simp_all add: buf_put_algolist_def enc_algos_def Let_def)
  have p: "unat (b_pos b) \<le> unat (b_len b')"
    using len_overwrite [OF assms(3) fit] by (simp add: b')
  have wf: "wf_buf (b'\<lparr>b_pos := b_pos b\<rparr>)"
    using wf_setpos [OF wf_overwrite [OF assms(3) fit]] p by (simp add: b')
  have ur: "unread (b'\<lparr>b_pos := b_pos b\<rparr>) = STORE32H (of_nat (length ?js)) @ ?js @ drop (length ?e) (unread b)"
    unfolding b' using unread_back [OF assms(3) fit] by simp
  have adv: "advance (b'\<lparr>b_pos := b_pos b\<rparr>) (4 + length ?js) = b'"
    by (simp add: b' advance_def overwrite_def)
  show ?thesis
    using buf_match_algo_eq [OF wf ur t(3,2,4) assms(2), of isserver kexguess2] unfolding adv t(1) .
qed

text \<open>
  C3. Negotiation agrees.  Client and server each write their usable algorithms with
  \<open>buf_put_algolist\<close> and read the other's list with \<open>buf_match_algo\<close>.  Both choose an
  entry of their own table that is usable and has the same name, the first name on the
  client's list that is also on the server's; if there is none, both find none.
\<close>

theorem negotiation_agrees:
  assumes "table_ok cli" "table_ok srv" "wf_buf bc" "wf_buf bs"
    "buf_put_algolist bc cli = Inr bc'" "buf_put_algolist bs srv = Inr bs'"
  shows "\<exists>rs gs rc gc.
      buf_match_algo True (bc'\<lparr>b_pos := b_pos bc\<rparr>) srv kexguess2 = Inr (rs, gs, bc')
    \<and> buf_match_algo False (bs'\<lparr>b_pos := b_pos bs\<rparr>) cli kexguess2 = Inr (rc, gc, bs')
    \<and> map_option al_name rs = negotiate (usable_names cli False) (usable_names srv False)
    \<and> map_option al_name rc = map_option al_name rs
    \<and> (\<forall>a. rs = Some a \<longrightarrow> a \<in> set srv \<and> al_usable a) \<and> (\<forall>a. rc = Some a \<longrightarrow> a \<in> set cli \<and> al_usable a)"
proof -
  have l: "length cli \<le> 50" "length srv \<le> 50"
    using assms by (simp_all add: table_ok_def)
  show ?thesis
    using match_written_list [OF assms(1) l(2) assms(3,5), of True kexguess2]
      match_written_list [OF assms(2) l(1) assms(4,6), of False kexguess2] by auto
qed

definition example_table :: "(string \<times> bool) list \<Rightarrow> (unit, unit) algo_type list" where
  "example_table = map (\<lambda>(n, u). \<lparr>al_name = str n, al_val = 0, al_data = Some (), al_usable = u, al_mode = None\<rparr>)"

theorem negotiation_agrees_witness:
  "\<exists>bc' bs' rs gs rc gc. let cli = example_table [(''none'', False), (''b'', True), (''a'', True)];
        srv = example_table [(''a'', True), (''b'', True), (''c'', True)] in
      buf_put_algolist (buf_of (replicate 20 0)) cli = Inr bc' \<and> buf_put_algolist (buf_of (replicate 20 0)) srv = Inr bs'
    \<and> buf_match_algo True (bc'\<lparr>b_pos := 0\<rparr>) srv True = Inr (rs, gs, bc')
    \<and> buf_match_algo False (bs'\<lparr>b_pos := 0\<rparr>) cli True = Inr (rc, gc, bs')
    \<and> map_option al_name rs = Some (str ''b'') \<and> map_option al_name rc = Some (str ''b'')"
proof -
  let ?cli = "example_table [(''none'', False), (''b'', True), (''a'', True)]"
  let ?srv = "example_table [(''a'', True), (''b'', True), (''c'', True)]"
  let ?b = "buf_of (replicate 20 0)"
  have ok: "table_ok ?cli" "table_ok ?srv" by code_simp+
  have wf: "wf_buf ?b" by (simp add: wf_buf_of)
  have pos: "b_pos ?b = 0" by (simp add: buf_of_def)
  obtain bc' bs' where p: "buf_put_algolist ?b ?cli = Inr bc'" "buf_put_algolist ?b ?srv = Inr bs'"
  proof -
    have "isl (buf_put_algolist ?b ?cli) = False" "isl (buf_put_algolist ?b ?srv) = False"
      by code_simp+
    then show ?thesis using that by (metis isl_def sum.exhaust_sel)
  qed
  have n: "negotiate (usable_names ?cli False) (usable_names ?srv False) = Some (str ''b'')" by code_simp
  show ?thesis
    using negotiation_agrees [OF ok wf wf p, of True] n p unfolding pos Let_def by metis
qed

section \<open>The user's own list\<close>

text \<open>
  What the entries of a user's list select: the table's entry of that name, unless
  there is none or it has been selected before.
\<close>

definition add_user :: "('d, 'm) algo_type list \<Rightarrow> byte list \<Rightarrow> ('d, 'm) algo_type list \<Rightarrow> ('d, 'm) algo_type list" where
  "add_user algos name sel =
     (case check_algo name algos of
        Some a \<Rightarrow> (case check_algo name sel of Some _ \<Rightarrow> sel | None \<Rightarrow> sel @ [a])
      | None \<Rightarrow> sel)"

lemma check_algo_Some: "check_algo n algos = Some a \<Longrightarrow> a \<in> set algos \<and> al_name a = n"
  by (induction algos) (auto split: if_splits)

lemma check_algo_None: "check_algo n algos = None \<longleftrightarrow> n \<notin> al_name ` set algos"
  by (induction algos) auto

lemma add_user_inv:
  assumes "distinct (map al_name sel)" "set sel \<subseteq> set algos"
  shows "distinct (map al_name (add_user algos n sel))" "set (add_user algos n sel) \<subseteq> set algos"
    "set (map al_name (add_user algos n sel)) = set (map al_name sel) \<union> ({n} \<inter> al_name ` set algos)"
proof -
  show "distinct (map al_name (add_user algos n sel))" "set (add_user algos n sel) \<subseteq> set algos"
    using assms by (auto simp: add_user_def check_algo_None dest: check_algo_Some split: option.splits)
  show "set (map al_name (add_user algos n sel)) = set (map al_name sel) \<union> ({n} \<inter> al_name ` set algos)"
  proof (cases "check_algo n algos")
    case None
    then show ?thesis using check_algo_None [of n algos] by (auto simp: add_user_def)
  next
    case (Some a)
    then have "al_name a = n" "n \<in> al_name ` set algos"
      using check_algo_Some [OF Some] by auto
    moreover have "check_algo n sel \<noteq> None \<Longrightarrow> n \<in> al_name ` set sel"
      by (simp add: check_algo_None)
    ultimately show ?thesis
      using Some by (cases "check_algo n sel") (auto simp: add_user_def)
  qed
qed

lemma sel_length:
  assumes "distinct (map al_name sel)" "set sel \<subseteq> set algos"
  shows "length sel \<le> length algos"
proof -
  have "length sel = card (set sel)"
    using assms(1) by (metis distinct_card distinct_map)
  also have "\<dots> \<le> card (set algos)"
    using assms(2) by (intro card_mono) auto
  finally show ?thesis using card_length [of algos] by simp
qed

text \<open>The loop steps over the characters of a name.\<close>

lemma check_user_scan:
  assumes "length sel < 50" "c + length n \<le> length w" "take (length n) (drop c w) = n" "comma \<notin> set n" "0 \<notin> set n"
  shows "check_user_loop w algos c start sel = check_user_loop w algos (c + length n) start sel"
  using assms
proof (induction n arbitrary: c)
  case (Cons x n)
  have x: "w ! c = x" "c < length w" "take (length n) (drop (Suc c) w) = n"
    using Cons.prems(2,3) by (auto simp: Cons_nth_drop_Suc [symmetric])
  have "check_user_loop w algos c start sel = check_user_loop w algos (Suc c) start sel"
    using x Cons.prems by (subst check_user_loop.simps) (simp add: MAX_PROPOSED_ALGO_def Let_def)
  also have "\<dots> = check_user_loop w algos (Suc c + length n) start sel"
    using x Cons.prems by (intro Cons.IH) auto
  finally show ?case by simp
qed simp

lemma check_user_sep:
  assumes "length sel < 50" "x = comma \<or> x = 0" "0 \<notin> set n"
  shows "check_user_loop (pre @ n @ x # rest) algos (length pre + length n) (length pre) sel =
     (if x = 0 then Inr (add_user algos n sel)
      else check_user_loop (pre @ n @ 0 # rest) algos (length pre + length n + 2) (length pre + length n + 1)
             (add_user algos n sel))"
proof -
  have u: "(pre @ n @ x # rest)[length pre + length n := 0] = pre @ n @ 0 # rest"
    by (simp add: list_update_append)
  have c: "cstr_at (pre @ n @ 0 # rest) (length pre) = n"
    using assms(3) by (simp add: cstr_at_def takeWhile_append)
  have nth: "(pre @ n @ x # rest) ! (length pre + length n) = x"
    by (simp add: nth_append)
  show ?thesis
    using assms(1,2) by (subst check_user_loop.simps) (auto simp: MAX_PROPOSED_ALGO_def Let_def u c nth add_user_def split: option.splits)
qed

lemma check_user_loop_join:
  assumes "\<forall>n \<in> set ns. n \<noteq> [] \<and> comma \<notin> set n \<and> 0 \<notin> set n" "ns \<noteq> []" "length algos < 50"
    "distinct (map al_name sel)" "set sel \<subseteq> set algos" "k \<le> 1"
  shows "check_user_loop (pre @ join_names ns @ [0]) algos (length pre + k) (length pre) sel
     = Inr (fold (add_user algos) ns sel)"
  using assms
proof (induction ns arbitrary: pre sel k rule: join_names.induct)
  case (2 n)
  have l: "length sel < 50" using sel_length [OF 2(4,5)] 2(3) by simp
  have "check_user_loop (pre @ n @ [0]) algos (length pre + k) (length pre) sel
      = check_user_loop (pre @ n @ [0]) algos (length pre + k + length (drop k n)) (length pre) sel"
    using l 2(1,6) set_drop_subset [of k n] by (intro check_user_scan) auto
  also have "length pre + k + length (drop k n) = length pre + length n"
    using 2(1,6) by (cases n) auto
  finally show ?case
    using check_user_sep [OF l, of 0 n pre "[]" algos] 2(1) by simp
next
  case (3 n m ns)
  have l: "length sel < 50" using sel_length [OF 3(5,6)] 3(4) by simp
  let ?js = "join_names (m # ns)"
  let ?w = "pre @ n @ comma # ?js @ [0]"
  have "check_user_loop ?w algos (length pre + k) (length pre) sel
      = check_user_loop ?w algos (length pre + k + length (drop k n)) (length pre) sel"
    using l 3(2,7) set_drop_subset [of k n] by (intro check_user_scan) auto
  also have "length pre + k + length (drop k n) = length pre + length n"
    using 3(2,7) by (cases n) auto
  also have "check_user_loop ?w algos (length pre + length n) (length pre) sel
      = check_user_loop ((pre @ n @ [0]) @ ?js @ [0]) algos (length (pre @ n @ [0]) + 1) (length (pre @ n @ [0]))
          (add_user algos n sel)"
    using check_user_sep [OF l, of comma n pre "?js @ [0]" algos] 3(2) by (simp del: join_names.simps)
  also have "\<dots> = Inr (fold (add_user algos) (m # ns) (add_user algos n sel))"
    using 3(2-4) add_user_inv [OF 3(5,6)] by (intro "3.IH") auto
  finally show ?case by simp
qed simp

lemma names_add_user:
  "map al_name (add_user algos n sel) =
     (if n \<in> al_name ` set algos \<and> n \<notin> set (map al_name sel) then map al_name sel @ [n] else map al_name sel)"
  using check_algo_None [of n algos] check_algo_None [of n sel]
  by (auto simp: add_user_def split: option.splits dest: check_algo_Some)

lemma fold_add_user:
  "map al_name (fold (add_user algos) ns []) = rev (remdups (rev (filter (\<lambda>n. n \<in> al_name ` set algos) ns)))
   \<and> distinct (map al_name (fold (add_user algos) ns [])) \<and> set (fold (add_user algos) ns []) \<subseteq> set algos"
proof (induction ns rule: rev_induct)
  case (snoc n ns)
  let ?sel = "fold (add_user algos) ns []"
  have IH: "map al_name ?sel = rev (remdups (rev (filter (\<lambda>n. n \<in> al_name ` set algos) ns)))"
    "distinct (map al_name ?sel)" "set ?sel \<subseteq> set algos"
    using snoc by blast+
  have "set (map al_name ?sel) = set (filter (\<lambda>n. n \<in> al_name ` set algos) ns)"
    unfolding IH(1) by simp
  then have "map al_name (add_user algos n ?sel)
      = rev (remdups (rev (filter (\<lambda>n. n \<in> al_name ` set algos) (ns @ [n]))))"
    unfolding names_add_user using IH(1) by auto
  then show ?case
    using add_user_inv [OF IH(2,3), of n] by simp
qed simp

text \<open>
  C9. \<open>check_user_algos\<close> on a list of non-empty names separated by single commas and
  a table of fewer than \<open>MAX_PROPOSED_ALGO\<close> entries: it selects entries of the table, one
  for every name the table has, each name once, in the order of its first
  occurrence in the user's list, and reads nothing outside its copy of the list.
\<close>

theorem check_user_algos_selects:
  assumes "\<forall>n \<in> set ns. n \<noteq> [] \<and> comma \<notin> set n \<and> 0 \<notin> set n" "ns \<noteq> []" "length algos < 50"
  shows "\<exists>sel. check_user_algos (join_names ns) algos = Inr sel \<and> set sel \<subseteq> set algos
     \<and> map al_name sel = rev (remdups (rev (filter (\<lambda>n. n \<in> al_name ` set algos) ns)))"
  using check_user_loop_join [OF assms, of "[]" 0 "[]"] fold_add_user [of algos ns]
  by (simp add: check_user_algos_def)

theorem check_user_algos_selects_witness:
  "\<exists>sel. check_user_algos (str ''c,x,a,c'') (example_table [(''a'', True), (''b'', True), (''c'', True)]) = Inr sel
     \<and> map al_name sel = [str ''c'', str ''a'']"
proof -
  let ?ns = "[str ''c'', str ''x'', str ''a'', str ''c'']"
  let ?t = "example_table [(''a'', True), (''b'', True), (''c'', True)]"
  have "\<forall>n \<in> set ?ns. n \<noteq> [] \<and> comma \<notin> set n \<and> 0 \<notin> set n" "?ns \<noteq> []" "length ?t < 50"
    by code_simp+
  moreover have "join_names ?ns = str ''c,x,a,c''" by code_simp
  moreover have "rev (remdups (rev (filter (\<lambda>n. n \<in> al_name ` set ?t) ?ns))) = [str ''c'', str ''a'']"
    by code_simp
  ultimately show ?thesis
    using check_user_algos_selects [of ?ns ?t] by auto
qed

text \<open>A comma after the last name takes the loop past the terminator.\<close>

lemma check_user_loop_comma:
  assumes "\<forall>n \<in> set ns. n \<noteq> [] \<and> comma \<notin> set n \<and> 0 \<notin> set n" "ns \<noteq> []" "length algos < 50"
    "distinct (map al_name sel)" "set sel \<subseteq> set algos" "k \<le> 1"
  shows "check_user_loop (pre @ join_names ns @ [comma, 0]) algos (length pre + k) (length pre) sel = Inl Mem_fault"
  using assms
proof (induction ns arbitrary: pre sel k rule: join_names.induct)
  case (2 n)
  have l: "length sel < 50" using sel_length [OF 2(4,5)] 2(3) by simp
  have "check_user_loop (pre @ n @ [comma, 0]) algos (length pre + k) (length pre) sel
      = check_user_loop (pre @ n @ [comma, 0]) algos (length pre + k + length (drop k n)) (length pre) sel"
    using l 2(1,6) set_drop_subset [of k n] by (intro check_user_scan) auto
  also have "length pre + k + length (drop k n) = length pre + length n"
    using 2(1,6) by (cases n) auto
  also have "check_user_loop (pre @ n @ [comma, 0]) algos (length pre + length n) (length pre) sel
      = check_user_loop (pre @ n @ [0, 0]) algos (length pre + length n + 2) (length pre + length n + 1) (add_user algos n sel)"
    using check_user_sep [OF l, of comma n pre "[0]" algos] 2(1) by simp
  also have "\<dots> = Inl Mem_fault"
    by (subst check_user_loop.simps) simp
  finally show ?case by simp
next
  case (3 n m ns)
  have l: "length sel < 50" using sel_length [OF 3(5,6)] 3(4) by simp
  let ?js = "join_names (m # ns)"
  let ?w = "pre @ n @ comma # ?js @ [comma, 0]"
  have "check_user_loop ?w algos (length pre + k) (length pre) sel
      = check_user_loop ?w algos (length pre + k + length (drop k n)) (length pre) sel"
    using l 3(2,7) set_drop_subset [of k n] by (intro check_user_scan) auto
  also have "length pre + k + length (drop k n) = length pre + length n"
    using 3(2,7) by (cases n) auto
  also have "check_user_loop ?w algos (length pre + length n) (length pre) sel
      = check_user_loop ((pre @ n @ [0]) @ ?js @ [comma, 0]) algos (length (pre @ n @ [0]) + 1) (length (pre @ n @ [0]))
          (add_user algos n sel)"
    using check_user_sep [OF l, of comma n pre "?js @ [comma, 0]" algos] 3(2) by (simp del: join_names.simps)
  also have "\<dots> = Inl Mem_fault"
    using 3(2-4) add_user_inv [OF 3(5,6)] by (intro "3.IH") auto
  finally show ?case by simp
qed simp

text \<open>
  C10. A comma after the last name.  When the list consists of non-empty names separated by single
  commas, with one more comma at its end, \<open>check_user_algos\<close> reads past the end of its copy of
  the list: the comma advances \<open>c\<close> in the loop body and again in the loop header, over the
  terminator.
\<close>

theorem check_user_algos_trailing_comma:
  assumes "\<forall>n \<in> set ns. n \<noteq> [] \<and> comma \<notin> set n \<and> 0 \<notin> set n" "ns \<noteq> []" "length algos < 50"
  shows "check_user_algos (join_names ns @ [comma]) algos = Inl Mem_fault"
  using check_user_loop_comma [OF assms, of "[]" 0 "[]"] by (simp add: check_user_algos_def)

theorem check_user_algos_trailing_comma_witness:
  "check_user_algos (str ''aes128-ctr,x,'') (example_table [(''aes128-ctr'', True)]) = Inl Mem_fault"
proof -
  let ?ns = "[str ''aes128-ctr'', str ''x'']"
  have "\<forall>n \<in> set ?ns. n \<noteq> [] \<and> comma \<notin> set n \<and> 0 \<notin> set n" "?ns \<noteq> []"
    and e: "str ''aes128-ctr,x,'' = join_names ?ns @ [comma]"
    by code_simp+
  then show ?thesis
    unfolding e by (intro check_user_algos_trailing_comma) (simp_all add: example_table_def)
qed

end
