(* ===== verification/Circbuffer.thy ===== *)
theory Circbuffer
  imports Prelude
begin

text \<open>
  The circular buffers of \<open>src/src/circbuffer.c\<close>, which hold the data a channel has
  received but not yet written out.  The locale \<open>fifo\<close> states what the channel
  code relies on: a byte queue of bounded capacity that is written in pieces of at
  most \<open>cbuf_writelen\<close> bytes and read from the front.  The model is shown to
  implement it, which includes that the assertions of the code never fail.
\<close>

section \<open>Definitions\<close>

record circbuffer =
  cb_size :: u32
  cb_readpos :: u32
  cb_writepos :: u32
  cb_used :: u32
  cb_data :: "byte list option"

definition MAX_CBUF_SIZE :: u32 where "MAX_CBUF_SIZE = 100000000"

definition cbuf_new :: "u32 \<Rightarrow> circbuffer res" where
  "cbuf_new sz =
     (if sz > MAX_CBUF_SIZE then dropbear_exit ''Bad cbuf size''
      else returnE \<lparr>cb_size = sz, cb_readpos = 0, cb_writepos = 0, cb_used = 0, cb_data = None\<rparr>)"

text \<open>What is left of the block, if there is one, when it goes back to the allocator.\<close>

definition cbuf_free :: "circbuffer \<Rightarrow> byte list option" where
  "cbuf_free cbuf =
     (case cb_data cbuf of None \<Rightarrow> None
      | Some d \<Rightarrow> Some (replicate (unat (cb_size cbuf)) 0 @ drop (unat (cb_size cbuf)) d))"

definition cbuf_getused :: "circbuffer \<Rightarrow> u32" where
  "cbuf_getused cbuf = cb_used cbuf"

definition cbuf_getavail :: "circbuffer \<Rightarrow> u32" where
  "cbuf_getavail cbuf = cb_size cbuf - cb_used cbuf"

definition cbuf_writelen :: "circbuffer \<Rightarrow> u32 res" where
  "cbuf_writelen cbuf =
     (let sz = cb_size cbuf; r = cb_readpos cbuf; w = cb_writepos cbuf; used = cb_used cbuf in
      bindE (dropbear_assert (used \<le> sz) ''cbuf->used <= cbuf->size'') (\<lambda>_.
      bindE (umod (2 * sz + w - r) sz) (\<lambda>m1.
      bindE (umod used sz) (\<lambda>m2.
      bindE (dropbear_assert (m1 = m2) ''used'') (\<lambda>_.
      bindE (umod (2 * sz + r - w) sz) (\<lambda>m3.
      bindE (umod (sz - used) sz) (\<lambda>m4.
      bindE (dropbear_assert (m3 = m4) ''free'') (\<lambda>_.
      if used = sz then returnE 0
      else if w < r then returnE (r - w)
      else returnE (sz - w)))))))))"

text \<open>
  The two readable portions, as offset and length; there is no second one when
  its pointer is \<open>NULL\<close>.
\<close>

definition cbuf_readptrs :: "circbuffer \<Rightarrow> (nat \<times> u32) \<times> (nat option \<times> u32)" where
  "cbuf_readptrs cbuf =
     (let len1 = min (cb_used cbuf) (cb_size cbuf - cb_readpos cbuf) in
      ((unat (cb_readpos cbuf), len1),
       if len1 < cb_used cbuf then (Some 0, cb_used cbuf - len1) else (None, 0)))"

definition cbuf_writeptr :: "circbuffer \<Rightarrow> u32 \<Rightarrow> (nat \<times> circbuffer) res" where
  "cbuf_writeptr cbuf l =
     bindE (cbuf_writelen cbuf) (\<lambda>wl.
     if l > wl then dropbear_exit ''Bad cbuf write''
     else
       let cbuf = (case cb_data cbuf of
             None \<Rightarrow> cbuf\<lparr>cb_data := Some (replicate (unat (cb_size cbuf)) 0)\<rparr>
           | Some _ \<Rightarrow> cbuf) in
       returnE (unat (cb_writepos cbuf), cbuf))"

definition cbuf_incrwrite :: "circbuffer \<Rightarrow> u32 \<Rightarrow> circbuffer res" where
  "cbuf_incrwrite cbuf l =
     bindE (cbuf_writelen cbuf) (\<lambda>wl.
     if l > wl then dropbear_exit ''Bad cbuf write''
     else
       let cbuf = cbuf\<lparr>cb_used := cb_used cbuf + l\<rparr> in
       bindE (dropbear_assert (cb_used cbuf \<le> cb_size cbuf) ''cbuf->used <= cbuf->size'') (\<lambda>_.
       bindE (umod (cb_writepos cbuf + l) (cb_size cbuf)) (\<lambda>w.
       returnE (cbuf\<lparr>cb_writepos := w\<rparr>))))"

definition cbuf_incrread :: "circbuffer \<Rightarrow> u32 \<Rightarrow> circbuffer res" where
  "cbuf_incrread cbuf l =
     bindE (dropbear_assert (cb_used cbuf \<ge> l) ''cbuf->used >= len'') (\<lambda>_.
     let cbuf = cbuf\<lparr>cb_used := cb_used cbuf - l\<rparr> in
     bindE (umod (cb_readpos cbuf + l) (cb_size cbuf)) (\<lambda>r.
     returnE (cbuf\<lparr>cb_readpos := r\<rparr>)))"

text \<open>
  How the callers use these: \<open>memcpy\<close> to the write pointer, then \<open>cbuf_incrwrite\<close>;
  \<open>writev\<close> from the two read pointers, then \<open>cbuf_incrread\<close>.
\<close>

definition cbuf_write :: "circbuffer \<Rightarrow> byte list \<Rightarrow> circbuffer res" where
  "cbuf_write cbuf bs =
     bindE (cbuf_writeptr cbuf (of_nat (length bs))) (\<lambda>(p, cbuf).
     bindE (mem_write (case cb_data cbuf of None \<Rightarrow> [] | Some d \<Rightarrow> d) p bs) (\<lambda>d.
     cbuf_incrwrite (cbuf\<lparr>cb_data := Some d\<rparr>) (of_nat (length bs))))"

definition cbuf_peek :: "circbuffer \<Rightarrow> byte list res" where
  "cbuf_peek cbuf =
     (let d = (case cb_data cbuf of None \<Rightarrow> [] | Some d \<Rightarrow> d);
          ((p1, len1), (p2, len2)) = cbuf_readptrs cbuf in
      bindE (if len1 = 0 then returnE [] else mem_read d p1 (unat len1)) (\<lambda>b1.
      case p2 of
        None \<Rightarrow> returnE b1
      | Some p2 \<Rightarrow> bindE (mem_read d p2 (unat len2)) (\<lambda>b2. returnE (b1 @ b2))))"

section \<open>Well-formed circular buffers and their contents\<close>

definition wf_cbuf :: "circbuffer \<Rightarrow> bool" where
  "wf_cbuf c \<longleftrightarrow> 0 < unat (cb_size c) \<and> unat (cb_size c) \<le> 100000000
     \<and> unat (cb_used c) \<le> unat (cb_size c) \<and> unat (cb_readpos c) < unat (cb_size c)
     \<and> unat (cb_writepos c) = (unat (cb_readpos c) + unat (cb_used c)) mod unat (cb_size c)
     \<and> (case cb_data c of None \<Rightarrow> cb_used c = 0 | Some d \<Rightarrow> length d = unat (cb_size c))"

definition cbuf_contents :: "circbuffer \<Rightarrow> byte list" where
  "cbuf_contents c =
     (case cb_data c of None \<Rightarrow> []
      | Some d \<Rightarrow> take (unat (cb_used c)) (rotate (unat (cb_readpos c)) d))"

text \<open>The linear space after the write position.\<close>

definition linear_room :: "circbuffer \<Rightarrow> nat" where
  "linear_room c =
     (let sz = unat (cb_size c); r = unat (cb_readpos c); u = unat (cb_used c) in
      if r + u < sz then sz - (r + u) else sz - u)"

lemma wf_cbufD:
  assumes "wf_cbuf c"
  shows "0 < unat (cb_size c)" "unat (cb_size c) \<le> 100000000" "unat (cb_used c) \<le> unat (cb_size c)"
    "unat (cb_readpos c) < unat (cb_size c)"
    "unat (cb_writepos c) = (unat (cb_readpos c) + unat (cb_used c)) mod unat (cb_size c)"
  using assms by (simp_all add: wf_cbuf_def)

lemma wf_cbuf_new: "cbuf_new sz = Inr c \<Longrightarrow> 0 < sz \<Longrightarrow> wf_cbuf c \<and> cbuf_contents c = []"
  by (auto simp: cbuf_new_def wf_cbuf_def cbuf_contents_def MAX_CBUF_SIZE_def u32_nat split: if_splits)

lemma mod_twice: "i < 2 * n \<Longrightarrow> i mod n = (if i < n then i else i - n)" for i n :: nat
  by (simp add: le_mod_geq not_less)

lemma writepos_cases:
  assumes "wf_cbuf c"
  shows "unat (cb_writepos c) = (if unat (cb_readpos c) + unat (cb_used c) < unat (cb_size c)
     then unat (cb_readpos c) + unat (cb_used c)
     else unat (cb_readpos c) + unat (cb_used c) - unat (cb_size c))"
  using wf_cbufD [OF assms] mod_twice [of "unat (cb_readpos c) + unat (cb_used c)" "unat (cb_size c)"]
  by simp

text \<open>The assertions of \<open>cbuf_writelen\<close>, on natural numbers.\<close>

lemma wrap_sub:
  fixes sz w r :: u32
  assumes "unat sz \<le> 100000000" "unat r < unat sz" "unat w < unat sz"
  shows "unat (2 * sz + w - r) = 2 * unat sz + unat w - unat r"
proof -
  have "unat (2 * sz) = 2 * unat sz"
    using assms by (simp add: unat_word_ariths)
  moreover from this have "unat (2 * sz + w) = 2 * unat sz + unat w"
    using assms by (subst unat_u32_add) simp_all
  ultimately show ?thesis
    using assms by (subst unat_u32_sub) simp_all
qed

lemma writelen_asserts:
  assumes "wf_cbuf c"
  shows "(2 * cb_size c + cb_writepos c - cb_readpos c) mod cb_size c = cb_used c mod cb_size c"
    "(2 * cb_size c + cb_readpos c - cb_writepos c) mod cb_size c = (cb_size c - cb_used c) mod cb_size c"
proof -
  let ?s = "unat (cb_size c)" and ?r = "unat (cb_readpos c)" and ?u = "unat (cb_used c)"
  let ?w = "unat (cb_writepos c)"
  note wf = wf_cbufD [OF assms] and wc = writepos_cases [OF assms]
  have w: "?w < ?s" using wf by simp
  have 1: "2 * ?s + ?w - ?r = ?u + 2 * ?s \<or> 2 * ?s + ?w - ?r = ?u + 1 * ?s"
    using wf wc by (auto split: if_splits)
  then have "(2 * ?s + ?w - ?r) mod ?s = ?u mod ?s"
    by (metis mod_mult_self1)
  then show "(2 * cb_size c + cb_writepos c - cb_readpos c) mod cb_size c = cb_used c mod cb_size c"
    using wf w by (simp add: u32_eq_nat unat_mod wrap_sub)
  have 2: "2 * ?s + ?r - ?w = (?s - ?u) + 1 * ?s \<or> 2 * ?s + ?r - ?w = (?s - ?u) + 2 * ?s"
    using wf wc by (auto split: if_splits)
  then have "(2 * ?s + ?r - ?w) mod ?s = (?s - ?u) mod ?s"
    by (metis mod_mult_self1)
  then show "(2 * cb_size c + cb_readpos c - cb_writepos c) mod cb_size c = (cb_size c - cb_used c) mod cb_size c"
    using wf w by (simp add: u32_eq_nat unat_mod wrap_sub unat_u32_sub)
qed

lemma umod_ok: "b \<noteq> 0 \<Longrightarrow> umod a b = Inr (a mod b)"
  by (simp add: umod_def)

lemma cbuf_writelen_eq:
  assumes "wf_cbuf c"
  shows "cbuf_writelen c = Inr (of_nat (linear_room c))"
proof -
  note wf = wf_cbufD [OF assms] and wc = writepos_cases [OF assms]
  have nz: "cb_size c \<noteq> 0" using wf by auto
  have w: "unat (cb_writepos c) < unat (cb_size c)" using wf by simp
  have u: "unat (of_nat (linear_room c) :: u32) = linear_room c"
    using wf by (intro unat_u32_of_nat) (auto simp: linear_room_def Let_def)
  have ret: "(if cb_used c = cb_size c then returnE 0
      else if cb_writepos c < cb_readpos c then returnE (cb_readpos c - cb_writepos c)
      else returnE (cb_size c - cb_writepos c)) = Inr (of_nat (linear_room c))"
    using wf wc w u by (auto simp: u32_eq_nat u32_nat unat_u32_sub linear_room_def Let_def split: if_splits)
  show ?thesis
    unfolding cbuf_writelen_def Let_def
    using wf nz writelen_asserts [OF assms] ret by (simp add: umod_ok u32_nat)
qed

lemma linear_room_le: "wf_cbuf c \<Longrightarrow> linear_room c \<le> unat (cb_size c) - unat (cb_used c)"
  using wf_cbufD [of c] by (auto simp: linear_room_def Let_def)

lemma unat_writelen: "wf_cbuf c \<Longrightarrow> unat (of_nat (linear_room c) :: u32) = linear_room c"
  using wf_cbufD [of c] linear_room_le [of c] by (intro unat_u32_of_nat) linarith

lemma linear_room_pos:
  "wf_cbuf c \<Longrightarrow> unat (cb_used c) < unat (cb_size c) \<Longrightarrow> 0 < linear_room c"
  using wf_cbufD [of c] by (auto simp: linear_room_def Let_def)

lemma length_contents: "wf_cbuf c \<Longrightarrow> length (cbuf_contents c) = unat (cb_used c)"
  by (auto simp: wf_cbuf_def cbuf_contents_def split: option.splits)

lemma contents_nth:
  assumes "wf_cbuf c" "cb_data c = Some d" "i < unat (cb_used c)"
  shows "cbuf_contents c ! i = d ! ((unat (cb_readpos c) + i) mod unat (cb_size c))"
  using assms by (simp add: wf_cbuf_def cbuf_contents_def nth_rotate)

text \<open>Lazy allocation changes nothing of what is stored.\<close>

definition cbuf_alloc :: "circbuffer \<Rightarrow> circbuffer" where
  "cbuf_alloc c = (case cb_data c of None \<Rightarrow> c\<lparr>cb_data := Some (replicate (unat (cb_size c)) 0)\<rparr>
                   | Some _ \<Rightarrow> c)"

lemma cbuf_alloc_fields [simp]:
  "cb_size (cbuf_alloc c) = cb_size c" "cb_readpos (cbuf_alloc c) = cb_readpos c"
  "cb_writepos (cbuf_alloc c) = cb_writepos c" "cb_used (cbuf_alloc c) = cb_used c"
  by (simp_all add: cbuf_alloc_def split: option.splits)

lemma wf_cbuf_alloc: "wf_cbuf c \<Longrightarrow> wf_cbuf (cbuf_alloc c)"
  by (auto simp: cbuf_alloc_def wf_cbuf_def split: option.splits)

lemma contents_alloc: "wf_cbuf c \<Longrightarrow> cbuf_contents (cbuf_alloc c) = cbuf_contents c"
  by (auto simp: cbuf_alloc_def cbuf_contents_def wf_cbuf_def split: option.splits)

lemma alloc_data:
  assumes "wf_cbuf c"
  obtains d where "cb_data (cbuf_alloc c) = Some d" "length d = unat (cb_size c)"
  using assms by (auto simp: cbuf_alloc_def wf_cbuf_def split: option.splits)

lemma cbuf_writeptr_eq:
  "wf_cbuf c \<Longrightarrow> cbuf_writeptr c l = (if unat l \<le> linear_room c
     then Inr (unat (cb_writepos c), cbuf_alloc c) else Inl (Exit ''Bad cbuf write''))"
  by (auto simp: cbuf_writeptr_def cbuf_writelen_eq u32_nat unat_writelen cbuf_alloc_def
      split: option.splits)

lemma cbuf_incrwrite_eq:
  assumes "wf_cbuf c"
  shows "cbuf_incrwrite c l = (if unat l \<le> linear_room c
     then Inr (c\<lparr>cb_used := cb_used c + l, cb_writepos := (cb_writepos c + l) mod cb_size c\<rparr>)
     else Inl (Exit ''Bad cbuf write''))"
proof (cases "unat l \<le> linear_room c")
  case True
  note wf = wf_cbufD [OF assms]
  have "unat (cb_used c + l) = unat (cb_used c) + unat l"
    using True wf linear_room_le [OF assms] by (intro unat_u32_add) linarith
  then have "cb_used c + l \<le> cb_size c"
    using True wf linear_room_le [OF assms] by (simp add: u32_nat)
  moreover have "cb_size c \<noteq> 0" using wf by auto
  ultimately show ?thesis
    using True assms by (simp add: cbuf_incrwrite_def cbuf_writelen_eq u32_nat unat_writelen umod_ok)
next
  case False
  then show ?thesis
    using assms by (simp add: cbuf_incrwrite_def cbuf_writelen_eq u32_nat unat_writelen)
qed

text \<open>The bytes past the stored ones are the linear space after the write position.\<close>

lemma write_index:
  assumes "wf_cbuf c" "n \<le> linear_room c"
  defines "j \<equiv> \<lambda>i. (unat (cb_readpos c) + i) mod unat (cb_size c)"
  shows "i < unat (cb_used c) \<Longrightarrow> j i < unat (cb_writepos c) \<or> unat (cb_writepos c) + n \<le> j i"
    and "unat (cb_used c) \<le> i \<Longrightarrow> i < unat (cb_used c) + n \<Longrightarrow>
      j i = unat (cb_writepos c) + (i - unat (cb_used c))"
proof -
  note wf = wf_cbufD [OF assms(1)] writepos_cases [OF assms(1)] assms(2)
  have j: "i < unat (cb_size c) \<Longrightarrow> j i = (if unat (cb_readpos c) + i < unat (cb_size c)
      then unat (cb_readpos c) + i else unat (cb_readpos c) + i - unat (cb_size c))" for i
    using wf unfolding j_def by (intro mod_twice) linarith
  show "i < unat (cb_used c) \<Longrightarrow> j i < unat (cb_writepos c) \<or> unat (cb_writepos c) + n \<le> j i"
    using wf j [of i] unfolding linear_room_def Let_def by (auto split: if_splits)
  show "unat (cb_used c) \<le> i \<Longrightarrow> i < unat (cb_used c) + n \<Longrightarrow>
      j i = unat (cb_writepos c) + (i - unat (cb_used c))"
    using wf j [of i] unfolding linear_room_def Let_def by (auto split: if_splits)
qed

lemma linear_end: "wf_cbuf c \<Longrightarrow> unat (cb_writepos c) + linear_room c \<le> unat (cb_size c)"
  using wf_cbufD [of c] writepos_cases [of c] by (auto simp: linear_room_def Let_def)

lemma cbuf_write_step:
  assumes wf: "wf_cbuf c" and d: "cb_data c = Some d" and n: "length bs \<le> linear_room c"
  defines "w \<equiv> unat (cb_writepos c)"
  defines "c' \<equiv> c\<lparr>cb_data := Some (take w d @ bs @ drop (w + length bs) d), cb_used := cb_used c + of_nat (length bs),
                  cb_writepos := (cb_writepos c + of_nat (length bs)) mod cb_size c\<rparr>"
  shows "wf_cbuf c'" "cbuf_contents c' = cbuf_contents c @ bs"
proof -
  let ?s = "unat (cb_size c)" and ?r = "unat (cb_readpos c)" and ?u = "unat (cb_used c)"
  note wfD = wf_cbufD [OF wf]
  have ld: "length d = ?s" using wf d by (simp add: wf_cbuf_def)
  have le: "w + length bs \<le> ?s" using linear_end [OF wf] n by (simp add: w_def)
  have nb: "unat (of_nat (length bs) :: u32) = length bs"
    using le wfD by (intro unat_u32_of_nat) linarith
  have u: "unat (cb_used c + of_nat (length bs)) = ?u + length bs"
    using linear_room_le [OF wf] n wfD nb by (subst unat_u32_add) linarith+
  have "unat (cb_writepos c + of_nat (length bs)) = w + length bs"
    using le wfD nb by (subst unat_u32_add) (simp_all add: w_def)
  then have w': "unat ((cb_writepos c + of_nat (length bs)) mod cb_size c) = (w + length bs) mod ?s"
    by (simp add: unat_mod)
  also have "\<dots> = (?r + (?u + length bs)) mod ?s"
    using wfD(5) by (simp add: w_def mod_add_left_eq add.assoc)
  finally have w'': "unat ((cb_writepos c + of_nat (length bs)) mod cb_size c) = (?r + (?u + length bs)) mod ?s" .
  have ul: "?u + length bs \<le> ?s"
    using linear_room_le [OF wf] n wfD by linarith
  show wf': "wf_cbuf c'"
    using wfD u w'' ul ld le by (simp add: wf_cbuf_def c'_def)
  let ?d = "take w d @ bs @ drop (w + length bs) d"
  have nth: "j < ?s \<Longrightarrow> ?d ! j = (if w \<le> j \<and> j < w + length bs then bs ! (j - w) else d ! j)" for j
    using le ld by (auto simp: nth_append min_def)
  show "cbuf_contents c' = cbuf_contents c @ bs"
  proof (rule nth_equalityI)
    show "length (cbuf_contents c') = length (cbuf_contents c @ bs)"
      using length_contents [OF wf'] length_contents [OF wf] u by (simp add: c'_def)
  next
    fix i assume "i < length (cbuf_contents c')"
    then have i: "i < ?u + length bs"
      using length_contents [OF wf'] u by (simp add: c'_def)
    let ?j = "(?r + i) mod ?s"
    have j: "?j < ?s" using wfD by simp
    have "cbuf_contents c' ! i = ?d ! ?j"
      using contents_nth [OF wf', of ?d i] i u by (simp add: c'_def)
    also have "\<dots> = (cbuf_contents c @ bs) ! i"
    proof (cases "i < ?u")
      case True
      then show ?thesis
        using write_index(1) [OF wf n True] nth [OF j] contents_nth [OF wf d True] length_contents [OF wf]
        by (auto simp: nth_append w_def)
    next
      case False
      then have "?j = w + (i - ?u)"
        using write_index(2) [OF wf n, of i] i by (simp add: w_def)
      then have "?d ! ?j = bs ! (i - ?u)"
        unfolding nth [OF j] using i False by auto
      then show ?thesis
        using False length_contents [OF wf] by (simp add: nth_append)
    qed
    finally show "cbuf_contents c' ! i = (cbuf_contents c @ bs) ! i" .
  qed
qed

lemma linear_room_cong:
  "cb_size c' = cb_size c \<Longrightarrow> cb_readpos c' = cb_readpos c \<Longrightarrow> cb_used c' = cb_used c \<Longrightarrow>
     linear_room c' = linear_room c"
  by (simp add: linear_room_def)

lemma cbuf_write_ok:
  assumes "wf_cbuf c" "length bs \<le> linear_room c"
  shows "\<exists>c'. cbuf_write c bs = Inr c' \<and> wf_cbuf c' \<and> cbuf_contents c' = cbuf_contents c @ bs
     \<and> cb_size c' = cb_size c"
proof -
  obtain d where d: "cb_data (cbuf_alloc c) = Some d" "length d = unat (cb_size c)"
    using assms(1) by (rule alloc_data)
  let ?a = "cbuf_alloc c"
  let ?w = "unat (cb_writepos c)"
  let ?d = "take ?w d @ bs @ drop (?w + length bs) d"
  have wf: "wf_cbuf ?a" and lr: "length bs \<le> linear_room ?a"
    using assms wf_cbuf_alloc linear_room_cong [of ?a c] by simp_all
  have le: "?w + length bs \<le> unat (cb_size c)"
    using linear_end [OF assms(1)] assms(2) by simp
  have nb: "unat (of_nat (length bs) :: u32) = length bs"
    using le wf_cbufD [OF assms(1)] by (intro unat_u32_of_nat) linarith
  have wf2: "wf_cbuf (?a\<lparr>cb_data := Some ?d\<rparr>)"
    using wf le d by (simp add: wf_cbuf_def)
  have lr2: "linear_room (?a\<lparr>cb_data := Some ?d\<rparr>) = linear_room c"
    by (rule linear_room_cong) simp_all
  note st = cbuf_write_step [OF wf d(1) lr, simplified]
  show ?thesis
    using assms d le nb wf2 lr2 st
    by (simp add: cbuf_write_def cbuf_writeptr_eq mem_write_ok cbuf_incrwrite_eq contents_alloc)
qed

lemma cbuf_incrread_ok:
  assumes "wf_cbuf c" "unat n \<le> length (cbuf_contents c)"
  shows "\<exists>c'. cbuf_incrread c n = Inr c' \<and> wf_cbuf c' \<and> cbuf_contents c' = drop (unat n) (cbuf_contents c)
     \<and> cb_size c' = cb_size c"
proof -
  let ?s = "unat (cb_size c)" and ?r = "unat (cb_readpos c)" and ?u = "unat (cb_used c)"
  note wf = wf_cbufD [OF assms(1)]
  have n: "unat n \<le> ?u" using assms by (simp add: length_contents)
  have nz: "cb_size c \<noteq> 0" using wf by auto
  let ?c = "c\<lparr>cb_used := cb_used c - n, cb_readpos := (cb_readpos c + n) mod cb_size c\<rparr>"
  have u: "unat (cb_used c - n) = ?u - unat n" using n by (rule unat_u32_sub)
  have "unat (cb_readpos c + n) = ?r + unat n"
    using wf n by (intro unat_u32_add) linarith
  then have r: "unat ((cb_readpos c + n) mod cb_size c) = (?r + unat n) mod ?s"
    by (simp add: unat_mod)
  have "((?r + unat n) mod ?s + (?u - unat n)) mod ?s = (?r + ?u) mod ?s"
    using n mod_add_left_eq [of "?r + unat n" ?s "?u - unat n"] by simp
  moreover have "cb_data c = None \<Longrightarrow> n = 0"
    using assms n by (auto simp: wf_cbuf_def u32_eq_nat)
  ultimately have wf': "wf_cbuf ?c"
    using assms(1) wf u r n by (auto simp: wf_cbuf_def split: option.splits)
  have "cbuf_contents ?c = drop (unat n) (cbuf_contents c)"
  proof (cases "cb_data c")
    case None
    then show ?thesis by (simp add: cbuf_contents_def)
  next
    case (Some d)
    show ?thesis
    proof (rule nth_equalityI)
      show "length (cbuf_contents ?c) = length (drop (unat n) (cbuf_contents c))"
        using length_contents [OF wf'] length_contents [OF assms(1)] u by simp
    next
      fix i assume "i < length (cbuf_contents ?c)"
      then have i: "i < ?u - unat n" using length_contents [OF wf'] u by simp
      then show "cbuf_contents ?c ! i = drop (unat n) (cbuf_contents c) ! i"
        using contents_nth [OF wf', of d i] contents_nth [OF assms(1) Some, of "unat n + i"] Some u r
          length_contents [OF assms(1)]
        by (simp add: mod_add_left_eq add.assoc)
    qed
  qed
  moreover have "cbuf_incrread c n = Inr ?c"
    using n nz by (simp add: cbuf_incrread_def u32_nat umod_ok)
  ultimately show ?thesis using wf' by simp
qed

lemma cbuf_peek_eq:
  assumes "wf_cbuf c"
  shows "cbuf_peek c = Inr (cbuf_contents c)"
proof (cases "cb_data c")
  case None
  then have "cb_used c = 0" using assms by (simp add: wf_cbuf_def)
  then show ?thesis using None by (simp add: cbuf_peek_def cbuf_readptrs_def cbuf_contents_def)
next
  case (Some d)
  let ?s = "unat (cb_size c)" and ?r = "unat (cb_readpos c)" and ?u = "unat (cb_used c)"
  note wf = wf_cbufD [OF assms]
  have ld: "length d = ?s" using assms Some by (simp add: wf_cbuf_def)
  have rot: "rotate ?r d = drop ?r d @ take ?r d"
    using wf ld by (simp add: rotate_drop_take)
  have l1: "unat (min (cb_used c) (cb_size c - cb_readpos c)) = min ?u (?s - ?r)"
    using wf by (simp add: min_def u32_nat unat_u32_sub)
  have c: "cbuf_contents c = take (min ?u (?s - ?r)) (drop ?r d) @ take (?u - min ?u (?s - ?r)) d"
    using wf ld by (auto simp: cbuf_contents_def Some rot min_def)
  show ?thesis
    using wf ld l1 unfolding c cbuf_peek_def cbuf_readptrs_def Let_def
    by (auto simp: Some u32_nat unat_u32_sub mem_read_ok u32_eq_nat)
qed

section \<open>The queue interface\<close>

text \<open>What the channel code relies on.\<close>

locale fifo =
  fixes inv :: "'q \<Rightarrow> bool"
    and contents :: "'q \<Rightarrow> byte list"
    and capacity :: "'q \<Rightarrow> nat"
    and writelen :: "'q \<Rightarrow> nat"
    and put :: "'q \<Rightarrow> byte list \<Rightarrow> 'q res"
    and skip :: "'q \<Rightarrow> u32 \<Rightarrow> 'q res"
    and peek :: "'q \<Rightarrow> byte list res"
  assumes put_law: "inv q \<Longrightarrow> length bs \<le> writelen q \<Longrightarrow>
      \<exists>q'. put q bs = Inr q' \<and> inv q' \<and> contents q' = contents q @ bs \<and> capacity q' = capacity q"
    and writelen_pos: "inv q \<Longrightarrow> length (contents q) < capacity q \<Longrightarrow> 0 < writelen q"
    and writelen_le: "inv q \<Longrightarrow> length (contents q) + writelen q \<le> capacity q"
    and skip_law: "inv q \<Longrightarrow> unat n \<le> length (contents q) \<Longrightarrow>
      \<exists>q'. skip q n = Inr q' \<and> inv q' \<and> contents q' = drop (unat n) (contents q) \<and> capacity q' = capacity q"
    and peek_law: "inv q \<Longrightarrow> peek q = Inr (contents q)"

text \<open>
  The loop by which a client appends data that may wrap around: as much as fits in
  one piece, then the rest.  \<open>None\<close> is running out of fuel.
\<close>

fun fill_loop :: "('q \<Rightarrow> nat) \<Rightarrow> ('q \<Rightarrow> byte list \<Rightarrow> 'q res) \<Rightarrow> nat \<Rightarrow> 'q \<Rightarrow> byte list \<Rightarrow> 'q res option" where
  "fill_loop writelen put fuel q [] = Some (Inr q)"
| "fill_loop writelen put 0 q (b # bs) = None"
| "fill_loop writelen put (Suc fuel) q (b # bs) =
     (let n = min (writelen q) (length (b # bs)) in
      case put q (take n (b # bs)) of
        Inl e \<Rightarrow> Some (Inl e)
      | Inr q \<Rightarrow> fill_loop writelen put fuel q (drop n (b # bs)))"

context fifo
begin

lemma fill_loop_ok:
  assumes "inv q" "length (contents q) + length bs \<le> capacity q" "length bs \<le> fuel"
  shows "\<exists>q'. fill_loop writelen put fuel q bs = Some (Inr q') \<and> inv q' \<and> contents q' = contents q @ bs
     \<and> capacity q' = capacity q"
  using assms
proof (induction fuel arbitrary: q bs)
  case (Suc fuel)
  show ?case
  proof (cases bs)
    case (Cons b cs)
    define n where "n = min (writelen q) (length bs)"
    have n: "0 < n" "n \<le> length bs" "n \<le> writelen q"
      using Suc.prems writelen_pos [of q] Cons by (auto simp: n_def)
    obtain q1 where q1: "put q (take n bs) = Inr q1" "inv q1" "contents q1 = contents q @ take n bs"
      "capacity q1 = capacity q"
      using put_law [of q "take n bs"] Suc.prems n by auto
    have "\<exists>q'. fill_loop writelen put fuel q1 (drop n bs) = Some (Inr q') \<and> inv q'
        \<and> contents q' = contents q1 @ drop n bs \<and> capacity q' = capacity q1"
      using Suc.prems q1 n by (intro Suc.IH) auto
    then show ?thesis
      using q1 n_def Cons by (auto simp: Let_def)
  qed (use Suc.prems in auto)
qed simp

text \<open>What goes in comes out, in order.\<close>

lemma fill_then_read:
  assumes "inv q" "length (contents q) + length bs \<le> capacity q"
  shows "\<exists>q'. fill_loop writelen put (length bs) q bs = Some (Inr q') \<and> peek q' = Inr (contents q @ bs)"
  using fill_loop_ok [OF assms order.refl] peek_law by auto

end

interpretation cbuf: fifo wf_cbuf cbuf_contents "\<lambda>c. unat (cb_size c)" linear_room cbuf_write cbuf_incrread cbuf_peek
proof (unfold_locales, goal_cases)
  case (1 q bs)
  then show ?case using cbuf_write_ok [of q bs] by metis
next
  case (2 q)
  then show ?case by (simp add: linear_room_pos length_contents)
next
  case (3 q)
  then show ?case using linear_room_le [of q] wf_cbufD [of q] by (simp add: length_contents)
next
  case (4 q n)
  then show ?case using cbuf_incrread_ok [of q n] by metis
next
  case (5 q)
  then show ?case by (rule cbuf_peek_eq)
qed

section \<open>Refinement of a byte queue\<close>

datatype cb_op = Cb_write "byte list" | Cb_read u32

fun run_cb :: "cb_op list \<Rightarrow> circbuffer \<Rightarrow> circbuffer res" where
  "run_cb [] c = returnE c"
| "run_cb (Cb_write bs # ops) c = bindE (cbuf_write c bs) (run_cb ops)"
| "run_cb (Cb_read n # ops) c = bindE (cbuf_incrread c n) (run_cb ops)"

fun run_queue :: "cb_op list \<Rightarrow> byte list \<Rightarrow> byte list" where
  "run_queue [] q = q"
| "run_queue (Cb_write bs # ops) q = run_queue ops (q @ bs)"
| "run_queue (Cb_read n # ops) q = run_queue ops (drop (unat n) q)"

text \<open>A reader takes out only what it was shown; a piece written is shorter than 4 GiB.\<close>

fun cb_ops_ok :: "cb_op list \<Rightarrow> byte list \<Rightarrow> bool" where
  "cb_ops_ok [] q = True"
| "cb_ops_ok (Cb_write bs # ops) q = (length bs < 4294967296 \<and> cb_ops_ok ops (q @ bs))"
| "cb_ops_ok (Cb_read n # ops) q = (unat n \<le> length q \<and> cb_ops_ok ops (drop (unat n) q))"

lemma cbuf_write_too_long:
  "wf_cbuf c \<Longrightarrow> linear_room c < length bs \<Longrightarrow> length bs < 4294967296 \<Longrightarrow>
     cbuf_write c bs = Inl (Exit ''Bad cbuf write'')"
  by (simp add: cbuf_write_def cbuf_writeptr_eq unat_u32_of_nat)

text \<open>
  C5. A circular buffer implements a byte queue.  Along any sequence of writes (the
  \<open>memcpy\<close> to \<open>cbuf_writeptr\<close> and \<open>cbuf_incrwrite\<close>) and reads (\<open>cbuf_incrread\<close> of no
  more than is stored), no assertion of the code fails, nothing is accessed outside
  the block, and what the two read pointers show is exactly the queue of the bytes
  written and not yet read, in order.
\<close>

theorem cbuf_refines_queue:
  assumes "wf_cbuf c" "cb_ops_ok ops (cbuf_contents c)"
  shows "safe (run_cb ops c) (\<lambda>c'. wf_cbuf c' \<and> cbuf_peek c' = Inr (run_queue ops (cbuf_contents c)))"
  using assms
proof (induction ops arbitrary: c)
  case Nil
  then show ?case by (simp add: cbuf_peek_eq)
next
  case (Cons op ops)
  show ?case
  proof (cases op)
    case (Cb_write bs)
    show ?thesis
    proof (cases "length bs \<le> linear_room c")
      case True
      then obtain c' where "cbuf_write c bs = Inr c'" "wf_cbuf c'" "cbuf_contents c' = cbuf_contents c @ bs"
        using cbuf.put_law Cons.prems by blast
      with Cons.IH [of c'] Cons.prems Cb_write show ?thesis by simp
    next
      case False
      then show ?thesis using Cons.prems Cb_write by (simp add: cbuf_write_too_long)
    qed
  next
    case (Cb_read n)
    then obtain c' where "cbuf_incrread c n = Inr c'" "wf_cbuf c'" "cbuf_contents c' = drop (unat n) (cbuf_contents c)"
      using cbuf.skip_law [of c n] Cons.prems by auto
    with Cons.IH [of c'] Cons.prems Cb_read show ?thesis by simp
  qed
qed

definition cbuf_example :: circbuffer where
  "cbuf_example = \<lparr>cb_size = 4, cb_readpos = 3, cb_writepos = 1, cb_used = 2, cb_data = Some [8, 0, 0, 7]\<rparr>"

lemma wf_cbuf_example: "wf_cbuf cbuf_example" "cbuf_contents cbuf_example = [7, 8]"
  by (simp_all add: cbuf_example_def wf_cbuf_def cbuf_contents_def rotate_drop_take)

theorem cbuf_refines_queue_witness:
  "safe (run_cb [Cb_write [9, 10], Cb_read 3, Cb_write [11]] cbuf_example)
     (\<lambda>c'. wf_cbuf c' \<and> cbuf_peek c' = Inr [10, 11])"
  using cbuf_refines_queue [of cbuf_example "[Cb_write [9, 10], Cb_read 3, Cb_write [11]]"]
  by (simp add: wf_cbuf_example)

end
