(* ===== verification/Cipher_Modes.thy ===== *)
theory Cipher_Modes
  imports Prelude
begin

text \<open>
  The counter and the chaining mode of libtomcrypt, \<open>src/libtomcrypt/src/modes/ctr\<close> and
  \<open>modes/cbc\<close>, over a table of block ciphers.  The block ciphers are the entries of the
  table, an argument \<open>cd\<close> of every operation; none of those Dropbear registers has an
  accelerator, so the accelerated branches are not part of the model.  An initial vector
  has at least the bytes of a block.
\<close>

unbundle bit_operations_syntax

type_synonym symmetric_key = "u32 list"

record ltc_cipher_descriptor =
  ld_block_length :: nat
  ld_setup :: "byte list \<Rightarrow> nat \<Rightarrow> nat \<Rightarrow> symmetric_key option"
  ld_ecb_encrypt :: "byte list \<Rightarrow> symmetric_key \<Rightarrow> byte list option"
  ld_ecb_decrypt :: "byte list \<Rightarrow> symmetric_key \<Rightarrow> byte list option"

type_synonym cipher_table = "int \<Rightarrow> ltc_cipher_descriptor option"

definition MAXBLOCKSIZE :: nat where "MAXBLOCKSIZE = 128"
definition CTR_COUNTER_LITTLE_ENDIAN :: nat where "CTR_COUNTER_LITTLE_ENDIAN = 0"
definition CTR_COUNTER_BIG_ENDIAN :: nat where "CTR_COUNTER_BIG_ENDIAN = 4096"
definition LTC_CTR_RFC3686 :: nat where "LTC_CTR_RFC3686 = 8192"

section \<open>Counter mode\<close>

text \<open>The arrays hold the \<open>blocklen\<close> bytes in use.\<close>

record symmetric_CTR =
  ctr_cipher :: int
  ctr_blocklen :: nat
  ctr_padlen :: nat
  ctr_mode :: nat
  ctr_ctrlen :: nat
  ctr_ctr :: "byte list"
  ctr_pad :: "byte list"
  ctr_key :: symmetric_key

text \<open>\<open>for (x = 0; x < ctrlen; x++)\<close> and \<open>for (x = blocklen - 1; x >= ctrlen; x--)\<close>, left at a byte that does not wrap.\<close>

fun ctr_inc_le :: "nat \<Rightarrow> nat \<Rightarrow> byte list \<Rightarrow> byte list" where
  "ctr_inc_le 0 x c = c"
| "ctr_inc_le (Suc n) x c =
     (let v = (c ! x + 1) AND 255; c = c[x := v] in if v \<noteq> 0 then c else ctr_inc_le n (Suc x) c)"

fun ctr_inc_be :: "nat \<Rightarrow> nat \<Rightarrow> byte list \<Rightarrow> byte list" where
  "ctr_inc_be ctrlen 0 c = c"
| "ctr_inc_be ctrlen (Suc x) c =
     (if x < ctrlen then c
      else let v = (c ! x + 1) AND 255; c = c[x := v] in if v \<noteq> 0 then c else ctr_inc_be ctrlen x c)"

definition ctr_increment :: "symmetric_CTR \<Rightarrow> symmetric_CTR" where
  "ctr_increment ctr =
     ctr\<lparr>ctr_ctr := (if ctr_mode ctr = CTR_COUNTER_LITTLE_ENDIAN then ctr_inc_le (ctr_ctrlen ctr) 0 (ctr_ctr ctr)
                     else ctr_inc_be (ctr_ctrlen ctr) (ctr_blocklen ctr) (ctr_ctr ctr))\<rparr>"

text \<open>A new pad when the old one is used up.\<close>

definition ctr_refill :: "ltc_cipher_descriptor \<Rightarrow> symmetric_CTR \<Rightarrow> symmetric_CTR option" where
  "ctr_refill d ctr =
     (if ctr_padlen ctr = ctr_blocklen ctr then
        let ctr = ctr_increment ctr in
        case ld_ecb_encrypt d (ctr_ctr ctr) (ctr_key ctr) of
          None \<Rightarrow> None
        | Some pad \<Rightarrow> Some (ctr\<lparr>ctr_pad := pad, ctr_padlen := 0\<rparr>)
      else Some ctr)"

text \<open>
  The loop of \<open>_ctr_encrypt\<close>: the portable code, byte by byte, and the code of
  \<open>LTC_FAST\<close>, which takes whole blocks where it can.  Each round uses at least a byte, so
  the length of the input bounds the rounds.
\<close>

primrec ctr_loop :: "ltc_cipher_descriptor \<Rightarrow> byte list \<Rightarrow> symmetric_CTR \<Rightarrow> (byte list \<times> symmetric_CTR) option" where
  "ctr_loop d [] ctr = Some ([], ctr)"
| "ctr_loop d (b # pt) ctr =
     (case ctr_refill d ctr of None \<Rightarrow> None
      | Some ctr \<Rightarrow>
          (case ctr_loop d pt (ctr\<lparr>ctr_padlen := ctr_padlen ctr + 1\<rparr>) of None \<Rightarrow> None
           | Some (ct, ctr') \<Rightarrow> Some ((b XOR ctr_pad ctr ! ctr_padlen ctr) # ct, ctr')))"

primrec ctr_loop_fast :: "nat \<Rightarrow> ltc_cipher_descriptor \<Rightarrow> byte list \<Rightarrow> symmetric_CTR \<Rightarrow> (byte list \<times> symmetric_CTR) option" where
  "ctr_loop_fast 0 d pt ctr = (if pt = [] then Some ([], ctr) else None)"
| "ctr_loop_fast (Suc n) d pt ctr =
     (if pt = [] then Some ([], ctr)
      else case ctr_refill d ctr of None \<Rightarrow> None
      | Some ctr \<Rightarrow>
          if ctr_padlen ctr = 0 \<and> length pt \<ge> ctr_blocklen ctr then
            let m = ctr_blocklen ctr in
            case ctr_loop_fast n d (drop m pt) (ctr\<lparr>ctr_padlen := m\<rparr>) of None \<Rightarrow> None
            | Some (ct, ctr') \<Rightarrow> Some (xor_bytes (take m pt) (ctr_pad ctr) @ ct, ctr')
          else
            case ctr_loop_fast n d (tl pt) (ctr\<lparr>ctr_padlen := ctr_padlen ctr + 1\<rparr>) of None \<Rightarrow> None
            | Some (ct, ctr') \<Rightarrow> Some ((hd pt XOR ctr_pad ctr ! ctr_padlen ctr) # ct, ctr'))"

definition ctr_encrypt :: "cipher_table \<Rightarrow> byte list \<Rightarrow> symmetric_CTR \<Rightarrow> (byte list \<times> symmetric_CTR) option" where
  "ctr_encrypt cd pt ctr =
     (case cd (ctr_cipher ctr) of None \<Rightarrow> None
      | Some d \<Rightarrow>
          if ctr_blocklen ctr < 1 \<or> ctr_blocklen ctr > MAXBLOCKSIZE \<or> ctr_padlen ctr > MAXBLOCKSIZE then None
          else if ctr_blocklen ctr mod 8 \<noteq> 0 then None
          else ctr_loop_fast (length pt) d pt ctr)"

definition ctr_decrypt :: "cipher_table \<Rightarrow> byte list \<Rightarrow> symmetric_CTR \<Rightarrow> (byte list \<times> symmetric_CTR) option" where
  "ctr_decrypt cd ct ctr = ctr_encrypt cd ct ctr"

definition ctr_start :: "cipher_table \<Rightarrow> int \<Rightarrow> byte list \<Rightarrow> byte list \<Rightarrow> nat \<Rightarrow> nat \<Rightarrow> nat \<Rightarrow> symmetric_CTR option" where
  "ctr_start cd cipher IV key keylen num_rounds mode =
     (case cd cipher of None \<Rightarrow> None
      | Some d \<Rightarrow>
          let bl = ld_block_length d; ctrlen = (if mode AND 255 \<noteq> 0 then mode AND 255 else bl) in
          if ctrlen > bl then None
          else
            let ctrlen = (if mode AND 4096 = CTR_COUNTER_BIG_ENDIAN then bl - ctrlen else ctrlen) in
            case ld_setup d key keylen num_rounds of None \<Rightarrow> None
            | Some skey \<Rightarrow>
                  let ctr = \<lparr>ctr_cipher = cipher, ctr_blocklen = bl, ctr_padlen = 0, ctr_mode = mode AND 4096,
                             ctr_ctrlen = ctrlen, ctr_ctr = take bl IV, ctr_pad = [], ctr_key = skey\<rparr>;
                      ctr = (if mode AND LTC_CTR_RFC3686 \<noteq> 0 then ctr_increment ctr else ctr) in
                  map_option (\<lambda>pad. ctr\<lparr>ctr_pad := pad\<rparr>) (ld_ecb_encrypt d (ctr_ctr ctr) skey))"

section \<open>Chaining mode\<close>

record symmetric_CBC =
  cbc_cipher :: int
  cbc_blocklen :: nat
  cbc_IV :: "byte list"
  cbc_key :: symmetric_key

primrec cbc_encrypt_loop :: "nat \<Rightarrow> ltc_cipher_descriptor \<Rightarrow> byte list \<Rightarrow> symmetric_CBC \<Rightarrow> (byte list \<times> symmetric_CBC) option" where
  "cbc_encrypt_loop 0 d pt cbc = Some ([], cbc)"
| "cbc_encrypt_loop (Suc n) d pt cbc =
     (case ld_ecb_encrypt d (map2 (XOR) (cbc_IV cbc) (take (cbc_blocklen cbc) pt)) (cbc_key cbc) of None \<Rightarrow> None
      | Some ct \<Rightarrow>
          (case cbc_encrypt_loop n d (drop (cbc_blocklen cbc) pt) (cbc\<lparr>cbc_IV := ct\<rparr>) of None \<Rightarrow> None
           | Some (rest, cbc') \<Rightarrow> Some (ct @ rest, cbc')))"

primrec cbc_decrypt_loop :: "nat \<Rightarrow> ltc_cipher_descriptor \<Rightarrow> byte list \<Rightarrow> symmetric_CBC \<Rightarrow> (byte list \<times> symmetric_CBC) option" where
  "cbc_decrypt_loop 0 d ct cbc = Some ([], cbc)"
| "cbc_decrypt_loop (Suc n) d ct cbc =
     (case ld_ecb_decrypt d (take (cbc_blocklen cbc) ct) (cbc_key cbc) of None \<Rightarrow> None
      | Some tmp \<Rightarrow>
          (case cbc_decrypt_loop n d (drop (cbc_blocklen cbc) ct) (cbc\<lparr>cbc_IV := take (cbc_blocklen cbc) ct\<rparr>) of None \<Rightarrow> None
           | Some (rest, cbc') \<Rightarrow> Some (map2 (XOR) tmp (cbc_IV cbc) @ rest, cbc')))"

definition cbc_encrypt :: "cipher_table \<Rightarrow> byte list \<Rightarrow> symmetric_CBC \<Rightarrow> (byte list \<times> symmetric_CBC) option" where
  "cbc_encrypt cd pt cbc =
     (case cd (cbc_cipher cbc) of None \<Rightarrow> None
      | Some d \<Rightarrow>
          if cbc_blocklen cbc < 1 \<or> cbc_blocklen cbc > MAXBLOCKSIZE then None
          else if length pt mod cbc_blocklen cbc \<noteq> 0 then None
          else if cbc_blocklen cbc mod 8 \<noteq> 0 then None
          else cbc_encrypt_loop (length pt div cbc_blocklen cbc) d pt cbc)"

definition cbc_decrypt :: "cipher_table \<Rightarrow> byte list \<Rightarrow> symmetric_CBC \<Rightarrow> (byte list \<times> symmetric_CBC) option" where
  "cbc_decrypt cd ct cbc =
     (case cd (cbc_cipher cbc) of None \<Rightarrow> None
      | Some d \<Rightarrow>
          if cbc_blocklen cbc < 1 \<or> cbc_blocklen cbc > MAXBLOCKSIZE \<or> cbc_blocklen cbc > 16 then None
          else if length ct mod cbc_blocklen cbc \<noteq> 0 then None
          else if cbc_blocklen cbc mod 8 \<noteq> 0 then None
          else cbc_decrypt_loop (length ct div cbc_blocklen cbc) d ct cbc)"

definition cbc_start :: "cipher_table \<Rightarrow> int \<Rightarrow> byte list \<Rightarrow> byte list \<Rightarrow> nat \<Rightarrow> nat \<Rightarrow> symmetric_CBC option" where
  "cbc_start cd cipher IV key keylen num_rounds =
     (case cd cipher of None \<Rightarrow> None
      | Some d \<Rightarrow>
          (case ld_setup d key keylen num_rounds of None \<Rightarrow> None
           | Some skey \<Rightarrow>
               Some \<lparr>cbc_cipher = cipher, cbc_blocklen = ld_block_length d,
                          cbc_IV = take (ld_block_length d) IV, cbc_key = skey\<rparr>))"

section \<open>Counter mode is an involution on a key stream\<close>

definition ecb_ok :: "ltc_cipher_descriptor \<Rightarrow> nat \<Rightarrow> symmetric_key \<Rightarrow> bool" where
  "ecb_ok d bl key \<longleftrightarrow> (\<forall>x. length x = bl \<longrightarrow> (\<exists>y. ld_ecb_encrypt d x key = Some y \<and> length y = bl))"

definition wf_ctr :: "ltc_cipher_descriptor \<Rightarrow> symmetric_CTR \<Rightarrow> bool" where
  "wf_ctr d c \<longleftrightarrow> 1 \<le> ctr_blocklen c \<and> length (ctr_ctr c) = ctr_blocklen c \<and> length (ctr_pad c) = ctr_blocklen c
     \<and> ctr_padlen c \<le> ctr_blocklen c \<and> ecb_ok d (ctr_blocklen c) (ctr_key c)"

lemma length_ctr_inc_le [simp]: "length (ctr_inc_le n x c) = length c"
  by (induction n x c rule: ctr_inc_le.induct) (simp_all add: Let_def)

lemma length_ctr_inc_be [simp]: "length (ctr_inc_be lo x c) = length c"
  by (induction lo x c rule: ctr_inc_be.induct) (simp_all add: Let_def)

lemma ctr_increment_fields [simp]:
  "ctr_blocklen (ctr_increment c) = ctr_blocklen c" "ctr_padlen (ctr_increment c) = ctr_padlen c"
  "ctr_key (ctr_increment c) = ctr_key c" "ctr_pad (ctr_increment c) = ctr_pad c" "ctr_cipher (ctr_increment c) = ctr_cipher c"
  "length (ctr_ctr (ctr_increment c)) = length (ctr_ctr c)"
  by (simp_all add: ctr_increment_def)

lemma ctr_refill_ok:
  assumes "wf_ctr d c"
  shows "\<exists>c'. ctr_refill d c = Some c' \<and> wf_ctr d c' \<and> ctr_padlen c' < ctr_blocklen c'
    \<and> ctr_blocklen c' = ctr_blocklen c \<and> ctr_cipher c' = ctr_cipher c"
proof (cases "ctr_padlen c = ctr_blocklen c")
  case True
  obtain y where "ld_ecb_encrypt d (ctr_ctr (ctr_increment c)) (ctr_key c) = Some y" "length y = ctr_blocklen c"
    using assms by (auto simp: wf_ctr_def ecb_ok_def dest!: spec [of _ "ctr_ctr (ctr_increment c)"])
  then show ?thesis
    using True assms by (simp add: ctr_refill_def wf_ctr_def)
next
  case False
  then show ?thesis using assms by (auto simp: ctr_refill_def wf_ctr_def)
qed

lemma ctr_refill_id: "ctr_padlen c < ctr_blocklen c \<Longrightarrow> ctr_refill d c = Some c"
  by (simp add: ctr_refill_def)

lemma wf_ctr_use: "wf_ctr d c \<Longrightarrow> ctr_padlen c < ctr_blocklen c \<Longrightarrow> wf_ctr d (c\<lparr>ctr_padlen := ctr_padlen c + 1\<rparr>)"
  by (simp add: wf_ctr_def)

lemma ctr_loop_total:
  "wf_ctr d c \<Longrightarrow> \<exists>ct c'. ctr_loop d pt c = Some (ct, c') \<and> length ct = length pt \<and> wf_ctr d c'
     \<and> ctr_blocklen c' = ctr_blocklen c \<and> ctr_cipher c' = ctr_cipher c"
proof (induction pt arbitrary: c)
  case (Cons b pt)
  obtain c1 where c1: "ctr_refill d c = Some c1" "wf_ctr d c1" "ctr_padlen c1 < ctr_blocklen c1"
    "ctr_blocklen c1 = ctr_blocklen c" "ctr_cipher c1 = ctr_cipher c"
    using ctr_refill_ok [OF Cons.prems] by blast
  show ?case
    using Cons.IH [OF wf_ctr_use [OF c1(2,3)]] c1 by auto
qed simp

lemma ctr_loop_append:
  "ctr_loop d (a @ b) c = (case ctr_loop d a c of None \<Rightarrow> None
     | Some (x, c1) \<Rightarrow> (case ctr_loop d b c1 of None \<Rightarrow> None | Some (y, c2) \<Rightarrow> Some (x @ y, c2)))"
  by (induction a arbitrary: c) (auto split: option.split)

lemma ctr_loop_invol:
  "ctr_loop d pt c = Some (ct, c') \<Longrightarrow> ctr_loop d ct c = Some (pt, c')"
proof (induction pt arbitrary: c ct)
  case (Cons b pt)
  then show ?case by (auto simp: xor.assoc split: option.splits)
qed simp

text \<open>The code for whole blocks computes what the portable code does.\<close>

lemma map2_xor_Cons: "xs \<noteq> [] \<Longrightarrow> k < length p \<Longrightarrow>
    map2 (XOR) xs (drop k p) = (hd xs XOR p ! k) # map2 (XOR) (tl xs) (drop (Suc k) p)"
  by (cases xs) (simp_all add: Cons_nth_drop_Suc [symmetric])

lemma ctr_loop_block:
  "wf_ctr d c \<Longrightarrow> length xs = ctr_blocklen c - ctr_padlen c \<Longrightarrow>
     ctr_loop d xs c = Some (map2 (XOR) xs (drop (ctr_padlen c) (ctr_pad c)), c\<lparr>ctr_padlen := ctr_blocklen c\<rparr>)"
proof (induction xs arbitrary: c)
  case Nil
  then have "ctr_padlen c = ctr_blocklen c" by (simp add: wf_ctr_def)
  then show ?case by simp
next
  case (Cons b xs)
  then have p: "ctr_padlen c < ctr_blocklen c" "ctr_padlen c < length (ctr_pad c)" by (simp_all add: wf_ctr_def)
  have "ctr_loop d xs (c\<lparr>ctr_padlen := ctr_padlen c + 1\<rparr>) =
      Some (map2 (XOR) xs (drop (ctr_padlen c + 1) (ctr_pad c)), c\<lparr>ctr_padlen := ctr_blocklen c\<rparr>)"
    using Cons.IH [OF wf_ctr_use [OF Cons.prems(1) p(1)]] Cons.prems(2) by simp
  then show ?case
    using p map2_xor_Cons [of "b # xs" "ctr_padlen c" "ctr_pad c"] by (simp add: ctr_refill_id)
qed

lemma ctr_loop_fast_eq:
  "wf_ctr d c \<Longrightarrow> length pt \<le> n \<Longrightarrow> ctr_loop_fast n d pt c = ctr_loop d pt c"
proof (induction n arbitrary: pt c)
  case (Suc n)
  show ?case
  proof (cases pt)
    case pt: (Cons b bs)
    obtain c1 where c1: "ctr_refill d c = Some c1" "wf_ctr d c1" "ctr_padlen c1 < ctr_blocklen c1"
      using ctr_refill_ok [OF Suc.prems(1)] by blast
    have again: "ctr_loop d pt c = ctr_loop d pt c1" using c1 by (simp add: pt ctr_refill_id)
    have ne: "pt \<noteq> []" using pt by simp
    let ?m = "ctr_blocklen c1"
    show ?thesis
    proof (cases "ctr_padlen c1 = 0 \<and> length pt \<ge> ?m")
      case True
      have m: "1 \<le> ?m" "length (ctr_pad c1) = ?m" using c1(2) by (simp_all add: wf_ctr_def)
      have wf: "wf_ctr d (c1\<lparr>ctr_padlen := ?m\<rparr>)" using c1(2) by (simp add: wf_ctr_def)
      have block: "ctr_loop d (take ?m pt) c1 = Some (xor_bytes (take ?m pt) (ctr_pad c1), c1\<lparr>ctr_padlen := ?m\<rparr>)"
        using ctr_loop_block [OF c1(2), of "take ?m pt"] True m by (simp add: min_absorb2 xor_bytes_map2)
      have IH: "ctr_loop_fast n d (drop ?m pt) (c1\<lparr>ctr_padlen := ?m\<rparr>) = ctr_loop d (drop ?m pt) (c1\<lparr>ctr_padlen := ?m\<rparr>)"
        using Suc.prems(2) m(1) by (intro Suc.IH wf) simp
      have "ctr_loop d pt c1 = ctr_loop d (take ?m pt @ drop ?m pt) c1" by simp
      also have "\<dots> = (case ctr_loop d (drop ?m pt) (c1\<lparr>ctr_padlen := ?m\<rparr>) of None \<Rightarrow> None
          | Some (y, c2) \<Rightarrow> Some (xor_bytes (take ?m pt) (ctr_pad c1) @ y, c2))"
        unfolding ctr_loop_append block by simp
      finally show ?thesis
        using True c1(1) IH ne unfolding again by (simp add: Let_def)
    next
      case False
      have IH: "ctr_loop_fast n d bs (c1\<lparr>ctr_padlen := ctr_padlen c1 + 1\<rparr>) = ctr_loop d bs (c1\<lparr>ctr_padlen := ctr_padlen c1 + 1\<rparr>)"
        using Suc.prems(2) by (intro Suc.IH wf_ctr_use [OF c1(2,3)]) (simp add: pt)
      then show ?thesis using False c1(1) by (auto simp: pt split: option.split)
    qed
  qed simp
qed simp

lemma ctr_loop_fast_length: "ctr_loop_fast n d pt c = Some (ct, c') \<Longrightarrow> length ct = length pt"
  by (induction n arbitrary: pt c ct) (auto simp: Let_def split: if_splits option.splits)

lemma ctr_encrypt_length: "ctr_encrypt cd pt c = Some (ct, c') \<Longrightarrow> length ct = length pt"
  by (auto simp: ctr_encrypt_def dest: ctr_loop_fast_length split: if_splits option.splits)

section \<open>The big endian counter\<close>

text \<open>The number a counter stands for, first byte most significant.\<close>

primrec be_val :: "byte list \<Rightarrow> nat" where
  "be_val [] = 0"
| "be_val (b # bs) = unat b * 256 ^ length bs + be_val bs"

lemma be_val_append: "be_val (xs @ ys) = be_val xs * 256 ^ length ys + be_val ys"
  by (induction xs) (simp_all add: power_add algebra_simps)

lemma be_val_less: "be_val xs < 256 ^ length xs"
proof (induction xs)
  case (Cons b xs)
  have b: "unat b < 256" by (rule unat_byte_less)
  then have "unat b * 256 ^ length xs + be_val xs < (unat b + 1) * 256 ^ length xs"
    using Cons by simp
  also have "\<dots> \<le> 256 * 256 ^ length xs" using b by (intro mult_right_mono) linarith+
  finally show ?case by simp
qed simp

lemma unat_byte_inc: "b + 1 \<noteq> (0 :: byte) \<Longrightarrow> unat (b + 1) = unat b + 1" "b + 1 = (0 :: byte) \<Longrightarrow> unat b = 255"
proof -
  show "b + 1 \<noteq> 0 \<Longrightarrow> unat (b + 1) = unat b + 1"
    using unatSuc [of b] by (simp add: add.commute)
  assume "b + 1 = 0"
  then have "b = - 1" by (simp add: eq_neg_iff_add_eq_0)
  then show "unat b = 255" by (simp add: unsigned_minus_1_eq_mask mask_eq_exp_minus_1)
qed

lemma ctr_inc_be_val:
  "x \<le> length c \<Longrightarrow> be_val (take x (ctr_inc_be 0 x c)) = (be_val (take x c) + 1) mod 256 ^ x
     \<and> drop x (ctr_inc_be 0 x c) = drop x c"
proof (induction x arbitrary: c)
  case (Suc x)
  let ?v = "c ! x + 1"
  have x: "x < length c" using Suc.prems by simp
  have tk: "take (Suc x) c = take x c @ [c ! x]" using x by (simp add: take_Suc_conv_app_nth)
  have val: "be_val (take (Suc x) c) = be_val (take x c) * 256 + unat (c ! x)"
    unfolding tk by (simp add: be_val_append)
  have less: "be_val (take x c) < 256 ^ x" using be_val_less [of "take x c"] x by simp
  show ?case
  proof (cases "?v = 0")
    case False
    have "take (Suc x) (c[x := ?v]) = take x c @ [?v]" using x by (simp add: take_Suc_conv_app_nth)
    then have "be_val (take (Suc x) (c[x := ?v])) = be_val (take (Suc x) c) + 1"
      using unat_byte_inc(1) [OF False] by (simp add: be_val_append val)
    moreover have "be_val (take (Suc x) c) + 1 < 256 ^ Suc x"
    proof -
      have "unat (c ! x) + 1 < 256" using unat_byte_inc(1) [OF False] unat_byte_less [of ?v] by linarith
      then show ?thesis using less val by simp
    qed
    ultimately show ?thesis using False x by (simp add: byte_and_255)
  next
    case True
    let ?c = "c[x := 0]"
    have IH: "be_val (take x (ctr_inc_be 0 x ?c)) = (be_val (take x c) + 1) mod 256 ^ x"
      "drop x (ctr_inc_be 0 x ?c) = 0 # drop (Suc x) c"
      using Suc.IH [of ?c] x by (simp_all add: drop_update_swap Cons_nth_drop_Suc [symmetric])
    have r: "ctr_inc_be 0 (Suc x) c = ctr_inc_be 0 x ?c" using True by (simp add: byte_and_255)
    have "take (Suc x) (ctr_inc_be 0 x ?c) = take x (ctr_inc_be 0 x ?c) @ [0]"
      using IH(2) x by (metis append_eq_conv_conj append_take_drop_id length_ctr_inc_be length_list_update less_imp_le_nat
          nth_via_drop take_Suc_conv_app_nth)
    then have "be_val (take (Suc x) (ctr_inc_be 0 (Suc x) c)) = ((be_val (take x c) + 1) mod 256 ^ x) * 256"
      unfolding r using IH(1) by (simp add: be_val_append)
    also have "\<dots> = ((be_val (take x c) + 1) * 256) mod 256 ^ Suc x"
      by (metis mult_mod_left mult.commute power_Suc)
    also have "(be_val (take x c) + 1) * 256 = be_val (take (Suc x) c) + 1"
      using val unat_byte_inc(2) [OF True] by simp
    finally have "be_val (take (Suc x) (ctr_inc_be 0 (Suc x) c)) = (be_val (take (Suc x) c) + 1) mod 256 ^ Suc x" .
    moreover have "drop (Suc x) (ctr_inc_be 0 (Suc x) c) = drop (Suc x) c"
      unfolding r using IH(2) by (metis drop_Suc list.sel(3) tl_drop)
    ultimately show ?thesis by blast
  qed
qed simp

section \<open>Chaining mode is inverted by decryption\<close>

definition ecb_inverse :: "ltc_cipher_descriptor \<Rightarrow> nat \<Rightarrow> symmetric_key \<Rightarrow> bool" where
  "ecb_inverse d bl key \<longleftrightarrow> (\<forall>x. length x = bl \<longrightarrow>
     (\<exists>y. ld_ecb_encrypt d x key = Some y \<and> length y = bl \<and> ld_ecb_decrypt d y key = Some x))"

definition wf_cbc :: "ltc_cipher_descriptor \<Rightarrow> symmetric_CBC \<Rightarrow> bool" where
  "wf_cbc d c \<longleftrightarrow> 1 \<le> cbc_blocklen c \<and> cbc_blocklen c \<le> 16 \<and> length (cbc_IV c) = cbc_blocklen c
     \<and> ecb_inverse d (cbc_blocklen c) (cbc_key c)"

lemma map2_xor_xor: "length a = length b \<Longrightarrow> map2 (XOR) (map2 (XOR) a b) a = (b :: byte list)"
proof (induction a b rule: list_induct2)
  case (Cons x xs y ys)
  have "(x XOR y) XOR x = y" by (metis xor.assoc xor.commute xor_self_eq xor.right_neutral)
  then show ?case using Cons by simp
qed simp

lemma cbc_loop_inverse:
  "wf_cbc d c \<Longrightarrow> length pt = n * cbc_blocklen c \<Longrightarrow>
     \<exists>ct c'. cbc_encrypt_loop n d pt c = Some (ct, c') \<and> length ct = length pt \<and> cbc_decrypt_loop n d ct c = Some (pt, c')
       \<and> wf_cbc d c' \<and> cbc_blocklen c' = cbc_blocklen c \<and> cbc_cipher c' = cbc_cipher c"
proof (induction n arbitrary: pt c)
  case (Suc n)
  let ?m = "cbc_blocklen c" and ?b = "take (cbc_blocklen c) pt"
  let ?x = "map2 (XOR) (cbc_IV c) ?b"
  have iv: "length (cbc_IV c) = ?m" and b: "length ?b = ?m"
    using Suc.prems by (simp_all add: wf_cbc_def)
  obtain y where y: "ld_ecb_encrypt d ?x (cbc_key c) = Some y" "length y = ?m" "ld_ecb_decrypt d y (cbc_key c) = Some ?x"
    using Suc.prems(1) iv b by (auto simp: wf_cbc_def ecb_inverse_def dest!: spec [of _ ?x])
  have wf: "wf_cbc d (c\<lparr>cbc_IV := y\<rparr>)" using Suc.prems(1) y(2) by (simp add: wf_cbc_def)
  obtain ct c' where IH: "cbc_encrypt_loop n d (drop ?m pt) (c\<lparr>cbc_IV := y\<rparr>) = Some (ct, c')" "length ct = length (drop ?m pt)"
    "cbc_decrypt_loop n d ct (c\<lparr>cbc_IV := y\<rparr>) = Some (drop ?m pt, c')" "wf_cbc d c'" "cbc_blocklen c' = ?m" "cbc_cipher c' = cbc_cipher c"
    using Suc.IH [OF wf, of "drop ?m pt"] Suc.prems(2) by auto
  have "map2 (XOR) ?x (cbc_IV c) = ?b" using iv b by (intro map2_xor_xor) simp
  then show ?case
    using y IH iv Suc.prems(2) by simp
qed simp

lemma cbc_decrypt_split:
  "cbc_decrypt_loop (m + n) d ct c = (case cbc_decrypt_loop m d ct c of None \<Rightarrow> None
     | Some (x, c1) \<Rightarrow> (case cbc_decrypt_loop n d (drop (m * cbc_blocklen c) ct) c1 of None \<Rightarrow> None | Some (y, c2) \<Rightarrow> Some (x @ y, c2)))"
  by (induction m arbitrary: ct c) (simp, auto simp: add.commute split: option.split)

text \<open>A cipher for the examples: every byte of a block is combined with the key.\<close>

definition xor_cipher :: ltc_cipher_descriptor where
  "xor_cipher = \<lparr>ld_block_length = 8, ld_setup = (\<lambda>key keylen rounds. Some (map ucast (take keylen key))),
     ld_ecb_encrypt = (\<lambda>x key. Some (map (\<lambda>b. b XOR ucast (hd key)) x)),
     ld_ecb_decrypt = (\<lambda>x key. Some (map (\<lambda>b. b XOR ucast (hd key)) x))\<rparr>"

text \<open>
  C18. Counter mode.  On a state whose cipher works, the code that takes whole blocks gives
  what the portable byte by byte code gives, for every length and every position
  in the pad, and always terminates with a result; running it again from the
  same state gives the input back, and the state left is the same.
\<close>

theorem ctr_mode_correct:
  assumes "cd (ctr_cipher ctr) = Some d" "wf_ctr d ctr" "ctr_blocklen ctr \<le> MAXBLOCKSIZE" "ctr_blocklen ctr mod 8 = 0"
  shows "\<exists>ct ctr'. ctr_encrypt cd pt ctr = Some (ct, ctr') \<and> ctr_loop d pt ctr = Some (ct, ctr') \<and> length ct = length pt
    \<and> wf_ctr d ctr' \<and> ctr_decrypt cd ct ctr = Some (pt, ctr')"
proof -
  have pl: "ctr_padlen ctr \<le> MAXBLOCKSIZE" "1 \<le> ctr_blocklen ctr" using assms(2,3) by (simp_all add: wf_ctr_def)
  have run: "ctr_encrypt cd x ctr = ctr_loop d x ctr" for x
    using assms pl by (simp add: ctr_encrypt_def ctr_loop_fast_eq)
  obtain ct ctr' where c: "ctr_loop d pt ctr = Some (ct, ctr')" "length ct = length pt" "wf_ctr d ctr'"
    using ctr_loop_total [OF assms(2)] by blast
  then show ?thesis
    using ctr_loop_invol [OF c(1)] by (simp add: run ctr_decrypt_def)
qed

definition xor_table :: cipher_table where
  "xor_table i = (if i = 3 then Some xor_cipher else None)"

definition example_ctr :: symmetric_CTR where
  "example_ctr = \<lparr>ctr_cipher = 3, ctr_blocklen = 8, ctr_padlen = 5, ctr_mode = 4096, ctr_ctrlen = 0,
     ctr_ctr = [0, 0, 0, 0, 0, 0, 255, 255], ctr_pad = [1, 2, 3, 4, 5, 6, 7, 8], ctr_key = [7]\<rparr>"

theorem ctr_mode_correct_witness:
  "\<exists>ct ctr'. ctr_encrypt xor_table [1, 2, 3, 4, 5] example_ctr = Some (ct, ctr')
     \<and> ctr_decrypt xor_table ct example_ctr = Some ([1, 2, 3, 4, 5], ctr')"
proof -
  have "wf_ctr xor_cipher example_ctr"
    by (simp add: wf_ctr_def ecb_ok_def example_ctr_def xor_cipher_def)
  then show ?thesis
    using ctr_mode_correct [of xor_table example_ctr xor_cipher "[1, 2, 3, 4, 5]"]
    by (auto simp: xor_table_def example_ctr_def MAXBLOCKSIZE_def)
qed

text \<open>
  C19. The counter counts.  As Dropbear starts it, big endian and over the whole block,
  each step of the counter adds one to the number it stands for, modulo its
  range, so that no pad is used twice before it wraps.
\<close>

theorem ctr_counter:
  assumes "ctr_mode ctr \<noteq> CTR_COUNTER_LITTLE_ENDIAN" "ctr_ctrlen ctr = 0" "length (ctr_ctr ctr) = ctr_blocklen ctr"
  shows "be_val (ctr_ctr (ctr_increment ctr)) = (be_val (ctr_ctr ctr) + 1) mod 256 ^ ctr_blocklen ctr"
  using ctr_inc_be_val [of "ctr_blocklen ctr" "ctr_ctr ctr"] assms by (simp add: ctr_increment_def)

theorem ctr_counter_witness:
  "be_val (ctr_ctr (ctr_increment example_ctr)) = 65536"
proof -
  have "be_val (ctr_ctr (ctr_increment example_ctr)) = (be_val (ctr_ctr example_ctr) + 1) mod 256 ^ ctr_blocklen example_ctr"
    by (rule ctr_counter) (simp_all add: example_ctr_def CTR_COUNTER_LITTLE_ENDIAN_def)
  then show ?thesis by (simp add: example_ctr_def)
qed

text \<open>
  C20. Chaining mode.  For a cipher whose decryption undoes its encryption, \<open>cbc_decrypt\<close> gives
  back what \<open>cbc_encrypt\<close> was given, for any whole number of blocks, and both leave the
  same vector for the next call.
\<close>

theorem cbc_roundtrip:
  assumes "cd (cbc_cipher cbc) = Some d" "wf_cbc d cbc" "cbc_blocklen cbc mod 8 = 0" "length pt mod cbc_blocklen cbc = 0"
  shows "\<exists>ct cbc'. cbc_encrypt cd pt cbc = Some (ct, cbc') \<and> length ct = length pt \<and> cbc_decrypt cd ct cbc = Some (pt, cbc')
    \<and> wf_cbc d cbc'"
proof -
  have n: "length pt = (length pt div cbc_blocklen cbc) * cbc_blocklen cbc" using assms(4) by (simp add: mod_0_imp_dvd)
  obtain ct cbc' where "cbc_encrypt_loop (length pt div cbc_blocklen cbc) d pt cbc = Some (ct, cbc')" "length ct = length pt"
    "cbc_decrypt_loop (length pt div cbc_blocklen cbc) d ct cbc = Some (pt, cbc')" "wf_cbc d cbc'"
    using cbc_loop_inverse [OF assms(2) n] by blast
  then show ?thesis
    using assms by (auto simp: cbc_encrypt_def cbc_decrypt_def wf_cbc_def MAXBLOCKSIZE_def)
qed

theorem cbc_roundtrip_witness:
  "\<exists>ct cbc'. cbc_encrypt xor_table [1, 2, 3, 4, 5, 6, 7, 8]
       \<lparr>cbc_cipher = 3, cbc_blocklen = 8, cbc_IV = replicate 8 9, cbc_key = [7]\<rparr> = Some (ct, cbc')
     \<and> cbc_decrypt xor_table ct \<lparr>cbc_cipher = 3, cbc_blocklen = 8, cbc_IV = replicate 8 9, cbc_key = [7]\<rparr>
         = Some ([1, 2, 3, 4, 5, 6, 7, 8], cbc')"
proof -
  let ?c = "\<lparr>cbc_cipher = 3, cbc_blocklen = 8, cbc_IV = replicate 8 9, cbc_key = [7]\<rparr>"
  have "map ((\<lambda>b. b XOR 7) \<circ> (\<lambda>b. b XOR 7)) x = (x :: byte list)" for x
    by (simp add: comp_def xor.assoc)
  then have "wf_cbc xor_cipher ?c"
    by (simp add: wf_cbc_def ecb_inverse_def xor_cipher_def)
  then show ?thesis
    using cbc_roundtrip [of xor_table ?c xor_cipher "[1, 2, 3, 4, 5, 6, 7, 8]"] by (auto simp: xor_table_def)
qed

end
