(* ===== verification/Endian.thy ===== *)
theory Endian
  imports Prelude
begin

text \<open>
  The little endian words and the 64 bit big endian store of libtomcrypt's
  \<open>tomcrypt_macros.h\<close>, and the numbers byte strings stand for.
\<close>

unbundle bit_operations_syntax

type_synonym u64 = "64 word"

definition STORE32L :: "u32 \<Rightarrow> byte list" where
  "STORE32L x = [ucast (x AND 255), ucast (drop_bit 8 x AND 255), ucast (drop_bit 16 x AND 255), ucast (drop_bit 24 x AND 255)]"

definition LOAD32L :: "byte list \<Rightarrow> u32" where
  "LOAD32L y = push_bit 24 (ucast (y ! 3 AND 255)) OR push_bit 16 (ucast (y ! 2 AND 255))
     OR push_bit 8 (ucast (y ! 1 AND 255)) OR ucast (y ! 0 AND 255)"

definition STORE64H :: "u64 \<Rightarrow> byte list" where
  "STORE64H x = [ucast (drop_bit 56 x AND 255), ucast (drop_bit 48 x AND 255), ucast (drop_bit 40 x AND 255),
     ucast (drop_bit 32 x AND 255), ucast (drop_bit 24 x AND 255), ucast (drop_bit 16 x AND 255),
     ucast (drop_bit 8 x AND 255), ucast (x AND 255)]"

text \<open>Rotation to the left, the portable form.\<close>

definition ROL :: "u32 \<Rightarrow> nat \<Rightarrow> u32" where
  "ROL x y = push_bit (y mod 32) x OR drop_bit ((32 - y mod 32) mod 32) x"

lemma length_STORE [simp]: "length (STORE32L x) = 4" "length (STORE64H y) = 8"
  by (simp_all add: STORE32L_def STORE64H_def)

text \<open>The number of a byte string, first byte least significant.\<close>

primrec le_val :: "byte list \<Rightarrow> nat" where
  "le_val [] = 0"
| "le_val (b # bs) = unat b + 256 * le_val bs"

lemma le_val_append: "le_val (xs @ ys) = le_val xs + 256 ^ length xs * le_val ys"
  by (induction xs) (simp_all add: algebra_simps)

lemma le_val_less: "le_val xs < 256 ^ length xs"
proof (induction xs)
  case (Cons b xs)
  have "unat b < 256" by (rule unat_byte_less)
  moreover have "le_val xs + 1 \<le> 256 ^ length xs" using Cons by simp
  ultimately have "unat b + 256 * le_val xs < 256 * 256 ^ length xs" by linarith
  then show ?case by simp
qed simp

lemma le_val_take: "k \<le> length xs \<Longrightarrow> le_val (take k xs) = le_val xs mod 256 ^ k"
proof -
  assume k: "k \<le> length xs"
  have "le_val xs = le_val (take k xs) + 256 ^ k * le_val (drop k xs)"
    using le_val_append [of "take k xs" "drop k xs"] k by simp
  then show ?thesis using le_val_less [of "take k xs"] k by simp
qed

lemma le_val_drop: "k \<le> length xs \<Longrightarrow> le_val (drop k xs) = le_val xs div 256 ^ k"
proof -
  assume k: "k \<le> length xs"
  have "le_val xs = le_val (take k xs) + 256 ^ k * le_val (drop k xs)"
    using le_val_append [of "take k xs" "drop k xs"] k by simp
  then show ?thesis using le_val_less [of "take k xs"] k by simp
qed

lemma or_plus:
  assumes "unat (x :: 'a :: len word) < 2 ^ n"
  shows "x OR push_bit n y = x + push_bit n y"
proof -
  have "take_bit n x = x" using assms by (simp add: word_eq_iff_unsigned [where ?'a = nat] unsigned_take_bit_eq take_bit_nat_eq_self)
  then have "\<not> bit x m" if "n \<le> m" for m using that by (metis bit_take_bit_iff not_less)
  then show ?thesis by (intro disjunctive_add [symmetric]) (auto simp: bit_simps)
qed

lemma unat_ucast_byte_of: "unat (ucast (x :: u32) :: byte) = unat x mod 256"
  by (simp add: unsigned_ucast_eq take_bit_eq_mod)

lemma unat_drop_bit_u32: "unat (drop_bit k x) = unat (x :: u32) div 2 ^ k"
proof -
  have "take_bit 32 (unat x) = unat x" by (rule take_bit_nat_eq_self) simp
  then show ?thesis by (subst unsigned_drop_bit_eq) (simp add: drop_bit_eq_div)
qed

lemma STORE32L_val: "le_val (STORE32L x) = unat x"
proof -
  let ?n = "unat x"
  have n: "?n < 4294967296" using unsigned_less [of x] by simp
  have "?n = ?n mod 256 + 256 * ((?n div 256) mod 256 + 256 * ((?n div 65536) mod 256 + 256 * (?n div 16777216)))"
  proof -
    have "?n div 65536 = ?n div 256 div 256" "?n div 16777216 = ?n div 256 div 256 div 256"
      by (simp_all flip: div_mult2_eq)
    then show ?thesis
      by (metis mult_div_mod_eq add.commute)
  qed
  moreover have "?n div 16777216 mod 256 = ?n div 16777216"
    using less_mult_imp_div_less [of ?n 256 16777216] n by simp
  ultimately show ?thesis
    by (simp add: STORE32L_def u32_ucast_and_255 unat_ucast_byte_of unat_drop_bit_u32)
qed

lemma STORE32L_LOAD32L_bytes: "STORE32L (LOAD32L [a, b, c, d]) = [a, b, c, d]"
proof -
  have "(ucast (drop_bit 24 (LOAD32L [a, b, c, d])) :: byte) = d"
    by (rule bit_word_eqI) (auto simp: LOAD32L_def byte_and_255 bit_simps dest: bit_imp_le_length)
  moreover have "(ucast (drop_bit 16 (LOAD32L [a, b, c, d])) :: byte) = c"
    by (rule bit_word_eqI) (auto simp: LOAD32L_def byte_and_255 bit_simps dest: bit_imp_le_length)
  moreover have "(ucast (drop_bit 8 (LOAD32L [a, b, c, d])) :: byte) = b"
    by (rule bit_word_eqI) (auto simp: LOAD32L_def byte_and_255 bit_simps dest: bit_imp_le_length)
  moreover have "(ucast (LOAD32L [a, b, c, d]) :: byte) = a"
    by (rule bit_word_eqI) (auto simp: LOAD32L_def byte_and_255 bit_simps dest: bit_imp_le_length)
  ultimately show ?thesis
    by (simp add: STORE32L_def u32_ucast_and_255)
qed

lemma STORE32L_LOAD32L: "length y = 4 \<Longrightarrow> STORE32L (LOAD32L y) = y"
  using length_4_cases STORE32L_LOAD32L_bytes by blast

lemma LOAD32L_val: "length y = 4 \<Longrightarrow> unat (LOAD32L y) = le_val y"
  by (metis STORE32L_val STORE32L_LOAD32L)

text \<open>A word loaded from the middle of a byte string.\<close>

lemma LOAD32L_mid:
  assumes "k + 4 \<le> length xs"
  shows "unat (LOAD32L (take 4 (drop k xs))) = le_val xs div 256 ^ k mod 4294967296"
proof -
  have "unat (LOAD32L (take 4 (drop k xs))) = le_val (take 4 (drop k xs))"
    using assms by (intro LOAD32L_val) simp
  also have "\<dots> = le_val (drop k xs) mod 256 ^ 4" using assms by (intro le_val_take) simp
  finally show ?thesis using assms by (simp add: le_val_drop)
qed

section \<open>Words and numbers\<close>

lemma unat_u32_le: "unat (x :: u32) \<le> 4294967295"
proof -
  have "unat x < 4294967296" by simp
  then show ?thesis by linarith
qed

lemma unat_u64_le: "unat (x :: u64) < 18446744073709551616"
  using unsigned_less [where ?'a = nat, of x] by simp

lemma unat_add_u32: "unat (a :: u32) + unat b < 4294967296 \<Longrightarrow> unat (a + b) = unat a + unat b"
  by (rule unat_add_lem [THEN iffD1]) simp

lemma unat_plus_u32: "unat (a :: u32) = x \<Longrightarrow> unat b = y \<Longrightarrow> unat (a + b) = (if x + y < 4294967296 then x + y else x + y - 4294967296)"
  using unat_plus_if' [of a b] by auto

lemma unat_add_u64: "unat (a :: u64) + unat b < 18446744073709551616 \<Longrightarrow> unat (a + b) = unat a + unat b"
  by (rule unat_add_lem [THEN iffD1]) simp

lemma unat_mul_u64: "unat (a :: u64) * unat b < 18446744073709551616 \<Longrightarrow> unat (a * b) = unat a * unat b"
  by (rule unat_mult_lem [THEN iffD1]) simp

lemma unat_mul_u32: "unat (a :: u32) * unat b < 4294967296 \<Longrightarrow> unat (a * b) = unat a * unat b"
  by (rule unat_mult_lem [THEN iffD1]) simp

lemma unat_ucast_u64: "unat (ucast (a :: u32) :: u64) = unat a"
proof -
  have "unat a < 4294967296" using unsigned_less [of a] by simp
  then have "unat a < 2 ^ 64" by (rule order_less_le_trans) simp
  from take_bit_nat_eq_self [OF this] show ?thesis by (simp add: unsigned_ucast_eq)
qed

lemma unat_ucast_u32: "unat (ucast (a :: u64) :: u32) = unat a mod 4294967296"
  by (simp add: unsigned_ucast_eq take_bit_eq_mod)

lemma unat_drop_bit_u64: "unat (drop_bit k x) = unat (x :: u64) div 2 ^ k"
proof -
  have "unat x < 18446744073709551616" using unsigned_less [of x] by simp
  then have "take_bit 64 (unat x) = unat x" by (intro take_bit_nat_eq_self) simp
  then show ?thesis by (subst unsigned_drop_bit_eq) (simp add: drop_bit_eq_div)
qed

end
