(* ===== verification/Chacha.thy ===== *)
theory Chacha
  imports Endian
begin

text \<open>
  The ChaCha stream cipher of libtomcrypt (\<open>src/libtomcrypt/src/stream/chacha/\<close>):
  \<open>chacha_setup\<close>, \<open>chacha_ivctr64\<close>, \<open>chacha_crypt\<close> and \<open>chacha_keystream\<close>.  \<open>None\<close> stands for a
  return code other than \<open>CRYPT_OK\<close> or for the abort of a failed \<open>LTC_ARGCHK\<close>.
\<close>

unbundle bit_operations_syntax

section \<open>The code\<close>

record chacha_state =
  cs_input :: "u32 list"
  cs_kstream :: "byte list"
  cs_ksleft :: nat
  cs_ivlen :: nat
  cs_rounds :: int

definition QUARTERROUND :: "nat \<Rightarrow> nat \<Rightarrow> nat \<Rightarrow> nat \<Rightarrow> u32 list \<Rightarrow> u32 list" where
  "QUARTERROUND a b c d x =
     (let x = x[a := x ! a + x ! b]; x = x[d := ROL (x ! d XOR x ! a) 16];
          x = x[c := x ! c + x ! d]; x = x[b := ROL (x ! b XOR x ! c) 12];
          x = x[a := x ! a + x ! b]; x = x[d := ROL (x ! d XOR x ! a) 8];
          x = x[c := x ! c + x ! d]; x = x[b := ROL (x ! b XOR x ! c) 7] in x)"

function chacha_rounds :: "int \<Rightarrow> u32 list \<Rightarrow> u32 list" where
  "chacha_rounds i x =
     (if i > 0 then
        let x = QUARTERROUND 0 4 8 12 x; x = QUARTERROUND 1 5 9 13 x;
            x = QUARTERROUND 2 6 10 14 x; x = QUARTERROUND 3 7 11 15 x;
            x = QUARTERROUND 0 5 10 15 x; x = QUARTERROUND 1 6 11 12 x;
            x = QUARTERROUND 2 7 8 13 x; x = QUARTERROUND 3 4 9 14 x in
        chacha_rounds (i - 2) x
      else x)"
  by pat_completeness auto
termination
  by (relation "measure (\<lambda>(i, x). nat i)") auto

declare chacha_rounds.simps [simp del]

definition chacha_block :: "u32 list \<Rightarrow> int \<Rightarrow> byte list" where
  "chacha_block inp rounds = concat (map STORE32L (map2 (+) (chacha_rounds rounds inp) inp))"

text \<open>The increment of the counter; \<open>None\<close> when it overflows.\<close>

definition chacha_inc :: "chacha_state \<Rightarrow> chacha_state option" where
  "chacha_inc st =
     (let i = cs_input st; i = i[12 := i ! 12 + 1] in
      if cs_ivlen st = 8 then
        (if i ! 12 = 0 then
           let i = i[13 := i ! 13 + 1] in
           if i ! 13 = 0 then None else Some (st\<lparr>cs_input := i\<rparr>)
         else Some (st\<lparr>cs_input := i\<rparr>))
      else if i ! 12 = 0 then None else Some (st\<lparr>cs_input := i\<rparr>))"

text \<open>The endless loop of \<open>chacha_crypt\<close>, which returns at the last block.\<close>

function chacha_loop :: "chacha_state \<Rightarrow> byte list \<Rightarrow> (byte list \<times> chacha_state) option" where
  "chacha_loop st inp =
     (let buf = chacha_block (cs_input st) (cs_rounds st) in
      case chacha_inc st of
        None \<Rightarrow> None
      | Some st \<Rightarrow>
          if length inp \<le> 64 then
            Some (xor_bytes inp buf,
                  st\<lparr>cs_ksleft := 64 - length inp,
                     cs_kstream := take (length inp) (cs_kstream st) @ drop (length inp) buf\<rparr>)
          else case chacha_loop st (drop 64 inp) of
                 None \<Rightarrow> None
               | Some (out, st) \<Rightarrow> Some (xor_bytes (take 64 inp) buf @ out, st))"
  by pat_completeness auto
termination
  by (relation "measure (\<lambda>(st, inp). length inp)") auto

declare chacha_loop.simps [simp del]

definition chacha_crypt :: "chacha_state \<Rightarrow> byte list \<Rightarrow> (byte list \<times> chacha_state) option" where
  "chacha_crypt st inp =
     (if inp = [] then Some ([], st)
      else if cs_ivlen st = 0 then None
      else if cs_ksleft st > 0 then
        let j = min (cs_ksleft st) (length inp);
            out = xor_bytes (take j inp) (drop (64 - cs_ksleft st) (cs_kstream st));
            st = st\<lparr>cs_ksleft := cs_ksleft st - j\<rparr>;
            inp = drop j inp in
        if inp = [] then Some (out, st)
        else case chacha_loop st inp of
               None \<Rightarrow> None
             | Some (out2, st) \<Rightarrow> Some (out @ out2, st)
      else chacha_loop st inp)"

definition chacha_keystream :: "chacha_state \<Rightarrow> nat \<Rightarrow> (byte list \<times> chacha_state) option" where
  "chacha_keystream st outlen =
     (if outlen = 0 then Some ([], st) else chacha_crypt st (replicate outlen 0))"

definition sigma :: "byte list" where "sigma = str ''expand 32-byte k''"
definition tau :: "byte list" where "tau = str ''expand 16-byte k''"

definition chacha_setup :: "chacha_state \<Rightarrow> byte list \<Rightarrow> int \<Rightarrow> chacha_state option" where
  "chacha_setup st key rounds =
     (if \<not> (length key = 32 \<or> length key = 16) then None
      else
        let rounds = (if rounds = 0 then 20 else rounds);
            i = cs_input st;
            i = i[4 := LOAD32L (take 4 key), 5 := LOAD32L (take 4 (drop 4 key)),
                  6 := LOAD32L (take 4 (drop 8 key)), 7 := LOAD32L (take 4 (drop 12 key))];
            constants = (if length key = 32 then sigma else tau);
            key = (if length key = 32 then drop 16 key else key);
            i = i[8 := LOAD32L (take 4 key), 9 := LOAD32L (take 4 (drop 4 key)),
                  10 := LOAD32L (take 4 (drop 8 key)), 11 := LOAD32L (take 4 (drop 12 key)),
                  0 := LOAD32L (take 4 constants), 1 := LOAD32L (take 4 (drop 4 constants)),
                  2 := LOAD32L (take 4 (drop 8 constants)), 3 := LOAD32L (take 4 (drop 12 constants))] in
        Some (st\<lparr>cs_input := i, cs_rounds := rounds, cs_ivlen := 0\<rparr>))"

definition chacha_ivctr64 :: "chacha_state \<Rightarrow> byte list \<Rightarrow> u64 \<Rightarrow> chacha_state option" where
  "chacha_ivctr64 st iv counter =
     (if length iv \<noteq> 8 then None
      else Some (st\<lparr>cs_input := (cs_input st)[12 := ucast (counter AND 0xFFFFFFFF), 13 := ucast (drop_bit 32 counter),
                                14 := LOAD32L (take 4 iv), 15 := LOAD32L (take 4 (drop 4 iv))],
                   cs_ksleft := 0, cs_ivlen := length iv\<rparr>))"

section \<open>The keystream\<close>

text \<open>The state as an array with a 64 bit counter in words 12 and 13.\<close>

definition set_counter :: "u32 list \<Rightarrow> u64 \<Rightarrow> u32 list" where
  "set_counter inp c = inp[12 := ucast c, 13 := ucast (drop_bit 32 c)]"

definition chacha_blocks :: "int \<Rightarrow> u32 list \<Rightarrow> u64 \<Rightarrow> nat \<Rightarrow> byte list" where
  "chacha_blocks rounds inp c n = concat (map (\<lambda>i. chacha_block (set_counter inp (c + of_nat i)) rounds) [0..<n])"

definition wf_chacha :: "chacha_state \<Rightarrow> bool" where
  "wf_chacha st \<longleftrightarrow> length (cs_input st) = 16 \<and> length (cs_kstream st) = 64"

lemma length_QUARTERROUND [simp]: "length (QUARTERROUND a b c d x) = length x"
  by (simp add: QUARTERROUND_def Let_def)

lemma length_chacha_rounds [simp]: "length (chacha_rounds i x) = length x"
  by (induction i x rule: chacha_rounds.induct) (subst chacha_rounds.simps, simp add: Let_def)

lemma length_concat_STORE: "length (concat (map STORE32L xs)) = 4 * length xs"
  by (induction xs) simp_all

lemma length_chacha_block [simp]: "length inp = 16 \<Longrightarrow> length (chacha_block inp rounds) = 64"
  unfolding chacha_block_def length_concat_STORE by simp

lemma chacha_loop_length: "chacha_loop st x = Some (y, st') \<Longrightarrow> length y = length x"
proof (induction st x arbitrary: y rule: chacha_loop.induct)
  case (1 st x)
  show ?case
  proof (cases "chacha_inc st")
    case None
    then show ?thesis using 1(2) by (subst (asm) chacha_loop.simps) simp
  next
    case (Some st1)
    show ?thesis
    proof (cases "length x \<le> 64")
      case True
      then show ?thesis using 1(2) Some by (subst (asm) chacha_loop.simps) (auto simp: Let_def)
    next
      case False
      then show ?thesis
        using 1(2) Some 1(1) [OF refl Some False] by (subst (asm) chacha_loop.simps) (auto simp: Let_def split: option.splits)
    qed
  qed
qed

lemma chacha_crypt_length: "chacha_crypt st x = Some (y, st') \<Longrightarrow> length y = length x"
  by (auto simp: chacha_crypt_def Let_def dest!: chacha_loop_length split: if_splits option.splits)

lemma length_set_counter [simp]: "length (set_counter inp c) = length inp"
  by (simp add: set_counter_def)

lemma length_chacha_blocks: "length inp = 16 \<Longrightarrow> length (chacha_blocks rounds inp c n) = 64 * n"
  by (induction n) (simp_all add: chacha_blocks_def)

lemma chacha_blocks_Suc:
  "chacha_blocks rounds inp c (Suc n) = chacha_block (set_counter inp c) rounds @ chacha_blocks rounds inp (c + 1) n"
  by (simp add: chacha_blocks_def map_upt_Suc add.assoc del: upt_Suc)

lemma set_counter_nth: "length inp = 16 \<Longrightarrow> set_counter inp c ! 12 = ucast c" "length inp = 16 \<Longrightarrow> set_counter inp c ! 13 = ucast (drop_bit 32 c)"
  by (simp_all add: set_counter_def)

lemma counter_words:
  "unat (ucast (c :: u64) :: u32) = unat c mod 4294967296" "unat (ucast (drop_bit 32 c) :: u32) = unat c div 4294967296"
proof -
  have "unat c div 4294967296 < 4294967296" using unat_u64_le [of c] by (intro less_mult_imp_div_less) simp
  then show "unat (ucast (drop_bit 32 c) :: u32) = unat c div 4294967296"
    by (simp only: unat_ucast_u32 unat_drop_bit_u64) simp
qed (rule unat_ucast_u32)

text \<open>Words 12 and 13 count: with the carry, and an overflow only after \<open>2 ^ 64 - 1\<close>.\<close>

lemma counter_inc:
  fixes c :: u64
  assumes "unat c + 1 < 2 ^ 64"
  defines "lo \<equiv> ucast c :: u32" and "hi \<equiv> ucast (drop_bit 32 c) :: u32"
  shows "lo + 1 \<noteq> 0 \<Longrightarrow> ucast (c + 1) = lo + 1 \<and> ucast (drop_bit 32 (c + 1)) = hi"
    and "lo + 1 = 0 \<Longrightarrow> hi + 1 \<noteq> 0 \<and> ucast (c + 1) = lo + 1 \<and> ucast (drop_bit 32 (c + 1)) = hi + 1"
proof -
  have c1: "unat (c + 1) = unat c + 1" using assms(1) by (subst unat_add_u64) simp_all
  have u: "unat lo = unat c mod 4294967296" "unat hi = unat c div 4294967296"
    "unat (ucast (drop_bit 32 (c + 1)) :: u32) = (unat c + 1) div 4294967296"
    unfolding lo_def hi_def counter_words(2) unfolding counter_words(1) c1 by (rule refl)+
  have "unat (ucast (c + 1) :: u32) = unat (lo + 1)"
    unfolding counter_words(1) c1 by (simp add: unat_word_ariths u mod_simps)
  then have lo: "ucast (c + 1) = lo + 1" by (rule unsigned_word_eqI)
  have z: "x + 1 = 0 \<longleftrightarrow> unat x + 1 = 4294967296" for x :: u32
  proof (cases "unat x + 1 < 4294967296")
    case True
    then have "unat (x + 1) = unat x + 1" by (simp add: unat_add_u32)
    then show ?thesis using True by (auto simp: word_unat_eq_iff)
  next
    case False
    then have u: "unat x = 4294967295" using unat_u32_le [of x] by simp
    then have "x = 4294967295" by (simp add: word_unat_eq_iff)
    then show ?thesis using u by simp
  qed
  have split: "unat c = 4294967296 * unat hi + unat lo" unfolding u by simp
  show "ucast (c + 1) = lo + 1 \<and> ucast (drop_bit 32 (c + 1)) = hi" if "lo + 1 \<noteq> 0"
  proof -
    have "unat lo + 1 < 4294967296" using that z [of lo] unat_u32_le [of lo] by linarith
    then have "unat (ucast (drop_bit 32 (c + 1)) :: u32) = unat hi" unfolding u(3) split by (intro div_nat_eqI) simp_all
    then show ?thesis using lo by (simp add: word_unat_eq_iff)
  qed
  show "hi + 1 \<noteq> 0 \<and> ucast (c + 1) = lo + 1 \<and> ucast (drop_bit 32 (c + 1)) = hi + 1" if "lo + 1 = 0"
  proof -
    have l: "unat lo + 1 = 4294967296" using that z by simp
    then have "unat c + 1 = 4294967296 * (unat hi + 1)" using split by simp
    moreover from this have h: "unat hi + 1 < 4294967296" using assms(1) by simp
    ultimately have "unat (ucast (drop_bit 32 (c + 1)) :: u32) = unat (hi + 1)" unfolding u(3) by (simp add: unat_add_u32)
    then show ?thesis using lo h z [of hi] by (simp add: word_unat_eq_iff)
  qed
qed

lemma chacha_inc_counter:
  assumes "length inp = 16" "cs_input st = set_counter inp c" "cs_ivlen st = 8" "unat c + 1 < 2 ^ 64"
  shows "chacha_inc st = Some (st\<lparr>cs_input := set_counter inp (c + 1)\<rparr>)"
proof (cases "(ucast c :: u32) + 1 = 0")
  case True
  note k = counter_inc(2) [OF assms(4) True]
  have "set_counter inp (c + 1) = (set_counter inp c)[12 := set_counter inp c ! 12 + 1, 13 := set_counter inp c ! 13 + 1]"
    using k assms(1) by (simp add: set_counter_def list_update_swap)
  then show ?thesis using True k assms(1-3) by (simp add: chacha_inc_def Let_def set_counter_nth)
next
  case False
  note k = counter_inc(1) [OF assms(4) False]
  have "set_counter inp (c + 1) = (set_counter inp c)[12 := set_counter inp c ! 12 + 1]"
    using k assms(1) by (simp add: set_counter_def list_update_swap)
  then show ?thesis using False k assms(1-3) by (simp add: chacha_inc_def Let_def set_counter_nth)
qed

definition blocks_of :: "nat \<Rightarrow> nat" where
  "blocks_of n = (n + 63) div 64"

lemma blocks_of_step: "64 < n \<Longrightarrow> blocks_of n = Suc (blocks_of (n - 64))" "n \<le> 64 \<Longrightarrow> 0 < n \<Longrightarrow> blocks_of n = 1"
proof -
  assume "64 < n"
  then have "n + 63 = 64 * 1 + (n - 64 + 63)" by simp
  then show "blocks_of n = Suc (blocks_of (n - 64))" unfolding blocks_of_def by (simp only: div_mult_self4)
next
  show "n \<le> 64 \<Longrightarrow> 0 < n \<Longrightarrow> blocks_of n = 1" unfolding blocks_of_def by (intro div_nat_eqI) simp_all
qed

lemma chacha_loop_stream:
  assumes "length inp = 16" "cs_input st = set_counter inp c" "cs_ivlen st = 8" "x \<noteq> []"
    "unat c + blocks_of (length x) < 2 ^ 64"
  shows "\<exists>ks. chacha_loop st x = Some (xor_bytes x (chacha_blocks (cs_rounds st) inp c (blocks_of (length x))),
    st\<lparr>cs_input := set_counter inp (c + of_nat (blocks_of (length x))),
       cs_ksleft := 64 * blocks_of (length x) - length x, cs_kstream := ks\<rparr>)
    \<and> (length (cs_kstream st) = 64 \<longrightarrow> length ks = 64)"
  using assms(2-)
proof (induction st x arbitrary: c rule: chacha_loop.induct)
  case (1 st x)
  let ?n = "length x"
  have pos: "0 < blocks_of ?n" using 1(4) blocks_of_step [of ?n] by (cases "64 < ?n") auto
  then have inc: "chacha_inc st = Some (st\<lparr>cs_input := set_counter inp (c + 1)\<rparr>)"
    using chacha_inc_counter [OF assms(1) 1(2,3)] 1(5) by simp
  have lb: "length (chacha_block (set_counter inp c) r) = 64" for r using assms(1) by simp
  show ?case
  proof (cases "?n \<le> 64")
    case True
    then have b: "blocks_of ?n = 1" using 1(4) by (simp add: blocks_of_step)
    have "chacha_blocks (cs_rounds st) inp c 1 = chacha_block (set_counter inp c) (cs_rounds st)"
      by (simp add: chacha_blocks_def)
    then show ?thesis using True lb inc 1(2) unfolding b by (subst chacha_loop.simps) (auto simp: min_absorb2 Let_def)
  next
    case False
    let ?st = "st\<lparr>cs_input := set_counter inp (c + 1)\<rparr>"
    have b: "blocks_of ?n = Suc (blocks_of (length (drop 64 x)))" using False by (simp add: blocks_of_step)
    have c1: "unat (c + 1) = unat c + 1" using 1(5) pos by (subst unat_add_u64) simp_all
    obtain ks where ks: "chacha_loop ?st (drop 64 x) = Some (xor_bytes (drop 64 x)
        (chacha_blocks (cs_rounds st) inp (c + 1) (blocks_of (length (drop 64 x)))),
        ?st\<lparr>cs_input := set_counter inp (c + 1 + of_nat (blocks_of (length (drop 64 x)))),
          cs_ksleft := 64 * blocks_of (length (drop 64 x)) - length (drop 64 x), cs_kstream := ks\<rparr>)"
      "length (cs_kstream st) = 64 \<longrightarrow> length ks = 64"
      using 1(1) [OF refl inc False, of "c + 1"] 1(3,5) False b c1 by auto
    have "xor_bytes x (chacha_blocks (cs_rounds st) inp c (blocks_of ?n)) =
        xor_bytes (take 64 x) (chacha_block (set_counter inp c) (cs_rounds st))
        @ xor_bytes (drop 64 x) (chacha_blocks (cs_rounds st) inp (c + 1) (blocks_of (length (drop 64 x))))"
      unfolding b chacha_blocks_Suc using xor_bytes_append [of "chacha_block (set_counter inp c) (cs_rounds st)" "take 64 x" "drop 64 x"] lb False
      by (simp add: min_absorb2)
    moreover have "64 * blocks_of ?n - ?n = 64 * blocks_of (length (drop 64 x)) - length (drop 64 x)" using b False by simp
    moreover have "c + of_nat (blocks_of ?n) = c + 1 + of_nat (blocks_of (length (drop 64 x)))" unfolding b by simp
    ultimately show ?thesis
      using ks False inc 1(2) by (intro exI [of _ ks], subst chacha_loop.simps) (simp add: Let_def add.assoc)
  qed
qed

text \<open>After \<open>chacha_ivctr64\<close> the cipher is the XOR with the blocks of the keystream, from the counter on.\<close>

lemma chacha_crypt_stream:
  assumes "wf_chacha st" "length iv = 8" "unat c + blocks_of (length x) < 2 ^ 64"
  defines "inp \<equiv> (cs_input st)[14 := LOAD32L (take 4 iv), 15 := LOAD32L (take 4 (drop 4 iv))]"
  defines "k \<equiv> chacha_blocks (cs_rounds st) inp c (blocks_of (length x))"
  shows "\<exists>st1 st2. chacha_ivctr64 st iv c = Some st1 \<and> chacha_crypt st1 x = Some (xor_bytes x k, st2)
    \<and> length x \<le> length k \<and> wf_chacha st2 \<and> take 12 (cs_input st2) = take 12 (cs_input st) \<and> cs_rounds st2 = cs_rounds st"
proof -
  have l: "length inp = 16" using assms(1) by (simp add: inp_def wf_chacha_def)
  have mask: "(ucast (c AND 0xFFFFFFFF) :: u32) = ucast c"
  proof -
    have "c AND 0xFFFFFFFF = take_bit 32 c" by (simp add: take_bit_eq_mask mask_eq_exp_minus_1)
    moreover have "(ucast (take_bit 32 c) :: u32) = ucast c" by (rule bit_word_eqI) (simp add: bit_simps)
    ultimately show ?thesis by (simp only:)
  qed
  define st1 where "st1 = st\<lparr>cs_input := set_counter inp c, cs_ksleft := 0, cs_ivlen := 8\<rparr>"
  have iv: "chacha_ivctr64 st iv c = Some st1"
  proof -
    have "(cs_input st)[12 := x, 13 := y, 14 := z, 15 := w] = (cs_input st)[14 := z, 15 := w, 12 := x, 13 := y]" for x y z w
      using assms(1) by (intro nth_equalityI) (simp_all add: wf_chacha_def nth_list_update)
    then show ?thesis unfolding chacha_ivctr64_def st1_def set_counter_def inp_def mask using assms(2) by simp
  qed
  have lk: "length k = 64 * blocks_of (length x)" by (simp add: k_def length_chacha_blocks l)
  have le: "length x \<le> 64 * blocks_of (length x)" unfolding blocks_of_def by linarith
  have keep: "take 12 (set_counter inp d) = take 12 (cs_input st)" for d
    by (simp add: set_counter_def inp_def)
  show ?thesis
  proof (cases "x = []")
    case True
    show ?thesis
      by (rule exI [of _ st1]) (use True iv keep assms(1) l in \<open>simp add: chacha_crypt_def xor_bytes_def st1_def wf_chacha_def\<close>)
  next
    case False
    obtain ks where "chacha_loop st1 x = Some (xor_bytes x k, st1\<lparr>cs_input := set_counter inp (c + of_nat (blocks_of (length x))),
        cs_ksleft := 64 * blocks_of (length x) - length x, cs_kstream := ks\<rparr>)" "length ks = 64"
      using chacha_loop_stream [OF l, of st1 c x] False assms(1,3) by (auto simp: st1_def k_def wf_chacha_def)
    then show ?thesis
      by - (rule exI [of _ st1], use iv keep l lk le False in \<open>simp add: chacha_crypt_def st1_def wf_chacha_def\<close>)
  qed
qed

text \<open>The first twelve words (constants and key) and the number of rounds are the key of a state.\<close>

definition same_key :: "chacha_state \<Rightarrow> chacha_state \<Rightarrow> bool" where
  "same_key s t \<longleftrightarrow> take 12 (cs_input s) = take 12 (cs_input t) \<and> cs_rounds s = cs_rounds t"

lemma same_key_words:
  assumes "wf_chacha s" "wf_chacha t" "same_key s t"
  shows "set_counter ((cs_input s)[14 := a, 15 := b]) c = set_counter ((cs_input t)[14 := a, 15 := b]) c"
proof (rule nth_equalityI)
  fix i assume "i < length (set_counter ((cs_input s)[14 := a, 15 := b]) c)"
  then have i: "i < 16" using assms(1) by (simp add: wf_chacha_def)
  have "cs_input s ! j = cs_input t ! j" if "j < 12" for j
    using assms(3) that unfolding same_key_def by (metis nth_take)
  then show "set_counter ((cs_input s)[14 := a, 15 := b]) c ! i = set_counter ((cs_input t)[14 := a, 15 := b]) c ! i"
    using i assms(1,2) by (cases "i < 12") (auto simp: set_counter_def nth_list_update wf_chacha_def)
qed (use assms in \<open>simp add: wf_chacha_def\<close>)

lemma same_key_blocks:
  assumes "wf_chacha s" "wf_chacha t" "same_key s t"
  shows "chacha_blocks (cs_rounds s) ((cs_input s)[14 := a, 15 := b]) c n = chacha_blocks (cs_rounds t) ((cs_input t)[14 := a, 15 := b]) c n"
  unfolding chacha_blocks_def same_key_words [OF assms] using assms(3) by (simp add: same_key_def)

text \<open>
  C17. After \<open>chacha_ivctr64\<close> with a counter that does not run over, \<open>chacha_crypt\<close> is the
  exclusive or of its input with the keystream: the blocks of the key, the nonce and
  the counter, one after another.  Running the output through any state with the same
  key, at the same nonce and counter, gives the input back.
\<close>

theorem chacha_stream_cipher:
  assumes "wf_chacha st" "length iv = 8" "unat c + blocks_of (length x) < 2 ^ 64"
  shows "\<exists>st1 st2 out. chacha_ivctr64 st iv c = Some st1 \<and> chacha_crypt st1 x = Some (out, st2)
    \<and> out = xor_bytes x (chacha_blocks (cs_rounds st)
        ((cs_input st)[14 := LOAD32L (take 4 iv), 15 := LOAD32L (take 4 (drop 4 iv))]) c (blocks_of (length x)))
    \<and> (\<forall>st'. wf_chacha st' \<and> same_key st st' \<longrightarrow>
         (\<exists>st3 st4. chacha_ivctr64 st' iv c = Some st3 \<and> chacha_crypt st3 out = Some (x, st4)))"
proof -
  let ?k = "\<lambda>st. chacha_blocks (cs_rounds st) ((cs_input st)[14 := LOAD32L (take 4 iv), 15 := LOAD32L (take 4 (drop 4 iv))]) c (blocks_of (length x))"
  obtain st1 st2 where e: "chacha_ivctr64 st iv c = Some st1" "chacha_crypt st1 x = Some (xor_bytes x (?k st), st2)" "length x \<le> length (?k st)"
    using chacha_crypt_stream [OF assms] by blast
  have l: "length (xor_bytes x (?k st)) = length x" by simp
  have "\<exists>st3 st4. chacha_ivctr64 st' iv c = Some st3 \<and> chacha_crypt st3 (xor_bytes x (?k st)) = Some (x, st4)"
    if "wf_chacha st'" "same_key st st'" for st'
  proof -
    have k: "?k st' = ?k st" using same_key_blocks [OF assms(1) that] by simp
    show ?thesis
      using chacha_crypt_stream [OF that(1) assms(2), of c "xor_bytes x (?k st)"] assms(3)
      unfolding l k xor_bytes_self by blast
  qed
  then show ?thesis using e by blast
qed

definition example_chacha :: chacha_state where
  "example_chacha = \<lparr>cs_input = replicate 16 0, cs_kstream = replicate 64 0, cs_ksleft = 0, cs_ivlen = 0, cs_rounds = 20\<rparr>"

theorem chacha_stream_cipher_witness:
  "wf_chacha example_chacha \<and> unat (1 :: u64) + blocks_of (length (replicate 100 (7 :: byte))) < 2 ^ 64 \<and>
   (\<exists>st1 st2 out. chacha_ivctr64 example_chacha (replicate 8 3) 1 = Some st1 \<and> chacha_crypt st1 (replicate 100 7) = Some (out, st2))"
proof -
  have w: "wf_chacha example_chacha" "unat (1 :: u64) + blocks_of (length (replicate 100 (7 :: byte))) < 2 ^ 64"
    by (simp_all add: wf_chacha_def example_chacha_def blocks_of_def)
  show ?thesis using w chacha_stream_cipher [OF w(1), of "replicate 8 3" 1 "replicate 100 7"] by auto
qed

end
