(* ===== verification/Poly1305.thy ===== *)
theory Poly1305
  imports Endian
begin

text \<open>
  The one time authenticator of \<open>src/libtomcrypt/src/mac/poly1305/poly1305.c\<close>: numbers
  modulo \<open>2 ^ 130 - 5\<close> in five limbs of 26 bits, 32 bit words with 64 bit products.  The
  model keeps every word at its width; the lemmas show that no operation
  overflows and that the result is the polynomial of the message at \<open>r\<close>.
\<close>

unbundle bit_operations_syntax

type_synonym limbs = "u32 \<times> u32 \<times> u32 \<times> u32 \<times> u32"

record poly1305_state =
  p_r :: limbs
  p_h :: limbs
  p_pad :: "u32 \<times> u32 \<times> u32 \<times> u32"
  p_leftover :: nat
  p_buffer :: "byte list"
  p_final :: bool

section \<open>The code\<close>

text \<open>The body of the loop of \<open>_poly1305_block\<close>: \<open>h += in\<close>, \<open>h *= r\<close>, and the partial reduction.\<close>

definition poly1305_add :: "u32 \<Rightarrow> limbs \<Rightarrow> byte list \<Rightarrow> limbs" where
  "poly1305_add hibit h inp = (case h of (h0, h1, h2, h3, h4) \<Rightarrow>
     (h0 + (LOAD32L (take 4 inp) AND 0x3ffffff),
      h1 + (drop_bit 2 (LOAD32L (take 4 (drop 3 inp))) AND 0x3ffffff),
      h2 + (drop_bit 4 (LOAD32L (take 4 (drop 6 inp))) AND 0x3ffffff),
      h3 + (drop_bit 6 (LOAD32L (take 4 (drop 9 inp))) AND 0x3ffffff),
      h4 + (drop_bit 8 (LOAD32L (take 4 (drop 12 inp))) OR hibit)))"

definition poly1305_mul :: "limbs \<Rightarrow> limbs \<Rightarrow> u64 \<times> u64 \<times> u64 \<times> u64 \<times> u64" where
  "poly1305_mul r h = (case r of (r0, r1, r2, r3, r4) \<Rightarrow> case h of (h0, h1, h2, h3, h4) \<Rightarrow>
     let s1 = r1 * 5; s2 = r2 * 5; s3 = r3 * 5; s4 = r4 * 5;
         m = (\<lambda>(a :: u32) (b :: u32). (ucast a :: u64) * ucast b) in
     (m h0 r0 + m h1 s4 + m h2 s3 + m h3 s2 + m h4 s1,
      m h0 r1 + m h1 r0 + m h2 s4 + m h3 s3 + m h4 s2,
      m h0 r2 + m h1 r1 + m h2 r0 + m h3 s4 + m h4 s3,
      m h0 r3 + m h1 r2 + m h2 r1 + m h3 r0 + m h4 s4,
      m h0 r4 + m h1 r3 + m h2 r2 + m h3 r1 + m h4 r0))"

definition poly1305_reduce :: "u64 \<times> u64 \<times> u64 \<times> u64 \<times> u64 \<Rightarrow> limbs" where
  "poly1305_reduce d = (case d of (d0, d1, d2, d3, d4) \<Rightarrow>
     let c = (ucast (drop_bit 26 d0) :: u32); h0 = ucast d0 AND 0x3ffffff;
         d1 = d1 + ucast c; c = (ucast (drop_bit 26 d1) :: u32); h1 = ucast d1 AND 0x3ffffff;
         d2 = d2 + ucast c; c = (ucast (drop_bit 26 d2) :: u32); h2 = ucast d2 AND 0x3ffffff;
         d3 = d3 + ucast c; c = (ucast (drop_bit 26 d3) :: u32); h3 = ucast d3 AND 0x3ffffff;
         d4 = d4 + ucast c; c = (ucast (drop_bit 26 d4) :: u32); h4 = ucast d4 AND 0x3ffffff;
         h0 = h0 + c * 5; c = drop_bit 26 h0; h0 = h0 AND 0x3ffffff;
         h1 = h1 + c in
     (h0, h1, h2, h3, h4))"

definition poly1305_step :: "u32 \<Rightarrow> limbs \<Rightarrow> limbs \<Rightarrow> byte list \<Rightarrow> limbs" where
  "poly1305_step hibit r h inp = poly1305_reduce (poly1305_mul r (poly1305_add hibit h inp))"

primrec poly1305_blocks :: "nat \<Rightarrow> u32 \<Rightarrow> limbs \<Rightarrow> limbs \<Rightarrow> byte list \<Rightarrow> limbs" where
  "poly1305_blocks 0 hibit r h inp = h"
| "poly1305_blocks (Suc n) hibit r h inp = poly1305_blocks n hibit r (poly1305_step hibit r h (take 16 inp)) (drop 16 inp)"

definition poly1305_block :: "poly1305_state \<Rightarrow> byte list \<Rightarrow> nat \<Rightarrow> poly1305_state" where
  "poly1305_block st inp inlen =
     (let hibit = (if p_final st then 0 else push_bit 24 1) in
      st\<lparr>p_h := poly1305_blocks (inlen div 16) hibit (p_r st) (p_h st) inp\<rparr>)"

text \<open>\<open>LTC_ARGCHK\<close> aborts; the buffer of the state is left as it was.\<close>

definition poly1305_init :: "poly1305_state \<Rightarrow> byte list \<Rightarrow> poly1305_state res" where
  "poly1305_init st key =
     (if length key \<noteq> 32 then Inl (Assert_fail ''LTC_ARGCHK keylen == 32'') else
      returnE (st\<lparr>p_r := (LOAD32L (take 4 key) AND 0x3ffffff,
             drop_bit 2 (LOAD32L (take 4 (drop 3 key))) AND 0x3ffff03,
             drop_bit 4 (LOAD32L (take 4 (drop 6 key))) AND 0x3ffc0ff,
             drop_bit 6 (LOAD32L (take 4 (drop 9 key))) AND 0x3f03fff,
             drop_bit 8 (LOAD32L (take 4 (drop 12 key))) AND 0x00fffff),
      p_h := (0, 0, 0, 0, 0),
      p_pad := (LOAD32L (take 4 (drop 16 key)), LOAD32L (take 4 (drop 20 key)),
               LOAD32L (take 4 (drop 24 key)), LOAD32L (take 4 (drop 28 key))),
      p_leftover := 0, p_final := False\<rparr>))"

text \<open>\<open>poly1305_process\<close> in two parts, the leftover and the full blocks. \<open>for (i = 0; i < n; i++) buffer[off + i] = in[i]\<close>\<close>

definition buffer_put :: "byte list \<Rightarrow> nat \<Rightarrow> byte list \<Rightarrow> byte list" where
  "buffer_put buf off bs = take off buf @ bs @ drop (off + length bs) buf"

definition poly1305_full_blocks :: "poly1305_state \<Rightarrow> byte list \<Rightarrow> poly1305_state" where
  "poly1305_full_blocks st inp =
     (let want = length inp div 16 * 16;
          (st, inp) = (if length inp \<ge> 16 then (poly1305_block st inp want, drop want inp) else (st, inp)) in
      if inp \<noteq> []
      then st\<lparr>p_buffer := buffer_put (p_buffer st) (p_leftover st) inp, p_leftover := p_leftover st + length inp\<rparr>
      else st)"

definition poly1305_process :: "poly1305_state \<Rightarrow> byte list \<Rightarrow> poly1305_state" where
  "poly1305_process st inp =
     (if inp = [] then st
      else if p_leftover st \<noteq> 0 then
        let want = min (16 - p_leftover st) (length inp);
            st = st\<lparr>p_buffer := buffer_put (p_buffer st) (p_leftover st) (take want inp),
                    p_leftover := p_leftover st + want\<rparr>;
            inp = drop want inp in
        if p_leftover st < 16 then st
        else poly1305_full_blocks ((poly1305_block st (p_buffer st) 16)\<lparr>p_leftover := 0\<rparr>) inp
      else poly1305_full_blocks st inp)"

text \<open>The end of \<open>poly1305_done\<close>: full carry, subtraction of the modulus, addition of the pad.\<close>

definition poly1305_carry :: "limbs \<Rightarrow> limbs" where
  "poly1305_carry h = (case h of (h0, h1, h2, h3, h4) \<Rightarrow>
     let c = drop_bit 26 h1; h1 = h1 AND 0x3ffffff;
         h2 = h2 + c; c = drop_bit 26 h2; h2 = h2 AND 0x3ffffff;
         h3 = h3 + c; c = drop_bit 26 h3; h3 = h3 AND 0x3ffffff;
         h4 = h4 + c; c = drop_bit 26 h4; h4 = h4 AND 0x3ffffff;
         h0 = h0 + c * 5; c = drop_bit 26 h0; h0 = h0 AND 0x3ffffff;
         h1 = h1 + c in
     (h0, h1, h2, h3, h4))"

definition poly1305_select :: "limbs \<Rightarrow> limbs" where
  "poly1305_select h = (case h of (h0, h1, h2, h3, h4) \<Rightarrow>
     let g0 = h0 + 5; c = drop_bit 26 g0; g0 = g0 AND 0x3ffffff;
         g1 = h1 + c; c = drop_bit 26 g1; g1 = g1 AND 0x3ffffff;
         g2 = h2 + c; c = drop_bit 26 g2; g2 = g2 AND 0x3ffffff;
         g3 = h3 + c; c = drop_bit 26 g3; g3 = g3 AND 0x3ffffff;
         g4 = h4 + c - push_bit 26 1;
         mask = drop_bit 31 g4 - 1;
         g0 = g0 AND mask; g1 = g1 AND mask; g2 = g2 AND mask; g3 = g3 AND mask; g4 = g4 AND mask;
         mask = NOT mask in
     ((h0 AND mask) OR g0, (h1 AND mask) OR g1, (h2 AND mask) OR g2, (h3 AND mask) OR g3, (h4 AND mask) OR g4))"

definition poly1305_pack :: "limbs \<Rightarrow> u32 \<times> u32 \<times> u32 \<times> u32" where
  "poly1305_pack h = (case h of (h0, h1, h2, h3, h4) \<Rightarrow>
     ((h0 OR push_bit 26 h1) AND 0xffffffff, (drop_bit 6 h1 OR push_bit 20 h2) AND 0xffffffff,
      (drop_bit 12 h2 OR push_bit 14 h3) AND 0xffffffff, (drop_bit 18 h3 OR push_bit 8 h4) AND 0xffffffff))"

definition poly1305_pad :: "u32 \<times> u32 \<times> u32 \<times> u32 \<Rightarrow> u32 \<times> u32 \<times> u32 \<times> u32 \<Rightarrow> byte list" where
  "poly1305_pad pad h = (case pad of (p0, p1, p2, p3) \<Rightarrow> case h of (h0, h1, h2, h3) \<Rightarrow>
     let f = (ucast h0 :: u64) + ucast p0; h0 = (ucast f :: u32);
         f = ucast h1 + ucast p1 + drop_bit 32 f; h1 = ucast f;
         f = ucast h2 + ucast p2 + drop_bit 32 f; h2 = ucast f;
         f = ucast h3 + ucast p3 + drop_bit 32 f; h3 = ucast f in
     STORE32L h0 @ STORE32L h1 @ STORE32L h2 @ STORE32L h3)"

definition poly1305_done :: "poly1305_state \<Rightarrow> nat \<Rightarrow> (byte list \<times> poly1305_state) res" where
  "poly1305_done st maclen =
     (if maclen < 16 then Inl (Assert_fail ''LTC_ARGCHK *maclen >= 16'') else
      let st = (if p_leftover st \<noteq> 0
                then let st1 = st\<lparr>p_buffer := take (p_leftover st) (p_buffer st) @ [1] @ replicate (15 - p_leftover st) 0,
                                  p_final := True\<rparr> in
                     poly1305_block st1 (p_buffer st1) 16
                else st);
          mac = poly1305_pad (p_pad st) (poly1305_pack (poly1305_select (poly1305_carry (p_h st)))) in
      returnE (mac, st\<lparr>p_h := (0, 0, 0, 0, 0), p_r := (0, 0, 0, 0, 0), p_pad := (0, 0, 0, 0)\<rparr>))"

section \<open>The specification\<close>

text \<open>RFC 8439: every block of up to 16 bytes is a number with a one bit on top.\<close>

definition P1305 :: nat where "P1305 = 2 ^ 130 - 5"

fun poly_spec :: "nat \<Rightarrow> nat \<Rightarrow> byte list \<Rightarrow> nat" where
  "poly_spec r a msg =
     (if msg = [] then a
      else poly_spec r ((a + le_val (take 16 msg @ [1])) * r mod P1305) (drop 16 msg))"

declare poly_spec.simps [simp del]

definition clamp :: "nat \<Rightarrow> nat" where
  "clamp r = r AND 0x0ffffffc0ffffffc0ffffffc0fffffff"

definition poly1305_spec :: "byte list \<Rightarrow> byte list \<Rightarrow> nat" where
  "poly1305_spec key msg =
     (poly_spec (clamp (le_val (take 16 key))) 0 msg + le_val (take 16 (drop 16 key))) mod 2 ^ 128"


section \<open>Limbs\<close>

definition limbs_val :: "limbs \<Rightarrow> nat" where
  "limbs_val h = (case h of (h0, h1, h2, h3, h4) \<Rightarrow>
     unat h0 + 2 ^ 26 * unat h1 + 2 ^ 52 * unat h2 + 2 ^ 78 * unat h3 + 2 ^ 104 * unat h4)"

definition limbs_bounded :: "nat \<Rightarrow> limbs \<Rightarrow> bool" where
  "limbs_bounded b h = (case h of (h0, h1, h2, h3, h4) \<Rightarrow>
     unat h0 < b \<and> unat h1 < b \<and> unat h2 < b \<and> unat h3 < b \<and> unat h4 < b)"

text \<open>What the loop keeps: every limb below \<open>2 ^ 26\<close>, the second with six bits to spare.\<close>

definition h_ok :: "limbs \<Rightarrow> bool" where
  "h_ok h = (case h of (h0, h1, h2, h3, h4) \<Rightarrow>
     unat h0 < 2 ^ 26 \<and> unat h1 < 2 ^ 26 + 64 \<and> unat h2 < 2 ^ 26 \<and> unat h3 < 2 ^ 26 \<and> unat h4 < 2 ^ 26)"

lemma unat_and_mask26: "unat (x AND 0x3ffffff :: u32) = unat x mod 2 ^ 26"
proof -
  have "x AND 0x3ffffff = take_bit 26 x" by (simp add: take_bit_eq_mask mask_eq_exp_minus_1)
  then have "unat (x AND 0x3ffffff) = take_bit 26 (unat x)" by (simp only: unsigned_take_bit_eq)
  then show ?thesis by (simp only: take_bit_eq_mod)
qed

lemma limb_slice:
  fixes N :: nat
  assumes "b + m \<le> 32"
  shows "N div 2 ^ a mod 2 ^ 32 div 2 ^ b mod 2 ^ m = N div 2 ^ (a + b) mod 2 ^ m"
proof -
  have "take_bit m (drop_bit b (take_bit 32 (drop_bit a N))) = take_bit m (drop_bit (a + b) N)"
  proof -
    have "m \<le> 32 - b" using assms by simp
    then show ?thesis by (simp add: drop_bit_take_bit min_absorb1 min_absorb2 add.commute)
  qed
  then show ?thesis by (simp only: take_bit_eq_mod drop_bit_eq_div)
qed

lemma limbs_nest:
  fixes N :: nat
  assumes "N = m0 + 2 ^ 26 * d1" "d1 = m1 + 2 ^ 26 * d2" "d2 = m2 + 2 ^ 26 * d3" "d3 = m3 + 2 ^ 26 * d4"
  shows "N = m0 + 2 ^ 26 * m1 + 2 ^ 52 * m2 + 2 ^ 78 * m3 + 2 ^ 104 * d4"
  unfolding assms by (simp add: algebra_simps)

lemma limbs_recompose:
  "(N :: nat) = N mod 2 ^ 26 + 2 ^ 26 * (N div 2 ^ 26 mod 2 ^ 26) + 2 ^ 52 * (N div 2 ^ 52 mod 2 ^ 26)
     + 2 ^ 78 * (N div 2 ^ 78 mod 2 ^ 26) + 2 ^ 104 * (N div 2 ^ 104)"
proof -
  have step: "N div 2 ^ k = N div 2 ^ k mod 2 ^ 26 + 2 ^ 26 * (N div 2 ^ (k + 26))" for k
    by (simp add: power_add div_mult2_eq)
  have "N = N mod 2 ^ 26 + 2 ^ 26 * (N div 2 ^ 26)" using step [of 0] by simp
  moreover have "N div 2 ^ 26 = N div 2 ^ 26 mod 2 ^ 26 + 2 ^ 26 * (N div 2 ^ 52)" using step [of 26] by simp
  moreover have "N div 2 ^ 52 = N div 2 ^ 52 mod 2 ^ 26 + 2 ^ 26 * (N div 2 ^ 78)" using step [of 52] by simp
  moreover have "N div 2 ^ 78 = N div 2 ^ 78 mod 2 ^ 26 + 2 ^ 26 * (N div 2 ^ 104)" using step [of 78] by simp
  ultimately show ?thesis by (rule limbs_nest)
qed


section \<open>One block\<close>

lemma or_hibit:
  assumes "unat (x :: u32) < 2 ^ 24" "hibit = 0 \<or> hibit = push_bit 24 1"
  shows "unat (x OR hibit) = unat x + unat hibit"
proof (cases "hibit = 0")
  case False
  then have h: "hibit = push_bit 24 1" using assms(2) by simp
  have "x OR hibit = x + hibit" unfolding h by (rule or_plus) (rule assms(1))
  moreover have "unat hibit = 2 ^ 24" by (simp add: h)
  ultimately show ?thesis using assms(1) by (simp add: unat_add_u32)
qed simp

lemma load_limb:
  assumes "length inp = 16" "k \<le> 12" "b + 26 \<le> 32" "a = 8 * k + b"
  shows "unat (drop_bit b (LOAD32L (take 4 (drop k inp))) AND 0x3ffffff) = le_val inp div 2 ^ a mod 2 ^ 26"
proof -
  have "unat (drop_bit b (LOAD32L (take 4 (drop k inp))) AND 0x3ffffff) = le_val inp div 256 ^ k mod 2 ^ 32 div 2 ^ b mod 2 ^ 26"
    using assms by (simp only: unat_and_mask26 unat_drop_bit_u32) (simp add: LOAD32L_mid)
  also have "(256 :: nat) ^ k = 2 ^ (8 * k)" by (simp add: power_mult)
  finally show ?thesis using limb_slice [OF assms(3), of "le_val inp" "8 * k"] assms(4) by simp
qed

lemma load_top:
  assumes "length inp = 16"
  shows "unat (drop_bit 8 (LOAD32L (take 4 (drop 12 inp)))) = le_val inp div 2 ^ 104"
    and "le_val inp div 2 ^ 104 < 2 ^ 24"
proof -
  have n: "le_val inp < 2 ^ 128" using le_val_less [of inp] assms by simp
  have "unat (drop_bit 8 (LOAD32L (take 4 (drop 12 inp)))) = le_val inp div 256 ^ 12 mod 4294967296 div 2 ^ 8"
    using LOAD32L_mid [of 12 inp] assms by (simp only: unat_drop_bit_u32)
  also have "le_val inp div 256 ^ 12 mod 4294967296 = le_val inp div 256 ^ 12"
    using n by (intro mod_less) (simp add: less_mult_imp_div_less)
  finally show "unat (drop_bit 8 (LOAD32L (take 4 (drop 12 inp)))) = le_val inp div 2 ^ 104"
    by (simp flip: div_mult2_eq)
  show "le_val inp div 2 ^ 104 < 2 ^ 24" using n by (intro less_mult_imp_div_less) simp
qed

lemma poly1305_add_val:
  assumes "h_ok h" "length inp = 16" "hibit = 0 \<or> hibit = push_bit 24 1"
  shows "limbs_val (poly1305_add hibit h inp) = limbs_val h + le_val inp + 2 ^ 104 * unat hibit"
    and "limbs_bounded (2 ^ 27 + 64) (poly1305_add hibit h inp)"
proof -
  obtain h0 h1 h2 h3 h4 where h: "h = (h0, h1, h2, h3, h4)" by (cases h)
  let ?N = "le_val inp"
  define m where "m = (\<lambda>k. ?N div 2 ^ k mod 2 ^ 26)"
  have m: "m k < 2 ^ 26" for k by (simp add: m_def)
  have l: "unat (LOAD32L (take 4 inp) AND 0x3ffffff) = m 0"
    "unat (drop_bit 2 (LOAD32L (take 4 (drop 3 inp))) AND 0x3ffffff) = m 26"
    "unat (drop_bit 4 (LOAD32L (take 4 (drop 6 inp))) AND 0x3ffffff) = m 52"
    "unat (drop_bit 6 (LOAD32L (take 4 (drop 9 inp))) AND 0x3ffffff) = m 78"
    using load_limb [OF assms(2), of 0 0 0] unfolding m_def drop_0 drop_bit_0 id_apply
    by (simp_all only: load_limb [OF assms(2)]) simp_all
  obtain q where q: "q = ?N div 2 ^ 104" by blast
  have q24: "q < 2 ^ 24" unfolding q by (rule load_top(2) [OF assms(2)])
  have t: "unat (drop_bit 8 (LOAD32L (take 4 (drop 12 inp))) OR hibit) = q + unat hibit"
    using or_hibit [OF _ assms(3)] q24 unfolding q load_top(1) [OF assms(2), symmetric] by blast
  have hb: "unat hibit \<le> 2 ^ 24" using assms(3) by auto
  have b: "unat h0 < 2 ^ 26" "unat h1 < 2 ^ 26 + 64" "unat h2 < 2 ^ 26" "unat h3 < 2 ^ 26" "unat h4 < 2 ^ 26"
    using assms(1) by (simp_all add: h_ok_def h)
  have s: "unat (h0 + (LOAD32L (take 4 inp) AND 0x3ffffff)) = unat h0 + m 0"
    "unat (h1 + (drop_bit 2 (LOAD32L (take 4 (drop 3 inp))) AND 0x3ffffff)) = unat h1 + m 26"
    "unat (h2 + (drop_bit 4 (LOAD32L (take 4 (drop 6 inp))) AND 0x3ffffff)) = unat h2 + m 52"
    "unat (h3 + (drop_bit 6 (LOAD32L (take 4 (drop 9 inp))) AND 0x3ffffff)) = unat h3 + m 78"
    "unat (h4 + (drop_bit 8 (LOAD32L (take 4 (drop 12 inp))) OR hibit)) = unat h4 + (q + unat hibit)"
    using b m [of 0] m [of 26] m [of 52] m [of 78] q24 hb
    by (unfold unat_plus_u32 [OF refl l(1)] unat_plus_u32 [OF refl l(2)] unat_plus_u32 [OF refl l(3)]
      unat_plus_u32 [OF refl l(4)] unat_plus_u32 [OF refl t]) simp_all
  have "?N = m 0 + 2 ^ 26 * m 26 + 2 ^ 52 * m 52 + 2 ^ 78 * m 78 + 2 ^ 104 * q"
    unfolding q m_def power_0 div_by_1 by (rule limbs_recompose)
  then show "limbs_val (poly1305_add hibit h inp) = limbs_val h + le_val inp + 2 ^ 104 * unat hibit"
    unfolding limbs_val_def poly1305_add_def h prod.case s by (simp add: algebra_simps)
  show "limbs_bounded (2 ^ 27 + 64) (poly1305_add hibit h inp)"
    unfolding limbs_bounded_def poly1305_add_def h prod.case s
    using b m [of 0] m [of 26] m [of 52] m [of 78] q24 hb by simp
qed


type_synonym dlimbs = "u64 \<times> u64 \<times> u64 \<times> u64 \<times> u64"

definition dlimbs_val :: "dlimbs \<Rightarrow> nat" where
  "dlimbs_val d = (case d of (d0, d1, d2, d3, d4) \<Rightarrow>
     unat d0 + 2 ^ 26 * unat d1 + 2 ^ 52 * unat d2 + 2 ^ 78 * unat d3 + 2 ^ 104 * unat d4)"

text \<open>The products stay below \<open>2 ^ 58 - 2 ^ 32\<close>, so that every carry fits 32 bits; the top one is smaller.\<close>

definition d_ok :: "dlimbs \<Rightarrow> bool" where
  "d_ok d = (case d of (d0, d1, d2, d3, d4) \<Rightarrow>
     unat d0 + 2 ^ 32 < 2 ^ 58 \<and> unat d1 + 2 ^ 32 < 2 ^ 58 \<and> unat d2 + 2 ^ 32 < 2 ^ 58
     \<and> unat d3 + 2 ^ 32 < 2 ^ 58 \<and> unat d4 < 5 * 2 ^ 53 + 2 ^ 35)"

lemma unat_mul_words: "unat ((ucast (a :: u32) :: u64) * ucast b) = unat a * unat (b :: u32)"
proof -
  have "unat a < 2 ^ 32" "unat b < 2 ^ 32" by simp_all
  then have "unat a * unat b < 2 ^ 32 * 2 ^ 32" by (intro mult_strict_mono) simp_all
  then show ?thesis by (subst unat_mul_u64) (simp_all add: unat_ucast_u64)
qed

lemma unat_sum5:
  assumes "unat (a :: u64) < 2 ^ 61" "unat b < 2 ^ 61" "unat c < 2 ^ 61" "unat d < 2 ^ 61" "unat e < 2 ^ 61"
  shows "unat (a + b + c + d + e) = unat a + unat b + unat c + unat d + unat e"
  using assms by (simp add: unat_add_u64)

lemma mul_bound: "a < 2 ^ 27 + 64 \<Longrightarrow> b < k \<Longrightarrow> a * b < (2 ^ 27 + 64) * (k :: nat)"
  by (intro mult_strict_mono) simp_all

lemma poly_product:
  fixes h0 h1 h2 h3 h4 r0 r1 r2 r3 r4 :: nat
  defines "d0 \<equiv> h0 * r0 + h1 * (r4 * 5) + h2 * (r3 * 5) + h3 * (r2 * 5) + h4 * (r1 * 5)"
    and "d1 \<equiv> h0 * r1 + h1 * r0 + h2 * (r4 * 5) + h3 * (r3 * 5) + h4 * (r2 * 5)"
    and "d2 \<equiv> h0 * r2 + h1 * r1 + h2 * r0 + h3 * (r4 * 5) + h4 * (r3 * 5)"
    and "d3 \<equiv> h0 * r3 + h1 * r2 + h2 * r1 + h3 * r0 + h4 * (r4 * 5)"
    and "d4 \<equiv> h0 * r4 + h1 * r3 + h2 * r2 + h3 * r1 + h4 * r0"
  shows "(h0 + 2 ^ 26 * h1 + 2 ^ 52 * h2 + 2 ^ 78 * h3 + 2 ^ 104 * h4) *
         (r0 + 2 ^ 26 * r1 + 2 ^ 52 * r2 + 2 ^ 78 * r3 + 2 ^ 104 * r4)
     = d0 + 2 ^ 26 * d1 + 2 ^ 52 * d2 + 2 ^ 78 * d3 + 2 ^ 104 * d4
       + P1305 * (h1 * r4 + h2 * r3 + h3 * r2 + h4 * r1 + 2 ^ 26 * (h2 * r4 + h3 * r3 + h4 * r2)
                  + 2 ^ 52 * (h3 * r4 + h4 * r3) + 2 ^ 78 * (h4 * r4))"
  unfolding P1305_def d0_def d1_def d2_def d3_def d4_def by (simp add: algebra_simps)


lemma poly1305_mul_val:
  assumes "limbs_bounded (2 ^ 27 + 64) h" "limbs_bounded (2 ^ 26) r"
  shows "d_ok (poly1305_mul r h)"
    and "dlimbs_val (poly1305_mul r h) mod P1305 = limbs_val h * limbs_val r mod P1305"
proof -
  obtain h0 h1 h2 h3 h4 where h: "h = (h0, h1, h2, h3, h4)" by (cases h)
  obtain r0 r1 r2 r3 r4 where r: "r = (r0, r1, r2, r3, r4)" by (cases r)
  let ?m = "\<lambda>(a :: u32) (b :: u32). (ucast a :: u64) * ucast b"
  have hb: "unat h0 < 2 ^ 27 + 64" "unat h1 < 2 ^ 27 + 64" "unat h2 < 2 ^ 27 + 64" "unat h3 < 2 ^ 27 + 64" "unat h4 < 2 ^ 27 + 64"
    using assms(1) by (simp_all add: limbs_bounded_def h)
  have rb: "unat r0 < 2 ^ 26" "unat r1 < 2 ^ 26" "unat r2 < 2 ^ 26" "unat r3 < 2 ^ 26" "unat r4 < 2 ^ 26"
    using assms(2) by (simp_all add: limbs_bounded_def r)
  have s: "unat (r1 * 5) = unat r1 * 5" "unat (r2 * 5) = unat r2 * 5" "unat (r3 * 5) = unat r3 * 5" "unat (r4 * 5) = unat r4 * 5"
    using rb by (simp_all add: unat_mul_u32)
  have small: "unat (?m a b) < (2 ^ 27 + 64) * 2 ^ 26" if "unat a < 2 ^ 27 + 64" "unat b < 2 ^ 26" for a b
    unfolding unat_mul_words by (rule mul_bound [OF that])
  have big: "unat (?m a (b * 5)) < (2 ^ 27 + 64) * (5 * 2 ^ 26)"
    if "unat a < 2 ^ 27 + 64" "unat b < 2 ^ 26" for a b
  proof -
    have b5: "unat (b * 5) = unat b * 5" using that(2) by (simp add: unat_mul_u32)
    show ?thesis using mul_bound [OF that(1), of "unat b * 5" "5 * 2 ^ 26"] that(2) by (simp add: unat_mul_words b5)
  qed
  note B = small [OF hb(1)] small [OF hb(2)] small [OF hb(3)] small [OF hb(4)] small [OF hb(5)]
    big [OF hb(2)] big [OF hb(3)] big [OF hb(4)] big [OF hb(5)]
  note lim = order_less_le_trans [OF small, where z = "2 ^ 61"] order_less_le_trans [OF big, where z = "2 ^ 61"]
  have d: "unat (?m h0 r0 + ?m h1 (r4 * 5) + ?m h2 (r3 * 5) + ?m h3 (r2 * 5) + ?m h4 (r1 * 5))
      = unat (?m h0 r0) + unat (?m h1 (r4 * 5)) + unat (?m h2 (r3 * 5)) + unat (?m h3 (r2 * 5)) + unat (?m h4 (r1 * 5))"
    "unat (?m h0 r1 + ?m h1 r0 + ?m h2 (r4 * 5) + ?m h3 (r3 * 5) + ?m h4 (r2 * 5))
      = unat (?m h0 r1) + unat (?m h1 r0) + unat (?m h2 (r4 * 5)) + unat (?m h3 (r3 * 5)) + unat (?m h4 (r2 * 5))"
    "unat (?m h0 r2 + ?m h1 r1 + ?m h2 r0 + ?m h3 (r4 * 5) + ?m h4 (r3 * 5))
      = unat (?m h0 r2) + unat (?m h1 r1) + unat (?m h2 r0) + unat (?m h3 (r4 * 5)) + unat (?m h4 (r3 * 5))"
    "unat (?m h0 r3 + ?m h1 r2 + ?m h2 r1 + ?m h3 r0 + ?m h4 (r4 * 5))
      = unat (?m h0 r3) + unat (?m h1 r2) + unat (?m h2 r1) + unat (?m h3 r0) + unat (?m h4 (r4 * 5))"
    "unat (?m h0 r4 + ?m h1 r3 + ?m h2 r2 + ?m h3 r1 + ?m h4 r0)
      = unat (?m h0 r4) + unat (?m h1 r3) + unat (?m h2 r2) + unat (?m h3 r1) + unat (?m h4 r0)"
    by (rule unat_sum5; rule lim; (rule hb rb | simp))+
  show "d_ok (poly1305_mul r h)"
    unfolding d_ok_def poly1305_mul_def h r Let_def prod.case d
    using B [OF rb(1)] B [OF rb(2)] B [OF rb(3)] B [OF rb(4)] B [OF rb(5)] by simp
  show "dlimbs_val (poly1305_mul r h) mod P1305 = limbs_val h * limbs_val r mod P1305"
    unfolding dlimbs_val_def limbs_val_def poly1305_mul_def h r Let_def prod.case d unat_mul_words s
    by (simp only: poly_product mod_mult_self2)
qed


lemma carry_chain:
  fixes d0 d1 d2 d3 d4 c0 c1 c2 c3 c4 m0 m1 m2 m3 m4 n0 k :: nat
  assumes "d0 = m0 + 2 ^ 26 * c0" "d1 + c0 = m1 + 2 ^ 26 * c1" "d2 + c1 = m2 + 2 ^ 26 * c2"
    "d3 + c2 = m3 + 2 ^ 26 * c3" "d4 + c3 = m4 + 2 ^ 26 * c4" "m0 + 5 * c4 = n0 + 2 ^ 26 * k"
  shows "d0 + 2 ^ 26 * d1 + 2 ^ 52 * d2 + 2 ^ 78 * d3 + 2 ^ 104 * d4
     = (n0 + 2 ^ 26 * (m1 + k) + 2 ^ 52 * m2 + 2 ^ 78 * m3 + 2 ^ 104 * m4) + P1305 * c4"
  using assms unfolding P1305_def by simp

lemma u64_limb:
  assumes "unat (d :: u64) < 2 ^ 58"
  shows "unat (ucast (drop_bit 26 d) :: u32) = unat d div 2 ^ 26" "unat (ucast d AND 0x3ffffff :: u32) = unat d mod 2 ^ 26"
proof -
  have "unat d div 2 ^ 26 < 4294967296" using assms by (intro less_mult_imp_div_less) simp
  then show "unat (ucast (drop_bit 26 d) :: u32) = unat d div 2 ^ 26" by (simp add: unat_ucast_u32 unat_drop_bit_u64)
  have "(2 :: nat) ^ 26 dvd 4294967296" by (rule dvdI [where k = 64]) simp
  then show "unat (ucast d AND 0x3ffffff :: u32) = unat d mod 2 ^ 26"
    by (simp only: unat_and_mask26 unat_ucast_u32 mod_mod_cancel)
qed

lemma div_mod_26: "(x :: nat) = x mod 2 ^ 26 + 2 ^ 26 * (x div 2 ^ 26)"
  by simp

lemma poly1305_reduce_val:
  assumes "d_ok d"
  shows "h_ok (poly1305_reduce d)" and "limbs_val (poly1305_reduce d) mod P1305 = dlimbs_val d mod P1305"
proof -
  obtain d0 d1 d2 d3 d4 where d: "d = (d0, d1, d2, d3, d4)" by (cases d)
  have b: "unat d0 + 2 ^ 32 < 2 ^ 58" "unat d1 + 2 ^ 32 < 2 ^ 58" "unat d2 + 2 ^ 32 < 2 ^ 58" "unat d3 + 2 ^ 32 < 2 ^ 58"
    "unat d4 < 5 * 2 ^ 53 + 2 ^ 35"
    using assms by (simp_all add: d_ok_def d)
  define low where "low = (\<lambda>e :: u64. ucast e AND 0x3ffffff :: u32)"
  define high where "high = (\<lambda>e :: u64. ucast (drop_bit 26 e) :: u32)"
  define e1 where "e1 = d1 + ucast (high d0)"
  define e2 where "e2 = d2 + ucast (high e1)"
  define e3 where "e3 = d3 + ucast (high e2)"
  define e4 where "e4 = d4 + ucast (high e3)"
  define f where "f = low d0 + high e4 * 5"
  have c: "unat (ucast (high e) :: u64) < 4294967296" for e by (simp add: unat_ucast_u64)
  have c': "unat (high e) \<le> 4294967295" for e using c [of e] unfolding unat_ucast_u64 by linarith
  have add: "unat (x + ucast (high y)) = unat x + unat (high y)" if "unat x + 2 ^ 32 < 2 ^ 58" for x :: u64 and y
    using that c [of y] by (simp add: unat_add_u64 flip: unat_ucast_u64)
  have e: "unat e1 = unat d1 + unat (high d0)" "unat e2 = unat d2 + unat (high e1)"
    "unat e3 = unat d3 + unat (high e2)" "unat e4 = unat d4 + unat (high e3)"
    unfolding e1_def e2_def e3_def e4_def by (rule add, use b in simp)+
  have eb: "unat d0 < 2 ^ 58" "unat e1 < 2 ^ 58" "unat e2 < 2 ^ 58" "unat e3 < 2 ^ 58" "unat e4 < 2 ^ 58" "unat e4 < 5 * 2 ^ 53 + 2 ^ 36"
    using b c' [of d0] c' [of e1] c' [of e2] c' [of e3] unfolding e by simp_all
  have l: "unat (high x) = unat x div 2 ^ 26" "unat (low x) = unat x mod 2 ^ 26" if "unat x < 2 ^ 58" for x
    using u64_limb [OF that] by (simp_all add: low_def high_def)
  have lb: "unat (low x) < 2 ^ 26" for x by (simp add: low_def unat_and_mask26)
  have c4: "unat (high e4) < 5 * 2 ^ 27 + 2 ^ 10"
    unfolding l(1) [OF eb(5)] using eb(6) by (intro less_mult_imp_div_less) simp
  have c5: "unat (high e4 * 5) = unat (high e4) * 5" using c4 by (simp add: unat_mul_u32)
  have f: "unat f = unat (low d0) + unat (high e4) * 5" unfolding f_def
    using c4 lb [of d0] by (simp add: unat_add_u32 c5)
  have fb: "unat (drop_bit 26 f) < 64" by (simp add: unat_drop_bit_u32 less_mult_imp_div_less)
  have k: "unat (low e1 + drop_bit 26 f) = unat (low e1) + unat (drop_bit 26 f)"
    using lb [of e1] fb by (simp add: unat_add_u32)
  have R: "poly1305_reduce d = (f AND 0x3ffffff, low e1 + drop_bit 26 f, low e2, low e3, low e4)"
    unfolding poly1305_reduce_def d prod.case Let_def f_def e4_def e3_def e2_def e1_def low_def high_def by (rule refl)
  show "h_ok (poly1305_reduce d)"
    unfolding R h_ok_def prod.case k using lb [of e1] lb [of e2] lb [of e3] lb [of e4] fb
    by (simp add: unat_and_mask26)
  have "dlimbs_val d = limbs_val (poly1305_reduce d) + P1305 * unat (high e4)"
    unfolding dlimbs_val_def limbs_val_def R unfolding d prod.case k unat_and_mask26 unat_drop_bit_u32
  proof (rule carry_chain)
    show "unat d0 = unat (low d0) + 2 ^ 26 * unat (high d0)" unfolding l [OF eb(1)] by (rule div_mod_26)
    show "unat d1 + unat (high d0) = unat (low e1) + 2 ^ 26 * unat (high e1)" unfolding l [OF eb(2)] e(1) [symmetric] by (rule div_mod_26)
    show "unat d2 + unat (high e1) = unat (low e2) + 2 ^ 26 * unat (high e2)" unfolding l [OF eb(3)] e(2) [symmetric] by (rule div_mod_26)
    show "unat d3 + unat (high e2) = unat (low e3) + 2 ^ 26 * unat (high e3)" unfolding l [OF eb(4)] e(3) [symmetric] by (rule div_mod_26)
    show "unat d4 + unat (high e3) = unat (low e4) + 2 ^ 26 * unat (high e4)" unfolding l [OF eb(5)] e(4) [symmetric] by (rule div_mod_26)
    show "unat (low d0) + 5 * unat (high e4) = unat f mod 2 ^ 26 + 2 ^ 26 * (unat f div 2 ^ 26)"
      unfolding f by simp
  qed
  then show "limbs_val (poly1305_reduce d) mod P1305 = dlimbs_val d mod P1305" by (simp only: mod_mult_self2)
qed


lemma poly1305_step_val:
  assumes "h_ok h" "limbs_bounded (2 ^ 26) r" "length inp = 16" "hibit = 0 \<or> hibit = push_bit 24 1"
  shows "h_ok (poly1305_step hibit r h inp)"
    and "limbs_val (poly1305_step hibit r h inp) mod P1305
       = (limbs_val h + le_val inp + 2 ^ 104 * unat hibit) * limbs_val r mod P1305"
proof -
  note a = poly1305_add_val [OF assms(1,3,4)]
  note m = poly1305_mul_val [OF a(2) assms(2)]
  note e = poly1305_reduce_val [OF m(1)]
  show "h_ok (poly1305_step hibit r h inp)" unfolding poly1305_step_def by (rule e(1))
  show "limbs_val (poly1305_step hibit r h inp) mod P1305
      = (limbs_val h + le_val inp + 2 ^ 104 * unat hibit) * limbs_val r mod P1305"
    unfolding poly1305_step_def e(2) m(2) a(1) by (rule refl)
qed

section \<open>The final reduction\<close>

definition reduced :: "limbs \<Rightarrow> bool" where
  "reduced h = limbs_bounded (2 ^ 26) h"

lemma carry26:
  assumes "unat (x :: u32) = n"
  shows "unat (x AND 0x3ffffff) = n mod 2 ^ 26" "unat (drop_bit 26 x) = n div 2 ^ 26"
  using assms by (simp_all only: unat_and_mask26 unat_drop_bit_u32)

lemma carry_le:
  assumes "(n :: nat) < 2 ^ 26" "c \<le> 1" "k \<le> 64"
  shows "(n + k * c) div 2 ^ 26 \<le> c"
proof (cases "c = 0")
  case False
  then have "c = 1" using assms(2) by simp
  then show ?thesis using less_mult_imp_div_less [of "n + k" 2 "2 ^ 26"] assms by simp
qed (use assms in simp)

lemma carry_wrap:
  assumes "(n :: nat) < 2 ^ 26 + 64" "k \<le> n div 2 ^ 26"
  shows "n mod 2 ^ 26 + k < 2 ^ 26" "n div 2 ^ 26 \<le> 1"
proof -
  show le: "n div 2 ^ 26 \<le> 1" using less_mult_imp_div_less [of n 2 "2 ^ 26"] assms(1) by simp
  consider "n div 2 ^ 26 = 0" | "n div 2 ^ 26 = 1" using le by linarith
  then show "n mod 2 ^ 26 + k < 2 ^ 26"
  proof cases
    case 1
    then show ?thesis using assms(2) by simp
  next
    case 2
    then have "n mod 2 ^ 26 < 64" using div_mod_26 [of n] assms(1) by simp
    then show ?thesis using assms(2) 2 by simp
  qed
qed

lemma poly1305_carry_val:
  assumes "h_ok h"
  shows "reduced (poly1305_carry h)" and "limbs_val (poly1305_carry h) mod P1305 = limbs_val h mod P1305"
proof -
  obtain h0 h1 h2 h3 h4 where h: "h = (h0, h1, h2, h3, h4)" by (cases h)
  have b: "unat h0 < 2 ^ 26" "unat h1 < 2 ^ 26 + 64" "unat h2 < 2 ^ 26" "unat h3 < 2 ^ 26" "unat h4 < 2 ^ 26"
    using assms by (simp_all add: h_ok_def h)
  define e2 where "e2 = h2 + drop_bit 26 h1"
  define e3 where "e3 = h3 + drop_bit 26 e2"
  define e4 where "e4 = h4 + drop_bit 26 e3"
  define f where "f = h0 + drop_bit 26 e4 * 5"
  have c1: "unat h1 div 2 ^ 26 \<le> 1" by (rule carry_wrap(2) [OF b(2) le_refl])
  have e2: "unat e2 = unat h2 + unat h1 div 2 ^ 26"
    unfolding e2_def using b(3) c1 by (subst unat_add_u32) (simp_all add: unat_drop_bit_u32)
  have c2: "unat e2 div 2 ^ 26 \<le> unat h1 div 2 ^ 26"
    using carry_le [OF b(3) c1, of 1] by (simp add: e2)
  have e3: "unat e3 = unat h3 + unat e2 div 2 ^ 26"
    unfolding e3_def using b(4) c1 c2 by (subst unat_add_u32) (simp_all add: unat_drop_bit_u32)
  have c3: "unat e3 div 2 ^ 26 \<le> unat e2 div 2 ^ 26"
    using carry_le [OF b(4) order_trans [OF c2 c1], of 1] by (simp add: e3)
  have e4: "unat e4 = unat h4 + unat e3 div 2 ^ 26"
    unfolding e4_def using b(5) c1 c2 c3 by (subst unat_add_u32) (simp_all add: unat_drop_bit_u32)
  have c4: "unat e4 div 2 ^ 26 \<le> unat e3 div 2 ^ 26"
    using carry_le [OF b(5) order_trans [OF c3 order_trans [OF c2 c1]], of 1] by (simp add: e4)
  have c41: "unat e4 div 2 ^ 26 \<le> 1" using c1 c2 c3 c4 by linarith
  have m5: "unat (drop_bit 26 e4 * 5) = unat e4 div 2 ^ 26 * 5"
    using c41 by (subst unat_mul_u32) (simp_all add: unat_drop_bit_u32)
  have f: "unat f = unat h0 + 5 * (unat e4 div 2 ^ 26)"
    unfolding f_def using b(1) c41 by (subst unat_add_u32) (simp_all add: m5)
  have cf: "unat f div 2 ^ 26 \<le> unat e4 div 2 ^ 26" unfolding f using c41 by (intro carry_le b(1)) simp_all
  have le: "unat f div 2 ^ 26 \<le> unat h1 div 2 ^ 26" using cf c4 c3 c2 by linarith
  have s: "unat h1 mod 2 ^ 26 + unat f div 2 ^ 26 < 2 ^ 26" by (rule carry_wrap(1) [OF b(2) le])
  have k: "unat ((h1 AND 0x3ffffff) + drop_bit 26 f) = unat h1 mod 2 ^ 26 + unat f div 2 ^ 26"
    using s by (subst unat_add_u32) (simp_all only: unat_and_mask26 unat_drop_bit_u32, simp)
  have R: "poly1305_carry h = (f AND 0x3ffffff, (h1 AND 0x3ffffff) + drop_bit 26 f,
      e2 AND 0x3ffffff, e3 AND 0x3ffffff, e4 AND 0x3ffffff)"
    unfolding poly1305_carry_def h prod.case Let_def f_def e4_def e3_def e2_def by (rule refl)
  show "reduced (poly1305_carry h)"
    unfolding R reduced_def limbs_bounded_def prod.case k unat_and_mask26 using s by simp
  have "limbs_val h = limbs_val (poly1305_carry h) + P1305 * (unat e4 div 2 ^ 26)"
    unfolding limbs_val_def R unfolding h prod.case k unat_and_mask26
  proof (rule carry_chain [where ?c0.0 = 0 and ?m0.0 = "unat h0"])
    show "unat h0 = unat h0 + 2 ^ 26 * 0" by simp
    show "unat h1 + 0 = unat h1 mod 2 ^ 26 + 2 ^ 26 * (unat h1 div 2 ^ 26)" by simp
    show "unat h2 + unat h1 div 2 ^ 26 = unat e2 mod 2 ^ 26 + 2 ^ 26 * (unat e2 div 2 ^ 26)" unfolding e2 by simp
    show "unat h3 + unat e2 div 2 ^ 26 = unat e3 mod 2 ^ 26 + 2 ^ 26 * (unat e3 div 2 ^ 26)" unfolding e3 by simp
    show "unat h4 + unat e3 div 2 ^ 26 = unat e4 mod 2 ^ 26 + 2 ^ 26 * (unat e4 div 2 ^ 26)" unfolding e4 by simp
    show "unat h0 + 5 * (unat e4 div 2 ^ 26) = unat f mod 2 ^ 26 + 2 ^ 26 * (unat f div 2 ^ 26)" unfolding f by simp
  qed
  then show "limbs_val (poly1305_carry h) mod P1305 = limbs_val h mod P1305" by (simp only: mod_mult_self2)
qed


lemma select_chain:
  fixes h0 h1 h2 h3 h4 c0 c1 c2 c3 m0 m1 m2 m3 :: nat
  assumes "h0 + 5 = m0 + 2 ^ 26 * c0" "h1 + c0 = m1 + 2 ^ 26 * c1" "h2 + c1 = m2 + 2 ^ 26 * c2" "h3 + c2 = m3 + 2 ^ 26 * c3"
  shows "h0 + 2 ^ 26 * h1 + 2 ^ 52 * h2 + 2 ^ 78 * h3 + 2 ^ 104 * h4 + 5
     = m0 + 2 ^ 26 * m1 + 2 ^ 52 * m2 + 2 ^ 78 * m3 + 2 ^ 104 * (h4 + c3)"
  using assms by simp

lemma select_mask:
  fixes g :: u32
  assumes "unat g \<le> 2 ^ 26"
  shows "drop_bit 31 (g - push_bit 26 1) - 1 = (if unat g = 2 ^ 26 then - 1 else 0 :: u32)"
proof (cases "unat g = 2 ^ 26")
  case True
  then have "g = push_bit 26 1" by (simp add: word_unat_eq_iff)
  then show ?thesis using True by simp
next
  case False
  have p: "unat (push_bit 26 1 :: u32) = 67108864" by simp
  have "unat (g - push_bit 26 1) = 4294967296 + unat g - 67108864"
    unfolding unat_sub_if' p using False assms by (simp add: word_le_nat_alt)
  then have "unat (drop_bit 31 (g - push_bit 26 1)) = (4294967296 + unat g - 67108864) div 2 ^ 31"
    by (simp only: unat_drop_bit_u32)
  also have "\<dots> = 1" using False assms by (intro div_nat_eqI) simp_all
  finally have "drop_bit 31 (g - push_bit 26 1) = 1" by (simp add: word_unat_eq_iff)
  then show ?thesis using False by simp
qed

lemma limbs_val_lower:
  fixes m0 m1 m2 m3 :: nat
  assumes "m0 < 2 ^ 26" "m1 < 2 ^ 26" "m2 < 2 ^ 26" "m3 < 2 ^ 26"
  shows "m0 + 2 ^ 26 * m1 + 2 ^ 52 * m2 + 2 ^ 78 * m3 < 2 ^ 104"
  using assms by simp

lemma poly1305_select_val:
  assumes "reduced h"
  shows "reduced (poly1305_select h)" and "limbs_val (poly1305_select h) = limbs_val h mod P1305"
proof -
  obtain h0 h1 h2 h3 h4 where h: "h = (h0, h1, h2, h3, h4)" by (cases h)
  have b: "unat h0 < 2 ^ 26" "unat h1 < 2 ^ 26" "unat h2 < 2 ^ 26" "unat h3 < 2 ^ 26" "unat h4 < 2 ^ 26"
    using assms by (simp_all add: reduced_def limbs_bounded_def h)
  define g0 where "g0 = h0 + 5"
  define g1 where "g1 = h1 + drop_bit 26 g0"
  define g2 where "g2 = h2 + drop_bit 26 g1"
  define g3 where "g3 = h3 + drop_bit 26 g2"
  define g4 where "g4 = h4 + drop_bit 26 g3"
  define mask where "mask = drop_bit 31 (g4 - push_bit 26 1) - 1"
  have g0: "unat g0 = unat h0 + 5" unfolding g0_def using b(1) by (subst unat_add_u32) simp_all
  have c0: "unat g0 div 2 ^ 26 \<le> 1" using carry_le [OF b(1), of 1 5] by (simp add: g0)
  have g1: "unat g1 = unat h1 + unat g0 div 2 ^ 26"
    unfolding g1_def using b(2) c0 by (subst unat_add_u32) (simp_all add: unat_drop_bit_u32)
  have c1: "unat g1 div 2 ^ 26 \<le> 1" using carry_le [OF b(2) c0, of 1] c0 by (simp add: g1)
  have g2: "unat g2 = unat h2 + unat g1 div 2 ^ 26"
    unfolding g2_def using b(3) c1 by (subst unat_add_u32) (simp_all add: unat_drop_bit_u32)
  have c2: "unat g2 div 2 ^ 26 \<le> 1" using carry_le [OF b(3) c1, of 1] c1 by (simp add: g2)
  have g3: "unat g3 = unat h3 + unat g2 div 2 ^ 26"
    unfolding g3_def using b(4) c2 by (subst unat_add_u32) (simp_all add: unat_drop_bit_u32)
  have c3: "unat g3 div 2 ^ 26 \<le> 1" using carry_le [OF b(4) c2, of 1] c2 by (simp add: g3)
  have g4: "unat g4 = unat h4 + unat g3 div 2 ^ 26"
    unfolding g4_def using b(5) c3 by (subst unat_add_u32) (simp_all add: unat_drop_bit_u32)
  have g4le: "unat g4 \<le> 2 ^ 26" unfolding g4 using b(5) c3 by linarith
  define low where "low = unat g0 mod 2 ^ 26 + 2 ^ 26 * (unat g1 mod 2 ^ 26) + 2 ^ 52 * (unat g2 mod 2 ^ 26) + 2 ^ 78 * (unat g3 mod 2 ^ 26)"
  have lowb: "low < 2 ^ 104" unfolding low_def by (rule limbs_val_lower) simp_all
  have V: "limbs_val h + 5 = low + 2 ^ 104 * unat g4"
    unfolding limbs_val_def h prod.case low_def g4
    by (rule select_chain; unfold g0 g1 g2 g3; rule div_mod_26)
  have R: "poly1305_select h =
      ((h0 AND NOT mask) OR ((g0 AND 0x3ffffff) AND mask), (h1 AND NOT mask) OR ((g1 AND 0x3ffffff) AND mask),
       (h2 AND NOT mask) OR ((g2 AND 0x3ffffff) AND mask), (h3 AND NOT mask) OR ((g3 AND 0x3ffffff) AND mask),
       (h4 AND NOT mask) OR ((g4 - push_bit 26 1) AND mask))"
    unfolding poly1305_select_def h prod.case Let_def mask_def g4_def g3_def g2_def g1_def g0_def by (rule refl)
  have "reduced (poly1305_select h) \<and> limbs_val (poly1305_select h) = limbs_val h mod P1305"
  proof (cases "unat g4 = 2 ^ 26")
    case True
    then have m: "mask = - 1" using select_mask [OF g4le] by (simp add: mask_def)
    have "g4 = push_bit 26 1" using True by (simp add: word_unat_eq_iff)
    then have z: "g4 - push_bit 26 1 = 0" by simp
    have S: "poly1305_select h = (g0 AND 0x3ffffff, g1 AND 0x3ffffff, g2 AND 0x3ffffff, g3 AND 0x3ffffff, 0)"
      unfolding R m z by simp
    have lv: "limbs_val (poly1305_select h) = low"
      unfolding S limbs_val_def prod.case unat_and_mask26 low_def by simp
    have "limbs_val h = low + P1305" using V unfolding True P1305_def by simp
    moreover have "low < P1305" using lowb by (simp add: P1305_def)
    ultimately have "limbs_val h mod P1305 = low" by simp
    moreover have "reduced (poly1305_select h)"
      unfolding S reduced_def limbs_bounded_def prod.case unat_and_mask26 by simp
    ultimately show ?thesis using lv by simp
  next
    case False
    then have m: "mask = 0" using select_mask [OF g4le] by (simp add: mask_def)
    have S: "poly1305_select h = h" unfolding R unfolding m h by simp
    have "unat g4 + 1 \<le> 2 ^ 26" using False g4le by simp
    then have "2 ^ 104 * (unat g4 + 1) \<le> 2 ^ 104 * 2 ^ 26" by (rule mult_le_mono2)
    then have "limbs_val h < P1305" using V lowb by (simp add: P1305_def)
    then show ?thesis using S assms by simp
  qed
  then show "reduced (poly1305_select h)" and "limbs_val (poly1305_select h) = limbs_val h mod P1305" by simp_all
qed


definition words_val :: "u32 \<times> u32 \<times> u32 \<times> u32 \<Rightarrow> nat" where
  "words_val w = (case w of (w0, w1, w2, w3) \<Rightarrow> unat w0 + 2 ^ 32 * unat w1 + 2 ^ 64 * unat w2 + 2 ^ 96 * unat w3)"

lemma unat_or_push:
  assumes "unat (x :: u32) < 2 ^ n" "n + k = 32"
  shows "unat ((x OR push_bit n y) AND 0xffffffff) = unat x + 2 ^ n * (unat y mod 2 ^ k)"
proof -
  have pb: "unat (push_bit n y) = 2 ^ n * (unat y mod 2 ^ k)"
  proof -
    have "unat (push_bit n y) = take_bit 32 (push_bit n (unat y))" by (simp add: unsigned_push_bit_eq)
    also have "\<dots> = 2 ^ n * unat y mod (2 ^ n * 2 ^ k)"
      unfolding assms(2) [symmetric] take_bit_eq_mod push_bit_eq_mult power_add by (simp only: mult.commute)
    also have "\<dots> = 2 ^ n * (unat y mod 2 ^ k)" by (rule mult_mod_right [symmetric])
    finally show ?thesis .
  qed
  have "unat y mod 2 ^ k + 1 \<le> 2 ^ k" by (simp add: Suc_leI)
  then have "2 ^ n * (unat y mod 2 ^ k + 1) \<le> 2 ^ n * 2 ^ k" by (rule mult_le_mono2)
  then have "unat x + 2 ^ n * (unat y mod 2 ^ k) < 2 ^ (n + k)" using assms(1) by (simp add: power_add)
  then have "unat x + unat (push_bit n y) < 4294967296" unfolding assms(2) pb by simp
  then have "unat (x OR push_bit n y) = unat x + 2 ^ n * (unat y mod 2 ^ k)"
    unfolding or_plus [OF assms(1)] pb [symmetric] by (rule unat_add_u32)
  moreover have "(0xffffffff :: u32) = - 1" by simp
  then have "z AND 0xffffffff = z" for z :: u32 by (simp only: and.right_neutral)
  ultimately show ?thesis by simp
qed

lemma pack_sum:
  fixes h0 h1 h2 h3 h4 :: nat
  assumes "h0 < 2 ^ 26" "h1 < 2 ^ 26" "h2 < 2 ^ 26" "h3 < 2 ^ 26"
  shows "(h0 + 2 ^ 26 * (h1 mod 2 ^ 6)) + 2 ^ 32 * (h1 div 2 ^ 6 + 2 ^ 20 * (h2 mod 2 ^ 12))
      + 2 ^ 64 * (h2 div 2 ^ 12 + 2 ^ 14 * (h3 mod 2 ^ 18)) + 2 ^ 96 * (h3 div 2 ^ 18 + 2 ^ 8 * (h4 mod 2 ^ 24))
    = (h0 + 2 ^ 26 * h1 + 2 ^ 52 * h2 + 2 ^ 78 * h3 + 2 ^ 104 * h4) mod 2 ^ 128"
proof -
  define a where "a = h0 + 2 ^ 26 * h1 + 2 ^ 52 * h2 + 2 ^ 78 * h3"
  have ab: "a < 2 ^ 104" unfolding a_def using assms by (intro limbs_val_lower)
  have split: "h1 = h1 mod 2 ^ 6 + 2 ^ 6 * (h1 div 2 ^ 6)" "h2 = h2 mod 2 ^ 12 + 2 ^ 12 * (h2 div 2 ^ 12)"
    "h3 = h3 mod 2 ^ 18 + 2 ^ 18 * (h3 div 2 ^ 18)" "h4 = h4 mod 2 ^ 24 + 2 ^ 24 * (h4 div 2 ^ 24)" by simp_all
  obtain x1 y1 x2 y2 x3 y3 x4 y4 where v: "x1 = h1 mod 2 ^ 6" "y1 = h1 div 2 ^ 6" "x2 = h2 mod 2 ^ 12" "y2 = h2 div 2 ^ 12"
    "x3 = h3 mod 2 ^ 18" "y3 = h3 div 2 ^ 18" "x4 = h4 mod 2 ^ 24" "y4 = h4 div 2 ^ 24" by blast
  have e: "h1 = x1 + 2 ^ 6 * y1" "h2 = x2 + 2 ^ 12 * y2" "h3 = x3 + 2 ^ 18 * y3" "h4 = x4 + 2 ^ 24 * y4"
    unfolding v by (rule split)+
  have x4: "x4 < 2 ^ 24" unfolding v by simp
  have "(h0 + 2 ^ 26 * x1) + 2 ^ 32 * (y1 + 2 ^ 20 * x2) + 2 ^ 64 * (y2 + 2 ^ 14 * x3) + 2 ^ 96 * (y3 + 2 ^ 8 * x4)
      = a + 2 ^ 104 * x4" unfolding a_def e by simp
  moreover have "a + 2 ^ 104 * h4 = a + 2 ^ 104 * x4 + 2 ^ 128 * y4" unfolding e by simp
  moreover have "a + 2 ^ 104 * x4 < 2 ^ 128" using ab x4 by simp
  ultimately show ?thesis unfolding v [symmetric] a_def [symmetric] by (simp only: mod_mult_self2 mod_less)
qed

lemma poly1305_pack_val:
  assumes "reduced h"
  shows "words_val (poly1305_pack h) = limbs_val h mod 2 ^ 128"
proof -
  obtain h0 h1 h2 h3 h4 where h: "h = (h0, h1, h2, h3, h4)" by (cases h)
  have b: "unat h0 < 2 ^ 26" "unat h1 < 2 ^ 26" "unat h2 < 2 ^ 26" "unat h3 < 2 ^ 26"
    using assms by (simp_all add: reduced_def limbs_bounded_def h)
  have d: "unat (drop_bit 6 h1) < 2 ^ 20" "unat (drop_bit 12 h2) < 2 ^ 14" "unat (drop_bit 18 h3) < 2 ^ 8"
    using b by (simp_all add: unat_drop_bit_u32 less_mult_imp_div_less)
  have w: "unat ((h0 OR push_bit 26 h1) AND 0xffffffff) = unat h0 + 2 ^ 26 * (unat h1 mod 2 ^ 6)"
    "unat ((drop_bit 6 h1 OR push_bit 20 h2) AND 0xffffffff) = unat (drop_bit 6 h1) + 2 ^ 20 * (unat h2 mod 2 ^ 12)"
    "unat ((drop_bit 12 h2 OR push_bit 14 h3) AND 0xffffffff) = unat (drop_bit 12 h2) + 2 ^ 14 * (unat h3 mod 2 ^ 18)"
    "unat ((drop_bit 18 h3 OR push_bit 8 h4) AND 0xffffffff) = unat (drop_bit 18 h3) + 2 ^ 8 * (unat h4 mod 2 ^ 24)"
    by (rule unat_or_push [OF b(1)] unat_or_push [OF d(1)] unat_or_push [OF d(2)] unat_or_push [OF d(3)], simp)+
  show ?thesis
    unfolding words_val_def poly1305_pack_def limbs_val_def h prod.case w unat_drop_bit_u32
    using b by (rule pack_sum)
qed


lemma div_mod_32: "(x :: nat) = x mod 2 ^ 32 + 2 ^ 32 * (x div 2 ^ 32)"
  by simp

lemma pad_chain:
  fixes a0 a1 a2 a3 w0 w1 w2 w3 c0 c1 c2 c3 :: nat
  assumes "a0 = w0 + 2 ^ 32 * c0" "a1 + c0 = w1 + 2 ^ 32 * c1" "a2 + c1 = w2 + 2 ^ 32 * c2" "a3 + c2 = w3 + 2 ^ 32 * c3"
  shows "a0 + 2 ^ 32 * a1 + 2 ^ 64 * a2 + 2 ^ 96 * a3
     = (w0 + 2 ^ 32 * w1 + 2 ^ 64 * w2 + 2 ^ 96 * w3) + 2 ^ 128 * c3"
  using assms by simp

lemma poly1305_pad_val:
  "length (poly1305_pad pad w) = 16" "le_val (poly1305_pad pad w) = (words_val w + words_val pad) mod 2 ^ 128"
proof -
  obtain w0 w1 w2 w3 where w: "w = (w0, w1, w2, w3)" by (cases w)
  obtain p0 p1 p2 p3 where q: "pad = (p0, p1, p2, p3)" by (cases pad)
  let ?u = "\<lambda>x :: u32. ucast x :: u64"
  define f0 where "f0 = ?u w0 + ?u p0"
  define f1 where "f1 = ?u w1 + ?u p1 + drop_bit 32 f0"
  define f2 where "f2 = ?u w2 + ?u p2 + drop_bit 32 f1"
  define f3 where "f3 = ?u w3 + ?u p3 + drop_bit 32 f2"
  have u: "unat (?u x) \<le> 4294967295" for x
    unfolding unat_ucast_u64 by (rule unat_u32_le)
  have c: "unat (drop_bit 32 x) \<le> 4294967295" for x :: u64
    using less_mult_imp_div_less [of "unat x" 4294967296 "2 ^ 32"] unat_u64_le [of x] by (simp add: unat_drop_bit_u64)
  have f0: "unat f0 = unat w0 + unat p0"
    unfolding f0_def using u [of w0] u [of p0] by (simp add: unat_add_u64 unat_ucast_u64)
  have f: "unat (?u x + ?u y + drop_bit 32 z) = unat x + unat y + unat z div 2 ^ 32" for x y z
    using u [of x] u [of y] c [of z] by (simp add: unat_add_u64 unat_ucast_u64 unat_drop_bit_u64)
  have g: "unat f1 = unat w1 + unat p1 + unat f0 div 2 ^ 32" "unat f2 = unat w2 + unat p2 + unat f1 div 2 ^ 32"
    "unat f3 = unat w3 + unat p3 + unat f2 div 2 ^ 32"
    unfolding f1_def f2_def f3_def by (rule f)+
  have R: "poly1305_pad pad w = STORE32L (ucast f0) @ STORE32L (ucast f1) @ STORE32L (ucast f2) @ STORE32L (ucast f3)"
    unfolding poly1305_pad_def w q prod.case Let_def f3_def f2_def f1_def f0_def by (rule refl)
  show "length (poly1305_pad pad w) = 16" unfolding R by simp
  let ?W = "unat f0 mod 2 ^ 32 + 2 ^ 32 * (unat f1 mod 2 ^ 32) + 2 ^ 64 * (unat f2 mod 2 ^ 32) + 2 ^ 96 * (unat f3 mod 2 ^ 32)"
  have L: "le_val (poly1305_pad pad w) = ?W"
    unfolding R by (simp add: le_val_append STORE32L_val unat_ucast_u32)
  have "(unat w0 + unat p0) + 2 ^ 32 * (unat w1 + unat p1) + 2 ^ 64 * (unat w2 + unat p2) + 2 ^ 96 * (unat w3 + unat p3)
      = ?W + 2 ^ 128 * (unat f3 div 2 ^ 32)"
  proof (rule pad_chain)
    show "unat w0 + unat p0 = unat f0 mod 2 ^ 32 + 2 ^ 32 * (unat f0 div 2 ^ 32)" unfolding f0 [symmetric] by (rule div_mod_32)
    show "unat w1 + unat p1 + unat f0 div 2 ^ 32 = unat f1 mod 2 ^ 32 + 2 ^ 32 * (unat f1 div 2 ^ 32)" unfolding g(1) [symmetric] by (rule div_mod_32)
    show "unat w2 + unat p2 + unat f1 div 2 ^ 32 = unat f2 mod 2 ^ 32 + 2 ^ 32 * (unat f2 div 2 ^ 32)" unfolding g(2) [symmetric] by (rule div_mod_32)
    show "unat w3 + unat p3 + unat f2 div 2 ^ 32 = unat f3 mod 2 ^ 32 + 2 ^ 32 * (unat f3 div 2 ^ 32)" unfolding g(3) [symmetric] by (rule div_mod_32)
  qed
  then have "words_val w + words_val pad = le_val (poly1305_pad pad w) + 2 ^ 128 * (unat f3 div 2 ^ 32)"
    unfolding L unfolding words_val_def w q prod.case by (simp add: algebra_simps)
  moreover have "le_val (poly1305_pad pad w) < 2 ^ 128"
    using le_val_less [of "poly1305_pad pad w"] \<open>length (poly1305_pad pad w) = 16\<close> by simp
  ultimately show "le_val (poly1305_pad pad w) = (words_val w + words_val pad) mod 2 ^ 128"
    by (simp only: mod_mult_self2 mod_less)
qed

end
