(* ===== verification/Poly1305_Mac.thy ===== *)
theory Poly1305_Mac
  imports Poly1305
begin

text \<open>
  The authenticator as a stream: however a message is cut into calls of
  \<open>poly1305_process\<close>, \<open>poly1305_done\<close> returns the tag RFC 8439 defines for the whole message.
\<close>

unbundle bit_operations_syntax

section \<open>The stream\<close>

lemma poly_spec_Nil [simp]: "poly_spec r a [] = a"
  by (simp add: poly_spec.simps)

lemma poly_spec_block:
  "msg \<noteq> [] \<Longrightarrow> poly_spec r a msg = poly_spec r ((a + le_val (take 16 msg @ [1])) * r mod P1305) (drop 16 msg)"
  by (subst poly_spec.simps) simp

lemma poly_spec_cong:
  assumes "a mod P1305 = b mod P1305"
  shows "poly_spec r a msg mod P1305 = poly_spec r b msg mod P1305"
proof (cases "msg = []")
  case False
  have "(a + x) * r mod P1305 = (b + x) * r mod P1305" for x
    by (intro mod_mult_cong mod_add_cong assms refl)
  then show ?thesis unfolding poly_spec_block [OF False] by (simp only:)
qed (simp add: assms)

lemma poly_spec_append:
  "16 dvd length xs \<Longrightarrow> poly_spec r a (xs @ ys) = poly_spec r (poly_spec r a xs) ys"
proof (induction r a xs rule: poly_spec.induct)
  case (1 r a xs)
  show ?case
  proof (cases "xs = []")
    case False
    then have l: "16 \<le> length xs" using 1(2) by (simp add: dvd_imp_le)
    then have "16 dvd length (drop 16 xs)" using 1(2) by (simp add: dvd_diff_nat)
    from 1(1) [OF False this] show ?thesis using False l by (simp add: poly_spec_block)
  qed simp
qed

text \<open>What the state stands for between calls: the full blocks are in \<open>h\<close>, the rest in the buffer.\<close>

definition poly_core :: "limbs \<Rightarrow> u32 \<times> u32 \<times> u32 \<times> u32 \<Rightarrow> byte list \<Rightarrow> poly1305_state \<Rightarrow> bool" where
  "poly_core r pad full st \<longleftrightarrow>
     limbs_bounded (2 ^ 26) r \<and> p_r st = r \<and> p_pad st = pad \<and> \<not> p_final st \<and> length (p_buffer st) = 16
     \<and> h_ok (p_h st) \<and> 16 dvd length full
     \<and> limbs_val (p_h st) mod P1305 = poly_spec (limbs_val r) 0 full mod P1305"

definition poly_inv :: "limbs \<Rightarrow> u32 \<times> u32 \<times> u32 \<times> u32 \<Rightarrow> byte list \<Rightarrow> byte list \<Rightarrow> poly1305_state \<Rightarrow> bool" where
  "poly_inv r pad full rest st \<longleftrightarrow>
     poly_core r pad full st \<and> length rest < 16 \<and> p_leftover st = length rest
     \<and> take (length rest) (p_buffer st) = rest"

lemma poly_core_upd:
  "poly_core r pad full st \<Longrightarrow> length b = 16 \<Longrightarrow> poly_core r pad full (st\<lparr>p_buffer := b\<rparr>)"
  "poly_core r pad full st \<Longrightarrow> poly_core r pad full (st\<lparr>p_leftover := k\<rparr>)"
  by (simp_all add: poly_core_def)

lemma poly1305_blocks_val:
  assumes "16 * n \<le> length inp" "h_ok h" "limbs_bounded (2 ^ 26) r"
  shows "h_ok (poly1305_blocks n (push_bit 24 1) r h inp)
    \<and> limbs_val (poly1305_blocks n (push_bit 24 1) r h inp) mod P1305
      = poly_spec (limbs_val r) (limbs_val h) (take (16 * n) inp) mod P1305"
  using assms(1,2)
proof (induction n arbitrary: h inp)
  case (Suc n)
  let ?h = "poly1305_step (push_bit 24 1) r h (take 16 inp)"
  have l: "length (take 16 inp) = 16" using Suc.prems by simp
  note s = poly1305_step_val [OF Suc.prems(2) assms(3) l disjI2 [OF refl]]
  have "16 * n \<le> length (drop 16 inp)" using Suc.prems by simp
  note IH = Suc.IH [OF this s(1)]
  have ne: "take (16 * Suc n) inp \<noteq> []" using Suc.prems by auto
  have t: "take 16 (take (16 * Suc n) inp) = take 16 inp" "drop 16 (take (16 * Suc n) inp) = take (16 * n) (drop 16 inp)"
    using take_drop [of "16 * n" 16 inp] by (simp_all add: add.commute)
  have "le_val (take 16 inp @ [1]) = le_val (take 16 inp) + 2 ^ 104 * unat (push_bit 24 1 :: u32)"
    using l by (simp add: le_val_append)
  then have "limbs_val ?h mod P1305 = ((limbs_val h + le_val (take 16 inp @ [1])) * limbs_val r mod P1305) mod P1305"
    using s(2) by (simp add: add.assoc)
  then have "poly_spec (limbs_val r) (limbs_val ?h) (take (16 * n) (drop 16 inp)) mod P1305
      = poly_spec (limbs_val r) (limbs_val h) (take (16 * Suc n) inp) mod P1305"
    unfolding poly_spec_block [OF ne] t by (rule poly_spec_cong)
  then show ?case using IH by simp
qed simp

lemma poly1305_block_core:
  assumes "poly_core r pad full st" "16 * n \<le> length inp"
  shows "poly_core r pad (full @ take (16 * n) inp) (poly1305_block st inp (16 * n))"
    "p_leftover (poly1305_block st inp (16 * n)) = p_leftover st" "p_buffer (poly1305_block st inp (16 * n)) = p_buffer st"
proof -
  have c: "h_ok (p_h st)" "limbs_bounded (2 ^ 26) r" "p_r st = r" "16 dvd length full"
    "limbs_val (p_h st) mod P1305 = poly_spec (limbs_val r) 0 full mod P1305"
    using assms(1) by (simp_all add: poly_core_def)
  note b = poly1305_blocks_val [OF assms(2) c(1,2)]
  let ?h = "poly1305_blocks n (push_bit 24 1) r (p_h st) inp"
  have "limbs_val ?h mod P1305 = poly_spec (limbs_val r) (limbs_val (p_h st)) (take (16 * n) inp) mod P1305" using b by simp
  also have "\<dots> = poly_spec (limbs_val r) 0 (full @ take (16 * n) inp) mod P1305"
    unfolding poly_spec_append [OF c(4)] by (rule poly_spec_cong [OF c(5)])
  finally have "limbs_val ?h mod P1305 = poly_spec (limbs_val r) 0 (full @ take (16 * n) inp) mod P1305" .
  moreover have "poly1305_block st inp (16 * n) = st\<lparr>p_h := ?h\<rparr>"
    using assms(1) by (simp add: poly1305_block_def poly_core_def)
  moreover have "16 dvd length (full @ take (16 * n) inp)" using c(4) assms(2) by (simp add: min_absorb2)
  ultimately show "poly_core r pad (full @ take (16 * n) inp) (poly1305_block st inp (16 * n))"
    using assms(1) b by (simp add: poly_core_def)
qed (simp_all add: poly1305_block_def Let_def)

lemma length_buffer_put: "off + length bs \<le> length buf \<Longrightarrow> length (buffer_put buf off bs) = length buf"
  by (simp add: buffer_put_def)

lemma take_buffer_put: "off + length bs \<le> length buf \<Longrightarrow> take (off + length bs) (buffer_put buf off bs) = take off buf @ bs"
  by (simp add: buffer_put_def min_absorb2)

lemma poly1305_full_blocks_inv:
  fixes inp :: "byte list"
  assumes "poly_core r pad full st" "p_leftover st = 0"
  defines "n \<equiv> length inp div 16"
  shows "poly_inv r pad (full @ take (16 * n) inp) (drop (16 * n) inp) (poly1305_full_blocks st inp)"
proof -
  define st3 where "st3 = (if length inp \<ge> 16 then poly1305_block st inp (16 * n) else st)"
  define inp2 where "inp2 = drop (16 * n) inp"
  have n: "16 * n \<le> length inp" by (simp add: n_def)
  have z: "16 * n = 0" if "length inp < 16" using that by (simp add: n_def)
  note b = poly1305_block_core [OF assms(1) n]
  have s3: "poly_core r pad (full @ take (16 * n) inp) st3" "p_leftover st3 = 0"
    using assms(1,2) b z by (auto simp: st3_def)
  have buf: "length (p_buffer st3) = 16" using s3(1) by (simp add: poly_core_def)
  have l: "length inp2 < 16" by (simp add: inp2_def n_def minus_mult_div_eq_mod)
  have R: "poly1305_full_blocks st inp =
      (if inp2 \<noteq> [] then st3\<lparr>p_buffer := buffer_put (p_buffer st3) (p_leftover st3) inp2, p_leftover := p_leftover st3 + length inp2\<rparr> else st3)"
    using z by (simp add: poly1305_full_blocks_def st3_def inp2_def n_def mult.commute Let_def)
  show ?thesis
  proof (cases "inp2 = []")
    case True
    then show ?thesis unfolding inp2_def [symmetric] R using s3 by (simp add: poly_inv_def)
  next
    case False
    have "take (length inp2) (buffer_put (p_buffer st3) 0 inp2) = inp2" "length (buffer_put (p_buffer st3) 0 inp2) = 16"
      using take_buffer_put [of 0 inp2 "p_buffer st3"] length_buffer_put [of 0 inp2 "p_buffer st3"] l buf by simp_all
    then show ?thesis unfolding inp2_def [symmetric] R using False s3 l by (simp add: poly_inv_def poly_core_upd)
  qed
qed

lemma fill_leftover:
  fixes inp :: "byte list"
  assumes "poly_inv r pad full rest st" "rest \<noteq> []" "want = min (16 - length rest) (length inp)"
  defines "st1 \<equiv> st\<lparr>p_buffer := buffer_put (p_buffer st) (p_leftover st) (take want inp), p_leftover := p_leftover st + want\<rparr>"
  shows "poly_core r pad full st1" "take (length rest + want) (p_buffer st1) = rest @ take want inp"
    "p_leftover st1 = length rest + want" "length (p_buffer st1) = 16" "length rest + want \<le> 16"
proof -
  have i: "poly_core r pad full st" "length rest < 16" "p_leftover st = length rest" "take (length rest) (p_buffer st) = rest"
    "length (p_buffer st) = 16"
    using assms(1) by (simp_all add: poly_inv_def poly_core_def)
  show le: "length rest + want \<le> 16" using assms(3) i(2) by simp
  have w: "length (take want inp) = want" using assms(3) by simp
  have b: "take (length rest + want) (buffer_put (p_buffer st) (length rest) (take want inp)) = rest @ take want inp"
    "length (buffer_put (p_buffer st) (length rest) (take want inp)) = 16"
    using take_buffer_put [of "length rest" "take want inp" "p_buffer st"]
      length_buffer_put [of "length rest" "take want inp" "p_buffer st"] le i w by simp_all
  show "poly_core r pad full st1" "take (length rest + want) (p_buffer st1) = rest @ take want inp"
    "p_leftover st1 = length rest + want" "length (p_buffer st1) = 16"
    using b i by (simp_all add: st1_def poly_core_upd)
qed

lemma poly1305_process_inv:
  assumes "poly_inv r pad full rest st"
  shows "\<exists>full' rest'. full' @ rest' = full @ rest @ inp \<and> poly_inv r pad full' rest' (poly1305_process st inp)"
proof -
  have i: "poly_core r pad full st" "length rest < 16" "p_leftover st = length rest"
    using assms by (simp_all add: poly_inv_def)
  consider "inp = []" | "inp \<noteq> []" "rest = []" | "inp \<noteq> []" "rest \<noteq> []" by blast
  then show ?thesis
  proof cases
    case 1
    then show ?thesis using assms by (auto simp: poly1305_process_def)
  next
    case 2
    then have l: "p_leftover st = 0" using i by simp
    have "poly1305_process st inp = poly1305_full_blocks st inp" using 2 l by (simp add: poly1305_process_def)
    moreover have "(full @ take k inp) @ drop k inp = full @ rest @ inp" for k using 2 by simp
    ultimately show ?thesis using poly1305_full_blocks_inv [OF i(1) l, of inp] by metis
  next
    case 3
    define want where "want = min (16 - length rest) (length inp)"
    define st1 where "st1 = st\<lparr>p_buffer := buffer_put (p_buffer st) (p_leftover st) (take want inp), p_leftover := p_leftover st + want\<rparr>"
    note f = fill_leftover [OF assms 3(2) want_def, folded st1_def]
    have "p_leftover st \<noteq> 0" using i 3 by simp
    then have P: "poly1305_process st inp = (if p_leftover st1 < 16 then st1
        else poly1305_full_blocks ((poly1305_block st1 (p_buffer st1) 16)\<lparr>p_leftover := 0\<rparr>) (drop want inp))"
      using 3 unfolding poly1305_process_def Let_def i(3) want_def [symmetric] st1_def by simp
    show ?thesis
    proof (cases "length rest + want < 16")
      case True
      then have all: "want = length inp" by (simp add: want_def)
      have "poly_inv r pad full (rest @ inp) st1" using f all True by (simp add: poly_inv_def)
      then show ?thesis using True f(3) by (auto simp: P)
    next
      case False
      then have sz: "length rest + want = 16" using f(5) by simp
      define st2 where "st2 = (poly1305_block st1 (p_buffer st1) 16)\<lparr>p_leftover := 0\<rparr>"
      have b: "take (16 * 1) (p_buffer st1) = rest @ take want inp" using f(2) sz by simp
      have "poly_core r pad (full @ take (16 * 1) (p_buffer st1)) (poly1305_block st1 (p_buffer st1) (16 * 1))"
        by (rule poly1305_block_core(1) [OF f(1)]) (simp add: f(4))
      from poly_core_upd(2) [OF this [unfolded b]] have c: "poly_core r pad (full @ rest @ take want inp) st2"
        by (simp add: st2_def)
      have "((full @ rest @ take want inp) @ take k (drop want inp)) @ drop k (drop want inp) = full @ rest @ inp" for k
        by (simp only: append_assoc append_take_drop_id)
      moreover have "poly1305_process st inp = poly1305_full_blocks st2 (drop want inp)" using f(3) sz by (simp add: P st2_def)
      moreover have "p_leftover st2 = 0" by (simp add: st2_def)
      ultimately show ?thesis using poly1305_full_blocks_inv [OF c, of "drop want inp"] by metis
    qed
  qed
qed


text \<open>The tag.\<close>

lemma poly1305_final_val:
  fixes pad :: "u32 \<times> u32 \<times> u32 \<times> u32"
  assumes "h_ok h"
  defines "mac \<equiv> poly1305_pad pad (poly1305_pack (poly1305_select (poly1305_carry h)))"
  shows "length mac = 16" "le_val mac = (limbs_val h mod P1305 + words_val pad) mod 2 ^ 128"
proof -
  note c = poly1305_carry_val [OF assms(1)]
  note s = poly1305_select_val [OF c(1)]
  note k = poly1305_pack_val [OF s(1)]
  show "length mac = 16" unfolding mac_def by (rule poly1305_pad_val)
  show "le_val mac = (limbs_val h mod P1305 + words_val pad) mod 2 ^ 128"
    unfolding mac_def poly1305_pad_val(2) k s(2) c(2) by (simp only: mod_add_left_eq)
qed

lemma le_val_zeros: "le_val (replicate n 0) = 0"
  by (induction n) simp_all

lemma poly1305_last_block:
  assumes "poly_inv r pad full rest st" "rest \<noteq> []"
  defines "st1 \<equiv> st\<lparr>p_buffer := take (p_leftover st) (p_buffer st) @ [1] @ replicate (15 - p_leftover st) 0, p_final := True\<rparr>"
  defines "h \<equiv> p_h (poly1305_block st1 (p_buffer st1) 16)"
  shows "h_ok h" "limbs_val h mod P1305 = poly_spec (limbs_val r) 0 (full @ rest) mod P1305"
proof -
  have i: "h_ok (p_h st)" "limbs_bounded (2 ^ 26) r" "p_r st = r" "length rest < 16" "16 dvd length full"
    "limbs_val (p_h st) mod P1305 = poly_spec (limbs_val r) 0 full mod P1305"
    "p_leftover st = length rest" "take (length rest) (p_buffer st) = rest"
    using assms(1) by (simp_all add: poly_inv_def poly_core_def)
  let ?b = "rest @ [1] @ replicate (15 - length rest) 0"
  have b: "length ?b = 16" "p_buffer st1 = ?b" using i by (simp_all add: st1_def)
  have h: "h = poly1305_step 0 r (p_h st) ?b"
    unfolding h_def poly1305_block_def b(2) using b(1) i(3) by (simp add: st1_def numeral_eq_Suc [of num.One])
  have v: "le_val ?b = le_val (rest @ [1])" by (simp add: le_val_append le_val_zeros)
  note s = poly1305_step_val [OF i(1,2) b(1) disjI1 [OF refl], folded h]
  show "h_ok h" by (rule s(1))
  have "limbs_val h mod P1305 = ((limbs_val (p_h st) + le_val (rest @ [1])) * limbs_val r mod P1305) mod P1305"
    using s(2) v by simp
  also have "\<dots> = poly_spec (limbs_val r) (limbs_val (p_h st)) rest mod P1305"
    using assms(2) i(4) by (simp add: poly_spec_block)
  also have "\<dots> = poly_spec (limbs_val r) 0 (full @ rest) mod P1305"
    unfolding poly_spec_append [OF i(5)] by (rule poly_spec_cong [OF i(6)])
  finally show "limbs_val h mod P1305 = poly_spec (limbs_val r) 0 (full @ rest) mod P1305" .
qed

lemma poly_spec_less: "msg \<noteq> [] \<Longrightarrow> poly_spec r a msg < P1305"
proof (induction r a msg rule: poly_spec.induct)
  case (1 r a msg)
  show ?case
  proof (cases "drop 16 msg = []")
    case True
    then show ?thesis using 1(2) by (simp add: poly_spec_block P1305_def)
  next
    case False
    then show ?thesis using 1 by (subst poly_spec_block) simp_all
  qed
qed

lemma poly1305_done_val:
  assumes "poly_inv r pad full rest st" "16 \<le> maclen"
  shows "\<exists>mac st'. poly1305_done st maclen = returnE (mac, st') \<and> length mac = 16
    \<and> le_val mac = (poly_spec (limbs_val r) 0 (full @ rest) + words_val pad) mod 2 ^ 128"
proof -
  define st2 where "st2 = (if p_leftover st \<noteq> 0
      then let st1 = st\<lparr>p_buffer := take (p_leftover st) (p_buffer st) @ [1] @ replicate (15 - p_leftover st) 0, p_final := True\<rparr> in
           poly1305_block st1 (p_buffer st1) 16 else st)"
  have i: "poly_core r pad full st" "p_leftover st = length rest" using assms(1) by (simp_all add: poly_inv_def)
  have h: "h_ok (p_h st2)" "limbs_val (p_h st2) mod P1305 = poly_spec (limbs_val r) 0 (full @ rest) mod P1305"
    using poly1305_last_block [OF assms(1)] i by (simp_all add: st2_def poly_core_def Let_def)
  have "poly_spec (limbs_val r) 0 (full @ rest) mod P1305 = poly_spec (limbs_val r) 0 (full @ rest)"
  proof (cases "full @ rest = []")
    case True
    then show ?thesis by simp
  next
    case False
    then show ?thesis by (intro mod_less poly_spec_less)
  qed
  moreover have "p_pad st2 = pad" using i by (simp add: st2_def poly_core_def poly1305_block_def Let_def)
  moreover have "poly1305_done st maclen = returnE (poly1305_pad (p_pad st2) (poly1305_pack (poly1305_select (poly1305_carry (p_h st2)))),
      st2\<lparr>p_h := (0, 0, 0, 0, 0), p_r := (0, 0, 0, 0, 0), p_pad := (0, 0, 0, 0)\<rparr>)"
    unfolding poly1305_done_def st2_def [symmetric] using assms(2) by (simp only: Let_def not_less if_False) simp
  ultimately show ?thesis using poly1305_final_val [OF h(1), of pad] h(2) by simp
qed


section \<open>The key\<close>

lemma and_limb: "(N AND C) div 2 ^ k mod 2 ^ 26 = (N div 2 ^ k mod 2 ^ 26) AND (C div 2 ^ k mod 2 ^ 26)" for N C :: nat
proof -
  have "take_bit 26 (drop_bit k (N AND C)) = take_bit 26 (drop_bit k N) AND take_bit 26 (drop_bit k C)" by simp
  then show ?thesis by (simp only: take_bit_eq_mod drop_bit_eq_div)
qed

lemma and_top: "(N AND C) div 2 ^ k = N div 2 ^ k AND C div 2 ^ k" for N C :: nat
proof -
  have "drop_bit k (N AND C) = drop_bit k N AND drop_bit k C" by simp
  then show ?thesis by (simp only: drop_bit_eq_div)
qed

lemma unat_and_le: "unat (x AND y) = unat x AND unat (y :: u32)"
  by (rule unsigned_and_eq)

definition key_r :: "byte list \<Rightarrow> limbs" where
  "key_r key = (LOAD32L (take 4 key) AND 0x3ffffff,
     drop_bit 2 (LOAD32L (take 4 (drop 3 key))) AND 0x3ffff03,
     drop_bit 4 (LOAD32L (take 4 (drop 6 key))) AND 0x3ffc0ff,
     drop_bit 6 (LOAD32L (take 4 (drop 9 key))) AND 0x3f03fff,
     drop_bit 8 (LOAD32L (take 4 (drop 12 key))) AND 0x00fffff)"

definition key_pad :: "byte list \<Rightarrow> u32 \<times> u32 \<times> u32 \<times> u32" where
  "key_pad key = (LOAD32L (take 4 (drop 16 key)), LOAD32L (take 4 (drop 20 key)),
     LOAD32L (take 4 (drop 24 key)), LOAD32L (take 4 (drop 28 key)))"

lemma clamp_limb:
  assumes "unat (x AND 0x3ffffff) = n" "0x3ffffff AND M = M" "unat (M :: u32) = m"
  shows "unat (x AND M) = n AND m"
proof -
  have "x AND M = (x AND 0x3ffffff) AND M" by (simp only: and.assoc assms(2))
  then show ?thesis by (simp only: unat_and_le assms flip: assms(1))
qed

lemma and_less: "(a :: nat) < 2 ^ n \<Longrightarrow> a AND b < 2 ^ n"
proof -
  assume "a < 2 ^ n"
  then have "take_bit n a = a" by (rule take_bit_nat_eq_self)
  moreover have "take_bit n a AND b = take_bit n (a AND b)" by (rule bit_eqI) (auto simp: bit_simps)
  ultimately have "a AND b = take_bit n (a AND b)" by simp
  then show ?thesis using take_bit_nat_less_exp [of n "a AND b"] by simp
qed

lemma key_r_val:
  assumes "length key = 16"
  shows "limbs_val (key_r key) = clamp (le_val key)" "limbs_bounded (2 ^ 26) (key_r key)"
proof -
  let ?N = "le_val key" and ?C = "0x0ffffffc0ffffffc0ffffffc0fffffff :: nat"
  have C: "?C div 2 ^ 0 mod 2 ^ 26 = 0x3ffffff" "?C div 2 ^ 26 mod 2 ^ 26 = 0x3ffff03" "?C div 2 ^ 52 mod 2 ^ 26 = 0x3ffc0ff"
    "?C div 2 ^ 78 mod 2 ^ 26 = 0x3f03fff" "?C div 2 ^ 104 = 0xfffff" by simp_all
  note L = load_limb [OF assms]
  have l0: "unat (LOAD32L (take 4 key) AND 0x3ffffff) = (?N AND ?C) mod 2 ^ 26"
  proof -
    have "unat (drop_bit 0 (LOAD32L (take 4 (drop 0 key))) AND 0x3ffffff) = (?N AND ?C) div 2 ^ 0 mod 2 ^ 26"
      unfolding and_limb C by (rule clamp_limb [OF L]) simp_all
    then show ?thesis by (simp only: drop_0 drop_bit_0 id_apply power_0 div_by_1)
  qed
  have l1: "unat (drop_bit 2 (LOAD32L (take 4 (drop 3 key))) AND 0x3ffff03) = (?N AND ?C) div 2 ^ 26 mod 2 ^ 26"
    unfolding and_limb C by (rule clamp_limb [OF L]) simp_all
  have l2: "unat (drop_bit 4 (LOAD32L (take 4 (drop 6 key))) AND 0x3ffc0ff) = (?N AND ?C) div 2 ^ 52 mod 2 ^ 26"
    unfolding and_limb C by (rule clamp_limb [OF L]) simp_all
  have l3: "unat (drop_bit 6 (LOAD32L (take 4 (drop 9 key))) AND 0x3f03fff) = (?N AND ?C) div 2 ^ 78 mod 2 ^ 26"
    unfolding and_limb C by (rule clamp_limb [OF L]) simp_all
  have l4: "unat (drop_bit 8 (LOAD32L (take 4 (drop 12 key))) AND 0x00fffff) = (?N AND ?C) div 2 ^ 104"
    unfolding and_top C unat_and_le load_top(1) [OF assms] by simp
  have "(?N AND ?C) div 2 ^ 104 < 2 ^ 26"
    unfolding and_top C using load_top(2) [OF assms] by (intro and_less) (rule order_less_le_trans, assumption, simp)
  then show "limbs_bounded (2 ^ 26) (key_r key)"
    unfolding limbs_bounded_def key_r_def prod.case l0 l1 l2 l3 l4 by (intro conjI mod_less_divisor) simp_all
  show "limbs_val (key_r key) = clamp (le_val key)"
    unfolding limbs_val_def key_r_def prod.case l0 l1 l2 l3 l4 clamp_def by (rule limbs_recompose [symmetric])
qed

lemma key_pad_val:
  assumes "length key = 32"
  shows "words_val (key_pad key) = le_val (take 16 (drop 16 key))"
proof -
  define k where "k = drop 16 key"
  have k: "length k = 16" using assms by (simp add: k_def)
  have d: "drop 20 key = drop 4 k" "drop 24 key = drop 8 k" "drop 28 key = drop 12 k" by (simp_all add: k_def)
  have split: "k = take 4 k @ take 4 (drop 4 k) @ take 4 (drop 8 k) @ take 4 (drop 12 k)"
  proof -
    have "k = take 4 k @ drop 4 k" "drop 4 k = take 4 (drop 4 k) @ drop 4 (drop 4 k)"
      "drop 8 k = take 4 (drop 8 k) @ drop 4 (drop 8 k)" by (simp_all only: append_take_drop_id)
    then show ?thesis using k by simp
  qed
  have "le_val k = le_val (take 4 k) + 2 ^ 32 * le_val (take 4 (drop 4 k)) + 2 ^ 64 * le_val (take 4 (drop 8 k)) + 2 ^ 96 * le_val (take 4 (drop 12 k))"
    by (subst split) (simp only: le_val_append, simp add: k)
  moreover have "unat (LOAD32L (take 4 (drop i k))) = le_val (take 4 (drop i k))" if "i \<le> 12" for i
    using k that by (intro LOAD32L_val) simp
  ultimately show ?thesis
    using k unfolding words_val_def key_pad_def prod.case d k_def [symmetric] by (simp add: LOAD32L_val)
qed

lemma key_take: "length key = 32 \<Longrightarrow> key_r (take 16 key) = key_r key"
  by (simp add: key_r_def take_drop min_def)

lemma poly1305_init_inv:
  assumes "length key = 32" "length (p_buffer st) = 16"
  shows "\<exists>st'. poly1305_init st key = returnE st' \<and> poly_inv (key_r (take 16 key)) (key_pad key) [] [] st'"
  using assms key_r_val [of "take 16 key"] unfolding key_take [OF assms(1)]
  by (simp add: poly1305_init_def poly_inv_def poly_core_def key_r_def key_pad_def h_ok_def limbs_val_def)

lemma poly1305_process_all:
  assumes "poly_inv r pad full rest st"
  shows "\<exists>full' rest'. full' @ rest' = full @ rest @ concat chunks \<and> poly_inv r pad full' rest' (foldl poly1305_process st chunks)"
  using assms
proof (induction chunks arbitrary: full rest st)
  case (Cons c chunks)
  obtain f1 r1 where "f1 @ r1 = full @ rest @ c" "poly_inv r pad f1 r1 (poly1305_process st c)"
    using poly1305_process_inv [OF Cons.prems] by blast
  with Cons.IH [of f1 r1 "poly1305_process st c"] show ?case by (metis append_assoc concat.simps(2) foldl_Cons)
qed auto

section \<open>The authenticator\<close>

text \<open>
  C16. However a message is cut into calls of \<open>poly1305_process\<close>, the tag of
  \<open>poly1305_done\<close> is the one RFC 8439 defines: the polynomial of the message's blocks at
  the clamped \<open>r\<close> modulo \<open>2 ^ 130 - 5\<close>, plus \<open>s\<close>, modulo \<open>2 ^ 128\<close>, for
  every key, message and state; no limb, product or carry overflows its word.
\<close>

theorem poly1305_correct:
  assumes "length key = 32" "length (p_buffer st) = 16" "16 \<le> maclen"
  shows "\<exists>st1 mac st2. poly1305_init st key = returnE st1
    \<and> poly1305_done (foldl poly1305_process st1 chunks) maclen = returnE (mac, st2)
    \<and> length mac = 16 \<and> le_val mac = poly1305_spec key (concat chunks)"
proof -
  obtain st1 where st1: "poly1305_init st key = returnE st1" "poly_inv (key_r (take 16 key)) (key_pad key) [] [] st1"
    using poly1305_init_inv [OF assms(1,2)] by blast
  obtain f r where fr: "f @ r = concat chunks" "poly_inv (key_r (take 16 key)) (key_pad key) f r (foldl poly1305_process st1 chunks)"
    using poly1305_process_all [OF st1(2), of chunks] by auto
  show ?thesis
    using poly1305_done_val [OF fr(2) assms(3)] st1(1) key_r_val(1) [of "take 16 key"] key_pad_val [OF assms(1)] assms(1)
    by (simp add: fr(1) poly1305_spec_def)
qed


definition example_poly :: poly1305_state where
  "example_poly = \<lparr>p_r = (0, 0, 0, 0, 0), p_h = (0, 0, 0, 0, 0), p_pad = (0, 0, 0, 0), p_leftover = 0,
     p_buffer = replicate 16 0, p_final = False\<rparr>"

theorem poly1305_correct_witness:
  "length (replicate 32 (7 :: byte)) = 32 \<and> length (p_buffer example_poly) = 16 \<and>
   (\<exists>st1 mac st2. poly1305_init example_poly (replicate 32 7) = returnE st1
    \<and> poly1305_done (foldl poly1305_process st1 [[1, 2, 3], replicate 20 9]) 16 = returnE (mac, st2)
    \<and> length mac = 16 \<and> le_val mac = poly1305_spec (replicate 32 7) (concat [[1, 2, 3], replicate 20 9]))"
  using poly1305_correct [of "replicate 32 7" example_poly 16 "[[1, 2, 3], replicate 20 9]"]
  by (simp only: length_replicate example_poly_def poly1305_state.simps simp_thms order_refl)

end
