(* ===== verification/Chachapoly.thy ===== *)
theory Chachapoly
  imports Chacha Poly1305_Mac "HOL-Library.Monad_Syntax"
begin

text \<open>
  The \<open>chacha20-poly1305@openssh.com\<close> cipher, \<open>src/src/chachapoly.c\<close>, on top of the
  libtomcrypt models: one ChaCha state for the packet body and its authenticator's key,
  one for the packet length.  \<open>None\<close> is a return code other than \<open>CRYPT_OK\<close>, or an abort.
\<close>

unbundle bit_operations_syntax

section \<open>The code\<close>

datatype direction = LTC_ENCRYPT | LTC_DECRYPT

definition CHACHA20_KEY_LEN :: nat where "CHACHA20_KEY_LEN = 32"
definition CHACHA20_BLOCKSIZE :: byte where "CHACHA20_BLOCKSIZE = 8"
definition POLY1305_KEY_LEN :: nat where "POLY1305_KEY_LEN = 32"
definition POLY1305_TAG_LEN :: nat where "POLY1305_TAG_LEN = 16"

record chachapoly_state =
  cp_chacha :: chacha_state
  cp_header :: chacha_state

text \<open>A call that returns, or else an abort.\<close>

definition ok_of :: "'a res \<Rightarrow> 'a option" where
  "ok_of m = (case m of Inl _ \<Rightarrow> None | Inr x \<Rightarrow> Some x)"

text \<open>The authenticator's state before \<open>poly1305_init\<close>: stack memory, whose contents have no effect.\<close>

definition uninit_poly :: poly1305_state where
  "uninit_poly = \<lparr>p_r = (0, 0, 0, 0, 0), p_h = (0, 0, 0, 0, 0), p_pad = (0, 0, 0, 0), p_leftover = 0,
     p_buffer = replicate 16 0, p_final = False\<rparr>"

definition dropbear_chachapoly_start :: "byte list \<Rightarrow> chachapoly_state \<Rightarrow> chachapoly_state option" where
  "dropbear_chachapoly_start key state =
     (if length key \<noteq> CHACHA20_KEY_LEN * 2 then None
      else do {
        chacha \<leftarrow> chacha_setup (cp_chacha state) (take CHACHA20_KEY_LEN key) 20;
        header \<leftarrow> chacha_setup (cp_header state) (take CHACHA20_KEY_LEN (drop CHACHA20_KEY_LEN key)) 20;
        Some (state\<lparr>cp_chacha := chacha, cp_header := header\<rparr>)
      })"

text \<open>
  To decrypt, \<open>inp\<close> holds \<open>len\<close> bytes and then the tag and the result is the \<open>len\<close> bytes in
  the clear; to encrypt, it holds \<open>len\<close> bytes and the result is those and the tag.
\<close>

definition dropbear_chachapoly_crypt :: "u32 \<Rightarrow> byte list \<Rightarrow> nat \<Rightarrow> nat \<Rightarrow> chachapoly_state \<Rightarrow> direction
    \<Rightarrow> (byte list \<times> chachapoly_state) option" where
  "dropbear_chachapoly_crypt seq inp len taglen state direction =
     (if len < 4 \<or> taglen \<noteq> POLY1305_TAG_LEN then None
      else do {
        let seqbuf = STORE64H (ucast seq);
        chacha \<leftarrow> chacha_ivctr64 (cp_chacha state) seqbuf 0;
        (key, chacha) \<leftarrow> chacha_keystream chacha POLY1305_KEY_LEN;
        poly \<leftarrow> ok_of (poly1305_init uninit_poly key);
        _ \<leftarrow> (if direction = LTC_DECRYPT then do {
                let poly = poly1305_process poly (take len inp);
                (tag, poly) \<leftarrow> ok_of (poly1305_done poly taglen);
                c \<leftarrow> ok_of (constant_time_memcmp (drop len inp) tag taglen);
                (if c \<noteq> 0 then None else Some ())
              } else Some ());
        header \<leftarrow> chacha_ivctr64 (cp_header state) seqbuf 0;
        (out1, header) \<leftarrow> chacha_crypt header (take 4 inp);
        chacha \<leftarrow> chacha_ivctr64 chacha seqbuf 1;
        (out2, chacha) \<leftarrow> chacha_crypt chacha (take (len - 4) (drop 4 inp));
        let out = out1 @ out2;
        tag \<leftarrow> (if direction = LTC_ENCRYPT then do {
                  let poly = poly1305_process poly out;
                  (tag, poly) \<leftarrow> ok_of (poly1305_done poly taglen);
                  Some tag
                } else Some []);
        Some (out @ tag, state\<lparr>cp_chacha := chacha, cp_header := header\<rparr>)
      })"

definition dropbear_chachapoly_getlength :: "u32 \<Rightarrow> byte list \<Rightarrow> chachapoly_state \<Rightarrow> (u32 \<times> chachapoly_state) option" where
  "dropbear_chachapoly_getlength seq inp state =
     (if length inp < 4 then None
      else do {
        let seqbuf = STORE64H (ucast seq);
        header \<leftarrow> chacha_ivctr64 (cp_header state) seqbuf 0;
        (buf, header) \<leftarrow> chacha_crypt header (take 4 inp);
        Some (LOAD32H buf, state\<lparr>cp_header := header\<rparr>)
      })"

section \<open>What it computes\<close>

text \<open>The keystreams of a packet, and the key of its authenticator.\<close>

definition nonce_words :: "chacha_state \<Rightarrow> u32 \<Rightarrow> u32 list" where
  "nonce_words st seq = (cs_input st)[14 := LOAD32L (take 4 (STORE64H (ucast seq))), 15 := LOAD32L (take 4 (drop 4 (STORE64H (ucast seq))))]"

definition keystream :: "chacha_state \<Rightarrow> u32 \<Rightarrow> u64 \<Rightarrow> nat \<Rightarrow> byte list" where
  "keystream st seq c n = chacha_blocks (cs_rounds st) (nonce_words st seq) c (blocks_of n)"

definition mac_key :: "chachapoly_state \<Rightarrow> u32 \<Rightarrow> byte list" where
  "mac_key st seq = take 32 (keystream (cp_chacha st) seq 0 32)"

definition packet_crypt :: "chachapoly_state \<Rightarrow> u32 \<Rightarrow> byte list \<Rightarrow> byte list" where
  "packet_crypt st seq x = xor_bytes (take 4 x) (keystream (cp_header st) seq 0 4)
     @ xor_bytes (drop 4 x) (keystream (cp_chacha st) seq 1 (length x - 4))"

definition chachapoly_ok :: "chachapoly_state \<Rightarrow> bool" where
  "chachapoly_ok st \<longleftrightarrow> wf_chacha (cp_chacha st) \<and> wf_chacha (cp_header st)"

definition same_keys :: "chachapoly_state \<Rightarrow> chachapoly_state \<Rightarrow> bool" where
  "same_keys s t \<longleftrightarrow> chachapoly_ok s \<and> chachapoly_ok t \<and> same_key (cp_chacha s) (cp_chacha t) \<and> same_key (cp_header s) (cp_header t)"

lemma ok_of_simps [simp]: "ok_of (Inr x) = Some x" "ok_of (Inl e) = None"
  by (simp_all add: ok_of_def)

lemma poly1305_done_length: "poly1305_done st n = Inr (mac, st') \<Longrightarrow> length mac = 16"
  by (auto simp: poly1305_done_def Let_def poly1305_pad_val(1) split: if_splits)

lemma ok_of_eq_Some [simp]: "ok_of m = Some x \<longleftrightarrow> m = Inr x"
  by (cases m) simp_all

lemma chachapoly_length:
  "dropbear_chachapoly_crypt seq x n t st LTC_DECRYPT = Some (y, st') \<Longrightarrow> n \<le> length x \<Longrightarrow> length y = n"
  "dropbear_chachapoly_crypt seq x n t st LTC_ENCRYPT = Some (y, st') \<Longrightarrow> n \<le> length x \<Longrightarrow> length y = n + t"
  by (auto simp: dropbear_chachapoly_crypt_def POLY1305_TAG_LEN_def bind_eq_Some_conv Let_def
      dest!: chacha_crypt_length poly1305_done_length split: if_splits)

lemma chacha_run:
  assumes "wf_chacha st" "unat c + blocks_of (length x) < 2 ^ 64"
  shows "\<exists>st1 st2. chacha_ivctr64 st (STORE64H (ucast seq)) c = Some st1
    \<and> chacha_crypt st1 x = Some (xor_bytes x (keystream st seq c (length x)), st2)
    \<and> length x \<le> length (keystream st seq c (length x)) \<and> wf_chacha st2 \<and> same_key st st2"
  using chacha_crypt_stream [OF assms(1) _ assms(2), of "STORE64H (ucast seq)"]
  by (auto simp: keystream_def nonce_words_def same_key_def)

lemma same_key_trans: "same_key a b \<Longrightarrow> same_key b c \<Longrightarrow> same_key a c"
  by (simp add: same_key_def)

lemma same_key_sym: "same_key a b \<Longrightarrow> same_key b a"
  by (simp add: same_key_def)

lemma same_key_refl [simp]: "same_key a a"
  by (simp add: same_key_def)

lemma keystream_cong: "wf_chacha s \<Longrightarrow> wf_chacha t \<Longrightarrow> same_key s t \<Longrightarrow> keystream s seq c n = keystream t seq c n"
  unfolding keystream_def nonce_words_def by (rule same_key_blocks)

lemma packet_crypt_cong:
  assumes "same_keys s t"
  shows "packet_crypt s seq x = packet_crypt t seq x" "mac_key s seq = mac_key t seq"
proof -
  have k: "keystream (cp_chacha s) seq c n = keystream (cp_chacha t) seq c n"
    "keystream (cp_header s) seq c n = keystream (cp_header t) seq c n" for c n
    using assms by (auto simp: same_keys_def chachapoly_ok_def intro: keystream_cong)
  show "packet_crypt s seq x = packet_crypt t seq x" "mac_key s seq = mac_key t seq"
    unfolding packet_crypt_def mac_key_def k by simp_all
qed

lemma blocks_small: "n < 2 ^ 32 \<Longrightarrow> blocks_of n < 2 ^ 32"
  unfolding blocks_of_def by (intro less_mult_imp_div_less) simp

text \<open>The authenticator of a packet.\<close>

lemma poly_tag:
  assumes "length key = 32"
  shows "\<exists>poly mac st. poly1305_init uninit_poly key = Inr poly \<and> poly1305_done (poly1305_process poly msg) 16 = Inr (mac, st)
    \<and> length mac = 16 \<and> le_val mac = poly1305_spec key msg"
proof -
  obtain st1 where st1: "poly1305_init uninit_poly key = Inr st1" "poly_inv (key_r (take 16 key)) (key_pad key) [] [] st1"
    using poly1305_init_inv [OF assms, of uninit_poly] by (auto simp: uninit_poly_def)
  obtain f r where fr: "f @ r = msg" "poly_inv (key_r (take 16 key)) (key_pad key) f r (poly1305_process st1 msg)"
    using poly1305_process_inv [OF st1(2), of msg] by auto
  show ?thesis
    using poly1305_done_val [OF fr(2), of 16] st1(1) key_r_val(1) [of "take 16 key"] key_pad_val [OF assms] assms
    by (auto simp: fr(1) poly1305_spec_def)
qed

definition tag_bytes :: "chachapoly_state \<Rightarrow> u32 \<Rightarrow> byte list \<Rightarrow> byte list" where
  "tag_bytes st seq msg = (case ok_of (bindE (poly1305_init uninit_poly (mac_key st seq)) (\<lambda>poly.
     poly1305_done (poly1305_process poly msg) 16)) of Some (mac, _) \<Rightarrow> mac | None \<Rightarrow> [])"

lemma le_val_inj: "length xs = length ys \<Longrightarrow> le_val xs = le_val ys \<Longrightarrow> xs = ys"
proof (induction xs ys rule: list_induct2)
  case (Cons x xs y ys)
  have b: "unat x < 256" "unat y < 256" by (rule unat_byte_less)+
  have "unat x = (unat x + 256 * le_val xs) mod 256" "unat y = (unat y + 256 * le_val ys) mod 256" using b by simp_all
  then have "unat x = unat y" using Cons.prems by (simp only: le_val.simps)
  moreover from this have "le_val xs = le_val ys" using Cons.prems by simp
  ultimately show ?case using Cons.IH by (simp add: word_unat_eq_iff)
qed simp

lemma length_mac_key: "chachapoly_ok st \<Longrightarrow> length (mac_key st seq) = 32"
  by (simp add: mac_key_def keystream_def length_chacha_blocks nonce_words_def chachapoly_ok_def wf_chacha_def blocks_of_def)

lemma tag_bytes_props:
  assumes "chachapoly_ok st"
  shows "length (tag_bytes st seq msg) = 16" "le_val (tag_bytes st seq msg) = poly1305_spec (mac_key st seq) msg"
    "\<exists>poly. poly1305_init uninit_poly (mac_key st seq) = Inr poly \<and> (\<forall>msg. \<exists>st'. poly1305_done (poly1305_process poly msg) 16 = Inr (tag_bytes st seq msg, st'))"
proof -
  note k = length_mac_key [OF assms, of seq]
  have t: "\<exists>poly st'. poly1305_init uninit_poly (mac_key st seq) = Inr poly \<and> poly1305_done (poly1305_process poly msg) 16 = Inr (tag_bytes st seq msg, st')
      \<and> length (tag_bytes st seq msg) = 16 \<and> le_val (tag_bytes st seq msg) = poly1305_spec (mac_key st seq) msg" for msg
    using poly_tag [OF k, of msg] by (auto simp: tag_bytes_def)
  then show "length (tag_bytes st seq msg) = 16" "le_val (tag_bytes st seq msg) = poly1305_spec (mac_key st seq) msg" by blast+
  obtain poly where p: "poly1305_init uninit_poly (mac_key st seq) = Inr poly" using t by blast
  show "\<exists>poly. poly1305_init uninit_poly (mac_key st seq) = Inr poly \<and> (\<forall>msg. \<exists>st'. poly1305_done (poly1305_process poly msg) 16 = Inr (tag_bytes st seq msg, st'))"
    using t p by auto
qed

text \<open>The steps common to both directions.\<close>

lemma chachapoly_keys:
  assumes "chachapoly_ok st"
  shows "\<exists>c1 c2. chacha_ivctr64 (cp_chacha st) (STORE64H (ucast seq)) 0 = Some c1 \<and> chacha_keystream c1 32 = Some (mac_key st seq, c2)
    \<and> wf_chacha c2 \<and> same_key (cp_chacha st) c2"
  using chacha_run [of "cp_chacha st" 0 "replicate 32 0" seq] assms
  by (auto simp: chachapoly_ok_def chacha_keystream_def xor_bytes_zeros mac_key_def blocks_of_def)

lemma chachapoly_body:
  assumes "chachapoly_ok st" "wf_chacha c2" "same_key (cp_chacha st) c2" "4 \<le> length x" "length x < 2 ^ 32"
  shows "\<exists>h1 h2 c3 c4. chacha_ivctr64 (cp_header st) (STORE64H (ucast seq)) 0 = Some h1
    \<and> chacha_crypt h1 (take 4 x) = Some (take 4 (packet_crypt st seq x), h2) \<and> wf_chacha h2 \<and> same_key (cp_header st) h2
    \<and> chacha_ivctr64 c2 (STORE64H (ucast seq)) 1 = Some c3
    \<and> chacha_crypt c3 (drop 4 x) = Some (drop 4 (packet_crypt st seq x), c4) \<and> wf_chacha c4 \<and> same_key (cp_chacha st) c4"
    "length (packet_crypt st seq x) = length x"
proof -
  have w: "wf_chacha (cp_chacha st)" "wf_chacha (cp_header st)" using assms(1) by (simp_all add: chachapoly_ok_def)
  have l4: "length (take 4 x) = 4" "length (drop 4 x) = length x - 4" using assms(4) by simp_all
  obtain h1 h2 where h: "chacha_ivctr64 (cp_header st) (STORE64H (ucast seq)) 0 = Some h1"
    "chacha_crypt h1 (take 4 x) = Some (xor_bytes (take 4 x) (keystream (cp_header st) seq 0 4), h2)"
    "4 \<le> length (keystream (cp_header st) seq 0 4)" "wf_chacha h2" "same_key (cp_header st) h2"
    using chacha_run [OF w(2), of 0 "take 4 x" seq] l4 by (auto simp: blocks_of_def)
  have bl: "unat (1 :: u64) + blocks_of (length (drop 4 x)) < 2 ^ 64"
  proof -
    have "length (drop 4 x) < 2 ^ 32" using assms(5) by simp
    from blocks_small [OF this] show ?thesis by simp
  qed
  obtain c3 c4 where c: "chacha_ivctr64 c2 (STORE64H (ucast seq)) 1 = Some c3"
    "chacha_crypt c3 (drop 4 x) = Some (xor_bytes (drop 4 x) (keystream c2 seq 1 (length x - 4)), c4)"
    "length x - 4 \<le> length (keystream c2 seq 1 (length x - 4))" "wf_chacha c4" "same_key c2 c4"
    using chacha_run [OF assms(2) bl, of seq] l4 by auto
  have k: "keystream c2 seq 1 (length x - 4) = keystream (cp_chacha st) seq 1 (length x - 4)"
    using keystream_cong [OF w(1) assms(2,3)] by simp
  have lh: "length (xor_bytes (take 4 x) (keystream (cp_header st) seq 0 4)) = 4" using h(3) l4 by simp
  have P: "take 4 (packet_crypt st seq x) = xor_bytes (take 4 x) (keystream (cp_header st) seq 0 4)"
    "drop 4 (packet_crypt st seq x) = xor_bytes (drop 4 x) (keystream c2 seq 1 (length x - 4))"
    unfolding packet_crypt_def k using lh by simp_all
  show "length (packet_crypt st seq x) = length x"
    unfolding packet_crypt_def using lh c(3) assms(4) by (simp add: k min_absorb1)
  show "\<exists>h1 h2 c3 c4. chacha_ivctr64 (cp_header st) (STORE64H (ucast seq)) 0 = Some h1
    \<and> chacha_crypt h1 (take 4 x) = Some (take 4 (packet_crypt st seq x), h2) \<and> wf_chacha h2 \<and> same_key (cp_header st) h2
    \<and> chacha_ivctr64 c2 (STORE64H (ucast seq)) 1 = Some c3
    \<and> chacha_crypt c3 (drop 4 x) = Some (drop 4 (packet_crypt st seq x), c4) \<and> wf_chacha c4 \<and> same_key (cp_chacha st) c4"
    unfolding P using h c same_key_trans [OF assms(3) c(5)] by blast
qed

lemma chachapoly_encrypt:
  assumes "chachapoly_ok st" "4 \<le> length x" "length x < 2 ^ 32"
  shows "\<exists>st'. dropbear_chachapoly_crypt seq x (length x) 16 st LTC_ENCRYPT
      = Some (packet_crypt st seq x @ tag_bytes st seq (packet_crypt st seq x), st') \<and> same_keys st st'"
proof -
  obtain c1 c2 where c: "chacha_ivctr64 (cp_chacha st) (STORE64H (ucast seq)) 0 = Some c1" "chacha_keystream c1 32 = Some (mac_key st seq, c2)"
    "wf_chacha c2" "same_key (cp_chacha st) c2"
    using chachapoly_keys [OF assms(1)] by blast
  obtain poly where p: "poly1305_init uninit_poly (mac_key st seq) = Inr poly"
    "\<And>msg. \<exists>st'. poly1305_done (poly1305_process poly msg) 16 = Inr (tag_bytes st seq msg, st')"
    using tag_bytes_props(3) [OF assms(1)] by blast
  obtain ps where ps: "poly1305_done (poly1305_process poly (packet_crypt st seq x)) 16 = Inr (tag_bytes st seq (packet_crypt st seq x), ps)"
    using p(2) by blast
  obtain h1 h2 c3 c4 where b: "chacha_ivctr64 (cp_header st) (STORE64H (ucast seq)) 0 = Some h1"
    "chacha_crypt h1 (take 4 x) = Some (take 4 (packet_crypt st seq x), h2)" "wf_chacha h2" "same_key (cp_header st) h2"
    "chacha_ivctr64 c2 (STORE64H (ucast seq)) 1 = Some c3"
    "chacha_crypt c3 (drop 4 x) = Some (drop 4 (packet_crypt st seq x), c4)" "wf_chacha c4" "same_key (cp_chacha st) c4"
    using chachapoly_body(1) [OF assms(1) c(3,4) assms(2,3)] by blast
  have "dropbear_chachapoly_crypt seq x (length x) 16 st LTC_ENCRYPT
      = Some (packet_crypt st seq x @ tag_bytes st seq (packet_crypt st seq x), st\<lparr>cp_chacha := c4, cp_header := h2\<rparr>)"
    using assms(2) c p(1) b ps by (simp add: dropbear_chachapoly_crypt_def POLY1305_TAG_LEN_def POLY1305_KEY_LEN_def)
  then show ?thesis using assms(1) b by (auto simp: same_keys_def chachapoly_ok_def)
qed

lemma chachapoly_decrypt:
  assumes "chachapoly_ok st" "length y = n + 16" "4 \<le> n" "n < 2 ^ 32"
  shows "\<exists>st'. dropbear_chachapoly_crypt seq y n 16 st LTC_DECRYPT
      = (if drop n y = tag_bytes st seq (take n y) then Some (packet_crypt st seq (take n y), st') else None) \<and> same_keys st st'"
proof -
  let ?x = "take n y"
  have x: "4 \<le> length ?x" "length ?x < 2 ^ 32" "take 4 ?x = take 4 y" "drop 4 ?x = take (n - 4) (drop 4 y)"
    using assms by (simp_all add: drop_take min_absorb1)
  obtain c1 c2 where c: "chacha_ivctr64 (cp_chacha st) (STORE64H (ucast seq)) 0 = Some c1" "chacha_keystream c1 32 = Some (mac_key st seq, c2)"
    "wf_chacha c2" "same_key (cp_chacha st) c2"
    using chachapoly_keys [OF assms(1)] by blast
  obtain poly where p: "poly1305_init uninit_poly (mac_key st seq) = Inr poly"
    "\<And>msg. \<exists>st'. poly1305_done (poly1305_process poly msg) 16 = Inr (tag_bytes st seq msg, st')"
    using tag_bytes_props(3) [OF assms(1)] by blast
  obtain ps where ps: "poly1305_done (poly1305_process poly ?x) 16 = Inr (tag_bytes st seq ?x, ps)" using p(2) by blast
  obtain h1 h2 c3 c4 where b: "chacha_ivctr64 (cp_header st) (STORE64H (ucast seq)) 0 = Some h1"
    "chacha_crypt h1 (take 4 ?x) = Some (take 4 (packet_crypt st seq ?x), h2)" "wf_chacha h2" "same_key (cp_header st) h2"
    "chacha_ivctr64 c2 (STORE64H (ucast seq)) 1 = Some c3"
    "chacha_crypt c3 (drop 4 ?x) = Some (drop 4 (packet_crypt st seq ?x), c4)" "wf_chacha c4" "same_key (cp_chacha st) c4"
    using chachapoly_body(1) [OF assms(1) c(3,4) x(1,2)] by blast
  obtain cmp where cmp: "constant_time_memcmp (drop n y) (tag_bytes st seq ?x) 16 = Inr cmp"
    "cmp = 0 \<longleftrightarrow> drop n y = tag_bytes st seq ?x"
    using constant_time_memcmp_eq [of 16 "drop n y" "tag_bytes st seq ?x"] tag_bytes_props(1) [OF assms(1)] assms(2) by auto
  have "dropbear_chachapoly_crypt seq y n 16 st LTC_DECRYPT
      = (if drop n y = tag_bytes st seq ?x then Some (packet_crypt st seq ?x, st\<lparr>cp_chacha := c4, cp_header := h2\<rparr>) else None)"
    using assms(3) c p(1) b ps cmp x(3,4)
    by (simp add: dropbear_chachapoly_crypt_def POLY1305_TAG_LEN_def POLY1305_KEY_LEN_def)
  then show ?thesis
    using assms(1) b by (intro exI [of _ "st\<lparr>cp_chacha := c4, cp_header := h2\<rparr>"]) (auto simp: same_keys_def chachapoly_ok_def)
qed

lemma chachapoly_getlength:
  assumes "chachapoly_ok st" "4 \<le> length x"
  shows "\<exists>st'. dropbear_chachapoly_getlength seq x st = Some (LOAD32H (take 4 (packet_crypt st seq (take 4 x))), st') \<and> same_keys st st'"
proof -
  have l: "length (take 4 x) = 4" using assms(2) by simp
  have w: "wf_chacha (cp_header st)" using assms(1) by (simp add: chachapoly_ok_def)
  obtain h1 h2 where h: "chacha_ivctr64 (cp_header st) (STORE64H (ucast seq)) 0 = Some h1"
    "chacha_crypt h1 (take 4 x) = Some (xor_bytes (take 4 x) (keystream (cp_header st) seq 0 4), h2)"
    "4 \<le> length (keystream (cp_header st) seq 0 4)" "wf_chacha h2" "same_key (cp_header st) h2"
    using chacha_run [OF w, of 0 "take 4 x" seq] l by (auto simp: blocks_of_def)
  have "take 4 (packet_crypt st seq (take 4 x)) = xor_bytes (take 4 x) (keystream (cp_header st) seq 0 4)"
    using l h(3) by (simp add: packet_crypt_def xor_bytes_def)
  then show ?thesis
    using h assms by (auto simp: dropbear_chachapoly_getlength_def same_keys_def chachapoly_ok_def)
qed

lemma packet_crypt_invol:
  assumes "chachapoly_ok st" "4 \<le> length x"
  shows "packet_crypt st seq (packet_crypt st seq x) = x"
proof -
  have w: "length (nonce_words (cp_chacha st) seq) = 16" "length (nonce_words (cp_header st) seq) = 16"
    using assms(1) by (simp_all add: chachapoly_ok_def wf_chacha_def nonce_words_def)
  have k: "4 \<le> length (keystream (cp_header st) seq 0 4)" "length x - 4 \<le> length (keystream (cp_chacha st) seq 1 (length x - 4))"
    unfolding keystream_def length_chacha_blocks [OF w(1)] length_chacha_blocks [OF w(2)] blocks_of_def by (simp, linarith)
  have l: "length (xor_bytes (take 4 x) (keystream (cp_header st) seq 0 4)) = 4" using k assms(2) by simp
  have lp: "length (packet_crypt st seq x) = length x" unfolding packet_crypt_def using k assms(2) l by (simp add: min_absorb1)
  have "take 4 (packet_crypt st seq x) = xor_bytes (take 4 x) (keystream (cp_header st) seq 0 4)"
    "drop 4 (packet_crypt st seq x) = xor_bytes (drop 4 x) (keystream (cp_chacha st) seq 1 (length x - 4))"
    unfolding packet_crypt_def using l by simp_all
  then show ?thesis
    unfolding packet_crypt_def [of st seq "packet_crypt st seq x"] lp using k assms(2) by (simp add: xor_bytes_self)
qed

lemma packet_crypt_prefix:
  assumes "chachapoly_ok st" "4 \<le> length x"
  shows "take 4 (packet_crypt st seq (take 4 x)) = take 4 (packet_crypt st seq x)"
proof -
  have w: "length (nonce_words (cp_header st) seq) = 16"
    using assms(1) by (simp add: chachapoly_ok_def wf_chacha_def nonce_words_def)
  have "4 \<le> length (keystream (cp_header st) seq 0 4)"
    unfolding keystream_def length_chacha_blocks [OF w] blocks_of_def by simp
  then show ?thesis using assms(2) by (simp add: packet_crypt_def)
qed

section \<open>The cipher\<close>

text \<open>
  C14. \<open>chacha20-poly1305\<close> round trip: with the same keys and sequence number, what
  \<open>dropbear_chachapoly_crypt\<close> encrypts it decrypts again, and
  \<open>dropbear_chachapoly_getlength\<close> reads the packet length from the first bytes alone, before
  the packet is complete; the keys stay the same, so the next packet works too.
\<close>

theorem chachapoly_roundtrip:
  assumes "same_keys s r" "4 \<le> length x" "length x < 2 ^ 32"
  shows "\<exists>y s' r1 r2. dropbear_chachapoly_crypt seq x (length x) 16 s LTC_ENCRYPT = Some (y, s') \<and> length y = length x + 16
    \<and> dropbear_chachapoly_getlength seq (take 8 y) r = Some (LOAD32H (take 4 x), r1)
    \<and> dropbear_chachapoly_crypt seq y (length x) 16 r1 LTC_DECRYPT = Some (x, r2) \<and> same_keys s' r2"
proof -
  have ok: "chachapoly_ok s" "chachapoly_ok r" using assms(1) by (simp_all add: same_keys_def)
  let ?c = "packet_crypt s seq x"
  let ?y = "?c @ tag_bytes s seq ?c"
  obtain s' where s': "dropbear_chachapoly_crypt seq x (length x) 16 s LTC_ENCRYPT = Some (?y, s')" "same_keys s s'"
    using chachapoly_encrypt [OF ok(1) assms(2,3)] by blast
  have lc: "length ?c = length x"
  proof -
    obtain c1 c2 where "wf_chacha c2" "same_key (cp_chacha s) c2" using chachapoly_keys [OF ok(1)] by blast
    from chachapoly_body(2) [OF ok(1) this assms(2,3)] show ?thesis .
  qed
  have ly: "length ?y = length x + 16" using lc tag_bytes_props(1) [OF ok(1)] by simp
  have l8: "4 \<le> length (take 8 ?y)" using ly assms(2) by simp
  obtain r1 where r1: "dropbear_chachapoly_getlength seq (take 8 ?y) r = Some (LOAD32H (take 4 (packet_crypt r seq (take 4 (take 8 ?y)))), r1)"
    "same_keys r r1"
    using chachapoly_getlength [OF ok(2) l8] by blast
  have "take 4 (take 8 ?y) = take 4 ?c" using lc assms(2) by simp
  moreover have "take 4 (packet_crypt r seq (take 4 ?c)) = take 4 x"
    using packet_crypt_prefix [OF ok(2), of ?c seq] packet_crypt_cong(1) [OF assms(1), of seq ?c] packet_crypt_invol [OF ok(1) assms(2)] lc assms(2) by simp
  ultimately have len: "LOAD32H (take 4 (packet_crypt r seq (take 4 (take 8 ?y)))) = LOAD32H (take 4 x)" by (simp only:)
  have k1: "same_keys s r1" using assms(1) r1(2) by (auto simp: same_keys_def intro: same_key_trans)
  have ok1: "chachapoly_ok r1" using k1 by (simp add: same_keys_def)
  obtain r2 where r2: "dropbear_chachapoly_crypt seq ?y (length x) 16 r1 LTC_DECRYPT
      = (if drop (length x) ?y = tag_bytes r1 seq (take (length x) ?y) then Some (packet_crypt r1 seq (take (length x) ?y), r2) else None)"
    "same_keys r1 r2"
    using chachapoly_decrypt [OF ok1 ly assms(2,3)] by blast
  have "tag_bytes r1 seq ?c = tag_bytes s seq ?c" unfolding tag_bytes_def packet_crypt_cong(2) [OF k1] by simp
  moreover have "packet_crypt r1 seq ?c = x" using packet_crypt_cong(1) [OF k1] packet_crypt_invol [OF ok(1) assms(2)] by metis
  ultimately have "dropbear_chachapoly_crypt seq ?y (length x) 16 r1 LTC_DECRYPT = Some (x, r2)"
    using r2(1) lc by simp
  moreover have "same_keys s' r2"
    using s'(2) k1 r2(2) by (auto simp: same_keys_def dest: same_key_sym intro: same_key_trans)
  ultimately show ?thesis using s'(1) ly r1(1) len by metis
qed

definition example_cp :: chachapoly_state where
  "example_cp = \<lparr>cp_chacha = example_chacha, cp_header = example_chacha\<lparr>cs_rounds := 8\<rparr>\<rparr>"

lemma example_cp_keys: "same_keys example_cp example_cp" "chachapoly_ok example_cp"
  by (simp_all add: same_keys_def chachapoly_ok_def example_cp_def example_chacha_def wf_chacha_def)

theorem chachapoly_roundtrip_witness:
  "same_keys example_cp example_cp \<and>
   (\<exists>y s' r1 r2. dropbear_chachapoly_crypt 5 [0, 0, 0, 4, 9, 9, 9, 9] 8 16 example_cp LTC_ENCRYPT = Some (y, s')
    \<and> dropbear_chachapoly_getlength 5 (take 8 y) example_cp = Some (LOAD32H [0, 0, 0, 4], r1)
    \<and> dropbear_chachapoly_crypt 5 y 8 16 r1 LTC_DECRYPT = Some ([0, 0, 0, 4, 9, 9, 9, 9], r2))"
proof -
  let ?x = "[0, 0, 0, 4, 9, 9, 9, 9] :: byte list"
  have l: "length ?x = 8" and t: "take 4 ?x = [0, 0, 0, 4]" by simp_all
  show ?thesis
    using chachapoly_roundtrip [OF example_cp_keys(1), of ?x 5, unfolded l t] example_cp_keys(1) by fastforce
qed

text \<open>
  C15. A packet whose tag is not the Poly1305 tag of its bytes, under the one time key the
  cipher derives from the packet's sequence number, is not decrypted: decryption
  returns a packet exactly when the tag is right.
\<close>

theorem chachapoly_authentic:
  assumes "chachapoly_ok r" "length y = n + 16" "4 \<le> n" "n < 2 ^ 32"
  shows "dropbear_chachapoly_crypt seq y n 16 r LTC_DECRYPT \<noteq> None
     \<longleftrightarrow> le_val (drop n y) = poly1305_spec (take 32 (keystream (cp_chacha r) seq 0 32)) (take n y)"
proof -
  have "drop n y = tag_bytes r seq (take n y) \<longleftrightarrow> le_val (drop n y) = le_val (tag_bytes r seq (take n y))"
    using le_val_inj [of "drop n y" "tag_bytes r seq (take n y)"] tag_bytes_props(1) [OF assms(1)] assms(2) by auto
  then show ?thesis
    using chachapoly_decrypt [OF assms, of seq] tag_bytes_props(2) [OF assms(1), of seq "take n y"] by (auto simp: mac_key_def)
qed

theorem chachapoly_authentic_witness:
  "chachapoly_ok example_cp \<and> (dropbear_chachapoly_crypt 5 (replicate 24 1) 8 16 example_cp LTC_DECRYPT \<noteq> None
     \<longleftrightarrow> le_val (drop 8 (replicate 24 1)) = poly1305_spec (take 32 (keystream (cp_chacha example_cp) 5 0 32)) (take 8 (replicate 24 1)))"
  using chachapoly_authentic [OF example_cp_keys(2), of "replicate 24 1" 8 5] example_cp_keys(2) by simp

end
