(* ===== verification/Hash_Process.thy ===== *)
theory Hash_Process
  imports Endian
begin

text \<open>
  The part the hash functions of libtomcrypt share: the macro \<open>HASH_PROCESS\<close> of
  \<open>tomcrypt_hash.h\<close>, which feeds a message to a compression function a block at a time, and
  the padding at the end of a message, which \<open>sha1.c\<close>, \<open>sha256.c\<close> and \<open>sha512.c\<close> write
  out alike.  The locale \<open>md_hash\<close> shows once that a message may arrive in any pieces.
\<close>

section \<open>Definitions\<close>

text \<open>
  \<open>struct sha256_state\<close> and its like: the bits hashed so far, the chaining state, and the
  bytes that wait for the rest of their block.
\<close>

record 'w md_state =
  md_length :: u64
  md_state :: "'w list"
  md_curlen :: nat
  md_buf :: "byte list"

type_synonym 'w compress = "'w list \<Rightarrow> byte list \<Rightarrow> 'w list"

text \<open>A block goes through the compression function; bytes wait in the buffer.\<close>

definition md_compress :: "nat \<Rightarrow> 'w compress \<Rightarrow> byte list \<Rightarrow> 'w md_state \<Rightarrow> 'w md_state" where
  "md_compress block_size compress block md =
     md\<lparr>md_state := compress (md_state md) block, md_length := md_length md + of_nat (block_size * 8)\<rparr>"

definition md_store :: "byte list \<Rightarrow> 'w md_state \<Rightarrow> 'w md_state" where
  "md_store bytes md =
     md\<lparr>md_buf := take (md_curlen md) (md_buf md) @ bytes @ drop (md_curlen md + length bytes) (md_buf md),
        md_curlen := md_curlen md + length bytes\<rparr>"

definition md_restart :: "'w md_state \<Rightarrow> 'w md_state" where
  "md_restart md = md\<lparr>md_curlen := 0\<rparr>"

text \<open>
  The \<open>while\<close> loop.  The macro is used with block sizes above 0 and is entered with
  \<open>curlen\<close> at most the size of the buffer; these are tested here as well, so that the recursion
  ends for all arguments.
\<close>

function hash_process_loop :: "nat \<Rightarrow> 'w compress \<Rightarrow> 'w md_state \<Rightarrow> byte list \<Rightarrow> 'w md_state" where
  "hash_process_loop block_size compress md inp =
     (if inp = [] \<or> block_size = 0 \<or> md_curlen md > block_size then md
      else if md_curlen md = 0 \<and> length inp \<ge> block_size then
        hash_process_loop block_size compress
          (md_compress block_size compress (take block_size inp) md) (drop block_size inp)
      else
        let n = min (length inp) (block_size - md_curlen md);
            md = md_store (take n inp) md in
        if md_curlen md = block_size then
          hash_process_loop block_size compress
            (md_restart (md_compress block_size compress (md_buf md) md)) (drop n inp)
        else hash_process_loop block_size compress md (drop n inp))"
  by pat_completeness auto
termination
  by (relation "measures [\<lambda>(_, _, _, inp). length inp, \<lambda>(_, _, md, _). md_curlen md]")
     (auto simp: min_def md_store_def md_restart_def split: if_splits)

declare hash_process_loop.simps [simp del]

text \<open>Whether the result is \<open>CRYPT_OK\<close>, and the new state.  The buffer has \<open>block_size\<close> bytes.\<close>

definition HASH_PROCESS :: "nat \<Rightarrow> 'w compress \<Rightarrow> 'w md_state \<Rightarrow> byte list \<Rightarrow> bool \<times> 'w md_state" where
  "HASH_PROCESS block_size compress md inp =
     (if md_curlen md > block_size then (False, md)
      else if md_length md + of_nat (length inp) < md_length md then (False, md)
      else (True, hash_process_loop block_size compress md inp))"

text \<open>\<open>while (curlen < to) buf[curlen++] = 0\<close>\<close>

function zero_to :: "byte list \<Rightarrow> nat \<Rightarrow> nat \<Rightarrow> byte list" where
  "zero_to buf curlen end = (if curlen < end then zero_to (buf[curlen := 0]) (curlen + 1) end else buf)"
  by pat_completeness auto
termination by (relation "measure (\<lambda>(_, c, e). e - c)") auto

declare zero_to.simps [simp del]

text \<open>
  The end of a message: a one bit, zeros as far as \<open>zero_end\<close> in a block that has not gone past
  \<open>limit\<close>, and the number of bits.  The result is the final chaining state, \<open>None\<close> for
  \<open>CRYPT_INVALID_ARG\<close>.
\<close>

definition md_finish :: "nat \<Rightarrow> nat \<Rightarrow> nat \<Rightarrow> 'w compress \<Rightarrow> 'w md_state \<Rightarrow> 'w list option" where
  "md_finish block_size limit zero_end compress md =
     (if md_curlen md \<ge> block_size then None
      else
        let len = md_length md + of_nat (md_curlen md * 8);
            buf = (md_buf md)[md_curlen md := 0x80];
            curlen = md_curlen md + 1;
            (state, buf, curlen) =
              (if curlen > limit then
                 let buf = zero_to buf curlen block_size in (compress (md_state md) buf, buf, 0)
               else (md_state md, buf, curlen));
            buf = zero_to buf curlen zero_end;
            buf = take zero_end buf @ STORE64H len @ drop (zero_end + 8) buf in
        Some (compress state buf))"

section \<open>Specification\<close>

text \<open>The chaining state after the whole blocks of a message.\<close>

function md_blocks :: "nat \<Rightarrow> 'w compress \<Rightarrow> 'w list \<Rightarrow> byte list \<Rightarrow> 'w list" where
  "md_blocks bs c s m = (if bs = 0 \<or> length m < bs then s else md_blocks bs c (c s (take bs m)) (drop bs m))"
  by pat_completeness auto
termination by (relation "measure (\<lambda>(_, _, _, m). length m)") auto

declare md_blocks.simps [simp del]

text \<open>
  The padding of FIPS 180: a one bit, the fewest zeros that leave room for the length in
  the last block, and the length, whose upper \<open>zero_end - limit\<close> bytes are zero.
\<close>

definition md_pad :: "nat \<Rightarrow> nat \<Rightarrow> nat \<Rightarrow> byte list \<Rightarrow> byte list" where
  "md_pad bs limit zero_end m =
     m @ [0x80] @ replicate ((limit + bs - (length m mod bs + 1)) mod bs) 0
       @ replicate (zero_end - limit) 0 @ STORE64H (of_nat (8 * length m))"

text \<open>The state \<open>md\<close> has taken in the message \<open>m\<close>: its whole blocks, and the rest in the buffer.\<close>

definition whole :: "nat \<Rightarrow> nat \<Rightarrow> nat" where
  "whole bs n = n div bs * bs"

definition absorbed :: "nat \<Rightarrow> 'w compress \<Rightarrow> 'w list \<Rightarrow> byte list \<Rightarrow> 'w md_state \<Rightarrow> bool" where
  "absorbed bs c iv m md \<longleftrightarrow> md_state md = md_blocks bs c iv m \<and> md_curlen md = length m mod bs
     \<and> take (md_curlen md) (md_buf md) = drop (whole bs (length m)) m \<and> length (md_buf md) = bs
     \<and> md_length md = of_nat (8 * whole bs (length m))"

section \<open>Any pieces\<close>

lemma zero_to_eq: "i \<le> e \<Longrightarrow> e \<le> length buf \<Longrightarrow> zero_to buf i e = take i buf @ replicate (e - i) 0 @ drop e buf"
proof (induction buf i e rule: zero_to.induct)
  case (1 buf i e)
  show ?case
  proof (cases "i < e")
    case True
    then have "zero_to buf i e = zero_to (buf[i := 0]) (Suc i) e"
      by (subst zero_to.simps) simp
    also have "\<dots> = take (Suc i) (buf[i := 0]) @ replicate (e - Suc i) 0 @ drop e (buf[i := 0])"
      using "1.IH" [OF True] "1.prems" True by simp
    also have "take (Suc i) (buf[i := 0]) = take i buf @ [0]"
      using "1.prems" True by (simp add: take_Suc_conv_app_nth)
    also have "(take i buf @ [0]) @ replicate (e - Suc i) 0 @ drop e (buf[i := 0]) = take i buf @ replicate (e - i) 0 @ drop e buf"
      using True by (simp add: Suc_diff_Suc [symmetric])
    finally show ?thesis .
  next
    case False
    then show ?thesis using "1.prems" by (subst zero_to.simps) simp
  qed
qed

lemma md_blocks_short: "length m < bs \<Longrightarrow> md_blocks bs c s m = s"
  by (subst md_blocks.simps) simp

lemma md_blocks_step: "0 < bs \<Longrightarrow> length b = bs \<Longrightarrow> md_blocks bs c s (b @ m) = md_blocks bs c (c s b) m"
  by (subst md_blocks.simps) simp

lemma md_blocks_append:
  assumes "0 < bs" "length m mod bs = 0"
  shows "md_blocks bs c s (m @ x) = md_blocks bs c (md_blocks bs c s m) x"
  using assms(2)
proof (induction bs c s m rule: md_blocks.induct)
  case (1 bs c s m)
  show ?case
  proof (cases "bs = 0 \<or> length m < bs")
    case True
    then have "m = [] \<or> bs = 0" using "1.prems" by auto
    then show ?thesis by (auto simp: md_blocks.simps [of 0] md_blocks.simps [of bs c s "[]"])
  next
    case False
    then have m: "0 < bs" "length (take bs m) = bs" by auto
    have "length (drop bs m) mod bs = 0"
      using "1.prems" False by (simp add: le_mod_geq)
    then have IH: "md_blocks bs c (c s (take bs m)) (drop bs m @ x) = md_blocks bs c (md_blocks bs c (c s (take bs m)) (drop bs m)) x"
      using "1.IH" [OF False] by simp
    have "m @ x = take bs m @ (drop bs m @ x)"
      using append_take_drop_id [of bs m] by (simp only: append_assoc [symmetric])
    then have "md_blocks bs c s (m @ x) = md_blocks bs c s (take bs m @ (drop bs m @ x))"
      by (rule arg_cong)
    also have "\<dots> = md_blocks bs c (md_blocks bs c (c s (take bs m)) (drop bs m)) x"
      unfolding md_blocks_step [OF m] by (rule IH)
    also have "md_blocks bs c (c s (take bs m)) (drop bs m) = md_blocks bs c s m"
      using False by (simp add: md_blocks.simps [of bs c s m])
    finally show ?thesis .
  qed
qed

lemma whole_add: "n mod bs + k < bs \<Longrightarrow> whole bs (n + k) = whole bs n \<and> (n + k) mod bs = n mod bs + k"
proof -
  assume k: "n mod bs + k < bs"
  have "n + k = n div bs * bs + (n mod bs + k)" by simp
  then show ?thesis
    using k by (metis whole_def div_mult_self3 div_less add.right_neutral mod_mult_self3 mod_less
        gr_implies_not_zero)
qed

lemma whole_next: "0 < bs \<Longrightarrow> n mod bs + k = bs \<Longrightarrow> whole bs (n + k) = whole bs n + bs \<and> (n + k) mod bs = 0"
proof -
  assume a: "0 < bs" "n mod bs + k = bs"
  have "n div bs * bs + n mod bs = n" by (rule div_mult_mod_eq)
  then have "n + k = n div bs * bs + bs" using a(2) by linarith
  then have "n + k = (n div bs + 1) * bs" by simp
  then show ?thesis using a(1) by (simp add: whole_def)
qed

lemma whole_mod: "whole bs n + n mod bs = n" "whole bs n \<le> n"
  by (simp_all add: whole_def)

lemma whole_0: "n mod bs = 0 \<Longrightarrow> whole bs n = n"
  using whole_mod(1) [of bs n] by simp

lemma md_blocks_split:
  assumes "0 < bs"
  shows "md_blocks bs c s m = md_blocks bs c s (take (whole bs (length m)) m)"
proof -
  let ?n = "whole bs (length m)"
  have n: "length (take ?n m) mod bs = 0"
    by (simp add: min_absorb2 whole_mod) (simp add: whole_def)
  have "length (drop ?n m) < bs"
    using assms whole_mod(1) [of bs "length m"] mod_less_divisor [OF assms, of "length m"] by simp
  then have "md_blocks bs c (md_blocks bs c s (take ?n m)) (drop ?n m) = md_blocks bs c s (take ?n m)"
    by (rule md_blocks_short)
  then show ?thesis
    using md_blocks_append [OF assms n, of c s "drop ?n m"] by simp
qed

lemma absorbed_block:
  assumes "0 < bs" "absorbed bs c iv m md" "length m mod bs = 0" "length b = bs"
  shows "absorbed bs c iv (m @ b) (md_compress bs c b md)"
proof -
  have d: "whole bs (length m + bs) = length m + bs" "whole bs (length m) = length m"
    using assms(3) by (simp_all add: whole_0)
  have "md_blocks bs c (md_blocks bs c iv m) b = c (md_blocks bs c iv m) b"
    using md_blocks_step [OF assms(1,4), of c _ "[]"] assms(1) by (simp add: md_blocks_short)
  then have "md_blocks bs c iv (m @ b) = c (md_blocks bs c iv m) b"
    by (simp add: md_blocks_append [OF assms(1,3)])
  then show ?thesis
    using assms(2-4) d by (simp add: absorbed_def md_compress_def)
qed

lemma absorbed_store:
  assumes "0 < bs" "absorbed bs c iv m md" "length m mod bs + length x < bs"
  shows "absorbed bs c iv (m @ x) (md_store x md)"
proof -
  note q = whole_add [OF assms(3)]
  have "md_blocks bs c iv (m @ x) = md_blocks bs c iv m"
    using md_blocks_split [OF assms(1), of c iv "m @ x"] md_blocks_split [OF assms(1), of c iv m] q
      whole_mod(2) [of bs "length m"] by simp
  then show ?thesis
    using assms q whole_mod(2) [of bs "length m"] by (auto simp: absorbed_def md_store_def)
qed

lemma absorbed_fill:
  assumes "0 < bs" "absorbed bs c iv m md" "length m mod bs + length x = bs"
  shows "absorbed bs c iv (m @ x) (md_restart (md_compress bs c (md_buf (md_store x md)) (md_store x md)))"
proof -
  let ?n = "whole bs (length m)" let ?r = "drop ?n m"
  note w = whole_mod [of bs "length m"] and q = whole_next [OF assms(1,3)]
  have r: "length ?r = length m mod bs" using w by simp
  have n: "length (take ?n m) mod bs = 0" using w(2) by (simp add: min_absorb2) (simp add: whole_def)
  have buf: "md_buf (md_store x md) = ?r @ x"
    using assms(2,3) r by (auto simp: absorbed_def md_store_def)
  have "md_blocks bs c iv m = md_blocks bs c iv (take ?n m)"
    by (rule md_blocks_split [OF assms(1)])
  moreover have "md_blocks bs c iv (take ?n m @ (?r @ x)) = c (md_blocks bs c iv (take ?n m)) (?r @ x)"
    using md_blocks_append [OF assms(1) n, of c iv "?r @ x"]
      md_blocks_step [OF assms(1), of "?r @ x" c _ "[]"] assms(1,3) r
    by (simp add: md_blocks_short del: append_take_drop_id)
  moreover have "take ?n m @ (?r @ x) = m @ x"
    by (simp only: append_assoc [symmetric] append_take_drop_id)
  ultimately have "md_blocks bs c iv (m @ x) = c (md_blocks bs c iv m) (?r @ x)" by simp
  moreover have "length (?r @ x) = bs"
    using r assms(3) by simp
  moreover have "length m + length x = ?n + bs"
    using w(1) assms(3) by linarith
  ultimately show ?thesis
    using assms(2) q buf by (simp add: absorbed_def md_restart_def md_compress_def md_store_def)
qed

lemma absorbed_loop:
  "0 < bs \<Longrightarrow> absorbed bs c iv m md \<Longrightarrow> absorbed bs c iv (m @ inp) (hash_process_loop bs c md inp)"
proof (induction bs c md inp arbitrary: m rule: hash_process_loop.induct)
  case (1 bs c md inp)
  have cur: "md_curlen md = length m mod bs" "length m mod bs < bs"
    using "1.prems" by (simp_all add: absorbed_def)
  consider "inp = []" | "inp \<noteq> []" "md_curlen md = 0" "bs \<le> length inp"
    | "inp \<noteq> []" "\<not> (md_curlen md = 0 \<and> bs \<le> length inp)"
    by (cases "inp = []"; cases "md_curlen md = 0 \<and> bs \<le> length inp") simp_all
  then show ?case
  proof cases
    case 1
    then show ?thesis using "1.prems" by (subst hash_process_loop.simps) simp
  next
    case 2
    then have g: "\<not> (inp = [] \<or> bs = 0 \<or> bs < md_curlen md)" using "1.prems" by simp
    have "absorbed bs c iv (m @ take bs inp) (md_compress bs c (take bs inp) md)"
      using "1.prems" 2 cur by (intro absorbed_block) simp_all
    then have "absorbed bs c iv ((m @ take bs inp) @ drop bs inp)
        (hash_process_loop bs c (md_compress bs c (take bs inp) md) (drop bs inp))"
      using "1.IH"(1) [OF g] 2 "1.prems"(1) by blast
    then show ?thesis
      using g 2 by (subst hash_process_loop.simps) simp
  next
    case 3
    then have g: "\<not> (inp = [] \<or> bs = 0 \<or> bs < md_curlen md)" using "1.prems" cur by simp
    define n where "n = min (length inp) (bs - md_curlen md)"
    let ?md = "md_store (take n inp) md"
    have l: "length (take n inp) = n" by (simp add: n_def)
    have c: "md_curlen ?md = length m mod bs + n"
      using l cur(1) by (simp add: md_store_def)
    have le: "length m mod bs + n \<le> bs" using cur by (simp add: n_def)
    show ?thesis
    proof (cases "md_curlen ?md = bs")
      case True
      have "absorbed bs c iv (m @ take n inp) (md_restart (md_compress bs c (md_buf ?md) ?md))"
        using "1.prems" c l True by (intro absorbed_fill) simp_all
      then have "absorbed bs c iv ((m @ take n inp) @ drop n inp)
          (hash_process_loop bs c (md_restart (md_compress bs c (md_buf ?md) ?md)) (drop n inp))"
        using "1.IH"(2) [OF g 3(2) n_def refl True] "1.prems"(1) by blast
      then show ?thesis
        using g 3 True by (subst hash_process_loop.simps) (auto simp: n_def Let_def)
    next
      case False
      have "absorbed bs c iv (m @ take n inp) ?md"
        using "1.prems" c l False le by (intro absorbed_store) simp_all
      then have "absorbed bs c iv ((m @ take n inp) @ drop n inp) (hash_process_loop bs c ?md (drop n inp))"
        using "1.IH"(3) [OF g 3(2) n_def refl False] "1.prems"(1) by blast
      then show ?thesis
        using g 3 False by (subst hash_process_loop.simps) (auto simp: n_def Let_def)
    qed
  qed
qed

lemma unat_u64_of_nat: "n < 18446744073709551616 \<Longrightarrow> unat (of_nat n :: u64) = n"
  by (simp add: unat_of_nat)

lemma absorbed_process:
  assumes "0 < bs" "absorbed bs c iv m md" "8 * (length m + length inp) < 2 ^ 64"
  shows "\<exists>md'. HASH_PROCESS bs c md inp = (True, md') \<and> absorbed bs c iv (m @ inp) md'"
proof -
  have w: "8 * whole bs (length m) + length inp < 18446744073709551616"
    using assms(3) whole_mod(2) [of bs "length m"] by simp
  then have u: "unat (md_length md) = 8 * whole bs (length m)"
    using assms(2) unat_u64_of_nat [of "8 * whole bs (length m)"] by (simp add: absorbed_def)
  have "unat (of_nat (length inp) :: u64) = length inp"
    using w by (intro unat_u64_of_nat) simp
  then have "\<not> md_length md + of_nat (length inp) < md_length md"
    using w u by (simp add: word_less_nat_alt unat_add_u64)
  moreover have "md_curlen md \<le> bs"
    using assms(1,2) mod_less_divisor [of bs "length m"] by (simp add: absorbed_def less_imp_le)
  ultimately show ?thesis
    using absorbed_loop [OF assms(1,2)] by (simp add: HASH_PROCESS_def)
qed

text \<open>The padding code makes the padding of the specification.\<close>

lemma absorbed_finish:
  assumes "absorbed bs c iv m md" "limit \<le> zero_end" "zero_end + 8 = bs" "0 < limit"
  shows "md_finish bs limit zero_end c md = Some (md_blocks bs c iv (md_pad bs limit zero_end m))"
proof -
  define n r where "n = whole bs (length m)" and "r = length m mod bs"
  have bs: "0 < bs" using assms(3) by simp
  have rb: "r < bs" using bs by (simp add: r_def)
  have n: "length (take n m) mod bs = 0" "take n m @ drop n m = m" "length (drop n m) = r"
    using whole_mod [of bs "length m"] by (simp_all add: n_def r_def min_absorb2) (simp add: whole_def)
  have md: "md_state md = md_blocks bs c iv (take n m)" "md_curlen md = r" "take r (md_buf md) = drop n m"
    "length (md_buf md) = bs" "md_length md = of_nat (8 * n)"
    using assms(1) md_blocks_split [OF bs, of c iv m] by (auto simp: absorbed_def n_def r_def)
  define len where "len = STORE64H (of_nat (8 * length m))"
  have "length m = n + r" using whole_mod(1) [of bs "length m"] by (simp add: n_def r_def)
  then have L: "STORE64H (md_length md + of_nat (r * 8)) = len"
    unfolding md(5) len_def of_nat_add [symmetric] by (simp only: add_mult_distrib2 mult.commute [of r 8])
  have len8: "length len = 8" by (simp add: len_def)
  have buf: "take (Suc r) ((md_buf md)[r := 0x80]) = drop n m @ [0x80]"
    using md(3,4) rb by (simp add: take_Suc_conv_app_nth)
  have blocks: "md_blocks bs c iv (take n m @ x) = md_blocks bs c (md_state md) x" for x
    using md_blocks_append [OF bs n(1)] md(1) by simp
  have one: "md_blocks bs c s b = c s b" if "length b = bs" for s b
    using md_blocks_step [OF bs that, of c s "[]"] bs by (simp add: md_blocks_short)
  show ?thesis
  proof (cases "Suc r > limit")
    case False
    have k: "(limit + bs - (r + 1)) mod bs = limit - (r + 1)"
      using False rb assms(2,3) by (simp add: mod_if)
    let ?last = "drop n m @ [0x80] @ replicate (zero_end - (r + 1)) 0 @ len"
    have "replicate (limit - (r + 1)) 0 @ replicate (zero_end - limit) (0::byte) = replicate (zero_end - (r + 1)) 0"
      using False assms(2) by (simp add: replicate_add [symmetric])
    then have pad: "md_pad bs limit zero_end m = take n m @ ?last"
      using k n(2) by (simp add: md_pad_def r_def [symmetric] len_def)
    have z: "zero_to ((md_buf md)[r := 0x80]) (Suc r) zero_end
        = drop n m @ [0x80] @ replicate (zero_end - Suc r) 0 @ drop zero_end ((md_buf md)[r := 0x80])"
      using zero_to_eq [of "Suc r" zero_end "(md_buf md)[r := 0x80]"] False assms(2,3) md(4) buf by simp
    define A where "A = drop n m @ [0x80] @ replicate (zero_end - Suc r) (0::byte)"
    have lA: "length A = zero_end" using False assms(2) n(3) by (simp add: A_def)
    have "zero_to ((md_buf md)[r := 0x80]) (Suc r) zero_end = A @ drop zero_end ((md_buf md)[r := 0x80])"
      unfolding z A_def by simp
    then have tk: "take zero_end (zero_to ((md_buf md)[r := 0x80]) (Suc r) zero_end) = A"
      "drop (zero_end + 8) (zero_to ((md_buf md)[r := 0x80]) (Suc r) zero_end) = []"
      using lA assms(3) md(4) by simp_all
    have "length ?last = bs" using False assms(2,3) n(3) len8 by simp
    then have "md_blocks bs c iv (md_pad bs limit zero_end m) = c (md_state md) ?last"
      by (simp add: pad blocks one)
    then show ?thesis
      using False rb md(2) tk L by (simp add: md_finish_def Let_def A_def)
  next
    case True
    have k: "(limit + bs - (r + 1)) mod bs = (bs - (r + 1)) + limit"
      using True rb assms(2,3) by (simp add: mod_if add.commute)
    let ?b1 = "drop n m @ [0x80] @ replicate (bs - (r + 1)) 0" and ?b2 = "replicate zero_end 0 @ len"
    have "replicate ((bs - (r + 1)) + limit) 0 @ replicate (zero_end - limit) (0::byte)
        = replicate (bs - (r + 1)) 0 @ replicate zero_end 0"
      using assms(2) by (simp add: replicate_add [symmetric])
    then have pad: "md_pad bs limit zero_end m = take n m @ ?b1 @ ?b2"
      using k n(2) by (simp add: md_pad_def r_def [symmetric] len_def)
    have z: "zero_to ((md_buf md)[r := 0x80]) (Suc r) bs = ?b1"
      using zero_to_eq [of "Suc r" bs "(md_buf md)[r := 0x80]"] rb md(4) buf by simp
    have z2: "zero_to ?b1 0 zero_end = replicate zero_end 0 @ drop zero_end ?b1"
      using zero_to_eq [of 0 zero_end ?b1] rb n(3) assms(3) by simp
    have l: "length ?b1 = bs" "length ?b2 = bs" using rb n(3) len8 assms(3) by simp_all
    have "md_blocks bs c (md_state md) (?b1 @ ?b2) = c (c (md_state md) ?b1) ?b2"
      by (simp only: md_blocks_step [OF bs l(1)] one [OF l(2)])
    then show ?thesis
      using True rb md(2,4) z z2 L l assms(3) by (simp add: md_finish_def Let_def pad blocks)
  qed
qed

section \<open>Whole messages\<close>

text \<open>A message is hashed in pieces, as its parts become available.\<close>

fun feed_hash :: "('s \<Rightarrow> byte list \<Rightarrow> bool \<times> 's) \<Rightarrow> 's \<Rightarrow> byte list list \<Rightarrow> bool \<times> 's" where
  "feed_hash process md [] = (True, md)"
| "feed_hash process md (x # xs) = (case process md x of (ok, md) \<Rightarrow> if ok then feed_hash process md xs else (False, md))"

text \<open>The initial state: a chaining state and an empty buffer of \<open>bs\<close> bytes.\<close>

definition md_init :: "nat \<Rightarrow> 'w list \<Rightarrow> 'w md_state" where
  "md_init bs iv = \<lparr>md_length = 0, md_state = iv, md_curlen = 0, md_buf = replicate bs 0\<rparr>"

lemma absorbed_init: "0 < bs \<Longrightarrow> absorbed bs c iv [] (md_init bs iv)"
  by (simp add: absorbed_def md_init_def whole_def md_blocks_short)

locale md_hash =
  fixes bs limit zero_end :: nat and compress :: "'w compress" and iv :: "'w list"
  assumes sizes: "limit \<le> zero_end" "zero_end + 8 = bs" "0 < limit"
begin

lemma feed_absorbed:
  assumes "absorbed bs compress iv m md" "8 * (length m + length (concat ps)) < 2 ^ 64"
  shows "\<exists>md'. feed_hash (HASH_PROCESS bs compress) md ps = (True, md') \<and> absorbed bs compress iv (m @ concat ps) md'"
  using assms
proof (induction ps arbitrary: m md)
  case (Cons p ps)
  have bs: "0 < bs" using sizes(2) by simp
  obtain md1 where md1: "HASH_PROCESS bs compress md p = (True, md1)" "absorbed bs compress iv (m @ p) md1"
    using absorbed_process [OF bs Cons.prems(1), of p] Cons.prems(2) by auto
  then show ?case
    using Cons.IH [OF md1(2)] Cons.prems(2) by simp
qed simp

text \<open>However a message is cut up, the chaining state at the end is that of the padded message.\<close>

lemma hash_pieces:
  assumes "8 * length (concat ps) < 2 ^ 64"
  shows "\<exists>md. feed_hash (HASH_PROCESS bs compress) (md_init bs iv) ps = (True, md)
     \<and> md_finish bs limit zero_end compress md = Some (md_blocks bs compress iv (md_pad bs limit zero_end (concat ps)))"
proof -
  have "0 < bs" using sizes(2) by simp
  then obtain md where "feed_hash (HASH_PROCESS bs compress) (md_init bs iv) ps = (True, md)"
    "absorbed bs compress iv (concat ps) md"
    using feed_absorbed [OF absorbed_init, of ps] assms by auto
  then show ?thesis using absorbed_finish [OF _ sizes] by blast
qed

end

end
