(* ===== verification/Sha2.thy ===== *)
theory Sha2
  imports Hash_Process
begin

text \<open>
  SHA-256, SHA-512 and SHA-384 of libtomcrypt: \<open>sha256.c\<close>, \<open>sha512.c\<close> and \<open>sha384.c\<close>.  Each
  compression function is modelled in both forms the source has, the loop of
  \<open>LTC_SMALL_CODE\<close> (the form the default options choose) and the unrolled rounds; they are
  shown to compute the same, namely the function of FIPS 180-4.
\<close>

section \<open>Definitions\<close>

subsection \<open>Macros\<close>

text \<open>Rotation as the portable macros of \<open>tomcrypt_macros.h\<close> have it.\<close>

definition RORc :: "u32 \<Rightarrow> nat \<Rightarrow> u32" where
  "RORc x y = drop_bit (y mod 32) x OR push_bit ((32 - y mod 32) mod 32) x"

definition ROR64c :: "u64 \<Rightarrow> nat \<Rightarrow> u64" where
  "ROR64c x y = drop_bit (y mod 64) x OR push_bit ((64 - y mod 64) mod 64) x"

definition LOAD64H :: "byte list \<Rightarrow> u64" where
  "LOAD64H y = push_bit 56 (ucast (y ! 0 AND 255)) OR push_bit 48 (ucast (y ! 1 AND 255))
     OR push_bit 40 (ucast (y ! 2 AND 255)) OR push_bit 32 (ucast (y ! 3 AND 255))
     OR push_bit 24 (ucast (y ! 4 AND 255)) OR push_bit 16 (ucast (y ! 5 AND 255))
     OR push_bit 8 (ucast (y ! 6 AND 255)) OR ucast (y ! 7 AND 255)"

definition Ch :: "'a::len word \<Rightarrow> 'a word \<Rightarrow> 'a word \<Rightarrow> 'a word" where
  "Ch x y z = z XOR (x AND (y XOR z))"

definition Maj :: "'a::len word \<Rightarrow> 'a word \<Rightarrow> 'a word \<Rightarrow> 'a word" where
  "Maj x y z = ((x OR y) AND z) OR (x AND y)"

subsection \<open>SHA-256\<close>

text \<open>The round constants, row by row.\<close>

definition sha256_K :: "u32 list" where
  "sha256_K = concat [
     [0x428a2f98, 0x71374491, 0xb5c0fbcf, 0xe9b5dba5, 0x3956c25b],
     [0x59f111f1, 0x923f82a4, 0xab1c5ed5, 0xd807aa98, 0x12835b01],
     [0x243185be, 0x550c7dc3, 0x72be5d74, 0x80deb1fe, 0x9bdc06a7],
     [0xc19bf174, 0xe49b69c1, 0xefbe4786, 0x0fc19dc6, 0x240ca1cc],
     [0x2de92c6f, 0x4a7484aa, 0x5cb0a9dc, 0x76f988da, 0x983e5152],
     [0xa831c66d, 0xb00327c8, 0xbf597fc7, 0xc6e00bf3, 0xd5a79147],
     [0x06ca6351, 0x14292967, 0x27b70a85, 0x2e1b2138, 0x4d2c6dfc],
     [0x53380d13, 0x650a7354, 0x766a0abb, 0x81c2c92e, 0x92722c85],
     [0xa2bfe8a1, 0xa81a664b, 0xc24b8b70, 0xc76c51a3, 0xd192e819],
     [0xd6990624, 0xf40e3585, 0x106aa070, 0x19a4c116, 0x1e376c08],
     [0x2748774c, 0x34b0bcb5, 0x391c0cb3, 0x4ed8aa4a, 0x5b9cca4f],
     [0x682e6ff3, 0x748f82ee, 0x78a5636f, 0x84c87814, 0x8cc70208],
     [0x90befffa, 0xa4506ceb, 0xbef9a3f7, 0xc67178f2]]"

definition sha256_Sigma0 :: "u32 \<Rightarrow> u32" where
  "sha256_Sigma0 x = RORc x 2 XOR RORc x 13 XOR RORc x 22"

definition sha256_Sigma1 :: "u32 \<Rightarrow> u32" where
  "sha256_Sigma1 x = RORc x 6 XOR RORc x 11 XOR RORc x 25"

definition sha256_Gamma0 :: "u32 \<Rightarrow> u32" where
  "sha256_Gamma0 x = RORc x 7 XOR RORc x 18 XOR drop_bit 3 x"

definition sha256_Gamma1 :: "u32 \<Rightarrow> u32" where
  "sha256_Gamma1 x = RORc x 17 XOR RORc x 19 XOR drop_bit 10 x"

text \<open>The first sixteen words of \<open>W\<close> are the block; the part of \<open>W\<close> that is filled grows from there.\<close>

primrec fill_W :: "('w \<Rightarrow> 'w) \<Rightarrow> ('w \<Rightarrow> 'w) \<Rightarrow> nat \<Rightarrow> ('w::plus) list \<Rightarrow> 'w list" where
  "fill_W Gamma0 Gamma1 0 W = W"
| "fill_W Gamma0 Gamma1 (Suc n) W =
     (let i = length W in
      fill_W Gamma0 Gamma1 n (W @ [Gamma1 (W ! (i - 2)) + W ! (i - 7) + Gamma0 (W ! (i - 15)) + W ! (i - 16)]))"

text \<open>
  The macro \<open>RND\<close>, with the places of its arguments in \<open>S\<close>; \<open>kw\<close> is the sum of the round
  constant and the word.
\<close>

definition RND :: "('a word \<Rightarrow> 'a word) \<Rightarrow> ('a word \<Rightarrow> 'a word) \<Rightarrow> nat \<Rightarrow> nat \<Rightarrow> nat \<Rightarrow> nat \<Rightarrow> nat \<Rightarrow> nat \<Rightarrow> nat \<Rightarrow> nat
    \<Rightarrow> 'a::len word \<Rightarrow> 'a word \<Rightarrow> 'a word list \<Rightarrow> 'a word list" where
  "RND Sigma0 Sigma1 a b c d e f g h k w S =
     (let t0 = S ! h + Sigma1 (S ! e) + Ch (S ! e) (S ! f) (S ! g) + k + w;
          t1 = Sigma0 (S ! a) + Maj (S ! a) (S ! b) (S ! c);
          S = S[d := S ! d + t0] in
      S[h := t0 + t1])"

text \<open>One pass of the loop of the small code: the macro, and every word moves one place up.\<close>

definition small_round :: "('a word \<Rightarrow> 'a word) \<Rightarrow> ('a word \<Rightarrow> 'a word) \<Rightarrow> 'a::len word list \<Rightarrow> 'a word list
    \<Rightarrow> nat \<Rightarrow> 'a word list \<Rightarrow> 'a word list" where
  "small_round Sigma0 Sigma1 K W i S =
     (let S = RND Sigma0 Sigma1 0 1 2 3 4 5 6 7 (K ! i) (W ! i) S;
          t = S ! 7;
          S = S[7 := S ! 6]; S = S[6 := S ! 5]; S = S[5 := S ! 4]; S = S[4 := S ! 3];
          S = S[3 := S ! 2]; S = S[2 := S ! 1]; S = S[1 := S ! 0] in
      S[0 := t])"

text \<open>Eight of the unrolled rounds, from round \<open>i\<close> on.\<close>

definition RND8 :: "('a word \<Rightarrow> 'a word) \<Rightarrow> ('a word \<Rightarrow> 'a word) \<Rightarrow> 'a::len word list \<Rightarrow> 'a word list
    \<Rightarrow> nat \<Rightarrow> 'a word list \<Rightarrow> 'a word list" where
  "RND8 Sigma0 Sigma1 K W i S =
     (let S = RND Sigma0 Sigma1 0 1 2 3 4 5 6 7 (K ! (i + 0)) (W ! (i + 0)) S;
          S = RND Sigma0 Sigma1 7 0 1 2 3 4 5 6 (K ! (i + 1)) (W ! (i + 1)) S;
          S = RND Sigma0 Sigma1 6 7 0 1 2 3 4 5 (K ! (i + 2)) (W ! (i + 2)) S;
          S = RND Sigma0 Sigma1 5 6 7 0 1 2 3 4 (K ! (i + 3)) (W ! (i + 3)) S;
          S = RND Sigma0 Sigma1 4 5 6 7 0 1 2 3 (K ! (i + 4)) (W ! (i + 4)) S;
          S = RND Sigma0 Sigma1 3 4 5 6 7 0 1 2 (K ! (i + 5)) (W ! (i + 5)) S;
          S = RND Sigma0 Sigma1 2 3 4 5 6 7 0 1 (K ! (i + 6)) (W ! (i + 6)) S in
      RND Sigma0 Sigma1 1 2 3 4 5 6 7 0 (K ! (i + 7)) (W ! (i + 7)) S)"

definition sha256_W :: "byte list \<Rightarrow> u32 list" where
  "sha256_W buf = fill_W sha256_Gamma0 sha256_Gamma1 48 (map (\<lambda>i. LOAD32H (take 4 (drop (4 * i) buf))) [0..<16])"

definition sha256_compress :: "u32 list \<Rightarrow> byte list \<Rightarrow> u32 list" where
  "sha256_compress state buf =
     (let S = fold (small_round sha256_Sigma0 sha256_Sigma1 sha256_K (sha256_W buf)) [0..<64] state in
      map (\<lambda>i. state ! i + S ! i) [0..<8])"

definition sha256_compress_unrolled :: "u32 list \<Rightarrow> byte list \<Rightarrow> u32 list" where
  "sha256_compress_unrolled state buf =
     (let S = fold (\<lambda>j. RND8 sha256_Sigma0 sha256_Sigma1 sha256_K (sha256_W buf) (8 * j)) [0..<8] state in
      map (\<lambda>i. state ! i + S ! i) [0..<8])"

definition sha256_iv :: "u32 list" where
  "sha256_iv = [0x6A09E667, 0xBB67AE85, 0x3C6EF372, 0xA54FF53A, 0x510E527F, 0x9B05688C, 0x1F83D9AB, 0x5BE0CD19]"

text \<open>The bytes of \<open>buf\<close> are not set by \<open>sha256_init\<close>; they are zero here.\<close>

definition sha256_init :: "u32 md_state" where
  "sha256_init = md_init 64 sha256_iv"

definition sha256_process :: "u32 md_state \<Rightarrow> byte list \<Rightarrow> bool \<times> u32 md_state" where
  "sha256_process = HASH_PROCESS 64 sha256_compress"

definition sha256_done :: "u32 md_state \<Rightarrow> byte list option" where
  "sha256_done md = map_option (\<lambda>state. concat (map (\<lambda>i. STORE32H (state ! i)) [0..<8])) (md_finish 64 56 56 sha256_compress md)"

subsection \<open>SHA-512 and SHA-384\<close>

definition sha512_K :: "u64 list" where
  "sha512_K = concat [
     [0x428a2f98d728ae22, 0x7137449123ef65cd], [0xb5c0fbcfec4d3b2f, 0xe9b5dba58189dbbc],
     [0x3956c25bf348b538, 0x59f111f1b605d019], [0x923f82a4af194f9b, 0xab1c5ed5da6d8118],
     [0xd807aa98a3030242, 0x12835b0145706fbe], [0x243185be4ee4b28c, 0x550c7dc3d5ffb4e2],
     [0x72be5d74f27b896f, 0x80deb1fe3b1696b1], [0x9bdc06a725c71235, 0xc19bf174cf692694],
     [0xe49b69c19ef14ad2, 0xefbe4786384f25e3], [0x0fc19dc68b8cd5b5, 0x240ca1cc77ac9c65],
     [0x2de92c6f592b0275, 0x4a7484aa6ea6e483], [0x5cb0a9dcbd41fbd4, 0x76f988da831153b5],
     [0x983e5152ee66dfab, 0xa831c66d2db43210], [0xb00327c898fb213f, 0xbf597fc7beef0ee4],
     [0xc6e00bf33da88fc2, 0xd5a79147930aa725], [0x06ca6351e003826f, 0x142929670a0e6e70],
     [0x27b70a8546d22ffc, 0x2e1b21385c26c926], [0x4d2c6dfc5ac42aed, 0x53380d139d95b3df],
     [0x650a73548baf63de, 0x766a0abb3c77b2a8], [0x81c2c92e47edaee6, 0x92722c851482353b],
     [0xa2bfe8a14cf10364, 0xa81a664bbc423001], [0xc24b8b70d0f89791, 0xc76c51a30654be30],
     [0xd192e819d6ef5218, 0xd69906245565a910], [0xf40e35855771202a, 0x106aa07032bbd1b8],
     [0x19a4c116b8d2d0c8, 0x1e376c085141ab53], [0x2748774cdf8eeb99, 0x34b0bcb5e19b48a8],
     [0x391c0cb3c5c95a63, 0x4ed8aa4ae3418acb], [0x5b9cca4f7763e373, 0x682e6ff3d6b2b8a3],
     [0x748f82ee5defb2fc, 0x78a5636f43172f60], [0x84c87814a1f0ab72, 0x8cc702081a6439ec],
     [0x90befffa23631e28, 0xa4506cebde82bde9], [0xbef9a3f7b2c67915, 0xc67178f2e372532b],
     [0xca273eceea26619c, 0xd186b8c721c0c207], [0xeada7dd6cde0eb1e, 0xf57d4f7fee6ed178],
     [0x06f067aa72176fba, 0x0a637dc5a2c898a6], [0x113f9804bef90dae, 0x1b710b35131c471b],
     [0x28db77f523047d84, 0x32caab7b40c72493], [0x3c9ebe0a15c9bebc, 0x431d67c49c100d4c],
     [0x4cc5d4becb3e42b6, 0x597f299cfc657e2a], [0x5fcb6fab3ad6faec, 0x6c44198c4a475817]]"

definition sha512_Sigma0 :: "u64 \<Rightarrow> u64" where
  "sha512_Sigma0 x = ROR64c x 28 XOR ROR64c x 34 XOR ROR64c x 39"

definition sha512_Sigma1 :: "u64 \<Rightarrow> u64" where
  "sha512_Sigma1 x = ROR64c x 14 XOR ROR64c x 18 XOR ROR64c x 41"

definition sha512_Gamma0 :: "u64 \<Rightarrow> u64" where
  "sha512_Gamma0 x = ROR64c x 1 XOR ROR64c x 8 XOR drop_bit 7 x"

definition sha512_Gamma1 :: "u64 \<Rightarrow> u64" where
  "sha512_Gamma1 x = ROR64c x 19 XOR ROR64c x 61 XOR drop_bit 6 x"

definition sha512_W :: "byte list \<Rightarrow> u64 list" where
  "sha512_W buf = fill_W sha512_Gamma0 sha512_Gamma1 64 (map (\<lambda>i. LOAD64H (take 8 (drop (8 * i) buf))) [0..<16])"

definition sha512_small_round :: "u64 list \<Rightarrow> nat \<Rightarrow> u64 list \<Rightarrow> u64 list" where
  "sha512_small_round W i S =
     (let t0 = S ! 7 + sha512_Sigma1 (S ! 4) + Ch (S ! 4) (S ! 5) (S ! 6) + sha512_K ! i + W ! i;
          t1 = sha512_Sigma0 (S ! 0) + Maj (S ! 0) (S ! 1) (S ! 2);
          S = S[7 := S ! 6]; S = S[6 := S ! 5]; S = S[5 := S ! 4]; S = S[4 := S ! 3 + t0];
          S = S[3 := S ! 2]; S = S[2 := S ! 1]; S = S[1 := S ! 0] in
      S[0 := t0 + t1])"

definition sha512_compress :: "u64 list \<Rightarrow> byte list \<Rightarrow> u64 list" where
  "sha512_compress state buf =
     (let S = fold (sha512_small_round (sha512_W buf)) [0..<80] state in
      map (\<lambda>i. state ! i + S ! i) [0..<8])"

definition sha512_compress_unrolled :: "u64 list \<Rightarrow> byte list \<Rightarrow> u64 list" where
  "sha512_compress_unrolled state buf =
     (let S = fold (\<lambda>j. RND8 sha512_Sigma0 sha512_Sigma1 sha512_K (sha512_W buf) (8 * j)) [0..<10] state in
      map (\<lambda>i. state ! i + S ! i) [0..<8])"

definition sha512_iv :: "u64 list" where
  "sha512_iv = [0x6a09e667f3bcc908, 0xbb67ae8584caa73b, 0x3c6ef372fe94f82b, 0xa54ff53a5f1d36f1,
     0x510e527fade682d1, 0x9b05688c2b3e6c1f, 0x1f83d9abfb41bd6b, 0x5be0cd19137e2179]"

definition sha512_init :: "u64 md_state" where
  "sha512_init = md_init 128 sha512_iv"

definition sha512_process :: "u64 md_state \<Rightarrow> byte list \<Rightarrow> bool \<times> u64 md_state" where
  "sha512_process = HASH_PROCESS 128 sha512_compress"

definition sha512_done :: "u64 md_state \<Rightarrow> byte list option" where
  "sha512_done md = map_option (\<lambda>state. concat (map (\<lambda>i. STORE64H (state ! i)) [0..<8])) (md_finish 128 112 120 sha512_compress md)"

definition sha384_iv :: "u64 list" where
  "sha384_iv = [0xcbbb9d5dc1059ed8, 0x629a292a367cd507, 0x9159015a3070dd17, 0x152fecd8f70e5939,
     0x67332667ffc00b31, 0x8eb44a8768581511, 0xdb0c2e0d64f98fa7, 0x47b5481dbefa4fa4]"

definition sha384_init :: "u64 md_state" where
  "sha384_init = md_init 128 sha384_iv"

definition sha384_done :: "u64 md_state \<Rightarrow> byte list option" where
  "sha384_done md = map_option (take 48) (sha512_done md)"

section \<open>Specification\<close>

text \<open>The functions of FIPS 180-4, section 4.1, for words of any size.\<close>

definition fips_Ch :: "'a::len word \<Rightarrow> 'a word \<Rightarrow> 'a word \<Rightarrow> 'a word" where
  "fips_Ch x y z = (x AND y) XOR (NOT x AND z)"

definition fips_Maj :: "'a::len word \<Rightarrow> 'a word \<Rightarrow> 'a word \<Rightarrow> 'a word" where
  "fips_Maj x y z = (x AND y) XOR (x AND z) XOR (y AND z)"

text \<open>A function of three rotations, and one of two rotations and a shift.\<close>

definition fips_Sigma :: "nat \<Rightarrow> nat \<Rightarrow> nat \<Rightarrow> 'a::len word \<Rightarrow> 'a word" where
  "fips_Sigma i j k x = word_rotr i x XOR word_rotr j x XOR word_rotr k x"

definition fips_sigma :: "nat \<Rightarrow> nat \<Rightarrow> nat \<Rightarrow> 'a::len word \<Rightarrow> 'a word" where
  "fips_sigma i j k x = word_rotr i x XOR word_rotr j x XOR drop_bit k x"

text \<open>The message schedule, sections 6.2.2 and 6.4.2.\<close>

fun fips_W :: "('a::len word \<Rightarrow> 'a word) \<Rightarrow> ('a word \<Rightarrow> 'a word) \<Rightarrow> 'a word list \<Rightarrow> nat \<Rightarrow> 'a word" where
  "fips_W \<sigma>0 \<sigma>1 M t = (if t < 16 then M ! t
     else \<sigma>1 (fips_W \<sigma>0 \<sigma>1 M (t - 2)) + fips_W \<sigma>0 \<sigma>1 M (t - 7) + \<sigma>0 (fips_W \<sigma>0 \<sigma>1 M (t - 15)) + fips_W \<sigma>0 \<sigma>1 M (t - 16))"

declare fips_W.simps [simp del]

definition fips_round :: "('a::len word \<Rightarrow> 'a word) \<Rightarrow> ('a word \<Rightarrow> 'a word) \<Rightarrow> 'a word \<Rightarrow> 'a word \<Rightarrow> 'a word list \<Rightarrow> 'a word list" where
  "fips_round \<Sigma>0 \<Sigma>1 k w S =
     (let T1 = S ! 7 + \<Sigma>1 (S ! 4) + fips_Ch (S ! 4) (S ! 5) (S ! 6) + k + w;
          T2 = \<Sigma>0 (S ! 0) + fips_Maj (S ! 0) (S ! 1) (S ! 2) in
      [T1 + T2, S ! 0, S ! 1, S ! 2, S ! 3 + T1, S ! 4, S ! 5, S ! 6])"

definition fips_compress :: "('a::len word \<Rightarrow> 'a word) \<Rightarrow> ('a word \<Rightarrow> 'a word) \<Rightarrow> ('a word \<Rightarrow> 'a word) \<Rightarrow> ('a word \<Rightarrow> 'a word)
    \<Rightarrow> 'a word list \<Rightarrow> (byte list \<Rightarrow> 'a word list) \<Rightarrow> 'a word list \<Rightarrow> byte list \<Rightarrow> 'a word list" where
  "fips_compress \<Sigma>0 \<Sigma>1 \<sigma>0 \<sigma>1 K parse H block =
     map2 (+) H (fold (\<lambda>t. fips_round \<Sigma>0 \<Sigma>1 (K ! t) (fips_W \<sigma>0 \<sigma>1 (parse block) t)) [0..<length K] H)"

text \<open>A block as big endian words.\<close>

definition parse32 :: "byte list \<Rightarrow> u32 list" where
  "parse32 b = map (\<lambda>i. LOAD32H (take 4 (drop (4 * i) b))) [0..<16]"

definition parse64 :: "byte list \<Rightarrow> u64 list" where
  "parse64 b = map (\<lambda>i. LOAD64H (take 8 (drop (8 * i) b))) [0..<16]"

definition fips_sha256_state :: "byte list \<Rightarrow> u32 list" where
  "fips_sha256_state m = md_blocks 64
     (fips_compress (fips_Sigma 2 13 22) (fips_Sigma 6 11 25) (fips_sigma 7 18 3) (fips_sigma 17 19 10) sha256_K parse32)
     sha256_iv (md_pad 64 56 56 m)"

definition SHA256 :: "byte list \<Rightarrow> byte list" where
  "SHA256 m = concat (map STORE32H (fips_sha256_state m))"

definition fips_sha512_state :: "u64 list \<Rightarrow> byte list \<Rightarrow> u64 list" where
  "fips_sha512_state iv m = md_blocks 128
     (fips_compress (fips_Sigma 28 34 39) (fips_Sigma 14 18 41) (fips_sigma 1 8 7) (fips_sigma 19 61 6) sha512_K parse64)
     iv (md_pad 128 112 120 m)"

definition SHA512 :: "byte list \<Rightarrow> byte list" where
  "SHA512 m = concat (map STORE64H (fips_sha512_state sha512_iv m))"

definition SHA384 :: "byte list \<Rightarrow> byte list" where
  "SHA384 m = take 48 (concat (map STORE64H (fips_sha512_state sha384_iv m)))"

section \<open>The compression functions\<close>

lemma Ch_eq: "Ch x y z = fips_Ch x y z"
  by (rule bit_word_eqI) (auto simp: Ch_def fips_Ch_def bit_simps)

lemma Maj_eq: "Maj x y z = fips_Maj x y z"
  by (rule bit_word_eqI) (auto simp: Maj_def fips_Maj_def bit_simps)

lemma rot_arith: "n < N \<Longrightarrow> y < N \<Longrightarrow> (n + y) mod N = (if n + y < N then n + y else n - (N - y))" for n y N :: nat
  by (simp add: mod_if)

lemma RORc_eq: "0 < y \<Longrightarrow> y < 32 \<Longrightarrow> RORc x y = word_rotr y x"
  by (rule bit_word_eqI) (auto simp: RORc_def bit_simps bit_word_rotr_iff rot_arith not_less add.commute [of y] dest: bit_imp_le_length)

lemma ROR64c_eq: "0 < y \<Longrightarrow> y < 64 \<Longrightarrow> ROR64c x y = word_rotr y x"
  by (rule bit_word_eqI) (auto simp: ROR64c_def bit_simps bit_word_rotr_iff rot_arith not_less add.commute [of y] dest: bit_imp_le_length)

lemma sha256_functions:
  "sha256_Sigma0 = fips_Sigma 2 13 22" "sha256_Sigma1 = fips_Sigma 6 11 25"
  "sha256_Gamma0 = fips_sigma 7 18 3" "sha256_Gamma1 = fips_sigma 17 19 10"
  by (auto simp: fun_eq_iff sha256_Sigma0_def sha256_Sigma1_def sha256_Gamma0_def sha256_Gamma1_def
      fips_Sigma_def fips_sigma_def RORc_eq)

lemma sha512_functions:
  "sha512_Sigma0 = fips_Sigma 28 34 39" "sha512_Sigma1 = fips_Sigma 14 18 41"
  "sha512_Gamma0 = fips_sigma 1 8 7" "sha512_Gamma1 = fips_sigma 19 61 6"
  by (auto simp: fun_eq_iff sha512_Sigma0_def sha512_Sigma1_def sha512_Gamma0_def sha512_Gamma1_def
      fips_Sigma_def fips_sigma_def ROR64c_eq)

lemma fill_W_fips:
  assumes "16 \<le> length W" "\<forall>i < length W. W ! i = fips_W g0 g1 M i"
  shows "length (fill_W g0 g1 n W) = length W + n \<and> (\<forall>i < length W + n. fill_W g0 g1 n W ! i = fips_W g0 g1 M i)"
  using assms
proof (induction n arbitrary: W)
  case (Suc n)
  let ?i = "length W"
  let ?W = "W @ [g1 (W ! (?i - 2)) + W ! (?i - 7) + g0 (W ! (?i - 15)) + W ! (?i - 16)]"
  have "\<forall>i < length ?W. ?W ! i = fips_W g0 g1 M i"
    using Suc.prems by (auto simp: nth_append less_Suc_eq fips_W.simps [of g0 g1 M "length W"])
  then show ?case
    using Suc.IH [of ?W] Suc.prems(1) by (simp add: Let_def)
qed simp

lemma sched_fips:
  assumes "length M = 16" "i < 16 + n"
  shows "fill_W g0 g1 n M ! i = fips_W g0 g1 M i"
  using fill_W_fips [of M g0 g1 M n] assms by (simp add: fips_W.simps)

lemma list8_cases:
  assumes "length S = 8"
  obtains a b c d e f g h where "S = [a, b, c, d, e, f, g, h]"
  using assms by (auto simp: length_Suc_conv eval_nat_numeral)

lemma length_fips_round [simp]: "length (fips_round s0 s1 k w S) = 8"
  by (simp add: fips_round_def Let_def)

lemma small_round_fips: "length S = 8 \<Longrightarrow> small_round s0 s1 K W i S = fips_round s0 s1 (K ! i) (W ! i) S"
  by (erule list8_cases) (simp add: small_round_def fips_round_def RND_def Let_def Ch_eq Maj_eq eval_nat_numeral)

lemma sha512_small_round_fips:
  "length S = 8 \<Longrightarrow> sha512_small_round W i S = fips_round sha512_Sigma0 sha512_Sigma1 (sha512_K ! i) (W ! i) S"
  by (erule list8_cases) (simp add: sha512_small_round_def fips_round_def Let_def Ch_eq Maj_eq eval_nat_numeral)

text \<open>
  The unrolled rounds leave the words where they are and let the roles go round instead:
  before round \<open>j\<close> of a group of eight, the word with role \<open>i\<close> is at place \<open>i - j\<close> modulo 8.
\<close>

definition role_view :: "nat \<Rightarrow> 'w list \<Rightarrow> 'w list" where
  "role_view j S = drop ((8 - j) mod 8) S @ take ((8 - j) mod 8) S"

lemma length_RND [simp]: "length (RND s0 s1 a b c d e f g h k w S) = length S"
  by (simp add: RND_def Let_def)

lemma role_view_ends: "length S = 8 \<Longrightarrow> role_view 0 S = S" "length S = 8 \<Longrightarrow> role_view 8 S = S"
  by (simp_all add: role_view_def)

lemma RND_fips:
  assumes "length S = 8"
  shows "role_view 1 (RND s0 s1 0 1 2 3 4 5 6 7 k w S) = fips_round s0 s1 k w (role_view 0 S)"
    "role_view 2 (RND s0 s1 7 0 1 2 3 4 5 6 k w S) = fips_round s0 s1 k w (role_view 1 S)"
    "role_view 3 (RND s0 s1 6 7 0 1 2 3 4 5 k w S) = fips_round s0 s1 k w (role_view 2 S)"
    "role_view 4 (RND s0 s1 5 6 7 0 1 2 3 4 k w S) = fips_round s0 s1 k w (role_view 3 S)"
    "role_view 5 (RND s0 s1 4 5 6 7 0 1 2 3 k w S) = fips_round s0 s1 k w (role_view 4 S)"
    "role_view 6 (RND s0 s1 3 4 5 6 7 0 1 2 k w S) = fips_round s0 s1 k w (role_view 5 S)"
    "role_view 7 (RND s0 s1 2 3 4 5 6 7 0 1 k w S) = fips_round s0 s1 k w (role_view 6 S)"
    "role_view 8 (RND s0 s1 1 2 3 4 5 6 7 0 k w S) = fips_round s0 s1 k w (role_view 7 S)"
  using assms by (rule list8_cases, simp add: role_view_def RND_def fips_round_def Let_def Ch_eq Maj_eq)+

lemma RND8_fips:
  assumes "length S = 8"
  shows "RND8 s0 s1 K W i S = fold (\<lambda>t. fips_round s0 s1 (K ! t) (W ! t)) [i..<i + 8] S"
proof -
  have "length (RND8 s0 s1 K W i S) = 8" using assms by (simp add: RND8_def Let_def)
  then have "RND8 s0 s1 K W i S = role_view 8 (RND8 s0 s1 K W i S)" by (simp add: role_view_ends)
  also have "\<dots> = fold (\<lambda>t. fips_round s0 s1 (K ! t) (W ! t)) [i, i + 1, i + 2, i + 3, i + 4, i + 5, i + 6, i + 7] S"
    using assms by (simp only: RND8_def Let_def RND_fips length_RND role_view_ends(1) fold.simps o_apply id_apply add_0_right)
  also have "[i, i + 1, i + 2, i + 3, i + 4, i + 5, i + 6, i + 7] = [i..<i + 8]"
    by (simp add: upt_rec)
  finally show ?thesis .
qed

lemma length_fold_fips: "length S = 8 \<Longrightarrow> length (fold (\<lambda>t. fips_round s0 s1 (k t) (w t)) ts S) = 8"
  by (induction ts arbitrary: S) simp_all

lemma fold_RND8_fips:
  assumes "length S = 8"
  shows "fold (\<lambda>j. RND8 s0 s1 K W (8 * j)) [0..<n] S = fold (\<lambda>t. fips_round s0 s1 (K ! t) (W ! t)) [0..<8 * n] S"
proof (induction n)
  case (Suc n)
  have "[0..<8 * Suc n] = [0..<8 * n] @ [8 * n..<8 * n + 8]"
    using upt_add_eq_append [of 0 "8 * n" 8] by (simp add: add.commute)
  then show ?case
    using Suc RND8_fips [OF length_fold_fips [OF assms]] by simp
qed simp

lemma fold_cong8:
  assumes "length S = 8" "\<And>i S. i \<in> set ts \<Longrightarrow> length S = 8 \<Longrightarrow> f i S = g i S" "\<And>i S. length (g i S) = 8"
  shows "fold f ts S = fold g ts S"
  using assms(1,2) by (induction ts arbitrary: S) (simp_all add: assms(3))

lemma feedback: "length H = 8 \<Longrightarrow> length S = 8 \<Longrightarrow> map (\<lambda>i. H ! i + S ! i) [0..<8] = map2 (+) H (S :: 'a::plus list)"
  by (rule nth_equalityI) auto

lemma length_fips_compress: "length H = 8 \<Longrightarrow> length (fips_compress s0 s1 g0 g1 K parse H b) = 8"
  by (simp add: fips_compress_def length_fold_fips)

lemma length_parse [simp]: "length (parse32 b) = 16" "length (parse64 b) = 16"
  by (simp_all add: parse32_def parse64_def)

lemma compress_fips:
  assumes "length H = 8" "length M = 16" "length K = 16 + n" "parse b = M"
  shows "map (\<lambda>i. H ! i + fold (\<lambda>t. fips_round s0 s1 (K ! t) (fill_W g0 g1 n M ! t)) [0..<16 + n] H ! i) [0..<8]
    = fips_compress s0 s1 g0 g1 K parse H b"
proof -
  have "fold (\<lambda>t. fips_round s0 s1 (K ! t) (fill_W g0 g1 n M ! t)) [0..<16 + n] H
      = fold (\<lambda>t. fips_round s0 s1 (K ! t) (fips_W g0 g1 M t)) [0..<16 + n] H"
    using assms(1) by (rule fold_cong8) (simp_all add: sched_fips [OF assms(2)])
  then show ?thesis
    using assms(1,3,4) by (simp add: fips_compress_def feedback length_fold_fips)
qed

lemma length_K: "length sha256_K = 16 + 48" "length sha512_K = 16 + 64"
  by (simp_all add: sha256_K_def sha512_K_def)

lemma sha256_rounds:
  assumes "length H = 8"
  shows "sha256_compress H b = fips_compress (fips_Sigma 2 13 22) (fips_Sigma 6 11 25) (fips_sigma 7 18 3) (fips_sigma 17 19 10)
      sha256_K parse32 H b"
    and "sha256_compress_unrolled H b = sha256_compress H b"
proof -
  have small: "fold (small_round sha256_Sigma0 sha256_Sigma1 sha256_K W) [0..<64] H
      = fold (\<lambda>t. fips_round sha256_Sigma0 sha256_Sigma1 (sha256_K ! t) (W ! t)) [0..<64] H" for W
    using assms by (rule fold_cong8) (simp_all add: small_round_fips)
  have "sha256_compress H b = fips_compress sha256_Sigma0 sha256_Sigma1 sha256_Gamma0 sha256_Gamma1 sha256_K parse32 H b"
    using compress_fips [OF assms _ length_K(1), of "parse32 b" parse32 b sha256_Sigma0 sha256_Sigma1 sha256_Gamma0 sha256_Gamma1]
    by (simp add: sha256_compress_def small sha256_W_def parse32_def [symmetric])
  then show "sha256_compress H b = fips_compress (fips_Sigma 2 13 22) (fips_Sigma 6 11 25) (fips_sigma 7 18 3)
      (fips_sigma 17 19 10) sha256_K parse32 H b"
    by (simp only: sha256_functions)
  show "sha256_compress_unrolled H b = sha256_compress H b"
    using fold_RND8_fips [OF assms, of sha256_Sigma0 sha256_Sigma1 sha256_K "sha256_W b" 8]
    by (simp add: sha256_compress_def sha256_compress_unrolled_def small)
qed

lemma sha512_rounds:
  assumes "length H = 8"
  shows "sha512_compress H b = fips_compress (fips_Sigma 28 34 39) (fips_Sigma 14 18 41) (fips_sigma 1 8 7) (fips_sigma 19 61 6)
      sha512_K parse64 H b"
    and "sha512_compress_unrolled H b = sha512_compress H b"
proof -
  have small: "fold (sha512_small_round W) [0..<80] H
      = fold (\<lambda>t. fips_round sha512_Sigma0 sha512_Sigma1 (sha512_K ! t) (W ! t)) [0..<80] H" for W
    using assms by (rule fold_cong8) (simp_all add: sha512_small_round_fips)
  have "sha512_compress H b = fips_compress sha512_Sigma0 sha512_Sigma1 sha512_Gamma0 sha512_Gamma1 sha512_K parse64 H b"
    using compress_fips [OF assms _ length_K(2), of "parse64 b" parse64 b sha512_Sigma0 sha512_Sigma1 sha512_Gamma0 sha512_Gamma1]
    by (simp add: sha512_compress_def small sha512_W_def parse64_def [symmetric])
  then show "sha512_compress H b = fips_compress (fips_Sigma 28 34 39) (fips_Sigma 14 18 41) (fips_sigma 1 8 7)
      (fips_sigma 19 61 6) sha512_K parse64 H b"
    by (simp only: sha512_functions)
  show "sha512_compress_unrolled H b = sha512_compress H b"
    using fold_RND8_fips [OF assms, of sha512_Sigma0 sha512_Sigma1 sha512_K "sha512_W b" 10]
    by (simp add: sha512_compress_def sha512_compress_unrolled_def small)
qed

section \<open>Whole messages\<close>

lemma md_blocks_cong:
  assumes "\<And>s b. length s = n \<Longrightarrow> c s b = c' s b" "\<And>s b. length s = n \<Longrightarrow> length (c s b) = n" "length s = n"
  shows "md_blocks bs c s m = md_blocks bs c' s m" "length (md_blocks bs c s m) = n"
proof -
  have "length s = n \<Longrightarrow> md_blocks bs c s m = md_blocks bs c' s m \<and> length (md_blocks bs c s m) = n"
  proof (induction "length m" arbitrary: s m rule: less_induct)
    case less
    show ?case
    proof (cases "bs = 0 \<or> length m < bs")
      case True
      then show ?thesis using less.prems by (simp add: md_blocks.simps [of bs _ s m])
    next
      case False
      then have "length (drop bs m) < length m" by auto
      then show ?thesis
        using less.hyps [of "drop bs m" "c s (take bs m)"] less.prems False assms(1,2)
        by (auto simp: md_blocks.simps [of bs _ s m])
    qed
  qed
  then show "md_blocks bs c s m = md_blocks bs c' s m" "length (md_blocks bs c s m) = n"
    using assms(3) by blast+
qed

lemma map_nth8: "length S = 8 \<Longrightarrow> map (\<lambda>i. f (S ! i)) [0..<8] = map f S"
  by (rule nth_equalityI) simp_all

interpretation sha256: md_hash 64 56 56 sha256_compress sha256_iv
  by unfold_locales simp_all

interpretation sha512: md_hash 128 112 120 sha512_compress sha512_iv
  by unfold_locales simp_all

interpretation sha384: md_hash 128 112 120 sha512_compress sha384_iv
  by unfold_locales simp_all

lemma length_iv: "length sha256_iv = 8" "length sha512_iv = 8" "length sha384_iv = 8"
  by (simp_all add: sha256_iv_def sha512_iv_def sha384_iv_def)

lemma sha512_state:
  assumes "length iv = 8"
  shows "md_blocks 128 sha512_compress iv (md_pad 128 112 120 m) = fips_sha512_state iv m" "length (fips_sha512_state iv m) = 8"
proof -
  note c = md_blocks_cong [where n = 8 and bs = 128 and m = "md_pad 128 112 120 m", OF sha512_rounds(1) _ assms]
  show "md_blocks 128 sha512_compress iv (md_pad 128 112 120 m) = fips_sha512_state iv m" "length (fips_sha512_state iv m) = 8"
    using c by (simp_all add: sha512_rounds(1) length_fips_compress fips_sha512_state_def)
qed

lemma sha256_state:
  "md_blocks 64 sha256_compress sha256_iv (md_pad 64 56 56 m) = fips_sha256_state m" "length (fips_sha256_state m) = 8"
proof -
  note c = md_blocks_cong [where n = 8 and bs = 64 and m = "md_pad 64 56 56 m", OF sha256_rounds(1) _ length_iv(1)]
  show "md_blocks 64 sha256_compress sha256_iv (md_pad 64 56 56 m) = fips_sha256_state m" "length (fips_sha256_state m) = 8"
    using c by (simp_all add: sha256_rounds(1) length_fips_compress fips_sha256_state_def)
qed

lemma sha256_hash:
  assumes "8 * length (concat ps) < 2 ^ 64"
  shows "\<exists>md. feed_hash sha256_process sha256_init ps = (True, md) \<and> sha256_done md = Some (SHA256 (concat ps))"
  using sha256.hash_pieces [OF assms]
  by (auto simp: sha256_process_def sha256_init_def sha256_done_def SHA256_def sha256_state map_nth8)

lemma sha512_hash:
  assumes "8 * length (concat ps) < 2 ^ 64"
  shows "\<exists>md. feed_hash sha512_process sha512_init ps = (True, md) \<and> sha512_done md = Some (SHA512 (concat ps))"
  using sha512.hash_pieces [OF assms] sha512_state [of sha512_iv "concat ps"]
  by (auto simp: sha512_process_def sha512_init_def sha512_done_def SHA512_def map_nth8 length_iv)

lemma sha384_hash:
  assumes "8 * length (concat ps) < 2 ^ 64"
  shows "\<exists>md. feed_hash sha512_process sha384_init ps = (True, md) \<and> sha384_done md = Some (SHA384 (concat ps))"
  using sha384.hash_pieces [OF assms] sha512_state [of sha384_iv "concat ps"]
  by (auto simp: sha512_process_def sha384_init_def sha384_done_def sha512_done_def SHA384_def map_nth8 length_iv)

text \<open>
  C23. The SHA-2 code computes SHA-2.  For every message of fewer than $2^{61}$ bytes and
  every way of cutting it into the pieces given to \<open>process\<close>, the calls succeed and
  the digests are those of FIPS 180-4: the padding, the message schedule, the rotations and
  the rounds of the small code are the ones of the standard.
\<close>

theorem sha2_correct:
  assumes "8 * length (concat ps) < 2 ^ 64"
  shows "(\<exists>md. feed_hash sha256_process sha256_init ps = (True, md) \<and> sha256_done md = Some (SHA256 (concat ps)))
       \<and> (\<exists>md. feed_hash sha512_process sha384_init ps = (True, md) \<and> sha384_done md = Some (SHA384 (concat ps)))
       \<and> (\<exists>md. feed_hash sha512_process sha512_init ps = (True, md) \<and> sha512_done md = Some (SHA512 (concat ps)))"
  using sha256_hash [OF assms] sha384_hash [OF assms] sha512_hash [OF assms] by blast

theorem sha2_correct_witness:
  "(\<exists>md. feed_hash sha256_process sha256_init [[97], [98, 99]] = (True, md) \<and> sha256_done md = Some (SHA256 [97, 98, 99]))
   \<and> (\<exists>md. feed_hash sha512_process sha384_init [[97], [98, 99]] = (True, md) \<and> sha384_done md = Some (SHA384 [97, 98, 99]))
   \<and> (\<exists>md. feed_hash sha512_process sha512_init [[97], [98, 99]] = (True, md) \<and> sha512_done md = Some (SHA512 [97, 98, 99]))"
  using sha2_correct [of "[[97], [98, 99]]"] by simp

text \<open>
  C24. The two forms of the compression functions agree.  The unrolled rounds, where the
  words stay in place and the macro arguments rotate, give the same result as the loop of
  the small code, for SHA-256 and for SHA-512, on every state and block.
\<close>

theorem sha2_unrolled:
  assumes "length H = 8" "length H' = 8"
  shows "sha256_compress_unrolled H b = sha256_compress H b \<and> sha512_compress_unrolled H' b = sha512_compress H' b"
  using sha256_rounds(2) [OF assms(1)] sha512_rounds(2) [OF assms(2)] by blast

theorem sha2_unrolled_witness:
  "sha256_compress_unrolled sha256_iv (replicate 128 97) = sha256_compress sha256_iv (replicate 128 97)
   \<and> sha512_compress_unrolled sha512_iv (replicate 128 97) = sha512_compress sha512_iv (replicate 128 97)"
  by (rule sha2_unrolled) (simp_all add: sha256_iv_def sha512_iv_def)

end
