(* ===== verification/Sha1.thy ===== *)
theory Sha1
  imports Sha2
begin

text \<open>
  SHA-1 of libtomcrypt, \<open>src/libtomcrypt/src/hashes/sha1.c\<close>, with both forms of the
  rounds.
\<close>

section \<open>Definitions\<close>

definition F0 :: "u32 \<Rightarrow> u32 \<Rightarrow> u32 \<Rightarrow> u32" where "F0 x y z = z XOR (x AND (y XOR z))"
definition F1 :: "u32 \<Rightarrow> u32 \<Rightarrow> u32 \<Rightarrow> u32" where "F1 x y z = x XOR y XOR z"
definition F2 :: "u32 \<Rightarrow> u32 \<Rightarrow> u32 \<Rightarrow> u32" where "F2 x y z = (x AND y) OR (z AND (x OR y))"
definition F3 :: "u32 \<Rightarrow> u32 \<Rightarrow> u32 \<Rightarrow> u32" where "F3 x y z = x XOR y XOR z"

text \<open>
  The macros \<open>FF0\<close> to \<open>FF3\<close>, for their function and constant: the new values of the fifth and the
  second argument.
\<close>

definition FF :: "(u32 \<Rightarrow> u32 \<Rightarrow> u32 \<Rightarrow> u32) \<Rightarrow> u32 \<Rightarrow> u32 \<Rightarrow> u32 \<Rightarrow> u32 \<Rightarrow> u32 \<Rightarrow> u32 \<Rightarrow> u32 \<Rightarrow> u32 \<times> u32" where
  "FF F k a b c d e w = (ROL a 5 + F b c d + e + w + k, ROL b 30)"

type_synonym sha1_regs = "u32 \<times> u32 \<times> u32 \<times> u32 \<times> u32"

text \<open>The expansion loop; the filled part of \<open>W\<close> grows.\<close>

primrec sha1_expand :: "nat \<Rightarrow> u32 list \<Rightarrow> u32 list" where
  "sha1_expand 0 W = W"
| "sha1_expand (Suc n) W =
     (let i = length W in
      sha1_expand n (W @ [ROL (W ! (i - 3) XOR W ! (i - 8) XOR W ! (i - 14) XOR W ! (i - 16)) 1]))"

text \<open>One pass of a loop of the small code.\<close>

fun sha1_small :: "(u32 \<Rightarrow> u32 \<Rightarrow> u32 \<Rightarrow> u32) \<Rightarrow> u32 \<Rightarrow> u32 list \<Rightarrow> nat \<Rightarrow> sha1_regs \<Rightarrow> sha1_regs" where
  "sha1_small F k W i (a, b, c, d, e) =
     (case FF F k a b c d e (W ! i) of (e, b) \<Rightarrow>
      let t = e; e = d; d = c; c = b; b = a; a = t in (a, b, c, d, e))"

text \<open>One pass of an unrolled loop: five rounds from round \<open>i\<close> on.\<close>

fun sha1_five :: "(u32 \<Rightarrow> u32 \<Rightarrow> u32 \<Rightarrow> u32) \<Rightarrow> u32 \<Rightarrow> u32 list \<Rightarrow> nat \<Rightarrow> sha1_regs \<Rightarrow> sha1_regs" where
  "sha1_five F k W i (a, b, c, d, e) =
     (case FF F k a b c d e (W ! i) of (e, b) \<Rightarrow>
      case FF F k e a b c d (W ! (i + 1)) of (d, a) \<Rightarrow>
      case FF F k d e a b c (W ! (i + 2)) of (c, e) \<Rightarrow>
      case FF F k c d e a b (W ! (i + 3)) of (b, d) \<Rightarrow>
      case FF F k b c d e a (W ! (i + 4)) of (a, c) \<Rightarrow> (a, b, c, d, e))"

definition sha1_W :: "byte list \<Rightarrow> u32 list" where
  "sha1_W buf = sha1_expand 64 (map (\<lambda>i. LOAD32H (take 4 (drop (4 * i) buf))) [0..<16])"

definition sha1_regs_of :: "u32 list \<Rightarrow> sha1_regs" where
  "sha1_regs_of state = (state ! 0, state ! 1, state ! 2, state ! 3, state ! 4)"

definition sha1_feedback :: "u32 list \<Rightarrow> sha1_regs \<Rightarrow> u32 list" where
  "sha1_feedback state = (\<lambda>(a, b, c, d, e).
     [state ! 0 + a, state ! 1 + b, state ! 2 + c, state ! 3 + d, state ! 4 + e])"

definition sha1_compress :: "u32 list \<Rightarrow> byte list \<Rightarrow> u32 list" where
  "sha1_compress state buf =
     (let W = sha1_W buf; r = sha1_regs_of state;
          r = fold (sha1_small F0 0x5a827999 W) [0..<20] r;
          r = fold (sha1_small F1 0x6ed9eba1 W) [20..<40] r;
          r = fold (sha1_small F2 0x8f1bbcdc W) [40..<60] r;
          r = fold (sha1_small F3 0xca62c1d6 W) [60..<80] r in
      sha1_feedback state r)"

definition sha1_compress_unrolled :: "u32 list \<Rightarrow> byte list \<Rightarrow> u32 list" where
  "sha1_compress_unrolled state buf =
     (let W = sha1_W buf; r = sha1_regs_of state;
          r = fold (sha1_five F0 0x5a827999 W) [0, 5, 10, 15] r;
          r = fold (sha1_five F1 0x6ed9eba1 W) [20, 25, 30, 35] r;
          r = fold (sha1_five F2 0x8f1bbcdc W) [40, 45, 50, 55] r;
          r = fold (sha1_five F3 0xca62c1d6 W) [60, 65, 70, 75] r in
      sha1_feedback state r)"

definition sha1_iv :: "u32 list" where
  "sha1_iv = [0x67452301, 0xefcdab89, 0x98badcfe, 0x10325476, 0xc3d2e1f0]"

definition sha1_init :: "u32 md_state" where
  "sha1_init = md_init 64 sha1_iv"

definition sha1_process :: "u32 md_state \<Rightarrow> byte list \<Rightarrow> bool \<times> u32 md_state" where
  "sha1_process = HASH_PROCESS 64 sha1_compress"

definition sha1_done :: "u32 md_state \<Rightarrow> byte list option" where
  "sha1_done md = map_option (\<lambda>state. concat (map (\<lambda>i. STORE32H (state ! i)) [0..<5])) (md_finish 64 56 56 sha1_compress md)"

section \<open>Specification\<close>

text \<open>FIPS 180-4, sections 4.1.1, 4.2.1 and 6.1.2.\<close>

definition fips_f :: "nat \<Rightarrow> u32 \<Rightarrow> u32 \<Rightarrow> u32 \<Rightarrow> u32" where
  "fips_f t = (if t < 20 then fips_Ch else if t < 40 then (\<lambda>x y z. x XOR y XOR z)
     else if t < 60 then fips_Maj else (\<lambda>x y z. x XOR y XOR z))"

definition fips_k :: "nat \<Rightarrow> u32" where
  "fips_k t = (if t < 20 then 0x5a827999 else if t < 40 then 0x6ed9eba1 else if t < 60 then 0x8f1bbcdc else 0xca62c1d6)"

fun fips_sha1_W :: "u32 list \<Rightarrow> nat \<Rightarrow> u32" where
  "fips_sha1_W M t = (if t < 16 then M ! t
     else word_rotl 1 (fips_sha1_W M (t - 3) XOR fips_sha1_W M (t - 8) XOR fips_sha1_W M (t - 14) XOR fips_sha1_W M (t - 16)))"

declare fips_sha1_W.simps [simp del]

fun fips_sha1_round :: "u32 list \<Rightarrow> nat \<Rightarrow> sha1_regs \<Rightarrow> sha1_regs" where
  "fips_sha1_round M t (a, b, c, d, e) =
     (word_rotl 5 a + fips_f t b c d + e + fips_k t + fips_sha1_W M t, a, word_rotl 30 b, c, d)"

definition fips_sha1_compress :: "u32 list \<Rightarrow> byte list \<Rightarrow> u32 list" where
  "fips_sha1_compress H block = sha1_feedback H (fold (fips_sha1_round (parse32 block)) [0..<80] (sha1_regs_of H))"

definition SHA1 :: "byte list \<Rightarrow> byte list" where
  "SHA1 m = concat (map STORE32H (md_blocks 64 fips_sha1_compress sha1_iv (md_pad 64 56 56 m)))"

section \<open>The compression function\<close>

lemma F_fips: "F0 = fips_Ch" "F2 = fips_Maj"
  using Ch_eq [where 'a = 32] Maj_eq [where 'a = 32]
  by (auto simp: fun_eq_iff F0_def F2_def Ch_def Maj_def ac_simps)

lemma ROL_eq: "0 < y \<Longrightarrow> y < 32 \<Longrightarrow> ROL x y = word_rotl y x"
  by (rule bit_word_eqI)
     (auto simp: ROL_def bit_simps bit_word_rotl_iff mod_if not_less add.commute [of _ 32] dest: bit_imp_le_length)

lemma sha1_expand_fips:
  assumes "16 \<le> length W" "\<forall>i < length W. W ! i = fips_sha1_W M i"
  shows "length (sha1_expand n W) = length W + n \<and> (\<forall>i < length W + n. sha1_expand n W ! i = fips_sha1_W M i)"
  using assms
proof (induction n arbitrary: W)
  case (Suc n)
  let ?i = "length W"
  let ?W = "W @ [ROL (W ! (?i - 3) XOR W ! (?i - 8) XOR W ! (?i - 14) XOR W ! (?i - 16)) 1]"
  have "\<forall>i < length ?W. ?W ! i = fips_sha1_W M i"
    using Suc.prems by (auto simp: nth_append less_Suc_eq fips_sha1_W.simps [of M "length W"] ROL_eq)
  then show ?case
    using Suc.IH [of ?W] Suc.prems(1) by (simp add: Let_def)
qed simp

lemma sha1_W_fips: "i < 80 \<Longrightarrow> sha1_W b ! i = fips_sha1_W (parse32 b) i"
  using sha1_expand_fips [of "parse32 b" "parse32 b" 64]
  by (simp add: sha1_W_def parse32_def [symmetric] fips_sha1_W.simps)

lemma sha1_small_fips:
  "i < 80 \<Longrightarrow> F = fips_f i \<Longrightarrow> k = fips_k i \<Longrightarrow> sha1_small F k (sha1_W b) i r = fips_sha1_round (parse32 b) i r"
  by (cases r) (simp add: FF_def Let_def ROL_eq sha1_W_fips ac_simps)

lemma sha1_phase:
  assumes "\<And>i. lo \<le> i \<Longrightarrow> i < hi \<Longrightarrow> i < 80 \<and> F = fips_f i \<and> k = fips_k i"
  shows "fold (sha1_small F k (sha1_W b)) [lo..<hi] r = fold (fips_sha1_round (parse32 b)) [lo..<hi] r"
  by (rule fold_cong) (auto intro!: sha1_small_fips dest!: assms)

lemma sha1_rounds: "sha1_compress H b = fips_sha1_compress H b"
proof -
  have e: "[0..<80] = [0..<20] @ [20..<40] @ [40..<60] @ [60..<80]"
    using upt_add_eq_append [of 0 20 60] upt_add_eq_append [of 20 40 40] upt_add_eq_append [of 40 60 20] by simp
  have "fold (sha1_small F0 0x5a827999 (sha1_W b)) [0..<20] r = fold (fips_sha1_round (parse32 b)) [0..<20] r"
    "fold (sha1_small F1 0x6ed9eba1 (sha1_W b)) [20..<40] r = fold (fips_sha1_round (parse32 b)) [20..<40] r"
    "fold (sha1_small F2 0x8f1bbcdc (sha1_W b)) [40..<60] r = fold (fips_sha1_round (parse32 b)) [40..<60] r"
    "fold (sha1_small F3 0xca62c1d6 (sha1_W b)) [60..<80] r = fold (fips_sha1_round (parse32 b)) [60..<80] r" for r
    by (rule sha1_phase, simp add: fips_f_def fips_k_def F_fips F1_def F3_def fun_eq_iff)+
  then show ?thesis
    unfolding sha1_compress_def fips_sha1_compress_def e Let_def by (simp only: fold_append o_apply)
qed

text \<open>Five rounds in which the roles go round are five rounds in which the values do.\<close>

lemma sha1_five_small: "sha1_five F k W i r = fold (sha1_small F k W) [i, i + 1, i + 2, i + 3, i + 4] r"
  by (cases r) (simp add: FF_def Let_def)

lemma sha1_five_fold:
  "fold (sha1_five F k W) [n, n + 5, n + 10, n + 15] r = fold (sha1_small F k W) [n..<n + 20] r"
proof -
  have "[n..<n + 20] = [n, n + 1, n + 2, n + 3, n + 4] @ [n + 5, n + 5 + 1, n + 5 + 2, n + 5 + 3, n + 5 + 4]
      @ [n + 10, n + 10 + 1, n + 10 + 2, n + 10 + 3, n + 10 + 4] @ [n + 15, n + 15 + 1, n + 15 + 2, n + 15 + 3, n + 15 + 4]"
    by (simp add: upt_rec)
  then show ?thesis
    unfolding sha1_five_small by (simp only: fold_append o_apply fold.simps sha1_five_small id_apply)
qed

lemma sha1_unrolled_rounds: "sha1_compress_unrolled H b = sha1_compress H b"
  using sha1_five_fold [of F0 _ "sha1_W b" 0] sha1_five_fold [of F1 _ "sha1_W b" 20]
    sha1_five_fold [of F2 _ "sha1_W b" 40] sha1_five_fold [of F3 _ "sha1_W b" 60]
  by (simp add: sha1_compress_unrolled_def sha1_compress_def Let_def del: fold_simps upt_rec_numeral)

section \<open>Whole messages\<close>

interpretation sha1: md_hash 64 56 56 sha1_compress sha1_iv
  by unfold_locales simp_all

lemma length_sha1_compress: "length (sha1_compress s b) = 5"
  by (simp add: sha1_compress_def sha1_feedback_def Let_def split: prod.split)

lemma sha1_hash:
  assumes "8 * length (concat ps) < 2 ^ 64"
  shows "\<exists>md. feed_hash sha1_process sha1_init ps = (True, md) \<and> sha1_done md = Some (SHA1 (concat ps))"
proof -
  let ?S = "md_blocks 64 sha1_compress sha1_iv (md_pad 64 56 56 (concat ps))"
  have "sha1_compress = fips_sha1_compress" using sha1_rounds by blast
  then have s: "?S = md_blocks 64 fips_sha1_compress sha1_iv (md_pad 64 56 56 (concat ps))" by simp
  have "length ?S = 5"
    by (rule md_blocks_cong(2) [where c' = sha1_compress]) (simp_all add: length_sha1_compress sha1_iv_def)
  then have "map (\<lambda>i. STORE32H (?S ! i)) [0..<5] = map STORE32H ?S"
    by (intro nth_equalityI) simp_all
  then show ?thesis
    using sha1.hash_pieces [OF assms] s
    by (auto simp: sha1_process_def sha1_init_def sha1_done_def SHA1_def)
qed

text \<open>
  C25. The SHA-1 code computes SHA-1, in any pieces and in both forms.  For every message of
  fewer than $2^{61}$ bytes the digest is that of FIPS 180-4, and the rounds unrolled by five agree
  with the loop of the small code on every state and block.
\<close>

theorem sha1_correct:
  assumes "8 * length (concat ps) < 2 ^ 64"
  shows "(\<exists>md. feed_hash sha1_process sha1_init ps = (True, md) \<and> sha1_done md = Some (SHA1 (concat ps)))
       \<and> sha1_compress_unrolled H b = sha1_compress H b"
  using sha1_hash [OF assms] sha1_unrolled_rounds by blast

theorem sha1_correct_witness:
  "(\<exists>md. feed_hash sha1_process sha1_init [[97], [98, 99]] = (True, md) \<and> sha1_done md = Some (SHA1 [97, 98, 99]))
   \<and> sha1_compress_unrolled sha1_iv [1] = sha1_compress sha1_iv [1]"
  using sha1_correct [of "[[97], [98, 99]]" sha1_iv "[1]"] by simp

end
