(* ===== verification/Hash_Desc.thy ===== *)
theory Hash_Desc
  imports Sha1
begin

text \<open>
  Hash descriptors and the table they are registered in (\<open>crypt_find_hash.c\<close>,
  \<open>crypt_hash_is_valid.c\<close>, \<open>hash_memory.c\<close> of libtomcrypt).  The locale \<open>stream_hash\<close> is what the
  users of a descriptor rely on; each of the four descriptors provides it.
\<close>

section \<open>Definitions\<close>

text \<open>The members of \<open>union Hash_state\<close> the registered hashes use.\<close>

datatype hash_state = HS_sha1 "u32 md_state" | HS_sha256 "u32 md_state" | HS_sha512 "u64 md_state"

text \<open>
  \<open>struct ltc_hash_descriptor\<close>.  \<open>process\<close> tells whether its result is \<open>CRYPT_OK\<close>, \<open>done\<close> gives the
  digest.
\<close>

record hash_descriptor =
  hd_name :: string
  hd_hashsize :: nat
  hd_blocksize :: nat
  hd_init :: hash_state
  hd_process :: "hash_state \<Rightarrow> byte list \<Rightarrow> bool \<times> hash_state"
  hd_done :: "hash_state \<Rightarrow> byte list option"

text \<open>A state of another member of the union cannot reach a descriptor's functions.\<close>

definition sha1_desc :: hash_descriptor where
  "sha1_desc = \<lparr>hd_name = ''sha1'', hd_hashsize = 20, hd_blocksize = 64, hd_init = HS_sha1 sha1_init,
     hd_process = (\<lambda>s x. case s of HS_sha1 md \<Rightarrow> map_prod id HS_sha1 (sha1_process md x) | _ \<Rightarrow> (False, s)),
     hd_done = (\<lambda>s. case s of HS_sha1 md \<Rightarrow> sha1_done md | _ \<Rightarrow> None)\<rparr>"

definition sha256_desc :: hash_descriptor where
  "sha256_desc = \<lparr>hd_name = ''sha256'', hd_hashsize = 32, hd_blocksize = 64, hd_init = HS_sha256 sha256_init,
     hd_process = (\<lambda>s x. case s of HS_sha256 md \<Rightarrow> map_prod id HS_sha256 (sha256_process md x) | _ \<Rightarrow> (False, s)),
     hd_done = (\<lambda>s. case s of HS_sha256 md \<Rightarrow> sha256_done md | _ \<Rightarrow> None)\<rparr>"

definition sha384_desc :: hash_descriptor where
  "sha384_desc = \<lparr>hd_name = ''sha384'', hd_hashsize = 48, hd_blocksize = 128, hd_init = HS_sha512 sha384_init,
     hd_process = (\<lambda>s x. case s of HS_sha512 md \<Rightarrow> map_prod id HS_sha512 (sha512_process md x) | _ \<Rightarrow> (False, s)),
     hd_done = (\<lambda>s. case s of HS_sha512 md \<Rightarrow> sha384_done md | _ \<Rightarrow> None)\<rparr>"

definition sha512_desc :: hash_descriptor where
  "sha512_desc = \<lparr>hd_name = ''sha512'', hd_hashsize = 64, hd_blocksize = 128, hd_init = HS_sha512 sha512_init,
     hd_process = (\<lambda>s x. case s of HS_sha512 md \<Rightarrow> map_prod id HS_sha512 (sha512_process md x) | _ \<Rightarrow> (False, s)),
     hd_done = (\<lambda>s. case s of HS_sha512 md \<Rightarrow> sha512_done md | _ \<Rightarrow> None)\<rparr>"

text \<open>The table \<open>hash_descriptor\<close>; \<open>None\<close> is a free slot, whose name is \<open>NULL\<close>.\<close>

type_synonym hash_table = "hash_descriptor option list"

definition hash_is_valid :: "hash_table \<Rightarrow> int \<Rightarrow> hash_descriptor option" where
  "hash_is_valid table idx = (if idx < 0 \<or> idx \<ge> int (length table) then None else table ! nat idx)"

fun find_hash_from :: "int \<Rightarrow> hash_table \<Rightarrow> string \<Rightarrow> int" where
  "find_hash_from x [] name = - 1"
| "find_hash_from x (d # table) name =
     (case d of
        Some d \<Rightarrow> if hd_name d = name then x else find_hash_from (x + 1) table name
      | None \<Rightarrow> find_hash_from (x + 1) table name)"

definition find_hash :: "hash_table \<Rightarrow> string \<Rightarrow> int" where
  "find_hash table name = find_hash_from 0 table name"

text \<open>The digest, for room for \<open>outlen\<close> bytes.\<close>

definition hash_memory :: "hash_table \<Rightarrow> int \<Rightarrow> byte list \<Rightarrow> nat \<Rightarrow> byte list option" where
  "hash_memory table hash inp outlen =
     (case hash_is_valid table hash of
        None \<Rightarrow> None
      | Some d \<Rightarrow>
          if outlen < hd_hashsize d then None
          else case hd_process d (hd_init d) inp of
                 (ok, md) \<Rightarrow> if ok then hd_done d md else None)"

section \<open>What a descriptor promises\<close>

locale stream_hash =
  fixes d :: hash_descriptor and H :: "byte list \<Rightarrow> byte list"
  assumes pieces: "8 * length (concat ps) < 2 ^ 64 \<Longrightarrow>
      \<exists>s. feed_hash (hd_process d) (hd_init d) ps = (True, s) \<and> hd_done d s = Some (H (concat ps))"
    and size: "length (H m) = hd_hashsize d"
    and sizes: "0 < hd_hashsize d" "hd_hashsize d \<le> hd_blocksize d" "hd_blocksize d \<le> 128"

lemma feed_map:
  assumes "\<And>md x. f (C md) x = map_prod id C (g md x)"
  shows "feed_hash f (C md) ps = map_prod id C (feed_hash g md ps)"
  by (induction ps arbitrary: md) (simp_all add: assms split: prod.split)

lemma length_digest_STORE: "length (concat (map STORE32H ws)) = 4 * length ws" "length (concat (map STORE64H vs)) = 8 * length vs"
  by (induction ws; simp add: STORE32H_def) (induction vs; simp)

lemma length_SHA:
  "length (SHA1 m) = 20" "length (SHA256 m) = 32" "length (SHA384 m) = 48" "length (SHA512 m) = 64"
proof -
  have "length (md_blocks 64 fips_sha1_compress sha1_iv (md_pad 64 56 56 m)) = 5"
    by (rule md_blocks_cong(2) [where c' = fips_sha1_compress])
       (simp_all add: length_sha1_compress sha1_rounds [symmetric] sha1_iv_def)
  then show "length (SHA1 m) = 20" by (simp add: SHA1_def length_digest_STORE)
  show "length (SHA256 m) = 32" by (simp add: SHA256_def length_digest_STORE sha256_state)
  show "length (SHA384 m) = 48" "length (SHA512 m) = 64"
    by (simp_all add: SHA384_def SHA512_def length_digest_STORE sha512_state length_iv)
qed

interpretation h_sha1: stream_hash sha1_desc SHA1
proof
  fix ps :: "byte list list" assume "8 * length (concat ps) < 2 ^ 64"
  then show "\<exists>s. feed_hash (hd_process sha1_desc) (hd_init sha1_desc) ps = (True, s) \<and> hd_done sha1_desc s = Some (SHA1 (concat ps))"
    using sha1_hash [of ps] by (auto simp: sha1_desc_def feed_map [where C = HS_sha1])
qed (simp_all add: sha1_desc_def length_SHA)

interpretation h_sha256: stream_hash sha256_desc SHA256
proof
  fix ps :: "byte list list" assume "8 * length (concat ps) < 2 ^ 64"
  then show "\<exists>s. feed_hash (hd_process sha256_desc) (hd_init sha256_desc) ps = (True, s) \<and> hd_done sha256_desc s = Some (SHA256 (concat ps))"
    using sha256_hash [of ps] by (auto simp: sha256_desc_def feed_map [where C = HS_sha256])
qed (simp_all add: sha256_desc_def length_SHA)

interpretation h_sha384: stream_hash sha384_desc SHA384
proof
  fix ps :: "byte list list" assume "8 * length (concat ps) < 2 ^ 64"
  then show "\<exists>s. feed_hash (hd_process sha384_desc) (hd_init sha384_desc) ps = (True, s) \<and> hd_done sha384_desc s = Some (SHA384 (concat ps))"
    using sha384_hash [of ps] by (auto simp: sha384_desc_def feed_map [where C = HS_sha512])
qed (simp_all add: sha384_desc_def length_SHA)

interpretation h_sha512: stream_hash sha512_desc SHA512
proof
  fix ps :: "byte list list" assume "8 * length (concat ps) < 2 ^ 64"
  then show "\<exists>s. feed_hash (hd_process sha512_desc) (hd_init sha512_desc) ps = (True, s) \<and> hd_done sha512_desc s = Some (SHA512 (concat ps))"
    using sha512_hash [of ps] by (auto simp: sha512_desc_def feed_map [where C = HS_sha512])
qed (simp_all add: sha512_desc_def length_SHA)

end
