(* ===== verification/Session_State.thy ===== *)
theory Session_State
  imports Algo Circbuffer Cipher_Modes Chachapoly Hash_Desc
begin

text \<open>
  The global state of a session, \<open>struct sshsession ses\<close> of \<open>src/src/session.h\<close>, with the
  structures it holds: keys (\<open>session.h\<close>, \<open>algo.h\<close>), key exchange state (\<open>kex.h\<close>),
  authentication state (\<open>auth.h\<close>) and channels (\<open>channel.h\<close>).  A pointer that may be
  \<open>NULL\<close> is an option, and following it when it is \<open>NULL\<close> is a fault (\<open>nn\<close>).  The two queues of
  outgoing packets are the lists they hold (see theory \<open>Linked\<close> for the pointer
  structures).  Flags that only take the values 0 and 1 are booleans.  Ciphers and
  hashes are function pointers in the code and functions here; the union of cipher
  states is a datatype with a constructor per member.  The global table \<open>sigalgs\<close>, the one
  algorithm table that changes while a session runs, is kept with the session.
\<close>

definition nn :: "'a option \<Rightarrow> 'a res" where
  "nn p = (case p of None \<Rightarrow> Inl Mem_fault | Some x \<Rightarrow> returnE x)"

lemma nn_simps [simp]: "nn (Some x) = Inr x" "nn None = Inl Mem_fault"
  by (simp_all add: nn_def)

lemma nn_eq_Inr [simp]: "nn p = Inr x \<longleftrightarrow> p = Some x"
  by (cases p) auto

section \<open>Algorithms\<close>

type_synonym mem = "byte list"

record dropbear_hash =
  dh_hash_desc :: "string option"
  dh_keysize :: nat
  dh_hashsize :: byte

text \<open>
  A cipher's descriptor: \<open>None\<close> when the pointer is \<open>NULL\<close>, \<open>Some None\<close> when its name
  is \<open>NULL\<close>.
\<close>

record dropbear_cipher =
  dc_cipherdesc :: "string option option"
  dc_keysize :: nat
  dc_blocksize :: byte

text \<open>
  The union \<open>cipher_state\<close> of \<open>struct key_context_directional\<close>, zero before the first
  \<open>start\<close>.  GCM, which is off by default, has no member here.
\<close>

datatype cipher_state = CS_zero | CS_cbc symmetric_CBC | CS_ctr symmetric_CTR | CS_chachapoly chachapoly_state

text \<open>
  The operations of a cipher mode, each on its input bytes and the cipher state;
  \<open>None\<close> is a return code other than \<open>CRYPT_OK\<close>.
\<close>

record dropbear_cipher_mode =
  cm_start :: "int \<Rightarrow> byte list \<Rightarrow> byte list \<Rightarrow> nat \<Rightarrow> nat \<Rightarrow> cipher_state \<Rightarrow> cipher_state option"
  cm_encrypt :: "byte list \<Rightarrow> cipher_state \<Rightarrow> (byte list \<times> cipher_state) option"
  cm_decrypt :: "byte list \<Rightarrow> cipher_state \<Rightarrow> (byte list \<times> cipher_state) option"
  cm_aead_crypt :: "(u32 \<Rightarrow> byte list \<Rightarrow> nat \<Rightarrow> nat \<Rightarrow> cipher_state \<Rightarrow> direction \<Rightarrow> (byte list \<times> cipher_state) option) option"
  cm_aead_getlength :: "u32 \<Rightarrow> byte list \<Rightarrow> cipher_state \<Rightarrow> (u32 \<times> cipher_state) option"
  cm_aead_mac :: "dropbear_hash option"

datatype dropbear_kex_mode =
  DROPBEAR_KEX_NORMAL_DH | DROPBEAR_KEX_ECDH | DROPBEAR_KEX_CURVE25519 | DROPBEAR_KEX_PQHYBRID

record dropbear_kex =
  kx_mode :: dropbear_kex_mode
  kx_dh_p_bytes :: "byte list"
  kx_hash_desc :: hash_descriptor

text \<open>Compression methods, in the order of the enumeration of \<open>algo.h\<close>.\<close>

definition DROPBEAR_COMP_NONE :: byte where "DROPBEAR_COMP_NONE = 0"
definition DROPBEAR_COMP_ZLIB :: byte where "DROPBEAR_COMP_ZLIB = 1"
definition DROPBEAR_COMP_ZLIB_DELAY :: byte where "DROPBEAR_COMP_ZLIB_DELAY = 2"

section \<open>Keys\<close>

record key_context_directional =
  kd_algo_crypt :: "dropbear_cipher option"
  kd_crypt_mode :: "dropbear_cipher_mode option"
  kd_algo_mac :: "dropbear_hash option"
  kd_hash_index :: int
  kd_algo_comp :: byte
  kd_zstream :: "mem option"
  kd_cipher_state :: cipher_state
  kd_mackey :: "byte list"
  kd_valid :: bool

record key_context =
  kc_recv :: key_context_directional
  kc_trans :: key_context_directional
  kc_algo_kex :: "dropbear_kex option"
  kc_algo_hostkey :: int
  kc_algo_signature :: byte
  kc_allow_compress :: bool

record KEXState =
  kx_sentkexinit :: bool
  kx_recvkexinit :: bool
  kx_them_firstfollows :: bool
  kx_sentnewkeys :: bool
  kx_recvnewkeys :: bool
  kx_donefirstkex :: bool
  kx_donesecondkex :: bool
  kx_recvfirstnewkeys :: bool
  kx_our_first_follows_matches :: bool
  kx_strict_kex :: bool
  kx_lastkextime :: int
  kx_needrekey :: bool
  kx_datatrans :: u32
  kx_datarecv :: u32

section \<open>Authentication\<close>

record PermitTCPFwdEntry =
  pf_host :: "byte list option"
  pf_port :: u32

record PubKeyOptions =
  po_no_port_forwarding_flag :: bool
  po_no_agent_forwarding_flag :: bool
  po_no_x11_forwarding_flag :: bool
  po_no_pty_flag :: bool
  po_forced_command :: "byte list option"
  po_permit_open_destinations :: "PermitTCPFwdEntry list option"
  po_permit_listens :: "PermitTCPFwdEntry list option"
  po_no_touch_required_flag :: bool
  po_verify_required_flag :: bool
  po_info_env :: "byte list option"

record AuthState =
  as_username :: "byte list option"
  as_authtypes :: byte
  as_failcount :: u32
  as_authdone :: bool
  as_perm_warn :: bool
  as_checkusername_failed :: bool
  as_serv_pubkey_query_count :: u32
  as_pw_uid :: u32
  as_pw_gid :: u32
  as_pw_dir :: "byte list option"
  as_pw_shell :: "byte list option"
  as_pw_name :: "byte list option"
  as_pw_passwd :: "byte list option"
  as_pubkey_options :: "PubKeyOptions option"

section \<open>Channels\<close>

datatype dropbear_prio = DROPBEAR_PRIO_NORMAL | DROPBEAR_PRIO_LOWDELAY

text \<open>
  File descriptors are integers; -1 (\<open>FD_CLOSED\<close>) and -2 (\<open>FD_UNINIT\<close>) are not open.
  \<open>conn_pending\<close> and \<open>typedata\<close> are handles of objects of other modules, \<open>type\<close> is the name
  of the channel type.
\<close>

record Channel =
  ch_index :: u32
  ch_remotechan :: u32
  ch_recvwindow :: u32
  ch_transwindow :: u32
  ch_recvdonelen :: u32
  ch_recvmaxpacket :: u32
  ch_transmaxpacket :: u32
  ch_typedata :: "nat option"
  ch_writefd :: int
  ch_readfd :: int
  ch_errfd :: int
  ch_bidir_fd :: bool
  ch_writebuf :: "circbuffer option"
  ch_extrabuf :: "circbuffer option"
  ch_sent_close :: bool
  ch_recv_close :: bool
  ch_recv_eof :: bool
  ch_sent_eof :: bool
  ch_flushing :: bool
  ch_conn_pending :: "nat option"
  ch_initconn :: bool
  ch_await_open :: bool
  ch_read_mangler :: "(byte list \<Rightarrow> int) option"
  ch_type :: string
  ch_prio :: dropbear_prio

section \<open>The session\<close>

record sshsession =
  ses_isserver :: bool
  ses_connect_time :: int
  ses_remoteident :: "byte list option"
  ses_writepayload :: buffer
  ses_writequeue :: "buffer list"
  ses_writequeue_len :: u32
  ses_readbuf :: "buffer option"
  ses_payload :: "buffer option"
  ses_payload_beginning :: u32
  ses_transseq :: u32
  ses_recvseq :: u32
  ses_dataallowed :: bool
  ses_requirenext :: byte
  ses_ignorenext :: bool
  ses_lastpacket :: byte
  ses_last_packet_time_keepalive_sent :: int
  ses_last_packet_time_keepalive_recv :: int
  ses_last_packet_time_any_sent :: int
  ses_last_packet_time_idle :: int
  ses_kexstate :: KEXState
  ses_keys :: "key_context option"
  ses_newkeys :: "key_context option"
  ses_session_id :: "buffer option"
  ses_dh_K :: "int option"
  ses_dh_K_bytes :: "buffer option"
  ses_hash :: "buffer option"
  ses_kexhashbuf :: "buffer option"
  ses_transkexinit :: "buffer option"
  ses_compress_algos_c2s :: "(dropbear_cipher, dropbear_cipher_mode) algo_type list"
  ses_compress_algos_s2c :: "(dropbear_cipher, dropbear_cipher_mode) algo_type list"
  ses_sigalgs :: "(unit, unit) algo_type list"
  ses_allow_ext_info :: bool
  ses_reply_queue :: "buffer list"
  ses_send_kex_first_guess :: bool
  ses_authstate :: AuthState
  ses_channels :: "Channel option list"
  ses_chancount :: u32
  ses_chantypes :: "string list"

text \<open>The keys in use, for each direction.\<close>

definition recv_keys :: "sshsession \<Rightarrow> key_context_directional res" where
  "recv_keys ses = bindE (nn (ses_keys ses)) (\<lambda>k. returnE (kc_recv k))"

definition trans_keys :: "sshsession \<Rightarrow> key_context_directional res" where
  "trans_keys ses = bindE (nn (ses_keys ses)) (\<lambda>k. returnE (kc_trans k))"

definition set_recv_keys :: "key_context_directional \<Rightarrow> sshsession \<Rightarrow> sshsession" where
  "set_recv_keys kd ses = ses\<lparr>ses_keys := map_option (\<lambda>k. k\<lparr>kc_recv := kd\<rparr>) (ses_keys ses)\<rparr>"

definition set_trans_keys :: "key_context_directional \<Rightarrow> sshsession \<Rightarrow> sshsession" where
  "set_trans_keys kd ses = ses\<lparr>ses_keys := map_option (\<lambda>k. k\<lparr>kc_trans := kd\<rparr>) (ses_keys ses)\<rparr>"

definition set_kexstate :: "(KEXState \<Rightarrow> KEXState) \<Rightarrow> sshsession \<Rightarrow> sshsession" where
  "set_kexstate f ses = ses\<lparr>ses_kexstate := f (ses_kexstate ses)\<rparr>"

definition set_authstate :: "(AuthState \<Rightarrow> AuthState) \<Rightarrow> sshsession \<Rightarrow> sshsession" where
  "set_authstate f ses = ses\<lparr>ses_authstate := f (ses_authstate ses)\<rparr>"

text \<open>What happens when the other side closes the connection.\<close>

definition remoteclosed :: "sshsession \<Rightarrow> 'a res" where
  "remoteclosed ses = (if ses_isserver ses then dropbear_close ''Exited normally''
                       else dropbear_exit ''Remote closed the connection'')"

end
