(* ===== verification/Linked.thy ===== *)
theory Linked
  imports Prelude
begin

text \<open>
  The pointer structures: the queue of \<open>src/src/queue.c\<close> (outgoing packets) and the
  doubly linked list of \<open>src/src/list.c\<close> (connections in progress), on an explicit
  heap.  A pointer is an optional address; an address the heap does not hold is
  freed or never allocated, and following it is a fault.  \<open>m_malloc\<close> gives any
  address not in use: the operations take it as an argument.  Both structures are
  shown to implement plain lists.
\<close>

section \<open>Definitions\<close>

type_synonym ptr = "nat option"

definition deref :: "(nat \<rightharpoonup> 'o) \<Rightarrow> ptr \<Rightarrow> (nat \<times> 'o) res" where
  "deref h p = (case p of None \<Rightarrow> Inl Mem_fault
                | Some a \<Rightarrow> (case h a of None \<Rightarrow> Inl Mem_fault | Some x \<Rightarrow> returnE (a, x)))"

subsection \<open>queue.c\<close>

record 'a Link =
  l_item :: 'a
  l_link :: ptr

record Queue =
  q_head :: ptr
  q_tail :: ptr
  q_count :: u32

type_synonym 'a qheap = "nat \<rightharpoonup> 'a Link"

definition initqueue :: Queue where
  "initqueue = \<lparr>q_head = None, q_tail = None, q_count = 0\<rparr>"

definition isempty :: "Queue \<Rightarrow> bool" where
  "isempty queue \<longleftrightarrow> q_head queue = None"

definition dequeue :: "'a qheap \<Rightarrow> Queue \<Rightarrow> ('a \<times> 'a qheap \<times> Queue) res" where
  "dequeue h queue =
     bindE (dropbear_assert (\<not> isempty queue) ''!isempty(queue)'') (\<lambda>_.
     bindE (deref h (q_head queue)) (\<lambda>(oldhead, l).
     let queue = (case l_link l of
             Some n \<Rightarrow> queue\<lparr>q_head := Some n\<rparr>
           | None \<Rightarrow> queue\<lparr>q_head := None, q_tail := None\<rparr>) in
     returnE (l_item l, h(oldhead := None), queue\<lparr>q_count := q_count queue - 1\<rparr>)))"

definition examine :: "'a qheap \<Rightarrow> Queue \<Rightarrow> 'a res" where
  "examine h queue =
     bindE (dropbear_assert (\<not> isempty queue) ''!isempty(queue)'') (\<lambda>_.
     bindE (deref h (q_head queue)) (\<lambda>(_, l). returnE (l_item l)))"

definition enqueue :: "nat \<Rightarrow> 'a qheap \<Rightarrow> Queue \<Rightarrow> 'a \<Rightarrow> ('a qheap \<times> Queue) res" where
  "enqueue newlink h queue item =
     (let h = h(newlink \<mapsto> \<lparr>l_item = item, l_link = None\<rparr>) in
      bindE (case q_tail queue of
               None \<Rightarrow> returnE h
             | Some _ \<Rightarrow> bindE (deref h (q_tail queue)) (\<lambda>(t, l).
                         returnE (h(t \<mapsto> l\<lparr>l_link := Some newlink\<rparr>)))) (\<lambda>h.
      let queue = queue\<lparr>q_tail := Some newlink\<rparr>;
          queue = (if q_head queue = None then queue\<lparr>q_head := Some newlink\<rparr> else queue) in
      returnE (h, queue\<lparr>q_count := q_count queue + 1\<rparr>)))"

subsection \<open>list.c\<close>

record 'a m_list_elem =
  e_item :: 'a
  e_next :: ptr
  e_prev :: ptr
  e_list :: nat

record m_list =
  ml_first :: ptr
  ml_last :: ptr

type_synonym 'a eheap = "nat \<rightharpoonup> 'a m_list_elem"
type_synonym lheap = "nat \<rightharpoonup> m_list"

definition list_new :: "nat \<Rightarrow> lheap \<Rightarrow> lheap" where
  "list_new ret lh = lh(ret \<mapsto> \<lparr>ml_first = None, ml_last = None\<rparr>)"

definition list_append :: "nat \<Rightarrow> 'a eheap \<Rightarrow> lheap \<Rightarrow> nat \<Rightarrow> 'a \<Rightarrow> ('a eheap \<times> lheap) res" where
  "list_append elem eh lh l item =
     bindE (deref lh (Some l)) (\<lambda>(_, lst).
     let new = \<lparr>e_item = item, e_next = None, e_prev = None, e_list = l\<rparr>;
         eh = eh(elem \<mapsto> new) in
     if ml_first lst = None then
       returnE (eh, lh(l \<mapsto> lst\<lparr>ml_first := Some elem, ml_last := Some elem\<rparr>))
     else
       let eh = eh(elem \<mapsto> new\<lparr>e_prev := ml_last lst\<rparr>) in
       bindE (deref eh (ml_last lst)) (\<lambda>(last, le).
       returnE (eh(last \<mapsto> le\<lparr>e_next := Some elem\<rparr>), lh(l \<mapsto> lst\<lparr>ml_last := Some elem\<rparr>))))"

definition list_remove :: "'a eheap \<Rightarrow> lheap \<Rightarrow> nat \<Rightarrow> ('a \<times> 'a eheap \<times> lheap) res" where
  "list_remove eh lh elem =
     bindE (deref eh (Some elem)) (\<lambda>(_, e).
     bindE (deref lh (Some (e_list e))) (\<lambda>(l, lst).
     let lst = (if ml_first lst = Some elem then lst\<lparr>ml_first := e_next e\<rparr> else lst);
         lst = (if ml_last lst = Some elem then lst\<lparr>ml_last := e_prev e\<rparr> else lst);
         lh = lh(l \<mapsto> lst) in
     bindE (case e_prev e of None \<Rightarrow> returnE eh
            | Some _ \<Rightarrow> bindE (deref eh (e_prev e)) (\<lambda>(p, pe). returnE (eh(p \<mapsto> pe\<lparr>e_next := e_next e\<rparr>)))) (\<lambda>eh.
     bindE (deref eh (Some elem)) (\<lambda>(_, e).
     bindE (case e_next e of None \<Rightarrow> returnE eh
            | Some _ \<Rightarrow> bindE (deref eh (e_next e)) (\<lambda>(n, ne). returnE (eh(n \<mapsto> ne\<lparr>e_prev := e_prev e\<rparr>)))) (\<lambda>eh.
     returnE (e_item e, eh(elem := None), lh))))))"

section \<open>The queue is a list\<close>

fun path :: "'a qheap \<Rightarrow> ptr \<Rightarrow> nat list \<Rightarrow> 'a list \<Rightarrow> bool" where
  "path h p [] xs \<longleftrightarrow> p = None \<and> xs = []"
| "path h p (a # as) xs \<longleftrightarrow> p = Some a \<and> (\<exists>l ys. h a = Some l \<and> xs = l_item l # ys \<and> path h (l_link l) as ys)"

text \<open>The queue \<open>q\<close> holds the items \<open>xs\<close> in the cells \<open>as\<close>.\<close>

definition queue_rep :: "nat list \<Rightarrow> 'a qheap \<Rightarrow> Queue \<Rightarrow> 'a list \<Rightarrow> bool" where
  "queue_rep as h q xs \<longleftrightarrow> distinct as \<and> path h (q_head q) as xs
     \<and> q_tail q = (if as = [] then None else Some (last as)) \<and> q_count q = of_nat (length xs)"

lemma path_frame: "a \<notin> set as \<Longrightarrow> path (h(a := v)) p as xs = path h p as xs"
  by (induction as arbitrary: p xs) auto

lemma path_length: "path h p as xs \<Longrightarrow> length as = length xs"
  by (induction as arbitrary: p xs) auto

lemma path_last:
  "path h p as xs \<Longrightarrow> as \<noteq> [] \<Longrightarrow> \<exists>l. h (last as) = Some l \<and> l_link l = None"
  by (induction as arbitrary: p xs) (auto split: if_splits)

lemma path_snoc:
  assumes "path h p as xs" "distinct as" "as \<noteq> []" "a \<notin> set as" "h (last as) = Some l" "h a = Some \<lparr>l_item = x, l_link = None\<rparr>"
  shows "path (h(last as \<mapsto> l\<lparr>l_link := Some a\<rparr>)) p (as @ [a]) (xs @ [x])"
  using assms
proof (induction as arbitrary: p xs)
  case (Cons b bs)
  show ?case
  proof (cases "bs = []")
    case True
    then show ?thesis using Cons.prems by auto
  next
    case False
    obtain l' ys where b: "p = Some b" "h b = Some l'" "xs = l_item l' # ys" "path h (l_link l') bs ys"
      using Cons.prems by auto
    have "path (h(last bs \<mapsto> l\<lparr>l_link := Some a\<rparr>)) (l_link l') (bs @ [a]) (ys @ [x])"
      using Cons.prems b False by (intro Cons.IH) auto
    moreover have "last bs \<noteq> b"
      using Cons.prems False by auto
    ultimately show ?thesis using b False by (simp add: fun_upd_def)
  qed
qed simp


text \<open>
  Runs of a queue.  \<open>Enq a x\<close> adds \<open>x\<close> in the cell at \<open>a\<close> that \<open>m_malloc\<close> returned,
  \<open>Deq\<close> takes the first item.  The result lists the items taken out.
\<close>

datatype 'a q_op = Enq nat 'a | Deq

fun run_q :: "(nat \<Rightarrow> 'h \<Rightarrow> 'q \<Rightarrow> 'a \<Rightarrow> ('h \<times> 'q) res) \<Rightarrow> ('h \<Rightarrow> 'q \<Rightarrow> ('a \<times> 'h \<times> 'q) res)
    \<Rightarrow> 'a q_op list \<Rightarrow> 'h \<Rightarrow> 'q \<Rightarrow> ('a list \<times> 'h \<times> 'q) res" where
  "run_q enq deq [] h q = returnE ([], h, q)"
| "run_q enq deq (Enq a x # ops) h q = bindE (enq a h q x) (\<lambda>(h, q). run_q enq deq ops h q)"
| "run_q enq deq (Deq # ops) h q =
     bindE (deq h q) (\<lambda>(x, h, q). bindE (run_q enq deq ops h q) (\<lambda>(xs, h, q). returnE (x # xs, h, q)))"

fun run_q_list :: "'a q_op list \<Rightarrow> 'a list \<Rightarrow> 'a list \<times> 'a list" where
  "run_q_list [] q = ([], q)"
| "run_q_list (Enq a x # ops) q = run_q_list ops (q @ [x])"
| "run_q_list (Deq # ops) q = (let (xs, q') = run_q_list ops (tl q) in (hd q # xs, q'))"

text \<open>
  The caller takes out only when there is something, and \<open>m_malloc\<close> never returns a
  cell in use; \<open>as\<close> are the cells of the queue.
\<close>

fun q_ops_ok :: "'a q_op list \<Rightarrow> nat list \<Rightarrow> bool" where
  "q_ops_ok [] as = True"
| "q_ops_ok (Enq a x # ops) as = (a \<notin> set as \<and> q_ops_ok ops (as @ [a]))"
| "q_ops_ok (Deq # ops) as = (as \<noteq> [] \<and> q_ops_ok ops (tl as))"

text \<open>The interface the packet code uses: first in, first out, with a count.\<close>

locale queue_spec =
  fixes rep :: "nat list \<Rightarrow> 'h \<Rightarrow> 'q \<Rightarrow> 'a list \<Rightarrow> bool"
    and empty :: "'q \<Rightarrow> bool"
    and first :: "'h \<Rightarrow> 'q \<Rightarrow> 'a res"
    and deq :: "'h \<Rightarrow> 'q \<Rightarrow> ('a \<times> 'h \<times> 'q) res"
    and enq :: "nat \<Rightarrow> 'h \<Rightarrow> 'q \<Rightarrow> 'a \<Rightarrow> ('h \<times> 'q) res"
  assumes cells_law: "rep as h q xs \<Longrightarrow> length as = length xs"
    and empty_law: "rep as h q xs \<Longrightarrow> empty q \<longleftrightarrow> xs = []"
    and first_law: "rep as h q (x # xs) \<Longrightarrow> first h q = Inr x"
    and deq_law: "rep as h q (x # xs) \<Longrightarrow> \<exists>h' q'. deq h q = Inr (x, h', q') \<and> rep (tl as) h' q' xs"
    and enq_law: "rep as h q xs \<Longrightarrow> a \<notin> set as \<Longrightarrow>
        \<exists>h' q'. enq a h q x = Inr (h', q') \<and> rep (as @ [a]) h' q' (xs @ [x])"
begin

lemma run_q_law:
  assumes "rep as h q xs" "q_ops_ok ops as"
  shows "\<exists>h' q' as'. run_q enq deq ops h q = Inr (fst (run_q_list ops xs), h', q')
     \<and> rep as' h' q' (snd (run_q_list ops xs))"
  using assms
proof (induction ops arbitrary: as h q xs)
  case (Cons op ops)
  show ?case
  proof (cases op)
    case (Enq a x)
    then obtain h' q' where e: "enq a h q x = Inr (h', q')" and r: "rep (as @ [a]) h' q' (xs @ [x])"
      using enq_law [of as h q xs a x] Cons.prems by auto
    show ?thesis using Cons.IH [OF r] Cons.prems Enq e by simp
  next
    case Deq
    then obtain x ys where xs: "xs = x # ys"
      using Cons.prems cells_law [of as h q xs] by (cases xs) auto
    then obtain h' q' where d: "deq h q = Inr (x, h', q')" and r: "rep (tl as) h' q' ys"
      using deq_law Cons.prems by blast
    show ?thesis using Cons.IH [OF r] Cons.prems Deq d xs by (auto simp: split_beta)
  qed
qed auto

end

lemma rep_head:
  assumes "queue_rep as h q (x # xs)"
  obtains a as' l where "as = a # as'" "q_head q = Some a" "h a = Some l" "l_item l = x"
    "path h (l_link l) as' xs" "distinct (a # as')"
  using assms by (cases as) (auto simp: queue_rep_def)

interpretation cqueue: queue_spec queue_rep isempty examine dequeue enqueue
proof (unfold_locales, goal_cases)
  case (1 as h q xs)
  then show ?case by (auto simp: queue_rep_def path_length)
next
  case (2 as h q xs)
  then show ?case by (cases as) (auto simp: queue_rep_def isempty_def)
next
  case (3 as h q x xs)
  then show ?case by (elim rep_head) (simp add: examine_def isempty_def deref_def)
next
  case (4 as h q x xs)
  then obtain a as' l where r: "as = a # as'" "q_head q = Some a" "h a = Some l" "l_item l = x"
    "path h (l_link l) as' xs" "distinct (a # as')"
    by (rule rep_head)
  have p: "path (h(a := None)) (l_link l) as' xs"
    using r by (simp add: path_frame)
  show ?case
  proof (cases as')
    case Nil
    then show ?thesis
      using 4 r p by (auto simp: dequeue_def isempty_def deref_def queue_rep_def)
  next
    case (Cons b bs)
    then show ?thesis
      using 4 r p by (auto simp: dequeue_def isempty_def deref_def queue_rep_def Let_def)
  qed
next
  case (5 as h q xs a x)
  let ?h = "h(a \<mapsto> \<lparr>l_item = x, l_link = None\<rparr>)"
  show ?case
  proof (cases "as = []")
    case True
    then show ?thesis using 5 by (auto simp: enqueue_def queue_rep_def)
  next
    case False
    have p: "path ?h (q_head q) as xs"
      using 5 by (simp add: queue_rep_def path_frame)
    obtain l where l: "?h (last as) = Some l"
      using path_last [OF p False] by blast
    have "path (?h(last as \<mapsto> l\<lparr>l_link := Some a\<rparr>)) (q_head q) (as @ [a]) (xs @ [x])"
      using 5 False p l by (intro path_snoc) (auto simp: queue_rep_def)
    moreover have "q_head q \<noteq> None"
      using p False by (cases as) auto
    ultimately show ?thesis
      using 5 False l path_length [OF p]
      by (auto simp: enqueue_def queue_rep_def deref_def Let_def)
  qed
qed

lemma initqueue_rep: "queue_rep [] h initqueue []"
  by (simp add: queue_rep_def initqueue_def)

text \<open>
  C6. \<open>queue.c\<close> implements a list.  Any run of \<open>enqueue\<close> and \<open>dequeue\<close> calls in which
  nothing is taken from an empty queue and \<open>m_malloc\<close> returns unused cells follows
  only valid pointers, takes the items out in the order they went in, and
  leaves a queue that holds exactly the others.
\<close>

theorem queue_refines_list:
  assumes "queue_rep as h q xs" "q_ops_ok ops as"
  shows "\<exists>h' q' as'. run_q enqueue dequeue ops h q = Inr (fst (run_q_list ops xs), h', q')
     \<and> queue_rep as' h' q' (snd (run_q_list ops xs))"
  using assms by (rule cqueue.run_q_law)

theorem queue_refines_list_witness:
  "\<exists>h' q' as'. run_q enqueue dequeue [Enq 3 ''a'', Enq 5 ''b'', Deq, Enq 3 ''c'', Deq] Map.empty initqueue
       = Inr ([''a'', ''b''], h', q') \<and> queue_rep as' h' q' [''c'']"
  using queue_refines_list [OF initqueue_rep, of "[Enq 3 ''a'', Enq 5 ''b'', Deq, Enq 3 ''c'', Deq]" Map.empty]
  by simp

section \<open>The doubly linked list is a list\<close>

text \<open>
  \<open>dseg eh l p as n\<close>: the cells \<open>as\<close> belong to the list \<open>l\<close> and are linked both ways,
  the first one back to \<open>p\<close> and the last one on to \<open>n\<close>.
\<close>

fun hd_ptr :: "nat list \<Rightarrow> ptr \<Rightarrow> ptr" where
  "hd_ptr [] n = n"
| "hd_ptr (a # as) n = Some a"

fun last_ptr :: "ptr \<Rightarrow> nat list \<Rightarrow> ptr" where
  "last_ptr p [] = p"
| "last_ptr p (a # as) = last_ptr (Some a) as"

fun dseg :: "'a eheap \<Rightarrow> nat \<Rightarrow> ptr \<Rightarrow> nat list \<Rightarrow> ptr \<Rightarrow> bool" where
  "dseg eh l p [] n \<longleftrightarrow> True"
| "dseg eh l p (a # as) n \<longleftrightarrow>
     (\<exists>e. eh a = Some e \<and> e_prev e = p \<and> e_list e = l \<and> e_next e = hd_ptr as n) \<and> dseg eh l (Some a) as n"

definition items :: "'a eheap \<Rightarrow> nat list \<Rightarrow> 'a list" where
  "items eh as = map (\<lambda>a. e_item (the (eh a))) as"

definition list_rep :: "'a eheap \<Rightarrow> lheap \<Rightarrow> nat \<Rightarrow> nat list \<Rightarrow> bool" where
  "list_rep eh lh l as \<longleftrightarrow> distinct as \<and> dseg eh l None as None
     \<and> lh l = Some \<lparr>ml_first = hd_ptr as None, ml_last = last_ptr None as\<rparr>"

text \<open>No other list and no cell outside \<open>as\<close> has changed.\<close>

definition other_lists :: "'a eheap \<Rightarrow> lheap \<Rightarrow> 'a eheap \<Rightarrow> lheap \<Rightarrow> nat \<Rightarrow> nat list \<Rightarrow> bool" where
  "other_lists eh lh eh' lh' l as \<longleftrightarrow> (\<forall>k. k \<noteq> l \<longrightarrow> lh' k = lh k) \<and> (\<forall>k. k \<notin> set as \<longrightarrow> eh' k = eh k)"

lemma hd_ptr_append: "hd_ptr (as @ bs) n = hd_ptr as (hd_ptr bs n)"
  by (cases as) simp_all

lemma last_ptr_append: "last_ptr p (as @ bs) = last_ptr (last_ptr p as) bs"
  by (induction as arbitrary: p) simp_all

lemma last_ptr_eq: "last_ptr p as = (if as = [] then p else Some (last as))"
  by (induction as arbitrary: p) simp_all

lemma hd_ptr_eq: "hd_ptr as n = (if as = [] then n else Some (hd as))"
  by (cases as) simp_all

lemma dseg_append:
  "dseg eh l p (as @ bs) n \<longleftrightarrow> dseg eh l p as (hd_ptr bs n) \<and> dseg eh l (last_ptr p as) bs n"
  by (induction as arbitrary: p) (auto simp: hd_ptr_append)

lemma dseg_frame: "a \<notin> set as \<Longrightarrow> dseg (eh(a := v)) l p as n = dseg eh l p as n"
  by (induction as arbitrary: p) auto

lemma items_frame: "a \<notin> set as \<Longrightarrow> items (eh(a := v)) as = items eh as"
  by (auto simp: items_def)

lemma dseg_mem: "dseg eh l p as n \<Longrightarrow> a \<in> set as \<Longrightarrow> \<exists>e. eh a = Some e"
  by (induction as arbitrary: p) auto

text \<open>Relinking the last cell to another successor, or the first to another predecessor.\<close>

lemma dseg_relink_last:
  assumes "dseg eh l p (as @ [a]) n" "a \<notin> set as" "eh a = Some e"
  shows "dseg (eh(a \<mapsto> e\<lparr>e_next := n'\<rparr>)) l p (as @ [a]) n'"
  using assms by (auto simp: dseg_append dseg_frame)

lemma dseg_relink_first:
  assumes "dseg eh l p (a # as) n" "a \<notin> set as" "eh a = Some e"
  shows "dseg (eh(a \<mapsto> e\<lparr>e_prev := p'\<rparr>)) l p' (a # as) n"
  using assms by (auto simp: dseg_frame)

lemma list_append_ok:
  assumes "list_rep eh lh l as" "a \<notin> set as"
  shows "\<exists>eh' lh'. list_append a eh lh l x = Inr (eh', lh') \<and> list_rep eh' lh' l (as @ [a])
     \<and> items eh' (as @ [a]) = items eh as @ [x] \<and> other_lists eh lh eh' lh' l (a # as)"
proof (cases as rule: rev_cases)
  case Nil
  then show ?thesis using assms by (simp add: list_append_def list_rep_def deref_def items_def other_lists_def)
next
  case (snoc bs b)
  let ?new = "\<lparr>e_item = x, e_next = None, e_prev = Some b, e_list = l\<rparr>"
  let ?eh = "eh(a \<mapsto> ?new)"
  have ds: "dseg ?eh l None (bs @ [b]) None" and ab: "b \<noteq> a" "b \<notin> set bs" "a \<notin> set bs" "distinct bs"
    using assms snoc by (auto simp: list_rep_def dseg_frame)
  then obtain e where e: "eh b = Some e" using dseg_mem [OF ds, of b] by auto
  have l: "lh l = Some \<lparr>ml_first = hd_ptr (bs @ [b]) None, ml_last = Some b\<rparr>"
    using assms snoc by (simp add: list_rep_def last_ptr_append)
  let ?eh' = "?eh(b \<mapsto> e\<lparr>e_next := Some a\<rparr>)"
  have "dseg ?eh' l None (bs @ [b]) (Some a)"
    using dseg_relink_last [OF ds] e ab by simp
  then have "dseg ?eh' l None ((bs @ [b]) @ [a]) None"
    using ab by (subst dseg_append) (simp add: last_ptr_append)
  moreover have "items ?eh' ((bs @ [b]) @ [a]) = items eh (bs @ [b]) @ [x]"
    using ab e by (auto simp: items_def)
  moreover have "list_append a eh lh l x = Inr (?eh', lh(l \<mapsto> \<lparr>ml_first = hd_ptr (bs @ [b]) None, ml_last = Some a\<rparr>))"
    using l ab e by (simp add: list_append_def deref_def hd_ptr_eq Let_def)
  ultimately show ?thesis
    using snoc assms by (auto simp: list_rep_def hd_ptr_append last_ptr_append other_lists_def)
qed

text \<open>Unlinking: first the predecessor is relinked, then the successor.\<close>

definition relink_next :: "'a eheap \<Rightarrow> ptr \<Rightarrow> ptr \<Rightarrow> 'a eheap" where
  "relink_next eh p n = (case p of None \<Rightarrow> eh | Some b \<Rightarrow> eh(b \<mapsto> (the (eh b))\<lparr>e_next := n\<rparr>))"

definition relink_prev :: "'a eheap \<Rightarrow> ptr \<Rightarrow> ptr \<Rightarrow> 'a eheap" where
  "relink_prev eh n p = (case n of None \<Rightarrow> eh | Some b \<Rightarrow> eh(b \<mapsto> (the (eh b))\<lparr>e_prev := p\<rparr>))"

lemma dseg_relink_next:
  assumes "dseg eh l None ys n" "distinct ys"
  shows "dseg (relink_next eh (last_ptr None ys) n') l None ys n'"
proof (cases ys rule: rev_cases)
  case (snoc bs b)
  then obtain e where "eh b = Some e" using dseg_mem [OF assms(1), of b] by auto
  then show ?thesis
    using assms snoc dseg_relink_last [of eh l None bs b n e n'] by (simp add: relink_next_def last_ptr_append)
qed simp

lemma dseg_relink_prev:
  assumes "dseg eh l p zs None" "distinct zs"
  shows "dseg (relink_prev eh (hd_ptr zs None) p') l p' zs None"
proof (cases zs)
  case (Cons b bs)
  then obtain e where "eh b = Some e" using dseg_mem [OF assms(1), of b] by auto
  then show ?thesis
    using assms Cons dseg_relink_first [of eh l p b bs None e p'] by (simp add: relink_prev_def del: dseg.simps)
qed simp

lemma relink_frame:
  "\<forall>b. p = Some b \<longrightarrow> b \<notin> set as \<Longrightarrow> dseg (relink_next eh p n) l q as m = dseg eh l q as m"
  "\<forall>b. n = Some b \<longrightarrow> b \<notin> set as \<Longrightarrow> dseg (relink_prev eh n p) l q as m = dseg eh l q as m"
  by (simp_all add: relink_next_def relink_prev_def dseg_frame split: option.splits)

lemma relink_items:
  "\<forall>b. p = Some b \<longrightarrow> eh b \<noteq> None \<Longrightarrow> items (relink_next eh p n) as = items eh as"
  "\<forall>b. n = Some b \<longrightarrow> eh b \<noteq> None \<Longrightarrow> items (relink_prev eh n p) as = items eh as"
  by (auto simp: relink_next_def relink_prev_def items_def split: option.splits)

lemma list_remove_ok:
  assumes "list_rep eh lh l (ys @ a # zs)"
  shows "\<exists>eh' lh' x. list_remove eh lh a = Inr (x, eh', lh') \<and> list_rep eh' lh' l (ys @ zs)
     \<and> items eh (ys @ a # zs) = items eh ys @ x # items eh zs \<and> items eh' (ys @ zs) = items eh ys @ items eh zs
     \<and> other_lists eh lh eh' lh' l (ys @ a # zs)"
proof -
  let ?p = "last_ptr None ys" and ?n = "hd_ptr zs None"
  have dist: "distinct ys" "distinct zs" "set ys \<inter> set zs = {}" "a \<notin> set ys" "a \<notin> set zs"
    using assms by (auto simp: list_rep_def)
  have d1: "dseg eh l None ys (Some a)" and d2: "dseg eh l (Some a) zs None"
    and lh: "lh l = Some \<lparr>ml_first = hd_ptr ys (Some a), ml_last = last_ptr (Some a) zs\<rparr>"
    using assms by (auto simp: list_rep_def dseg_append hd_ptr_append last_ptr_append)
  obtain e where e: "eh a = Some e" "e_prev e = ?p" "e_list e = l" "e_next e = ?n"
    using assms by (auto simp: list_rep_def dseg_append)
  let ?e1 = "relink_next eh ?p ?n"
  let ?e2 = "relink_prev ?e1 ?n ?p"
  let ?lst = "\<lparr>ml_first = hd_ptr (ys @ zs) None, ml_last = last_ptr None (ys @ zs)\<rparr>"
  have pin: "?p = Some b \<Longrightarrow> b \<in> set ys \<and> eh b \<noteq> None" for b
    using dseg_mem [OF d1] by (auto simp: last_ptr_eq split: if_splits)
  have nin: "?n = Some b \<Longrightarrow> b \<in> set zs \<and> eh b \<noteq> None" for b
    using dseg_mem [OF d2] by (auto simp: hd_ptr_eq split: if_splits)
  have e1z: "b \<in> set zs \<Longrightarrow> ?e1 b = eh b" for b
    using pin dist by (auto simp: relink_next_def split: option.splits)
  have e1a: "?e1 a = Some e"
    using e pin dist by (auto simp: relink_next_def split: option.splits)
  have nin1: "?n = Some b \<Longrightarrow> ?e1 b \<noteq> None" for b
    using nin e1z by auto
  have pz: "\<forall>b. ?p = Some b \<longrightarrow> b \<notin> set zs" and ny: "\<forall>b. ?n = Some b \<longrightarrow> b \<notin> set ys"
    using pin nin dist by blast+
  have "dseg ?e1 l None ys ?n" "dseg ?e1 l (Some a) zs None"
    using dseg_relink_next [OF d1 dist(1)] d2 by (simp_all add: relink_frame(1) [OF pz])
  then have "dseg ?e2 l None ys ?n" "dseg ?e2 l ?p zs None"
    using dseg_relink_prev [OF _ dist(2)] by (auto simp: relink_frame(2) [OF ny])
  then have ds: "dseg (?e2(a := None)) l None (ys @ zs) None"
    using dist by (simp add: dseg_append dseg_frame)
  have it: "items (?e2(a := None)) (ys @ zs) = items eh ys @ items eh zs"
  proof -
    have "items (?e2(a := None)) (ys @ zs) = items ?e2 (ys @ zs)"
      using dist by (intro items_frame) simp
    also have "\<dots> = items ?e1 (ys @ zs)"
      using nin1 by (intro relink_items(2)) blast
    also have "\<dots> = items eh (ys @ zs)"
      using pin by (intro relink_items(1)) blast
    finally show ?thesis by (simp add: items_def)
  qed
  have first: "(if hd_ptr ys (Some a) = Some a then ?n else hd_ptr ys (Some a)) = hd_ptr (ys @ zs) None"
    using dist by (cases ys) auto
  have last: "(if last_ptr (Some a) zs = Some a then ?p else last_ptr (Some a) zs) = last_ptr None (ys @ zs)"
    using dist by (auto simp: last_ptr_append last_ptr_eq split: if_splits)
  have r1: "(case e_prev e of None \<Rightarrow> returnE eh
      | Some _ \<Rightarrow> bindE (deref eh (e_prev e)) (\<lambda>(p, pe). returnE (eh(p \<mapsto> pe\<lparr>e_next := e_next e\<rparr>)))) = Inr ?e1"
    using pin e by (auto simp: relink_next_def deref_def split: option.splits)
  have r2: "(case e_next e of None \<Rightarrow> returnE ?e1
      | Some _ \<Rightarrow> bindE (deref ?e1 (e_next e)) (\<lambda>(n, ne). returnE (?e1(n \<mapsto> ne\<lparr>e_prev := e_prev e\<rparr>)))) = Inr ?e2"
    using nin1 e by (auto simp: relink_prev_def deref_def split: option.splits)
  have d: "deref eh (Some a) = Inr (a, e)" "deref ?e1 (Some a) = Inr (a, e)"
    "deref lh (Some l) = Inr (l, \<lparr>ml_first = hd_ptr ys (Some a), ml_last = last_ptr (Some a) zs\<rparr>)"
    using e e1a lh by (simp_all add: deref_def)
  have "list_remove eh lh a = Inr (e_item e, ?e2(a := None), lh(l \<mapsto> ?lst))"
    unfolding list_remove_def d e(3) bindE_simps prod.case Let_def r1 r2
    using e(2,4) first last by (cases "hd_ptr ys (Some a) = Some a"; cases "last_ptr (Some a) zs = Some a") auto
  moreover have "(?e2(a := None)) k = eh k" if "k \<notin> set (ys @ a # zs)" for k
    using that pin nin by (auto simp: relink_next_def relink_prev_def split: option.splits)
  ultimately show ?thesis
    using ds it e dist by (auto simp: list_rep_def items_def other_lists_def)
qed

text \<open>
  C7. \<open>list.c\<close> implements a list.  \<open>list_new\<close> makes an empty list.  On a well-linked list, the
  empty one included, \<open>list_append\<close> adds the item at the end, and \<open>list_remove\<close> takes out the
  element it is given, wherever it stands, and returns its item; the other items, their order,
  every other list and every cell outside this one stay as they were, the links stay consistent both
  ways, and no invalid pointer is followed.
\<close>

theorem list_refines_list:
  assumes "list_rep eh lh l as" "b \<notin> set as"
  shows "list_rep eh0 (list_new m lh0) m []
     \<and> (\<exists>eh' lh'. list_append b eh lh l x = Inr (eh', lh') \<and> list_rep eh' lh' l (as @ [b])
       \<and> items eh' (as @ [b]) = items eh as @ [x] \<and> other_lists eh lh eh' lh' l (b # as))
     \<and> (\<forall>ys a zs. as = ys @ a # zs \<longrightarrow> (\<exists>eh' lh' y. list_remove eh lh a = Inr (y, eh', lh') \<and> list_rep eh' lh' l (ys @ zs)
       \<and> items eh as = items eh ys @ y # items eh zs \<and> items eh' (ys @ zs) = items eh ys @ items eh zs
       \<and> other_lists eh lh eh' lh' l as))"
  using list_append_ok [OF assms] list_remove_ok [of eh lh l] assms(1)
  by (auto simp: list_rep_def list_new_def)

text \<open>An empty list that gets an item, and a list of two that loses its first.\<close>

definition list_example :: "string eheap \<times> lheap" where
  "list_example =
     ([1 \<mapsto> \<lparr>e_item = ''a'', e_next = Some 2, e_prev = None, e_list = 0\<rparr>,
       2 \<mapsto> \<lparr>e_item = ''b'', e_next = None, e_prev = Some 1, e_list = 0\<rparr>],
      [0 \<mapsto> \<lparr>ml_first = Some 1, ml_last = Some 2\<rparr>])"

theorem list_refines_list_witness:
  "(\<exists>eh' lh'. list_append 3 (Map.empty :: string eheap) [0 \<mapsto> \<lparr>ml_first = None, ml_last = None\<rparr>] 0 ''c'' = Inr (eh', lh')
       \<and> list_rep eh' lh' 0 [3] \<and> items eh' [3] = [''c''])
   \<and> (\<exists>eh' lh' y. list_remove (fst list_example) (snd list_example) 1 = Inr (y, eh', lh')
       \<and> list_rep eh' lh' 0 [2] \<and> items eh' [2] = [''b''])"
proof -
  have e: "list_rep (Map.empty :: string eheap) [0 \<mapsto> \<lparr>ml_first = None, ml_last = None\<rparr>] 0 []"
    by (simp add: list_rep_def)
  have r: "list_rep (fst list_example) (snd list_example) 0 [1, 2]"
    and i: "items (fst list_example) [2] = [''b'']" "items (fst list_example) [] = []"
    by (simp_all add: list_example_def list_rep_def items_def)
  note app = list_refines_list [where x = "''c''", OF e, of 3, THEN conjunct2, THEN conjunct1]
  note rem = list_refines_list [OF r, of 3, THEN conjunct2, THEN conjunct2, THEN spec, THEN spec, THEN spec, of "[]" 1 "[2]"]
  show ?thesis using app rem i by (auto simp: items_def)
qed

end
