(* ===== verification/Packet.thy ===== *)
theory Packet
  imports Session_State Linked
begin

text \<open>
  The binary packet protocol, \<open>src/src/packet.c\<close>, with the queue of packets being
  written (\<open>packet_queue_to_iovec\<close> and \<open>packet_queue_consume\<close> of \<open>netio.c\<close>).  Reading is driven by the outcomes of the
  \<open>read\<close> calls, writing by those of \<open>writev\<close>.
\<close>

section \<open>Definitions\<close>

definition RECV_MAX_PAYLOAD_LEN :: u32 where "RECV_MAX_PAYLOAD_LEN = 32768"
definition TRANS_MAX_PAYLOAD_LEN :: u32 where "TRANS_MAX_PAYLOAD_LEN = 16384"
definition RECV_MAX_PACKET_LEN :: u32 where "RECV_MAX_PACKET_LEN = max 35000 (RECV_MAX_PAYLOAD_LEN + 100)"
definition MIN_PACKET_LEN :: u32 where "MIN_PACKET_LEN = 16"
definition MAX_MAC_LEN :: nat where "MAX_MAC_LEN = 32"
definition ZLIB_COMPRESS_EXPANSION :: u32 where
  "ZLIB_COMPRESS_EXPANSION = (RECV_MAX_PAYLOAD_LEN div 16384 + 1) * 5 + 6"
definition PACKET_PADDING_OFF :: u32 where "PACKET_PADDING_OFF = 4"
definition PACKET_PAYLOAD_OFF :: u32 where "PACKET_PAYLOAD_OFF = 5"
definition INIT_READBUF :: u32 where "INIT_READBUF = 128"

definition SSH_MSG_DISCONNECT :: byte where "SSH_MSG_DISCONNECT = 1"
definition SSH_MSG_IGNORE :: byte where "SSH_MSG_IGNORE = 2"
definition SSH_MSG_UNIMPLEMENTED :: byte where "SSH_MSG_UNIMPLEMENTED = 3"
definition SSH_MSG_DEBUG :: byte where "SSH_MSG_DEBUG = 4"
definition SSH_MSG_SERVICE_REQUEST :: byte where "SSH_MSG_SERVICE_REQUEST = 5"
definition SSH_MSG_SERVICE_ACCEPT :: byte where "SSH_MSG_SERVICE_ACCEPT = 6"
definition SSH_MSG_KEXINIT :: byte where "SSH_MSG_KEXINIT = 20"
definition SSH_MSG_NEWKEYS :: byte where "SSH_MSG_NEWKEYS = 21"
definition SSH_MSG_USERAUTH_REQUEST :: byte where "SSH_MSG_USERAUTH_REQUEST = 50"
definition SSH_MSG_REQUEST_FAILURE :: byte where "SSH_MSG_REQUEST_FAILURE = 82"

text \<open>
  What the code gets from outside: libtomcrypt's HMAC (hash index, key, message; \<open>None\<close>
  for an error of one of its calls), zlib (state, input and space for output give
  whether the result is \<open>Z_OK\<close>, the input not consumed, the output and the new state), the
  contents of fresh memory, the clock, and random bytes (a stream per packet sent).
\<close>

record env =
  ce_hmac :: "int \<Rightarrow> byte list \<Rightarrow> byte list \<Rightarrow> byte list option"
  ce_inflate :: "mem \<Rightarrow> byte list \<Rightarrow> nat \<Rightarrow> bool \<times> nat \<times> byte list \<times> mem"
  ce_deflate :: "mem \<Rightarrow> byte list \<Rightarrow> nat \<Rightarrow> bool \<times> nat \<times> byte list \<times> mem"
  ce_fresh :: "nat \<Rightarrow> byte"
  ce_now :: int
  ce_rnd :: "u32 \<Rightarrow> nat \<Rightarrow> byte"

text \<open>
  Outcomes of \<open>read\<close>: data, none for end of file; \<open>EINTR\<close> or \<open>EAGAIN\<close>; another error.
  A \<open>reader\<close> is the kernel's side of a call: the number of bytes asked for gives the outcome.
\<close>

datatype io_read = Rd "byte list" | Rd_again | Rd_error

type_synonym reader = "u32 \<Rightarrow> io_read"

text \<open>Outcomes of \<open>write\<close> and \<open>writev\<close>, with the number of bytes written.\<close>

datatype io_write = Wr nat | Wr_again | Wr_error

subsection \<open>Compression\<close>

definition is_compress_trans :: "sshsession \<Rightarrow> key_context_directional \<Rightarrow> bool" where
  "is_compress_trans ses kd \<longleftrightarrow> kd_algo_comp kd = DROPBEAR_COMP_ZLIB
     \<or> (as_authdone (ses_authstate ses) \<and> kd_algo_comp kd = DROPBEAR_COMP_ZLIB_DELAY)"

definition is_compress_recv :: "sshsession \<Rightarrow> key_context_directional \<Rightarrow> bool" where
  "is_compress_recv ses kd \<longleftrightarrow> kd_algo_comp kd = DROPBEAR_COMP_ZLIB
     \<or> (as_authdone (ses_authstate ses) \<and> kd_algo_comp kd = DROPBEAR_COMP_ZLIB_DELAY)"

definition buf_decompress :: "env \<Rightarrow> key_context_directional \<Rightarrow> buffer \<Rightarrow> u32 \<Rightarrow> (buffer \<times> key_context_directional) res" where
  "buf_decompress env kd buf l =
     bindE (nn (kd_zstream kd)) (\<lambda>zstream.
     bindE (buf_new (RECV_MAX_PAYLOAD_LEN + 1)) (\<lambda>ret.
     bindE (buf_getptr buf l) (\<lambda>p.
     bindE (mem_read (b_data buf) p (unat l)) (\<lambda>next_in.
     case ce_inflate env zstream next_in (unat (b_size ret)) of (ok, avail_in, out, zstream) \<Rightarrow>
     bindE (mem_write (b_data ret) 0 out) (\<lambda>d.
     if \<not> ok then dropbear_exit ''zlib error''
     else
       let ret = ret\<lparr>b_data := d\<rparr> in
       bindE (buf_setlen ret (of_nat (length out))) (\<lambda>ret.
       if avail_in > 0 \<or> b_len ret > RECV_MAX_PAYLOAD_LEN
       then dropbear_exit ''bad packet, oversized decompressed''
       else returnE (ret, kd\<lparr>kd_zstream := Some zstream\<rparr>)))))))"

definition buf_compress :: "env \<Rightarrow> key_context_directional \<Rightarrow> buffer \<Rightarrow> buffer \<Rightarrow> u32
    \<Rightarrow> (buffer \<times> buffer \<times> key_context_directional) res" where
  "buf_compress env kd dest src l =
     (let endpos = b_pos src + l in
      bindE (dropbear_assert (b_size dest - b_pos dest \<ge> l + ZLIB_COMPRESS_EXPANSION) ''dest->size'') (\<lambda>_.
      bindE (nn (kd_zstream kd)) (\<lambda>zstream.
      bindE (buf_getptr src (endpos - b_pos src)) (\<lambda>p.
      bindE (mem_read (b_data src) p (unat (endpos - b_pos src))) (\<lambda>next_in.
      let avail_out = b_size dest - b_pos dest in
      bindE (buf_getwriteptr dest avail_out) (\<lambda>q.
      case ce_deflate env zstream next_in (unat avail_out) of (ok, avail_in, out, zstream) \<Rightarrow>
      bindE (mem_write (b_data dest) q out) (\<lambda>d.
      bindE (buf_setpos src (endpos - of_nat avail_in)) (\<lambda>src.
      bindE (buf_setlen (dest\<lparr>b_data := d\<rparr>) (b_size dest - (avail_out - of_nat (length out)))) (\<lambda>dest.
      bindE (buf_setpos dest (b_len dest)) (\<lambda>dest.
      if \<not> ok then dropbear_exit ''zlib error''
      else
        bindE (dropbear_assert (avail_in = 0) ''avail_in == 0'') (\<lambda>_.
        returnE (dest, src, kd\<lparr>kd_zstream := Some zstream\<rparr>))))))))))))"

subsection \<open>MAC\<close>

definition make_mac :: "env \<Rightarrow> u32 \<Rightarrow> key_context_directional \<Rightarrow> buffer \<Rightarrow> u32 \<Rightarrow> (byte list \<times> buffer) res" where
  "make_mac env seqno key_state clear_buf clear_len =
     bindE (nn (kd_algo_mac key_state)) (\<lambda>algo_mac.
     if dh_hashsize algo_mac > 0 then
       bindE (mem_read (kd_mackey key_state) 0 (dh_keysize algo_mac)) (\<lambda>key.
       bindE (buf_setpos clear_buf 0) (\<lambda>clear_buf.
       bindE (buf_getptr clear_buf clear_len) (\<lambda>p.
       bindE (mem_read (b_data clear_buf) p (unat clear_len)) (\<lambda>contents.
       case ce_hmac env (kd_hash_index key_state) key (STORE32H seqno @ contents) of
         None \<Rightarrow> dropbear_exit ''HMAC error''
       | Some output_mac \<Rightarrow> returnE (take MAX_MAC_LEN output_mac, clear_buf)))))
     else returnE ([], clear_buf))"

definition checkmac :: "env \<Rightarrow> u32 \<Rightarrow> key_context_directional \<Rightarrow> buffer \<Rightarrow> (ret_code \<times> buffer) res" where
  "checkmac env recvseq kd readbuf =
     bindE (nn (kd_algo_mac kd)) (\<lambda>algo_mac.
     let mac_size = ucast (dh_hashsize algo_mac) :: u32;
         contents_len = b_len readbuf - mac_size in
     bindE (buf_setpos readbuf 0) (\<lambda>readbuf.
     bindE (make_mac env recvseq kd readbuf contents_len) (\<lambda>(mac_bytes, readbuf).
     bindE (buf_setpos readbuf contents_len) (\<lambda>readbuf.
     bindE (buf_getptr readbuf mac_size) (\<lambda>p.
     bindE (constant_time_memcmp mac_bytes (drop p (b_data readbuf)) (unat mac_size)) (\<lambda>c.
     returnE (if c \<noteq> 0 then DROPBEAR_FAILURE else DROPBEAR_SUCCESS, readbuf)))))))"

subsection \<open>Reading\<close>

text \<open>
  A cipher call of the form \<open>f (buf_getptr (b, len), buf_getwriteptr (b, len), len, state)\<close>,
  in place at the buffer's position.
\<close>

definition crypt_in_place :: "(byte list \<Rightarrow> cipher_state \<Rightarrow> (byte list \<times> cipher_state) option) \<Rightarrow> string \<Rightarrow> buffer \<Rightarrow> u32 \<Rightarrow> u32
    \<Rightarrow> cipher_state \<Rightarrow> (buffer \<times> cipher_state) res" where
  "crypt_in_place f err buf inlen outlen st =
     bindE (buf_getptr buf inlen) (\<lambda>p.
     bindE (buf_getwriteptr buf outlen) (\<lambda>q.
     bindE (mem_read (b_data buf) p (unat inlen)) (\<lambda>input.
     case f input st of
       None \<Rightarrow> dropbear_exit err
     | Some (out, st) \<Rightarrow>
         bindE (mem_write (b_data buf) q out) (\<lambda>d. returnE (buf\<lparr>b_data := d\<rparr>, st)))))"

text \<open>The packet length from the first block: \<open>plen\<close>, \<open>len\<close>, the buffer and the cipher state.\<close>

definition first_block_len :: "sshsession \<Rightarrow> key_context_directional \<Rightarrow> u32 \<Rightarrow> u32 \<Rightarrow> buffer
    \<Rightarrow> (u32 \<times> u32 \<times> buffer \<times> cipher_state) res" where
  "first_block_len ses kd blocksize macsize readbuf =
     bindE (nn (kd_crypt_mode kd)) (\<lambda>crypt_mode.
     case cm_aead_crypt crypt_mode of
       Some _ \<Rightarrow>
         bindE (buf_getptr readbuf blocksize) (\<lambda>p.
         bindE (mem_read (b_data readbuf) p (unat blocksize)) (\<lambda>input.
         case cm_aead_getlength crypt_mode (ses_recvseq ses) input (kd_cipher_state kd) of
           None \<Rightarrow> dropbear_exit ''Error decrypting''
         | Some (plen, st) \<Rightarrow> returnE (plen, plen + 4 + macsize, readbuf, st)))
     | None \<Rightarrow>
         bindE (crypt_in_place (cm_decrypt crypt_mode) ''Error decrypting'' readbuf blocksize blocksize
                  (kd_cipher_state kd)) (\<lambda>(readbuf, st).
         bindE (buf_getint readbuf) (\<lambda>(n, readbuf).
         let plen = n + 4 in returnE (plen, plen + macsize, readbuf, st))))"

text \<open>The check of the packet length, and the buffer made ready for the rest of the packet.\<close>

definition check_packet_len :: "env \<Rightarrow> u32 \<Rightarrow> u32 \<Rightarrow> u32 \<Rightarrow> buffer \<Rightarrow> buffer res" where
  "check_packet_len env blocksize plen len readbuf =
     bindE (if len > RECV_MAX_PACKET_LEN \<or> plen < blocksize then returnE True
            else bindE (umod plen blocksize) (\<lambda>m. returnE (m \<noteq> 0))) (\<lambda>bad.
     if bad then dropbear_exit ''Integrity error (bad packet size)''
     else
       bindE (if len > b_size readbuf then buf_resize (ce_fresh env) readbuf len else returnE readbuf) (\<lambda>readbuf.
       bindE (buf_setlen readbuf len) (\<lambda>readbuf.
       buf_setpos readbuf blocksize)))"

definition read_packet_init :: "env \<Rightarrow> reader \<Rightarrow> sshsession \<Rightarrow> (ret_code \<times> sshsession) res" where
  "read_packet_init env rd ses =
     bindE (recv_keys ses) (\<lambda>kd.
     bindE (nn (kd_algo_crypt kd)) (\<lambda>algo_crypt.
     bindE (nn (kd_algo_mac kd)) (\<lambda>algo_mac.
     let blocksize = ucast (dc_blocksize algo_crypt) :: u32;
         macsize = ucast (dh_hashsize algo_mac) :: u32 in
     bindE (case ses_readbuf ses of None \<Rightarrow> buf_new INIT_READBUF | Some b \<Rightarrow> returnE b) (\<lambda>readbuf.
     let maxlen = blocksize - b_pos readbuf in
     bindE (buf_getwriteptr readbuf maxlen) (\<lambda>p.
     case rd maxlen of
       Rd_again \<Rightarrow> returnE (DROPBEAR_FAILURE, ses\<lparr>ses_readbuf := Some readbuf\<rparr>)
     | Rd_error \<Rightarrow> dropbear_exit ''Error reading''
     | Rd bs \<Rightarrow>
         if bs = [] then remoteclosed ses
         else
           bindE (mem_write (b_data readbuf) p bs) (\<lambda>d.
           bindE (buf_incrwritepos (readbuf\<lparr>b_data := d\<rparr>) (of_nat (length bs))) (\<lambda>readbuf.
           if of_nat (length bs) \<noteq> maxlen
           then returnE (DROPBEAR_FAILURE, ses\<lparr>ses_readbuf := Some readbuf\<rparr>)
           else
             bindE (buf_setpos readbuf 0) (\<lambda>readbuf.
             bindE (first_block_len ses kd blocksize macsize readbuf) (\<lambda>(plen, len, readbuf, st).
             bindE (check_packet_len env blocksize plen len readbuf) (\<lambda>readbuf.
             returnE (DROPBEAR_SUCCESS,
               set_recv_keys (kd\<lparr>kd_cipher_state := st\<rparr>) (ses\<lparr>ses_readbuf := Some readbuf\<rparr>))))))))))))"

text \<open>Decryption and integrity check of a whole packet (the two branches of \<open>decrypt_packet\<close>).\<close>

definition decrypt_body :: "env \<Rightarrow> sshsession \<Rightarrow> key_context_directional \<Rightarrow> u32 \<Rightarrow> u32 \<Rightarrow> buffer
    \<Rightarrow> (buffer \<times> cipher_state) res" where
  "decrypt_body env ses kd blocksize macsize readbuf =
     bindE (nn (kd_crypt_mode kd)) (\<lambda>crypt_mode.
     case cm_aead_crypt crypt_mode of
       Some aead_crypt \<Rightarrow>
         bindE (buf_setpos readbuf 0) (\<lambda>readbuf.
         let len = b_len readbuf - macsize - b_pos readbuf in
         bindE (crypt_in_place (\<lambda>input st. aead_crypt (ses_recvseq ses) input (unat len) (unat macsize) st LTC_DECRYPT)
                  ''Error decrypting'' readbuf (len + macsize) len (kd_cipher_state kd)) (\<lambda>(readbuf, st).
         bindE (buf_incrpos readbuf len) (\<lambda>readbuf. returnE (readbuf, st))))
     | None \<Rightarrow>
         bindE (buf_setpos readbuf blocksize) (\<lambda>readbuf.
         let len = b_len readbuf - macsize - b_pos readbuf in
         bindE (crypt_in_place (cm_decrypt crypt_mode) ''Error decrypting'' readbuf len len (kd_cipher_state kd))
           (\<lambda>(readbuf, st).
         bindE (buf_incrpos readbuf len) (\<lambda>readbuf.
         bindE (checkmac env (ses_recvseq ses) kd readbuf) (\<lambda>(ret, readbuf).
         if ret \<noteq> DROPBEAR_SUCCESS then dropbear_exit ''Integrity error''
         else returnE (readbuf, st))))))"

definition decrypt_packet :: "env \<Rightarrow> sshsession \<Rightarrow> sshsession res" where
  "decrypt_packet env ses =
     bindE (recv_keys ses) (\<lambda>kd.
     bindE (nn (kd_algo_crypt kd)) (\<lambda>algo_crypt.
     bindE (nn (kd_algo_mac kd)) (\<lambda>algo_mac.
     let blocksize = ucast (dc_blocksize algo_crypt) :: u32;
         macsize = ucast (dh_hashsize algo_mac) :: u32 in
     bindE (nn (ses_readbuf ses)) (\<lambda>readbuf.
     let ses = set_kexstate (\<lambda>k. k\<lparr>kx_datarecv := kx_datarecv k + b_len readbuf\<rparr>) ses in
     bindE (decrypt_body env ses kd blocksize macsize readbuf) (\<lambda>(readbuf, st).
     let kd = kd\<lparr>kd_cipher_state := st\<rparr> in
     bindE (buf_setpos readbuf PACKET_PADDING_OFF) (\<lambda>readbuf.
     bindE (buf_getbyte readbuf) (\<lambda>(b, readbuf).
     let padlen = ucast b :: u32;
         len = b_len readbuf - padlen - 4 - 1 - macsize in
     if len > RECV_MAX_PAYLOAD_LEN + ZLIB_COMPRESS_EXPANSION \<or> len < 1
     then dropbear_exit ''Bad packet size''
     else
       bindE (buf_setpos readbuf PACKET_PAYLOAD_OFF) (\<lambda>readbuf.
       bindE (if is_compress_recv ses kd then
                bindE (buf_decompress env kd readbuf len) (\<lambda>(payload, kd).
                bindE (buf_setpos payload 0) (\<lambda>payload. returnE (payload, 0, kd)))
              else
                bindE (buf_setlen readbuf (b_pos readbuf + len)) (\<lambda>payload.
                returnE (payload, b_pos payload, kd))) (\<lambda>(payload, payload_beginning, kd).
       returnE (set_recv_keys kd (ses\<lparr>ses_payload := Some payload, ses_payload_beginning := payload_beginning,
                  ses_readbuf := None, ses_recvseq := ses_recvseq ses + 1\<rparr>)))))))))))"

text \<open>The rest of a packet whose length is known.\<close>

definition read_remainder :: "env \<Rightarrow> reader \<Rightarrow> sshsession \<Rightarrow> sshsession res" where
  "read_remainder env rd2 ses =
     bindE (nn (ses_readbuf ses)) (\<lambda>readbuf.
     let maxlen = b_len readbuf - b_pos readbuf in
     if maxlen = 0 then decrypt_packet env ses
     else
       bindE (buf_getptr readbuf maxlen) (\<lambda>p.
       case rd2 maxlen of
         Rd_again \<Rightarrow> returnE ses
       | Rd_error \<Rightarrow> dropbear_exit ''Error reading''
       | Rd bs \<Rightarrow>
           if bs = [] then remoteclosed ses
           else
             bindE (mem_write (b_data readbuf) p bs) (\<lambda>d.
             bindE (buf_incrpos (readbuf\<lparr>b_data := d\<rparr>) (of_nat (length bs))) (\<lambda>readbuf.
             let ses = ses\<lparr>ses_readbuf := Some readbuf\<rparr> in
             if of_nat (length bs) = maxlen then decrypt_packet env ses else returnE ses))))"

text \<open>\<open>rd\<close> answers the \<open>read\<close> in \<open>read_packet_init\<close>, \<open>rd2\<close> the one in \<open>read_packet\<close>.\<close>

definition read_packet :: "env \<Rightarrow> reader \<Rightarrow> reader \<Rightarrow> sshsession \<Rightarrow> sshsession res" where
  "read_packet env rd rd2 ses =
     bindE (recv_keys ses) (\<lambda>kd.
     bindE (nn (kd_algo_crypt kd)) (\<lambda>algo_crypt.
     bindE (if (case ses_readbuf ses of None \<Rightarrow> True | Some b \<Rightarrow> b_len b < ucast (dc_blocksize algo_crypt))
            then read_packet_init env rd ses else returnE (DROPBEAR_SUCCESS, ses)) (\<lambda>(ret, ses).
     if ret = DROPBEAR_FAILURE then returnE ses else read_remainder env rd2 ses)))"

subsection \<open>Writing\<close>

definition packet_is_okay_kex :: "byte \<Rightarrow> bool" where
  "packet_is_okay_kex type \<longleftrightarrow>
     (if type \<ge> SSH_MSG_USERAUTH_REQUEST then False
      else if type = SSH_MSG_SERVICE_REQUEST \<or> type = SSH_MSG_SERVICE_ACCEPT then False
      else if type = SSH_MSG_KEXINIT then False
      else True)"

definition enqueue_reply_packet :: "sshsession \<Rightarrow> sshsession res" where
  "enqueue_reply_packet ses =
     bindE (buf_newcopy (ses_writepayload ses)) (\<lambda>payload.
     bindE (buf_setpos (ses_writepayload ses) 0) (\<lambda>wp.
     bindE (buf_setlen wp 0) (\<lambda>wp.
     returnE (ses\<lparr>ses_writepayload := wp, ses_reply_queue := ses_reply_queue ses @ [payload]\<rparr>))))"

definition writebuf_enqueue :: "buffer \<Rightarrow> sshsession \<Rightarrow> sshsession res" where
  "writebuf_enqueue writebuf ses =
     bindE (buf_setpos writebuf 0) (\<lambda>writebuf.
     returnE (ses\<lparr>ses_writequeue := ses_writequeue ses @ [writebuf],
                  ses_writequeue_len := ses_writequeue_len ses + b_len writebuf\<rparr>))"

text \<open>
  The length of the padding, in the 8 bit arithmetic of \<open>padlen\<close>: \<open>wlen\<close> is the length
  of the packet so far, \<open>len\<close> the part of it that counts for the block size.
\<close>

definition padding_len :: "byte \<Rightarrow> u32 \<Rightarrow> u32 \<Rightarrow> byte res" where
  "padding_len blocksize wlen len =
     bindE (umod len (ucast blocksize)) (\<lambda>m.
     let padlen = (ucast (ucast blocksize - m) :: byte);
         padlen = (if padlen < 4 then padlen + blocksize else padlen);
         padlen = (if wlen + ucast padlen < MIN_PACKET_LEN then padlen + blocksize else padlen) in
     returnE padlen)"

text \<open>The payload, compressed or copied, goes into the new packet.\<close>

definition put_payload :: "env \<Rightarrow> sshsession \<Rightarrow> key_context_directional \<Rightarrow> buffer \<Rightarrow> buffer
    \<Rightarrow> (buffer \<times> buffer \<times> key_context_directional) res" where
  "put_payload env ses kd writebuf writepayload =
     (if is_compress_trans ses kd then buf_compress env kd writebuf writepayload (b_len writepayload)
      else
        bindE (buf_getwriteptr writebuf (b_len writepayload)) (\<lambda>q.
        bindE (buf_getptr writepayload (b_len writepayload)) (\<lambda>p.
        bindE (mem_read (b_data writepayload) p (unat (b_len writepayload))) (\<lambda>bs.
        bindE (mem_write (b_data writebuf) q bs) (\<lambda>d.
        bindE (buf_incrwritepos (writebuf\<lparr>b_data := d\<rparr>) (b_len writepayload)) (\<lambda>writebuf.
        returnE (writebuf, writepayload, kd)))))))"

text \<open>The two length fields and the random padding.\<close>

definition pad_packet :: "env \<Rightarrow> sshsession \<Rightarrow> dropbear_cipher_mode \<Rightarrow> byte \<Rightarrow> buffer \<Rightarrow> buffer res" where
  "pad_packet env ses crypt_mode blocksize writebuf =
     bindE (padding_len blocksize (b_len writebuf)
              (case cm_aead_crypt crypt_mode of Some _ \<Rightarrow> b_len writebuf - 4 | None \<Rightarrow> b_len writebuf)) (\<lambda>padlen.
     bindE (buf_setpos writebuf 0) (\<lambda>writebuf.
     bindE (buf_putint writebuf (b_len writebuf + ucast padlen - 4)) (\<lambda>writebuf.
     bindE (buf_putbyte writebuf padlen) (\<lambda>writebuf.
     bindE (buf_setpos writebuf (b_len writebuf)) (\<lambda>writebuf.
     bindE (buf_incrlen writebuf (ucast padlen)) (\<lambda>writebuf.
     bindE (buf_getptr writebuf (ucast padlen)) (\<lambda>p.
     bindE (mem_write (b_data writebuf) p (map (ce_rnd env (ses_transseq ses)) [0..<unat padlen])) (\<lambda>d.
     returnE (writebuf\<lparr>b_data := d\<rparr>)))))))))"

text \<open>Everything of \<open>encrypt_packet\<close> before encryption.\<close>

definition fill_packet :: "env \<Rightarrow> sshsession \<Rightarrow> key_context_directional \<Rightarrow> dropbear_cipher_mode \<Rightarrow> byte \<Rightarrow> byte
    \<Rightarrow> buffer \<Rightarrow> (buffer \<times> buffer \<times> key_context_directional) res" where
  "fill_packet env ses kd crypt_mode blocksize mac_size writepayload =
     (let encrypt_buf_size = (b_len writepayload + 4 + 1) + max MIN_PACKET_LEN (ucast blocksize) + 3
            + ucast mac_size + ZLIB_COMPRESS_EXPANSION + 1 in
      bindE (buf_new encrypt_buf_size) (\<lambda>writebuf.
      bindE (buf_setlen writebuf PACKET_PAYLOAD_OFF) (\<lambda>writebuf.
      bindE (buf_setpos writebuf PACKET_PAYLOAD_OFF) (\<lambda>writebuf.
      bindE (put_payload env ses kd writebuf writepayload) (\<lambda>(writebuf, writepayload, kd).
      bindE (buf_setpos writepayload 0) (\<lambda>writepayload.
      bindE (buf_setlen writepayload 0) (\<lambda>writepayload.
      bindE (pad_packet env ses crypt_mode blocksize writebuf) (\<lambda>writebuf.
      returnE (writebuf, writepayload, kd)))))))))"

text \<open>Encryption of the filled packet and its MAC.\<close>

definition encrypt_body :: "env \<Rightarrow> sshsession \<Rightarrow> key_context_directional \<Rightarrow> dropbear_cipher_mode \<Rightarrow> byte
    \<Rightarrow> buffer \<Rightarrow> (buffer \<times> cipher_state) res" where
  "encrypt_body env ses kd crypt_mode mac_size writebuf =
     (case cm_aead_crypt crypt_mode of
        Some aead_crypt \<Rightarrow>
          bindE (buf_setpos writebuf 0) (\<lambda>writebuf.
          let len = b_len writebuf in
          bindE (buf_incrlen writebuf (ucast mac_size)) (\<lambda>writebuf.
          bindE (crypt_in_place (\<lambda>input st. aead_crypt (ses_transseq ses) input (unat len) (unat mac_size) st LTC_ENCRYPT)
                   ''Error encrypting'' writebuf len (len + ucast mac_size) (kd_cipher_state kd)) (\<lambda>(writebuf, st).
          bindE (buf_incrpos writebuf (len + ucast mac_size)) (\<lambda>writebuf. returnE (writebuf, st)))))
      | None \<Rightarrow>
          bindE (make_mac env (ses_transseq ses) kd writebuf (b_len writebuf)) (\<lambda>(mac_bytes, writebuf).
          bindE (buf_setpos writebuf 0) (\<lambda>writebuf.
          let len = b_len writebuf in
          bindE (crypt_in_place (cm_encrypt crypt_mode) ''Error encrypting'' writebuf len len (kd_cipher_state kd))
            (\<lambda>(writebuf, st).
          bindE (buf_incrpos writebuf len) (\<lambda>writebuf.
          bindE (buf_putbytes writebuf mac_bytes (ucast mac_size)) (\<lambda>writebuf.
          returnE (writebuf, st)))))))"

definition encrypt_packet :: "env \<Rightarrow> sshsession \<Rightarrow> sshsession res" where
  "encrypt_packet env ses =
     bindE (buf_setpos (ses_writepayload ses) 0) (\<lambda>wp.
     bindE (buf_getbyte wp) (\<lambda>(packet_type, wp).
     bindE (buf_setpos wp 0) (\<lambda>wp.
     let ses = ses\<lparr>ses_writepayload := wp\<rparr> in
     if \<not> ses_dataallowed ses \<and> \<not> packet_is_okay_kex packet_type then enqueue_reply_packet ses
     else
       bindE (trans_keys ses) (\<lambda>kd.
       bindE (nn (kd_algo_crypt kd)) (\<lambda>algo_crypt.
       bindE (nn (kd_algo_mac kd)) (\<lambda>algo_mac.
       bindE (nn (kd_crypt_mode kd)) (\<lambda>crypt_mode.
       let blocksize = dc_blocksize algo_crypt; mac_size = dh_hashsize algo_mac in
       bindE (fill_packet env ses kd crypt_mode blocksize mac_size wp) (\<lambda>(writebuf, wp, kd).
       let ses = ses\<lparr>ses_writepayload := wp\<rparr> in
       bindE (encrypt_body env ses kd crypt_mode mac_size writebuf) (\<lambda>(writebuf, st).
       let ses = set_trans_keys (kd\<lparr>kd_cipher_state := st\<rparr>) ses;
           ses = set_kexstate (\<lambda>k. k\<lparr>kx_datatrans := kx_datatrans k + b_len writebuf\<rparr>) ses in
       bindE (writebuf_enqueue writebuf ses) (\<lambda>ses.
       let now = ce_now env;
           ses = ses\<lparr>ses_transseq := ses_transseq ses + 1, ses_last_packet_time_any_sent := now\<rparr> in
       returnE (if packet_type \<noteq> SSH_MSG_REQUEST_FAILURE \<and> packet_type \<noteq> SSH_MSG_UNIMPLEMENTED
                   \<and> packet_type \<noteq> SSH_MSG_IGNORE
                then ses\<lparr>ses_last_packet_time_idle := now\<rparr> else ses)))))))))))"

text \<open>
  The queue is walked from its head; each payload goes out through \<open>encrypt_packet\<close>.
\<close>

fun flush_replies :: "env \<Rightarrow> buffer list \<Rightarrow> sshsession \<Rightarrow> sshsession res" where
  "flush_replies env [] ses = returnE ses"
| "flush_replies env (item # rest) ses =
     bindE (buf_putbytes (ses_writepayload ses) (b_data item) (b_len item)) (\<lambda>wp.
     bindE (encrypt_packet env (ses\<lparr>ses_writepayload := wp\<rparr>)) (\<lambda>ses.
     flush_replies env rest ses))"

definition maybe_flush_reply_queue :: "env \<Rightarrow> sshsession \<Rightarrow> sshsession res" where
  "maybe_flush_reply_queue env ses =
     (if \<not> ses_dataallowed ses then returnE ses
      else bindE (flush_replies env (ses_reply_queue ses) ses) (\<lambda>ses.
           returnE (ses\<lparr>ses_reply_queue := []\<rparr>)))"

subsection \<open>The queue of encrypted packets\<close>

text \<open>
  The vectors handed to \<open>writev\<close>: the unsent rest of the first \<open>iov_count\<close> packets.
  \<open>IOV_MAX\<close> is the system's limit.
\<close>

fun iovecs :: "nat \<Rightarrow> buffer list \<Rightarrow> byte list list res" where
  "iovecs 0 q = returnE []"
| "iovecs (Suc n) [] = Inl Mem_fault"
| "iovecs (Suc n) (writebuf # q) =
     (let len = sint (b_len writebuf - b_pos writebuf) in
      bindE (dropbear_assert (len > 0) ''len > 0'') (\<lambda>_.
      bindE (buf_getptr writebuf (of_int len)) (\<lambda>p.
      bindE (mem_read (b_data writebuf) p (nat len)) (\<lambda>v.
      bindE (iovecs n q) (\<lambda>vs. returnE (v # vs))))))"

definition packet_queue_to_iovec :: "nat \<Rightarrow> buffer list \<Rightarrow> nat \<Rightarrow> byte list list res" where
  "packet_queue_to_iovec IOV_MAX queue iov_count = iovecs (min (min (length queue) IOV_MAX) iov_count) queue"

fun packet_queue_consume :: "buffer list \<Rightarrow> nat \<Rightarrow> buffer list res" where
  "packet_queue_consume [] nwritten =
     (if nwritten > 0 then Inl (Assert_fail ''!isempty(queue)'') else returnE [])"
| "packet_queue_consume (writebuf # q) nwritten =
     (if nwritten > 0 then
        let len = unat (b_len writebuf - b_pos writebuf) in
        if len > nwritten then
          bindE (buf_incrpos writebuf (of_nat nwritten)) (\<lambda>writebuf. returnE (writebuf # q))
        else packet_queue_consume q (nwritten - len)
      else returnE (writebuf # q))"

definition write_packet :: "nat \<Rightarrow> io_write \<Rightarrow> sshsession \<Rightarrow> sshsession res" where
  "write_packet IOV_MAX wr ses =
     bindE (dropbear_assert (ses_writequeue ses \<noteq> []) ''!isempty(&ses.writequeue)'') (\<lambda>_.
     bindE (packet_queue_to_iovec IOV_MAX (ses_writequeue ses) 50) (\<lambda>iov.
     case wr of
       Wr_again \<Rightarrow> returnE ses
     | Wr_error \<Rightarrow> dropbear_exit ''Error writing''
     | Wr nwritten \<Rightarrow>
         bindE (packet_queue_consume (ses_writequeue ses) nwritten) (\<lambda>q.
         let ses = ses\<lparr>ses_writequeue := q, ses_writequeue_len := ses_writequeue_len ses - of_nat nwritten\<rparr> in
         if nwritten = 0 then remoteclosed ses else returnE ses)))"

end
