(* ===== verification/Session_Init.thy ===== *)
theory Session_Init
  imports Packet
begin

text \<open>
  The start of a session: the null cipher and MAC of \<open>src/src/common-algo.c\<close> that are in
  use until the first key exchange, the cipher modes of that file and \<open>chachapoly.c\<close> a
  key exchange can put in their place, and \<open>common_session_init\<close> of
  \<open>src/src/common-session.c\<close>.
\<close>

definition void_cipher :: "byte list \<Rightarrow> cipher_state \<Rightarrow> (byte list \<times> cipher_state) option" where
  "void_cipher input cipher_state = Some (input, cipher_state)"

definition void_start :: "int \<Rightarrow> byte list \<Rightarrow> byte list \<Rightarrow> nat \<Rightarrow> nat \<Rightarrow> cipher_state \<Rightarrow> cipher_state option" where
  "void_start cipher IV key keylen num_rounds cipher_state = Some cipher_state"

definition dropbear_nocipher :: dropbear_cipher where
  "dropbear_nocipher = \<lparr>dc_cipherdesc = None, dc_keysize = 16, dc_blocksize = 8\<rparr>"

definition dropbear_mode_none :: dropbear_cipher_mode where
  "dropbear_mode_none = \<lparr>cm_start = void_start, cm_encrypt = void_cipher, cm_decrypt = void_cipher,
     cm_aead_crypt = None, cm_aead_getlength = (\<lambda>_ _ _. None), cm_aead_mac = None\<rparr>"

text \<open>
  Counter and chaining mode for a table \<open>cd\<close> of registered ciphers; a state of another
  member of the union cannot occur there.
\<close>

definition dropbear_big_endian_ctr_start :: "cipher_table \<Rightarrow> int \<Rightarrow> byte list \<Rightarrow> byte list \<Rightarrow> nat \<Rightarrow> nat
    \<Rightarrow> cipher_state \<Rightarrow> cipher_state option" where
  "dropbear_big_endian_ctr_start cd cipher IV key keylen num_rounds st =
     map_option CS_ctr (ctr_start cd cipher IV key keylen num_rounds CTR_COUNTER_BIG_ENDIAN)"

definition on_ctr :: "(symmetric_CTR \<Rightarrow> (byte list \<times> symmetric_CTR) option) \<Rightarrow> cipher_state \<Rightarrow> (byte list \<times> cipher_state) option" where
  "on_ctr f st = (case st of CS_ctr ctr \<Rightarrow> map_option (\<lambda>(y, ctr). (y, CS_ctr ctr)) (f ctr) | _ \<Rightarrow> None)"

definition dropbear_mode_ctr :: "cipher_table \<Rightarrow> dropbear_cipher_mode" where
  "dropbear_mode_ctr cd = \<lparr>cm_start = dropbear_big_endian_ctr_start cd,
     cm_encrypt = (\<lambda>x. on_ctr (ctr_encrypt cd x)), cm_decrypt = (\<lambda>x. on_ctr (ctr_decrypt cd x)),
     cm_aead_crypt = None, cm_aead_getlength = (\<lambda>_ _ _. None), cm_aead_mac = None\<rparr>"

definition on_cbc :: "(symmetric_CBC \<Rightarrow> (byte list \<times> symmetric_CBC) option) \<Rightarrow> cipher_state \<Rightarrow> (byte list \<times> cipher_state) option" where
  "on_cbc f st = (case st of CS_cbc cbc \<Rightarrow> map_option (\<lambda>(y, cbc). (y, CS_cbc cbc)) (f cbc) | _ \<Rightarrow> None)"

definition dropbear_mode_cbc :: "cipher_table \<Rightarrow> dropbear_cipher_mode" where
  "dropbear_mode_cbc cd = \<lparr>cm_start = (\<lambda>cipher IV key keylen num_rounds st. map_option CS_cbc (cbc_start cd cipher IV key keylen num_rounds)),
     cm_encrypt = (\<lambda>x. on_cbc (cbc_encrypt cd x)), cm_decrypt = (\<lambda>x. on_cbc (cbc_decrypt cd x)),
     cm_aead_crypt = None, cm_aead_getlength = (\<lambda>_ _ _. None), cm_aead_mac = None\<rparr>"

text \<open>ChaCha20-Poly1305 (\<open>chachapoly.c\<close>): its tables, and its start on a fresh (zero) union.\<close>

definition zero_chacha :: chacha_state where
  "zero_chacha = \<lparr>cs_input = replicate 16 0, cs_kstream = replicate 64 0, cs_ksleft = 0, cs_ivlen = 0, cs_rounds = 0\<rparr>"

definition chachapoly_of :: "cipher_state \<Rightarrow> chachapoly_state" where
  "chachapoly_of st = (case st of CS_chachapoly s \<Rightarrow> s | _ \<Rightarrow> \<lparr>cp_chacha = zero_chacha, cp_header = zero_chacha\<rparr>)"

definition dropbear_chachapoly_mac :: dropbear_hash where
  "dropbear_chachapoly_mac = \<lparr>dh_hash_desc = None, dh_keysize = POLY1305_KEY_LEN, dh_hashsize = of_nat POLY1305_TAG_LEN\<rparr>"

definition dropbear_chachapoly :: dropbear_cipher where
  "dropbear_chachapoly = \<lparr>dc_cipherdesc = Some None, dc_keysize = CHACHA20_KEY_LEN * 2, dc_blocksize = CHACHA20_BLOCKSIZE\<rparr>"

definition dropbear_mode_chachapoly :: dropbear_cipher_mode where
  "dropbear_mode_chachapoly = \<lparr>
     cm_start = (\<lambda>cipher IV key keylen num_rounds st.
       map_option CS_chachapoly (dropbear_chachapoly_start (take keylen key) (chachapoly_of st))),
     cm_encrypt = (\<lambda>_ _. None), cm_decrypt = (\<lambda>_ _. None),
     cm_aead_crypt = Some (\<lambda>seq inp len taglen st dir. case st of
         CS_chachapoly s \<Rightarrow> map_option (\<lambda>(y, s). (y, CS_chachapoly s)) (dropbear_chachapoly_crypt seq inp len taglen s dir)
       | _ \<Rightarrow> None),
     cm_aead_getlength = (\<lambda>seq inp st. case st of
         CS_chachapoly s \<Rightarrow> map_option (\<lambda>(n, s). (n, CS_chachapoly s)) (dropbear_chachapoly_getlength seq inp s)
       | _ \<Rightarrow> None),
     cm_aead_mac = Some dropbear_chachapoly_mac\<rparr>"

definition dropbear_nohash :: dropbear_hash where
  "dropbear_nohash = \<lparr>dh_hash_desc = None, dh_keysize = 16, dh_hashsize = 0\<rparr>"

text \<open>The memory of a \<open>key_context_directional\<close> from \<open>m_malloc\<close> is zero.\<close>

definition zero_keys_dir :: key_context_directional where
  "zero_keys_dir = \<lparr>kd_algo_crypt = None, kd_crypt_mode = None, kd_algo_mac = None, kd_hash_index = 0,
     kd_algo_comp = 0, kd_zstream = None, kd_cipher_state = CS_zero, kd_mackey = replicate MAX_MAC_LEN 0, kd_valid = False\<rparr>"

definition zero_keys :: key_context where
  "zero_keys = \<lparr>kc_recv = zero_keys_dir, kc_trans = zero_keys_dir, kc_algo_kex = None, kc_algo_hostkey = 0,
     kc_algo_signature = 0, kc_allow_compress = False\<rparr>"

definition zero_kexstate :: KEXState where
  "zero_kexstate = \<lparr>kx_sentkexinit = False, kx_recvkexinit = False, kx_them_firstfollows = False,
     kx_sentnewkeys = False, kx_recvnewkeys = False, kx_donefirstkex = False, kx_donesecondkex = False,
     kx_recvfirstnewkeys = False, kx_our_first_follows_matches = False, kx_strict_kex = False,
     kx_lastkextime = 0, kx_needrekey = False, kx_datatrans = 0, kx_datarecv = 0\<rparr>"

definition zero_authstate :: AuthState where
  "zero_authstate = \<lparr>as_username = None, as_authtypes = 0, as_failcount = 0, as_authdone = False,
     as_perm_warn = False, as_checkusername_failed = False, as_serv_pubkey_query_count = 0, as_pw_uid = 0,
     as_pw_gid = 0, as_pw_dir = None, as_pw_shell = None, as_pw_name = None, as_pw_passwd = None,
     as_pubkey_options = None\<rparr>"

definition init_dir :: key_context_directional where
  "init_dir = zero_keys_dir\<lparr>kd_algo_crypt := Some dropbear_nocipher, kd_crypt_mode := Some dropbear_mode_none,
     kd_algo_mac := Some dropbear_nohash, kd_algo_comp := DROPBEAR_COMP_NONE, kd_zstream := None\<rparr>"

text \<open>Signature types, as numbered with the default options, and the table of them.\<close>

definition DROPBEAR_SIGNKEY_RSA :: byte where "DROPBEAR_SIGNKEY_RSA = 0"
definition DROPBEAR_SIGNATURE_ECDSA_NISTP256 :: byte where "DROPBEAR_SIGNATURE_ECDSA_NISTP256 = 1"
definition DROPBEAR_SIGNATURE_ECDSA_NISTP384 :: byte where "DROPBEAR_SIGNATURE_ECDSA_NISTP384 = 2"
definition DROPBEAR_SIGNATURE_ECDSA_NISTP521 :: byte where "DROPBEAR_SIGNATURE_ECDSA_NISTP521 = 3"
definition DROPBEAR_SIGNATURE_SK_ECDSA_NISTP256 :: byte where "DROPBEAR_SIGNATURE_SK_ECDSA_NISTP256 = 4"
definition DROPBEAR_SIGNATURE_ED25519 :: byte where "DROPBEAR_SIGNATURE_ED25519 = 5"
definition DROPBEAR_SIGNATURE_SK_ED25519 :: byte where "DROPBEAR_SIGNATURE_SK_ED25519 = 6"
definition DROPBEAR_SIGNKEY_NUM_NAMED :: byte where "DROPBEAR_SIGNKEY_NUM_NAMED = 7"
definition DROPBEAR_SIGNATURE_RSA_SHA256 :: byte where "DROPBEAR_SIGNATURE_RSA_SHA256 = 101"

definition sigalg :: "string \<Rightarrow> byte \<Rightarrow> (unit, unit) algo_type" where
  "sigalg name val = \<lparr>al_name = str name, al_val = val, al_data = None, al_usable = True, al_mode = None\<rparr>"

definition sigalgs :: "(unit, unit) algo_type list" where
  "sigalgs = [sigalg ''ssh-ed25519'' DROPBEAR_SIGNATURE_ED25519,
     sigalg ''sk-ssh-ed25519@openssh.com'' DROPBEAR_SIGNATURE_SK_ED25519,
     sigalg ''ecdsa-sha2-nistp256'' DROPBEAR_SIGNATURE_ECDSA_NISTP256,
     sigalg ''ecdsa-sha2-nistp384'' DROPBEAR_SIGNATURE_ECDSA_NISTP384,
     sigalg ''ecdsa-sha2-nistp521'' DROPBEAR_SIGNATURE_ECDSA_NISTP521,
     sigalg ''sk-ecdsa-sha2-nistp256@openssh.com'' DROPBEAR_SIGNATURE_SK_ECDSA_NISTP256,
     sigalg ''rsa-sha2-256'' DROPBEAR_SIGNATURE_RSA_SHA256]"

text \<open>
  The session is a zeroed global; sockets and the signal pipe are left out.  The
  fields no statement of the function names keep the zero they start with.
\<close>

definition common_session_init :: "bool \<Rightarrow> int \<Rightarrow> sshsession res" where
  "common_session_init isserver now =
     bindE (buf_new TRANS_MAX_PAYLOAD_LEN) (\<lambda>writepayload.
     returnE \<lparr>ses_isserver = isserver, ses_connect_time = now, ses_remoteident = None,
       ses_writepayload = writepayload, ses_writequeue = [], ses_writequeue_len = 0,
       ses_readbuf = None, ses_payload = None, ses_payload_beginning = 0, ses_transseq = 0, ses_recvseq = 0,
       ses_dataallowed = True, ses_requirenext = SSH_MSG_KEXINIT, ses_ignorenext = False, ses_lastpacket = 0,
       ses_last_packet_time_keepalive_sent = 0, ses_last_packet_time_keepalive_recv = now,
       ses_last_packet_time_any_sent = 0, ses_last_packet_time_idle = now,
       ses_kexstate = zero_kexstate,
       ses_keys = Some (zero_keys\<lparr>kc_recv := init_dir, kc_trans := init_dir, kc_algo_kex := None,
                          kc_algo_hostkey := - 1\<rparr>),
       ses_newkeys = None, ses_session_id = None, ses_dh_K = None, ses_dh_K_bytes = None, ses_hash = None,
       ses_kexhashbuf = None, ses_transkexinit = None, ses_compress_algos_c2s = [], ses_compress_algos_s2c = [],
       ses_sigalgs = sigalgs, ses_allow_ext_info = False, ses_reply_queue = [], ses_send_kex_first_guess = False,
       ses_authstate = zero_authstate, ses_channels = [], ses_chancount = 0, ses_chantypes = []\<rparr>)"

end
