(* ===== verification/Safe_Rules.thy ===== *)
theory Safe_Rules
  imports Session_State
begin

text \<open>
  Rules that take a handler apart call by call: each gives what a buffer
  operation may assume and what the rest of the handler may rely on.  They are
  the introduction rules of \<open>safe_intros\<close>.
\<close>

lemma safe_nn [safe_intros]: "p = Some x \<Longrightarrow> Q x \<Longrightarrow> safe (nn p) Q"
  by simp

lemma safe_exit [safe_intros]: "safe (Inl (Exit msg)) Q" "safe (Inl (Close msg)) Q"
  by simp_all

lemma safe_return [safe_intros]: "Q x \<Longrightarrow> safe (Inr x) Q"
  by simp

lemma safe_remoteclosed [safe_intros]: "safe (remoteclosed ses) Q"
  by (simp add: remoteclosed_def)

lemma safe_getptr [safe_intros]:
  "wf_buf b \<Longrightarrow> (unat l \<le> length (unread b) \<Longrightarrow> unat (b_pos b) + unat l \<le> length (b_data b) \<Longrightarrow> Q (unat (b_pos b))) \<Longrightarrow>
     safe (buf_getptr b l) Q"
  using wf_bufD [of b] by (simp add: buf_getptr_eq length_unread)

lemma safe_getwriteptr [safe_intros]:
  "wf_buf b \<Longrightarrow> (unat l \<le> room b \<Longrightarrow> unat (b_pos b) + unat l \<le> length (b_data b) \<Longrightarrow> Q (unat (b_pos b))) \<Longrightarrow>
     safe (buf_getwriteptr b l) Q"
  using wf_bufD [of b] by (simp add: buf_getwriteptr_eq room_def)

lemma safe_setpos [safe_intros]:
  "wf_buf b \<Longrightarrow> (unat p \<le> unat (b_len b) \<Longrightarrow> wf_buf (b\<lparr>b_pos := p\<rparr>) \<Longrightarrow> Q (b\<lparr>b_pos := p\<rparr>)) \<Longrightarrow>
     safe (buf_setpos b p) Q"
  by (simp add: buf_setpos_eq wf_setpos)

lemma safe_setlen [safe_intros]:
  assumes "wf_buf b"
    and "unat l \<le> unat (b_size b) \<Longrightarrow> wf_buf (b\<lparr>b_len := l, b_pos := min (b_pos b) l\<rparr>) \<Longrightarrow>
      Q (b\<lparr>b_len := l, b_pos := min (b_pos b) l\<rparr>)"
  shows "safe (buf_setlen b l) Q"
  using safe_buf_setlen [OF assms(1), of l] assms(2) by (auto simp: buf_setlen_def u32_nat)

lemma safe_incrpos [safe_intros]:
  "wf_buf b \<Longrightarrow> (unat n \<le> length (unread b) \<Longrightarrow> wf_buf (advance b (unat n)) \<Longrightarrow> Q (advance b (unat n))) \<Longrightarrow>
     safe (buf_incrpos b n) Q"
  by (simp add: buf_incrpos_eq wf_advance)

lemma safe_incrlen [safe_intros]:
  assumes "wf_buf b"
    and "unat n \<le> unat (b_size b) - unat (b_len b) \<Longrightarrow> wf_buf (b\<lparr>b_len := b_len b + n\<rparr>) \<Longrightarrow>
      unat (b_len b + n) = unat (b_len b) + unat n \<Longrightarrow> Q (b\<lparr>b_len := b_len b + n\<rparr>)"
  shows "safe (buf_incrlen b n) Q"
proof (cases "n > BUF_MAX_INCR \<or> b_len b + n > b_size b")
  case True
  then show ?thesis by (simp add: buf_incrlen_def)
next
  case False
  note wf = wf_bufD [OF assms(1)]
  have n: "unat n \<le> unat (b_size b) - unat (b_len b)"
    using False guard_exact [of "b_len b" "b_size b" n] wf by auto
  moreover have "unat (b_len b + n) = unat (b_len b) + unat n"
    using n wf by (intro unat_u32_add) linarith
  moreover have "wf_buf (b\<lparr>b_len := b_len b + n\<rparr>)"
    using safe_buf_incrlen [OF assms(1), of n] False by (auto simp: buf_incrlen_def)
  ultimately show ?thesis
    using False assms(2) by (auto simp: buf_incrlen_def)
qed

lemma safe_new [safe_intros]:
  "(unat sz \<le> 1000000000 \<Longrightarrow> Q \<lparr>b_data = replicate (unat sz) 0, b_len = 0, b_pos = 0, b_size = sz\<rparr>) \<Longrightarrow>
     safe (buf_new sz) Q"
  by (simp add: buf_new_eq)

lemma wf_new: "unat sz \<le> 1000000000 \<Longrightarrow> wf_buf \<lparr>b_data = replicate (unat sz) 0, b_len = 0, b_pos = 0, b_size = sz\<rparr>"
  by (simp add: wf_buf_def u32_nat)

lemma safe_resize [safe_intros]:
  assumes "wf_buf b" "\<And>b'. wf_buf b' \<Longrightarrow> b_size b' = n \<Longrightarrow> b_len b' = min n (b_len b) \<Longrightarrow>
      b_pos b' = min n (b_pos b) \<Longrightarrow> Q b'"
  shows "safe (buf_resize mem b n) Q"
  using safe_buf_resize [OF assms(1), of mem n] assms(2) by (auto simp: buf_resize_def)

lemma safe_getbyte [safe_intros]:
  assumes "wf_buf b" "\<And>x xs. unread b = x # xs \<Longrightarrow> wf_buf (advance b 1) \<Longrightarrow> Q (x, advance b 1)"
  shows "safe (buf_getbyte b) Q"
proof (cases "unread b")
  case (Cons x xs)
  then have "wf_buf (advance b 1)" using assms(1) by (simp add: wf_advance)
  then show ?thesis using assms Cons by (simp add: buf_getbyte_eq)
qed (simp add: buf_getbyte_eq assms)

lemma safe_getint [safe_intros]:
  assumes "wf_buf b" "\<And>v rest. unread b = STORE32H v @ rest \<Longrightarrow> wf_buf (advance b 4) \<Longrightarrow> Q (v, advance b 4)"
  shows "safe (buf_getint b) Q"
  using assms(1)
proof (cases rule: string_cases)
  case 1
  then show ?thesis by (simp add: buf_getint_short assms(1))
next
  case (2 v rest)
  then have "wf_buf (advance b 4)" using assms(1) by (simp add: wf_advance)
  then show ?thesis using assms 2 by (simp add: buf_getint_eq)
qed

lemma safe_mem_read [safe_intros]:
  "off + n \<le> length m \<Longrightarrow> (\<And>bs. length bs = n \<Longrightarrow> bs = take n (drop off m) \<Longrightarrow> Q bs) \<Longrightarrow> safe (mem_read m off n) Q"
  by (simp add: mem_read_def)

lemma safe_mem_write [safe_intros]:
  "off + length bs \<le> length m \<Longrightarrow>
     (\<And>d. length d = length m \<Longrightarrow> d = take off m @ bs @ drop (off + length bs) m \<Longrightarrow> Q d) \<Longrightarrow> safe (mem_write m off bs) Q"
  by (simp add: mem_write_def)

lemma safe_umod [safe_intros]: "b \<noteq> 0 \<Longrightarrow> Q (a mod b) \<Longrightarrow> safe (umod a b) Q"
  by (simp add: umod_def)

lemma wf_data: "wf_buf b \<Longrightarrow> length d = length (b_data b) \<Longrightarrow> wf_buf (b\<lparr>b_data := d\<rparr>)"
  by (simp add: wf_buf_def)

lemma pos_unread: "wf_buf b \<Longrightarrow> n \<le> length (unread b) \<Longrightarrow> unat (b_pos b) + n \<le> length (b_data b)"
  using wf_bufD [of b] by (simp add: length_unread)

lemma pos_room: "wf_buf b \<Longrightarrow> n \<le> room b \<Longrightarrow> unat (b_pos b) + n \<le> length (b_data b)"
  using wf_bufD [of b] by (simp add: room_def)

lemma data_views [simp]: "length d = length (b_data b) \<Longrightarrow> length (unread (b\<lparr>b_data := d\<rparr>)) = length (unread b)"
  "room (b\<lparr>b_data := d\<rparr>) = room b"
  by (simp_all add: unread_def room_def)

end
