(* ===== verification/Packet_Safety.thy ===== *)
theory Packet_Safety
  imports Session_Init Safe_Rules
begin

text \<open>
  Properties of the packet layer that hold for any input: the padding rule, the MAC
  comparison, that no sequence of bytes from the network makes reading a packet
  fault, and that sending one never does.
\<close>

section \<open>Constant time comparison\<close>

lemma safe_memcmp [safe_intros]:
  "n \<le> length a \<Longrightarrow> n \<le> length b \<Longrightarrow> (\<And>c. c = 0 \<longleftrightarrow> take n a = take n b \<Longrightarrow> Q c) \<Longrightarrow>
     safe (constant_time_memcmp a b n) Q"
  using constant_time_memcmp_eq [of n a b] by auto

section \<open>Padding\<close>

lemma unat_byte_add: "unat a + unat b < 256 \<Longrightarrow> unat ((a::byte) + b) = unat a + unat b"
  by (simp add: unat_word_ariths)

lemma unat_ucast_small: "unat x < 256 \<Longrightarrow> unat (ucast (x::u32) :: byte) = unat x"
  by (simp add: unsigned_ucast_eq take_bit_nat_eq_self)

text \<open>The natural numbers behind \<open>padding_len\<close>.\<close>

definition pad_nat :: "nat \<Rightarrow> nat \<Rightarrow> nat \<Rightarrow> nat" where
  "pad_nat bs wlen len =
     (let p = bs - len mod bs; p = (if p < 4 then p + bs else p) in
      if wlen + p < 16 then p + bs else p)"

lemma pad_nat_props:
  assumes "8 \<le> bs" "6 \<le> wlen"
  shows "4 \<le> pad_nat bs wlen len" "pad_nat bs wlen len \<le> bs + 9" "16 \<le> wlen + pad_nat bs wlen len"
    "(len + pad_nat bs wlen len) mod bs = 0"
proof -
  define r where "r = len mod bs"
  have m: "len mod bs < bs" and r: "r < bs" using assms by (simp_all add: r_def)
  show "4 \<le> pad_nat bs wlen len" "pad_nat bs wlen len \<le> bs + 9" "16 \<le> wlen + pad_nat bs wlen len"
    using assms r by (auto simp: pad_nat_def Let_def simp flip: r_def)
  have d: "bs dvd len + (bs - len mod bs)"
    using m by (metis (no_types) add.commute dvd_add_right_iff dvd_refl le_add_diff_inverse less_imp_le
        mod_0_imp_dvd mod_add_left_eq mod_self)
  then have "bs dvd len + (bs - len mod bs) + bs" "bs dvd len + (bs - len mod bs) + bs + bs"
    by simp_all
  with d show "(len + pad_nat bs wlen len) mod bs = 0"
    by (auto simp: pad_nat_def Let_def add.assoc)
qed

lemma padding_len_nat:
  assumes "8 \<le> unat bs" "unat bs \<le> 128" "6 \<le> unat wlen" "unat wlen \<le> 1000000000"
  shows "\<exists>p. padding_len bs wlen len = Inr p \<and> unat p = pad_nat (unat bs) (unat wlen) (unat len)"
proof -
  let ?b = "ucast bs :: u32"
  have ub: "unat ?b = unat bs" by simp
  have nz: "?b \<noteq> 0" using assms ub by (metis not_numeral_le_zero unat_0)
  have m: "unat (len mod ?b) = unat len mod unat bs" by (simp add: unat_mod)
  have ml: "unat len mod unat bs < unat bs" using assms by simp
  have s: "unat (?b - len mod ?b) = unat bs - unat len mod unat bs"
    using m ml by (subst unat_u32_sub) simp_all
  define p1 where "p1 = (ucast (?b - len mod ?b) :: byte)"
  have p1: "unat p1 = unat bs - unat len mod unat bs"
    unfolding p1_def using s assms by (subst unat_ucast_small) simp_all
  define p2 where "p2 = (if p1 < 4 then p1 + bs else p1)"
  have c4: "p1 < 4 \<longleftrightarrow> unat p1 < 4" by (simp add: word_less_nat_alt)
  have p2: "unat p2 = (if unat p1 < 4 then unat p1 + unat bs else unat p1)" and p2b: "unat p2 \<le> 131"
    using assms p1 c4 unat_byte_add [of p1 bs] by (auto simp: p2_def)
  have c16: "wlen + ucast p2 < MIN_PACKET_LEN \<longleftrightarrow> unat wlen + unat p2 < 16"
    using assms p2b unat_u32_add [of wlen "ucast p2"] by (simp add: u32_nat MIN_PACKET_LEN_def)
  define p3 where "p3 = (if wlen + ucast p2 < MIN_PACKET_LEN then p2 + bs else p2)"
  have p3: "unat p3 = (if unat wlen + unat p2 < 16 then unat p2 + unat bs else unat p2)"
    using assms c16 unat_byte_add [of p2 bs] by (auto simp: p3_def)
  have "padding_len bs wlen len = Inr p3"
    using nz by (simp add: padding_len_def umod_def Let_def p3_def p2_def p1_def)
  moreover have "unat p3 = pad_nat (unat bs) (unat wlen) (unat len)"
    unfolding p3 p2 p1 pad_nat_def Let_def by (simp split: if_splits)
  ultimately show ?thesis by blast
qed

text \<open>
  C8. Padding.  For block sizes of 8 to 128 bytes, the padding \<open>encrypt_packet\<close> chooses is at
  least 4 bytes (RFC 4253), makes the encrypted part a multiple of the block size and the
  packet at least \<open>MIN_PACKET_LEN\<close> bytes, and its length fits the byte it is sent in
  without wrapping.
\<close>

theorem padding_rule:
  assumes "8 \<le> unat bs" "unat bs \<le> 128" "6 \<le> unat wlen" "unat wlen \<le> 1000000000"
  shows "\<exists>p. padding_len bs wlen len = Inr p \<and> 4 \<le> unat p \<and> unat p \<le> unat bs + 9
     \<and> (unat len + unat p) mod unat bs = 0 \<and> 16 \<le> unat wlen + unat p"
proof -
  obtain p where "padding_len bs wlen len = Inr p" "unat p = pad_nat (unat bs) (unat wlen) (unat len)"
    using padding_len_nat [OF assms] by blast
  then show ?thesis
    using pad_nat_props [OF assms(1,3), of "unat len"] by simp
qed

theorem padding_rule_witness:
  "\<exists>p. padding_len 16 19 19 = Inr p \<and> unat p = 13"
proof -
  have "\<exists>p. padding_len 16 19 19 = Inr p \<and> 4 \<le> unat p \<and> unat p \<le> unat (16::byte) + 9
     \<and> (unat (19::u32) + unat p) mod unat (16::byte) = 0 \<and> 16 \<le> unat (19::u32) + unat p"
    by (rule padding_rule) simp_all
  then obtain p where p: "padding_len 16 19 19 = Inr p" by blast
  have "padding_len 16 19 19 = Inr 13"
    by (simp add: padding_len_def umod_def MIN_PACKET_LEN_def)
  with p show ?thesis by simp
qed

section \<open>Reading never faults\<close>

text \<open>
  What the packet code expects of its ciphers and MACs: outputs have the lengths the
  calls ask for, and a MAC is as long as the table says.
\<close>

definition mode_ok :: "dropbear_cipher_mode \<Rightarrow> bool" where
  "mode_ok md \<longleftrightarrow>
     (\<forall>x st y st'. cm_decrypt md x st = Some (y, st') \<longrightarrow> length y = length x)
   \<and> (\<forall>x st y st'. cm_encrypt md x st = Some (y, st') \<longrightarrow> length y = length x)
   \<and> (\<forall>f seq x n t st y st'. cm_aead_crypt md = Some f \<longrightarrow> f seq x n t st LTC_DECRYPT = Some (y, st') \<longrightarrow> n + t \<le> length x \<longrightarrow> length y = n)
   \<and> (\<forall>f seq x n t st y st'. cm_aead_crypt md = Some f \<longrightarrow> f seq x n t st LTC_ENCRYPT = Some (y, st') \<longrightarrow> n \<le> length x \<longrightarrow> length y = n + t)"

lemma mode_okD:
  "mode_ok md \<Longrightarrow> cm_decrypt md x st = Some (y, st') \<Longrightarrow> length y = length x"
  "mode_ok md \<Longrightarrow> cm_encrypt md x st = Some (y, st') \<Longrightarrow> length y = length x"
  "mode_ok md \<Longrightarrow> cm_aead_crypt md = Some f \<Longrightarrow> f seq x n t st LTC_DECRYPT = Some (y, st') \<Longrightarrow> n + t \<le> length x \<Longrightarrow> length y = n"
  "mode_ok md \<Longrightarrow> cm_aead_crypt md = Some f \<Longrightarrow> f seq x n t st LTC_ENCRYPT = Some (y, st') \<Longrightarrow> n \<le> length x \<Longrightarrow> length y = n + t"
  unfolding mode_ok_def by metis+

definition wf_dir :: "env \<Rightarrow> key_context_directional \<Rightarrow> bool" where
  "wf_dir env kd \<longleftrightarrow> (\<exists>c m md. kd_algo_crypt kd = Some c \<and> kd_algo_mac kd = Some m \<and> kd_crypt_mode kd = Some md
     \<and> 8 \<le> unat (dc_blocksize c) \<and> unat (dc_blocksize c) \<le> 128 \<and> unat (dh_hashsize m) \<le> MAX_MAC_LEN
     \<and> dh_keysize m \<le> length (kd_mackey kd) \<and> mode_ok md
     \<and> (\<forall>msg mac. ce_hmac env (kd_hash_index kd) (take (dh_keysize m) (kd_mackey kd)) msg = Some mac \<longrightarrow>
          unat (dh_hashsize m) \<le> length mac)
     \<and> (kd_algo_comp kd = DROPBEAR_COMP_ZLIB \<or> kd_algo_comp kd = DROPBEAR_COMP_ZLIB_DELAY \<longrightarrow> kd_zstream kd \<noteq> None))"

lemma wf_dirE:
  assumes "wf_dir env kd"
  obtains c m md where "kd_algo_crypt kd = Some c" "kd_algo_mac kd = Some m" "kd_crypt_mode kd = Some md"
    "8 \<le> unat (dc_blocksize c)" "unat (dc_blocksize c) \<le> 128" "unat (dh_hashsize m) \<le> MAX_MAC_LEN"
    "dh_keysize m \<le> length (kd_mackey kd)" "mode_ok md"
    "\<And>msg mac. ce_hmac env (kd_hash_index kd) (take (dh_keysize m) (kd_mackey kd)) msg = Some mac \<Longrightarrow>
       unat (dh_hashsize m) \<le> length mac"
  using assms unfolding wf_dir_def by blast

lemma wf_dir_state [simp]: "wf_dir env (kd\<lparr>kd_cipher_state := st\<rparr>) = wf_dir env kd"
  by (simp add: wf_dir_def)

lemma wf_dir_zstream: "wf_dir env kd \<Longrightarrow> wf_dir env (kd\<lparr>kd_zstream := Some z\<rparr>)"
  by (auto simp: wf_dir_def)

text \<open>
  The parts of the kernel and of zlib: \<open>read\<close> delivers no more than was asked for, zlib
  fills no more than its space, and \<open>deflate\<close> consumes its whole input when the space
  exceeds it by \<open>ZLIB_COMPRESS_EXPANSION\<close>.
\<close>

definition reader_ok :: "reader \<Rightarrow> bool" where
  "reader_ok rd \<longleftrightarrow> (\<forall>n bs. rd n = Rd bs \<longrightarrow> length bs \<le> unat n)"

definition zlib_ok :: "env \<Rightarrow> bool" where
  "zlib_ok env \<longleftrightarrow> (\<forall>z x n ok a out z'. ce_inflate env z x n = (ok, a, out, z') \<longrightarrow> length out \<le> n)
     \<and> (\<forall>z x n ok a out z'. ce_deflate env z x n = (ok, a, out, z') \<longrightarrow> length out \<le> n \<and> a \<le> length x
          \<and> (ok \<and> length x + unat ZLIB_COMPRESS_EXPANSION \<le> n \<longrightarrow> a = 0))"

text \<open>The buffer being read into: part of the first block, or more than that.\<close>

definition readbuf_ok :: "nat \<Rightarrow> buffer option \<Rightarrow> bool" where
  "readbuf_ok bs rb \<longleftrightarrow> (case rb of None \<Rightarrow> True
     | Some b \<Rightarrow> wf_buf b \<and> 128 \<le> unat (b_size b)
         \<and> (unat (b_len b) < bs \<and> b_pos b = b_len b \<or> bs \<le> unat (b_pos b)))"

definition recv_ok :: "env \<Rightarrow> sshsession \<Rightarrow> bool" where
  "recv_ok env ses \<longleftrightarrow> (\<exists>k c. ses_keys ses = Some k \<and> wf_dir env (kc_recv k) \<and> kd_algo_crypt (kc_recv k) = Some c
     \<and> readbuf_ok (unat (dc_blocksize c)) (ses_readbuf ses))"

lemma crypt_in_place_safe:
  assumes "wf_buf b"
    and "\<And>input out st'. f input st = Some (out, st') \<Longrightarrow> length input = unat inlen \<Longrightarrow>
       unat inlen \<le> length (unread b) \<Longrightarrow> unat outlen \<le> room b \<Longrightarrow> length out = unat outlen"
    and "\<And>d st'. unat inlen \<le> length (unread b) \<Longrightarrow> unat outlen \<le> room b \<Longrightarrow> length d = length (b_data b) \<Longrightarrow>
       wf_buf (b\<lparr>b_data := d\<rparr>) \<Longrightarrow> Q (b\<lparr>b_data := d\<rparr>, st')"
  shows "safe (crypt_in_place f err b inlen outlen st) Q"
proof -
  have r: "unat inlen \<le> length (unread b) \<Longrightarrow> unat (b_pos b) + unat inlen \<le> length (b_data b)"
    using pos_unread [OF assms(1)] .
  have w: "unat outlen \<le> room b \<Longrightarrow> unat (b_pos b) + unat outlen \<le> length (b_data b)"
    using pos_room [OF assms(1)] .
  show ?thesis
    unfolding crypt_in_place_def
  proof (intro safe_intros assms(1) r)
    fix bs :: "byte list" assume l: "unat inlen \<le> length (unread b)" "unat outlen \<le> room b" "length bs = unat inlen"
    show "safe (case f bs st of None \<Rightarrow> Inl (Exit err)
        | Some (out, st) \<Rightarrow> bindE (mem_write (b_data b) (unat (b_pos b)) out) (\<lambda>d. Inr (b\<lparr>b_data := d\<rparr>, st))) Q"
    proof (cases "f bs st")
      case (Some os)
      obtain out st' where os: "os = (out, st')" by (cases os)
      have "length out = unat outlen" using assms(2) Some os l by simp
      then show ?thesis
        using Some os w l assms(1,3) by (auto intro!: safe_intros wf_data)
    qed simp
  qed
qed

lemma ucast_le_mac: "unat (h::byte) \<le> MAX_MAC_LEN \<Longrightarrow> unat (ucast h :: u32) \<le> 32"
  by (simp add: MAX_MAC_LEN_def)

lemma first_block_len_safe:
  assumes "wf_dir env kd" "wf_buf rb" "b_pos rb = 0"
    and "\<And>plen len rb' st. wf_buf rb' \<Longrightarrow> b_size rb' = b_size rb \<Longrightarrow> Q (plen, len, rb', st)"
  shows "safe (first_block_len ses kd bs ms rb) Q"
  using assms(1)
proof (rule wf_dirE)
  fix c m md assume kd: "kd_crypt_mode kd = Some md" and ok: "mode_ok md"
  show ?thesis
  proof (cases "cm_aead_crypt md")
    case None
    then show ?thesis
      using kd ok assms(2-4) unfolding first_block_len_def
      by (auto simp: Let_def dest: mode_okD(1) intro!: safe_intros crypt_in_place_safe)
  next
    case (Some f)
    then show ?thesis
      using kd assms(2-4) pos_unread [OF assms(2), of "unat bs"] unfolding first_block_len_def
      by (auto simp: Let_def intro!: safe_intros split: option.split)
  qed
qed

lemma make_mac_safe:
  assumes "wf_dir env kd" "wf_buf b"
    and "\<And>mac b' m. kd_algo_mac kd = Some m \<Longrightarrow> unat (dh_hashsize m) \<le> length mac \<Longrightarrow> wf_buf b' \<Longrightarrow>
       b_data b' = b_data b \<Longrightarrow> b_len b' = b_len b \<Longrightarrow> b_size b' = b_size b \<Longrightarrow> Q (mac, b')"
  shows "safe (make_mac env seqno kd b l) Q"
  using assms(1)
proof (rule wf_dirE)
  fix c m md
  assume kd: "kd_algo_mac kd = Some m" "unat (dh_hashsize m) \<le> MAX_MAC_LEN" "dh_keysize m \<le> length (kd_mackey kd)"
    and mac: "\<And>msg mac. ce_hmac env (kd_hash_index kd) (take (dh_keysize m) (kd_mackey kd)) msg = Some mac \<Longrightarrow>
       unat (dh_hashsize m) \<le> length mac"
  let ?b = "b\<lparr>b_pos := 0\<rparr>"
  have wf: "wf_buf ?b" using assms(2) wf_setpos [of b 0] by simp
  have len: "unat l \<le> length (unread ?b) \<Longrightarrow> unat (b_pos ?b) + unat l \<le> length (b_data b)"
    using pos_unread [OF wf, of "unat l"] by simp
  have q: "ce_hmac env (kd_hash_index kd) (take (dh_keysize m) (kd_mackey kd)) msg = Some mac \<Longrightarrow>
      Q (take MAX_MAC_LEN mac, ?b)" for msg mac
    using mac [of msg mac] kd wf by (intro assms(3)) simp_all
  show ?thesis
    unfolding make_mac_def
    using kd assms(2,3) wf len q
    by (auto simp: mem_read_ok word_gt_0 split: option.split intro!: safe_intros)
qed

lemma checkmac_safe:
  assumes "wf_dir env kd" "wf_buf b"
    and "\<And>r b'. wf_buf b' \<Longrightarrow> b_size b' = b_size b \<Longrightarrow> b_len b' = b_len b \<Longrightarrow> Q (r, b')"
  shows "safe (checkmac env seq kd b) Q"
  using assms(1)
proof (rule wf_dirE)
  fix c m md
  assume kd: "kd_algo_mac kd = Some m" and h: "unat (dh_hashsize m) \<le> MAX_MAC_LEN"
  let ?ms = "ucast (dh_hashsize m) :: u32"
  have d: "unat (dh_hashsize m) \<le> length (b_data b) - unat p"
    if "wf_buf (b'\<lparr>b_pos := p\<rparr>)" "unat (dh_hashsize m) \<le> length (unread (b'\<lparr>b_pos := p\<rparr>))" "b_data b' = b_data b" for b' p
    using pos_unread [OF that(1,2)] that(3) by simp
  show ?thesis
    unfolding checkmac_def Let_def
    using kd assms(2,3) d
    by (auto intro!: safe_intros make_mac_safe [OF assms(1)])
qed

lemma sub_mac_no_wrap:
  assumes "unat (l - m) \<le> 1000000000" "unat (m :: u32) < 256"
  shows "unat (l - m) + unat m \<le> unat l"
proof (cases "m \<le> l")
  case True
  then show ?thesis by (simp add: unat_sub word_le_nat_alt)
next
  case False
  then have "unat (l - m) = unat l + 4294967296 - unat m" by (simp add: unat_sub_if' word_le_nat_alt)
  then show ?thesis using assms by linarith
qed

lemma decrypt_body_safe:
  assumes "wf_dir env kd" "wf_buf b" "unat ms < 256"
    and "\<And>b' st. wf_buf b' \<Longrightarrow> b_size b' = b_size b \<Longrightarrow> b_len b' = b_len b \<Longrightarrow> Q (b', st)"
  shows "safe (decrypt_body env ses kd bs ms b) Q"
  using assms(1)
proof (rule wf_dirE)
  fix c m md
  assume kd: "kd_crypt_mode kd = Some md" and ok: "mode_ok md"
  show ?thesis
  proof (cases "cm_aead_crypt md")
    case None
    show ?thesis
      unfolding decrypt_body_def Let_def
      using kd assms(2,4) ok None
      by (auto dest: mode_okD(1) intro!: safe_intros crypt_in_place_safe checkmac_safe [OF assms(1)])
  next
    case (Some f)
    have len: "f seq x (unat (b_len b - ms)) (unat ms) st LTC_DECRYPT = Some (y, st') \<Longrightarrow> length x = unat (b_len b) \<Longrightarrow>
        unat (b_len b - ms) \<le> room (b\<lparr>b_pos := 0\<rparr>) \<Longrightarrow> length y = unat (b_len b - ms)" for seq x st y st'
      using mode_okD(3) [OF ok Some] sub_mac_no_wrap [of "b_len b" ms] room_bound [OF wf_setpos [OF assms(2), of 0]] assms(3)
      by simp
    show ?thesis
      unfolding decrypt_body_def Let_def
      using kd assms(2,4) Some len
      by (auto intro!: safe_intros crypt_in_place_safe)
  qed
qed

lemma buf_decompress_safe:
  assumes "kd_zstream kd \<noteq> None" "wf_buf b" "zlib_ok env"
    and "\<And>p z. wf_buf p \<Longrightarrow> Q (p, kd\<lparr>kd_zstream := Some z\<rparr>)"
  shows "safe (buf_decompress env kd b l) Q"
proof -
  obtain z where z: "kd_zstream kd = Some z" using assms(1) by blast
  have sz: "RECV_MAX_PAYLOAD_LEN + 1 = 32769" by (simp add: RECV_MAX_PAYLOAD_LEN_def)
  let ?ret = "\<lparr>b_data = replicate 32769 0, b_len = 0, b_pos = 0, b_size = 32769\<rparr> :: buffer"
  have new: "buf_new (RECV_MAX_PAYLOAD_LEN + 1) = Inr ?ret"
    unfolding sz by (simp add: buf_new_eq)
  have wf: "wf_buf ?ret" by (simp add: wf_buf_def u32_nat)
  have wf2: "length out \<le> 32769 \<Longrightarrow>
      wf_buf \<lparr>b_data = out @ replicate (32769 - length out) 0, b_len = 0, b_pos = 0, b_size = 32769\<rparr>" for out
    by (simp add: wf_buf_def u32_nat)
  have out: "ce_inflate env z x 32769 = (ok, a, out, z') \<Longrightarrow> length out \<le> 32769" for x ok a out z'
    using assms(3) unfolding zlib_ok_def by blast
  have r: "unat l \<le> length (unread b) \<Longrightarrow> unat (b_pos b) + unat l \<le> length (b_data b)"
    using pos_unread [OF assms(2)] .
  show ?thesis
    unfolding buf_decompress_def new z
    using assms(2,4) wf wf2 out r
    by (auto intro!: safe_intros wf_data split: prod.split)
qed

lemma recv_keys_Some: "ses_keys ses = Some k \<Longrightarrow> recv_keys ses = Inr (kc_recv k)"
  by (simp add: recv_keys_def)

lemma set_kexstate_fields [simp]:
  "ses_keys (set_kexstate f ses) = ses_keys ses" "ses_readbuf (set_kexstate f ses) = ses_readbuf ses"
  "ses_payload (set_kexstate f ses) = ses_payload ses" "ses_recvseq (set_kexstate f ses) = ses_recvseq ses"
  "ses_authstate (set_kexstate f ses) = ses_authstate ses" "ses_transseq (set_kexstate f ses) = ses_transseq ses"
  "ses_writepayload (set_kexstate f ses) = ses_writepayload ses"
  "ses_writequeue (set_kexstate f ses) = ses_writequeue ses"
  "ses_kexstate (set_kexstate f ses) = f (ses_kexstate ses)"
  by (simp_all add: set_kexstate_def)

lemma set_keys_fields [simp]:
  "ses_readbuf (set_recv_keys kd ses) = ses_readbuf ses" "ses_payload (set_recv_keys kd ses) = ses_payload ses"
  "ses_recvseq (set_recv_keys kd ses) = ses_recvseq ses" "ses_authstate (set_recv_keys kd ses) = ses_authstate ses"
  "ses_keys ses = Some k \<Longrightarrow> ses_keys (set_recv_keys kd ses) = Some (k\<lparr>kc_recv := kd\<rparr>)"
  "ses_keys ses = Some k \<Longrightarrow> ses_keys (set_trans_keys kd ses) = Some (k\<lparr>kc_trans := kd\<rparr>)"
  "ses_writepayload (set_trans_keys kd ses) = ses_writepayload ses"
  "ses_writequeue (set_trans_keys kd ses) = ses_writequeue ses"
  "ses_transseq (set_trans_keys kd ses) = ses_transseq ses"
  by (simp_all add: set_recv_keys_def set_trans_keys_def)

text \<open>A payload ready for its handler.\<close>

definition payload_ok :: "sshsession \<Rightarrow> bool" where
  "payload_ok ses \<longleftrightarrow> (\<forall>p. ses_payload ses = Some p \<longrightarrow> wf_buf p)"

lemma decrypt_packet_safe:
  assumes "ses_keys ses = Some k" "wf_dir env (kc_recv k)" "ses_readbuf ses = Some rb" "wf_buf rb" "zlib_ok env"
  shows "safe (decrypt_packet env ses) (\<lambda>s. recv_ok env s \<and> payload_ok s \<and> ses_payload s \<noteq> None
     \<and> ses_readbuf s = None \<and> ses_recvseq s = ses_recvseq ses + 1)"
  using assms(2)
proof (rule wf_dirE)
  fix c m md
  assume kd: "kd_algo_crypt (kc_recv k) = Some c" "kd_algo_mac (kc_recv k) = Some m"
  have z: "is_compress_recv s (kc_recv k\<lparr>kd_cipher_state := st\<rparr>) \<Longrightarrow> kd_zstream (kc_recv k) \<noteq> None" for s st
    using assms(2) by (auto simp: wf_dir_def is_compress_recv_def)
  have zz: "wf_dir env (kc_recv k\<lparr>kd_cipher_state := st, kd_zstream := Some z\<rparr>)" for st z
    using wf_dir_zstream [of env "kc_recv k\<lparr>kd_cipher_state := st\<rparr>"] assms(2) by simp
  show ?thesis
    unfolding decrypt_packet_def Let_def recv_keys_Some [OF assms(1)]
    using kd assms z zz
    by (auto simp: recv_ok_def payload_ok_def readbuf_ok_def
        intro!: safe_intros decrypt_body_safe [OF assms(2)] buf_decompress_safe)
qed

lemma check_packet_len_safe:
  assumes "wf_buf rb" "128 \<le> unat (b_size rb)" "blocksize \<noteq> 0"
    and "\<And>rb'. wf_buf rb' \<Longrightarrow> 128 \<le> unat (b_size rb') \<Longrightarrow> b_pos rb' = blocksize \<Longrightarrow> Q rb'"
  shows "safe (check_packet_len env blocksize plen len rb) Q"
  unfolding check_packet_len_def
  using assms by (auto simp: u32_nat intro!: safe_intros)

text \<open>Receiving the bytes of a \<open>read\<close> at the end of what has been read of the first block.\<close>

lemma receive_first_block:
  assumes "wf_buf rb" "length bytes \<le> unat n" "unat n \<le> room rb" "b_pos rb = b_len rb"
  shows "bindE (mem_write (b_data rb) (unat (b_pos rb)) bytes)
     (\<lambda>d. buf_incrwritepos (rb\<lparr>b_data := d\<rparr>) (of_nat (length bytes))) = Inr (overwrite rb bytes)"
    "wf_buf (overwrite rb bytes)" "b_pos (overwrite rb bytes) = b_len (overwrite rb bytes)"
proof -
  have l: "length bytes \<le> room rb" using assms by simp
  have u: "unat (of_nat (length bytes) :: u32) = length bytes"
    using l room_bound [OF assms(1)] by (intro unat_u32_of_nat) linarith
  show "bindE (mem_write (b_data rb) (unat (b_pos rb)) bytes)
     (\<lambda>d. buf_incrwritepos (rb\<lparr>b_data := d\<rparr>) (of_nat (length bytes))) = Inr (overwrite rb bytes)"
    using write_then_incrwritepos [OF assms(1) l u] .
  show "wf_buf (overwrite rb bytes)" using wf_overwrite [OF assms(1) l] .
  show "b_pos (overwrite rb bytes) = b_len (overwrite rb bytes)"
    using pos_overwrite [OF assms(1) l] len_overwrite [OF assms(1) l] assms(4) by (simp add: u32_eq_nat)
qed

lemma read_packet_init_safe:
  assumes "recv_ok env ses" "reader_ok rd" "ses_keys ses = Some k" "kd_algo_crypt (kc_recv k) = Some c"
    "case ses_readbuf ses of None \<Rightarrow> True | Some b \<Rightarrow> b_len b < ucast (dc_blocksize c)"
  shows "safe (read_packet_init env rd ses) (\<lambda>(r, s). recv_ok env s \<and> ses_payload s = ses_payload ses
     \<and> ses_recvseq s = ses_recvseq ses \<and> (r = DROPBEAR_SUCCESS \<longrightarrow> ses_readbuf s \<noteq> None))"
proof -
  have k: "wf_dir env (kc_recv k)" and rbok: "readbuf_ok (unat (dc_blocksize c)) (ses_readbuf ses)"
    using assms by (auto simp: recv_ok_def)
  obtain m where m: "kd_algo_mac (kc_recv k) = Some m"
    and bs: "8 \<le> unat (dc_blocksize c)" "unat (dc_blocksize c) \<le> 128"
    using k assms(4) by (auto elim: wf_dirE)
  let ?bs = "ucast (dc_blocksize c) :: u32"
  let ?ok = "\<lambda>rb. wf_buf rb \<and> 128 \<le> unat (b_size rb) \<and> b_pos rb = b_len rb"
  have ub: "unat ?bs = unat (dc_blocksize c)" by simp
  have nz: "?bs \<noteq> 0" using bs by (metis not_numeral_le_zero unat_0 ub)
  have start: "safe (case ses_readbuf ses of None \<Rightarrow> buf_new INIT_READBUF | Some b \<Rightarrow> returnE b)
      (\<lambda>rb. ?ok rb \<and> unat (b_len rb) < unat ?bs)"
    using rbok assms(5) bs
    by (auto simp: readbuf_ok_def INIT_READBUF_def buf_new_eq wf_buf_def u32_nat split: option.splits)
  have ok_sub: "unat (?bs - b_pos rb) = unat ?bs - unat (b_pos rb)" if "unat (b_len rb) < unat ?bs" "?ok rb" for rb
    using that by (intro unat_u32_sub) (simp add: u32_eq_nat)
  have recv: "recv_ok env (ses\<lparr>ses_readbuf := Some rb\<rparr>)" if "?ok rb" "unat (b_len rb) \<le> unat ?bs" for rb
    using that assms(3,4) k by (auto simp: recv_ok_def readbuf_ok_def)
  have succ: "recv_ok env (set_recv_keys (kc_recv k\<lparr>kd_cipher_state := st\<rparr>) (ses\<lparr>ses_readbuf := Some rb\<rparr>))"
    if "wf_buf rb" "128 \<le> unat (b_size rb)" "b_pos rb = ?bs" for rb st
    using that assms(3,4) k by (auto simp: recv_ok_def readbuf_ok_def)
  have rest: "safe (case rd (?bs - b_pos rb) of
       Rd_again \<Rightarrow> returnE (DROPBEAR_FAILURE, ses\<lparr>ses_readbuf := Some rb\<rparr>)
     | Rd_error \<Rightarrow> dropbear_exit ''Error reading''
     | Rd bytes \<Rightarrow>
         if bytes = [] then remoteclosed ses
         else
           bindE (mem_write (b_data rb) (unat (b_pos rb)) bytes) (\<lambda>d.
           bindE (buf_incrwritepos (rb\<lparr>b_data := d\<rparr>) (of_nat (length bytes))) (\<lambda>readbuf.
           if of_nat (length bytes) \<noteq> ?bs - b_pos rb
           then returnE (DROPBEAR_FAILURE, ses\<lparr>ses_readbuf := Some readbuf\<rparr>)
           else
             bindE (buf_setpos readbuf 0) (\<lambda>readbuf.
             bindE (first_block_len ses (kc_recv k) ?bs (ucast (dh_hashsize m)) readbuf) (\<lambda>(plen, len, readbuf, st).
             bindE (check_packet_len env ?bs plen len readbuf) (\<lambda>readbuf.
             returnE (DROPBEAR_SUCCESS,
               set_recv_keys (kc_recv k\<lparr>kd_cipher_state := st\<rparr>) (ses\<lparr>ses_readbuf := Some readbuf\<rparr>))))))))
     (\<lambda>(r, s). recv_ok env s \<and> ses_payload s = ses_payload ses
     \<and> ses_recvseq s = ses_recvseq ses \<and> (r = DROPBEAR_SUCCESS \<longrightarrow> ses_readbuf s \<noteq> None))"
    if rb: "?ok rb" "unat (b_len rb) < unat ?bs" "unat (?bs - b_pos rb) \<le> room rb" for rb
  proof (cases "rd (?bs - b_pos rb)")
    case (Rd bytes)
    then have l: "length bytes \<le> unat (?bs - b_pos rb)"
      using assms(2) by (auto simp: reader_ok_def)
    let ?rb = "overwrite rb bytes"
    have ow: "bindE (mem_write (b_data rb) (unat (b_pos rb)) bytes)
        (\<lambda>d. buf_incrwritepos (rb\<lparr>b_data := d\<rparr>) (of_nat (length bytes))) = Inr ?rb"
      and okrb: "wf_buf ?rb" "b_pos ?rb = b_len ?rb" "128 \<le> unat (b_size ?rb)"
      using receive_first_block [of rb bytes "?bs - b_pos rb"] l rb by auto
    have "length bytes \<le> room rb" using l rb(3) by simp
    then have "unat (b_len ?rb) = unat (b_pos rb) + length bytes"
      using rb(1) len_overwrite [of rb bytes] by simp
    then have len: "unat (b_len ?rb) \<le> unat ?bs"
      using l ok_sub [OF rb(2,1)] rb(1,2) by simp
    have eq: "bindE (mem_write (b_data rb) (unat (b_pos rb)) bytes)
        (\<lambda>d. bindE (buf_incrwritepos (rb\<lparr>b_data := d\<rparr>) (of_nat (length bytes))) K) = K ?rb"
      for K :: "buffer \<Rightarrow> (ret_code \<times> sshsession) res"
      using ow by (simp flip: bindE_assoc)
    show ?thesis
      unfolding Rd io_read.case eq
      using okrb len recv succ nz
      by (auto intro!: safe_intros first_block_len_safe [OF k] check_packet_len_safe)
  qed (use rb recv in auto)
  show ?thesis
    unfolding read_packet_init_def Let_def recv_keys_Some [OF assms(3)]
    using assms(4) m rest
    by (auto intro!: safe_bindE safe_weaken [OF start] safe_nn safe_getwriteptr)
qed

lemma read_remainder_safe:
  assumes "recv_ok env ses" "payload_ok ses" "ses_readbuf ses = Some rb" "reader_ok rd" "zlib_ok env"
  shows "safe (read_remainder env rd ses) (\<lambda>s. recv_ok env s \<and> payload_ok s)"
proof -
  obtain k c where k: "ses_keys ses = Some k" "wf_dir env (kc_recv k)" "kd_algo_crypt (kc_recv k) = Some c"
    and rb: "wf_buf rb" "128 \<le> unat (b_size rb)"
      "unat (b_len rb) < unat (dc_blocksize c) \<and> b_pos rb = b_len rb \<or> unat (dc_blocksize c) \<le> unat (b_pos rb)"
    using assms(1,3) by (auto simp: recv_ok_def readbuf_ok_def)
  let ?max = "b_len rb - b_pos rb"
  have dec: "safe (decrypt_packet env s) (\<lambda>s. recv_ok env s \<and> payload_ok s)"
    if "ses_keys s = Some k" "ses_readbuf s = Some b" "wf_buf b" for s b
    by (rule safe_weaken [OF decrypt_packet_safe [OF that(1) k(2) that(2,3) assms(5)]]) simp
  have data: "safe (bindE (mem_write (b_data rb) (unat (b_pos rb)) bs) (\<lambda>d.
        bindE (buf_incrpos (rb\<lparr>b_data := d\<rparr>) (of_nat (length bs))) (\<lambda>readbuf.
        let ses = ses\<lparr>ses_readbuf := Some readbuf\<rparr> in
        if of_nat (length bs) = ?max then decrypt_packet env ses else returnE ses)))
      (\<lambda>s. recv_ok env s \<and> payload_ok s)"
    if bs: "rd ?max = Rd bs" "unat ?max \<le> length (unread rb)" "?max \<noteq> 0" for bs
  proof -
    have "length bs \<le> unat ?max"
      using assms(4) bs(1) by (simp add: reader_ok_def)
    then have l: "length bs \<le> length (unread rb)"
      using bs(2) by (rule le_trans)
    then have n: "unat (of_nat (length bs) :: u32) = length bs"
      using length_unread_bound [OF rb(1)] by (intro unat_u32_of_nat) linarith
    have pos: "unat (dc_blocksize c) \<le> unat (b_pos rb)"
      using rb(3) bs(3) by auto
    define d where "d = take (unat (b_pos rb)) (b_data rb) @ bs @ drop (unat (b_pos rb) + length bs) (b_data rb)"
    let ?rb = "rb\<lparr>b_data := d\<rparr>"
    have wr: "mem_write (b_data rb) (unat (b_pos rb)) bs = Inr d" and ld: "length d = length (b_data rb)"
      using pos_unread [OF rb(1) l] by (simp_all add: mem_write_ok d_def)
    have w: "wf_buf ?rb" "length bs \<le> length (unread ?rb)"
      using wf_data [OF rb(1) ld] l ld by simp_all
    let ?rb' = "advance ?rb (length bs)"
    have inc: "buf_incrpos ?rb (of_nat (length bs)) = Inr ?rb'"
      using w n by (simp add: buf_incrpos_eq)
    have w': "wf_buf ?rb'" using wf_advance [OF w] .
    have "unat (b_pos rb + of_nat (length bs)) = unat (b_pos rb) + length bs"
      using unat_pos_advance [OF rb(1) l] .
    then have "recv_ok env (ses\<lparr>ses_readbuf := Some ?rb'\<rparr>)"
      using w' k pos rb(2) by (simp add: recv_ok_def readbuf_ok_def) (simp add: advance_def)
    moreover have "payload_ok (ses\<lparr>ses_readbuf := Some ?rb'\<rparr>)"
      using assms(2) by (simp add: payload_ok_def)
    moreover have "safe (decrypt_packet env (ses\<lparr>ses_readbuf := Some ?rb'\<rparr>)) (\<lambda>s. recv_ok env s \<and> payload_ok s)"
      using dec [of "ses\<lparr>ses_readbuf := Some ?rb'\<rparr>" ?rb'] w' k(1) by simp
    ultimately show ?thesis
      unfolding wr bindE_simps inc Let_def by simp
  qed
  show ?thesis
    unfolding read_remainder_def
    unfolding assms(3) nn_simps bindE_simps Let_def
  proof (intro safe_if safe_bindE safe_getptr rb(1) dec [OF k(1) assms(3) rb(1)])
    assume m: "?max \<noteq> 0" and u: "unat ?max \<le> length (unread rb)"
    show "safe (case rd ?max of
         Rd_again \<Rightarrow> returnE ses
       | Rd_error \<Rightarrow> dropbear_exit ''Error reading''
       | Rd bs \<Rightarrow>
           if bs = [] then remoteclosed ses
           else
             bindE (mem_write (b_data rb) (unat (b_pos rb)) bs) (\<lambda>d.
             bindE (buf_incrpos (rb\<lparr>b_data := d\<rparr>) (of_nat (length bs))) (\<lambda>readbuf.
             if of_nat (length bs) = ?max then decrypt_packet env (ses\<lparr>ses_readbuf := Some readbuf\<rparr>)
             else returnE (ses\<lparr>ses_readbuf := Some readbuf\<rparr>))))
      (\<lambda>s. recv_ok env s \<and> payload_ok s)"
    proof (cases "rd ?max")
      case (Rd bs)
      then show ?thesis using data [OF Rd u m] by (simp add: Let_def safe_remoteclosed)
    qed (use assms(1,2) in simp_all)
  qed
qed

text \<open>
  C2. No bytes from the network make reading a packet fault.  Whatever \<open>read\<close> delivers,
  in whatever pieces, and whatever lengths it pretends to, \<open>read_packet\<close> (with
  \<open>read_packet_init\<close>, \<open>decrypt_packet\<close>, \<open>checkmac\<close> and \<open>buf_decompress\<close>) stays inside its
  buffers; it stops the session or leaves one from which reading can go on, with
  a well-formed payload if a packet is complete.  This covers packet lengths
  whose 32 bit sum with the MAC length wraps past the check.
\<close>

theorem read_packet_safe:
  assumes "recv_ok env ses" "payload_ok ses" "reader_ok rd" "reader_ok rd2" "zlib_ok env"
  shows "safe (read_packet env rd rd2 ses) (\<lambda>s. recv_ok env s \<and> payload_ok s)"
proof -
  obtain k c where k: "ses_keys ses = Some k" "kd_algo_crypt (kc_recv k) = Some c"
    using assms(1) by (auto simp: recv_ok_def)
  have first: "safe (if (case ses_readbuf ses of None \<Rightarrow> True | Some b \<Rightarrow> b_len b < ucast (dc_blocksize c))
        then read_packet_init env rd ses else returnE (DROPBEAR_SUCCESS, ses))
      (\<lambda>(r, s). recv_ok env s \<and> payload_ok s \<and> (r = DROPBEAR_SUCCESS \<longrightarrow> ses_readbuf s \<noteq> None))"
    using read_packet_init_safe [OF assms(1,3) k] assms(1,2)
    by (auto simp: payload_ok_def split: option.splits if_splits elim!: safe_weaken)
  show ?thesis
    unfolding read_packet_def recv_keys_Some [OF k(1)] k(2) nn_simps bindE_simps
  proof (intro safe_bindE safe_weaken [OF first])
    fix x :: "ret_code \<times> sshsession"
    assume x: "case x of (r, s) \<Rightarrow> recv_ok env s \<and> payload_ok s \<and> (r = DROPBEAR_SUCCESS \<longrightarrow> ses_readbuf s \<noteq> None)"
    obtain r s where rs: "x = (r, s)" by (cases x)
    show "safe (case x of (ret, ses) \<Rightarrow> if ret = DROPBEAR_FAILURE then returnE ses else read_remainder env rd2 ses)
        (\<lambda>s. recv_ok env s \<and> payload_ok s)"
      using x rs assms(4,5) by (cases r) (auto intro: read_remainder_safe)
  qed
qed

text \<open>The session every connection starts with.\<close>

definition plain_env :: env where
  "plain_env = \<lparr>ce_hmac = (\<lambda>_ _ _. None), ce_inflate = (\<lambda>z x n. (False, length x, [], z)),
     ce_deflate = (\<lambda>z x n. (False, length x, [], z)), ce_fresh = (\<lambda>_. 0), ce_now = 0, ce_rnd = (\<lambda>_ i. of_nat i)\<rparr>"

lemma plain_env_zlib: "zlib_ok plain_env"
  by (simp add: zlib_ok_def plain_env_def)

lemma wf_init_dir: "wf_dir plain_env init_dir"
  by (simp add: wf_dir_def init_dir_def zero_keys_dir_def dropbear_nocipher_def dropbear_mode_none_def
      dropbear_nohash_def mode_ok_def void_cipher_def plain_env_def DROPBEAR_COMP_NONE_def
      DROPBEAR_COMP_ZLIB_def DROPBEAR_COMP_ZLIB_DELAY_def MAX_MAC_LEN_def)

definition init_session :: sshsession where
  "init_session = (case common_session_init True 0 of Inr s \<Rightarrow> s)"

lemma buf_new_ok: "unat sz \<le> 1000000000 \<Longrightarrow> \<exists>b. buf_new sz = Inr b"
  by (simp add: buf_new_eq)

lemma init_session_eq: "common_session_init True 0 = Inr init_session"
proof -
  obtain b where "buf_new TRANS_MAX_PAYLOAD_LEN = Inr b"
    using buf_new_ok [of TRANS_MAX_PAYLOAD_LEN] by (auto simp: TRANS_MAX_PAYLOAD_LEN_def)
  then show ?thesis by (simp add: init_session_def common_session_init_def)
qed

lemma common_session_init_fields:
  assumes "common_session_init isserver now = Inr s"
  shows "ses_keys s = Some (zero_keys\<lparr>kc_recv := init_dir, kc_trans := init_dir, kc_algo_kex := None,
      kc_algo_hostkey := - 1\<rparr>)"
    "ses_readbuf s = None" "ses_payload s = None" "buf_new TRANS_MAX_PAYLOAD_LEN = Inr (ses_writepayload s)"
    "ses_writequeue s = []" "ses_reply_queue s = []" "ses_dataallowed s" "ses_authstate s = zero_authstate"
    "ses_kexstate s = zero_kexstate" "ses_channels s = []" "ses_requirenext s = SSH_MSG_KEXINIT"
    "ses_recvseq s = 0" "ses_transseq s = 0" "ses_isserver s = isserver" "\<not> ses_ignorenext s" "ses_writequeue_len s = 0"
  using assms by (auto simp: common_session_init_def bindE_eq_Inr)

lemmas init_session_fields = common_session_init_fields [OF init_session_eq]

theorem read_packet_safe_witness:
  "safe (read_packet plain_env (\<lambda>n. Rd (replicate (unat n) 255)) (\<lambda>_. Rd_again) init_session)
     (\<lambda>s. recv_ok plain_env s \<and> payload_ok s)"
proof (rule read_packet_safe)
  show "recv_ok plain_env init_session"
    using wf_init_dir unfolding recv_ok_def init_session_fields
    by (auto simp: init_dir_def readbuf_ok_def)
qed (simp_all add: payload_ok_def init_session_fields reader_ok_def plain_env_zlib)

end
