(* ===== verification/Packet_Send.thy ===== *)
theory Packet_Send
  imports Packet_Safety
begin

text \<open>
  Sending: \<open>encrypt_packet\<close>, the replies held during key exchange and the queue of
  encrypted packets never fault and keep the sending half of the session well formed;
  the bytes handed to the kernel are those of the queued packets, in order.
\<close>

definition put_by :: "nat \<Rightarrow> buffer \<Rightarrow> buffer \<Rightarrow> bool" where
  "put_by n b b' \<longleftrightarrow> wf_buf b' \<and> b_size b' = b_size b \<and> unat (b_pos b') = unat (b_pos b) + n
     \<and> unat (b_pos b') \<le> unat (b_len b') \<and> unat (b_len b) \<le> unat (b_len b')"

lemma put_by_wf [simp]: "put_by n b b' \<Longrightarrow> wf_buf b'"
  by (simp add: put_by_def)

lemma put_by_overwrite:
  assumes "wf_buf b" "length bs \<le> room b"
  shows "put_by (length bs) b (overwrite b bs)"
proof -
  have n: "unat (of_nat (length bs) :: u32) = length bs"
    using assms(2) room_bound [OF assms(1)] by (simp add: unat_u32_of_nat)
  have p: "unat (b_pos b + of_nat (length bs)) = unat (b_pos b) + length bs"
    using assms(2) wf_bufD [OF assms(1)] n by (subst unat_u32_add) (simp_all add: room_def)
  have m: "unat (max x y) = max (unat x) (unat y)" for x y :: u32
    by (simp add: max_def u32_nat)
  show ?thesis
    using wf_overwrite [OF assms] p by (simp add: put_by_def overwrite_def m)
qed

lemma safe_putint [safe_intros]:
  "wf_buf b \<Longrightarrow> (\<And>b'. put_by 4 b b' \<Longrightarrow> Q b') \<Longrightarrow> safe (buf_putint b v) Q"
  using put_by_overwrite [of b "STORE32H v"] by (simp add: buf_putint_eq)

lemma safe_putbyte [safe_intros]:
  "wf_buf b \<Longrightarrow> (\<And>b'. put_by 1 b b' \<Longrightarrow> Q b') \<Longrightarrow> safe (buf_putbyte b v) Q"
  using put_by_overwrite [of b "[v]"] by (simp add: buf_putbyte_eq)

lemma safe_putbytes [safe_intros]:
  "wf_buf b \<Longrightarrow> unat l \<le> length bs \<Longrightarrow> (\<And>b'. put_by (unat l) b b' \<Longrightarrow> Q b') \<Longrightarrow> safe (buf_putbytes b bs l) Q"
  using put_by_overwrite [of b "take (unat l) bs"] by (simp add: buf_putbytes_eq)

lemma safe_incrwritepos [safe_intros]:
  assumes "wf_buf b" "\<And>b'. wf_buf b' \<Longrightarrow> b_size b' = b_size b \<Longrightarrow> b_data b' = b_data b \<Longrightarrow> b_pos b' = b_pos b + n \<Longrightarrow> Q b'"
  shows "safe (buf_incrwritepos b n) Q"
  using safe_buf_incrwritepos [OF assms(1), of n] assms by (auto simp: buf_incrwritepos_eq split: if_splits)

lemma safe_padding [safe_intros]:
  "bs \<noteq> 0 \<Longrightarrow> (\<And>p. Q p) \<Longrightarrow> safe (padding_len bs wlen len) Q"
  using unat_ucast_byte [of bs] by (auto simp: padding_len_def umod_def Let_def u32_eq_nat unat_gt_0)

lemma buf_compress_safe:
  assumes "kd_zstream kd \<noteq> None" "wf_buf dest" "wf_buf src" "zlib_ok env"
    "unat l + unat ZLIB_COMPRESS_EXPANSION \<le> room dest" "b_pos src = 0" "l = b_len src"
    and "\<And>d s z. wf_buf d \<Longrightarrow> wf_buf s \<Longrightarrow> b_size s = b_size src \<Longrightarrow> Q (d, s, kd\<lparr>kd_zstream := Some z\<rparr>)"
  shows "safe (buf_compress env kd dest src l) Q"
proof -
  obtain z where z: "kd_zstream kd = Some z" using assms(1) by blast
  note wd = wf_bufD [OF assms(2)] and ws = wf_bufD [OF assms(3)]
  have ex: "unat ZLIB_COMPRESS_EXPANSION = 21"
    by (simp add: ZLIB_COMPRESS_EXPANSION_def RECV_MAX_PAYLOAD_LEN_def)
  have r: "unat (b_size dest - b_pos dest) = room dest"
    using wd by (simp add: room_def unat_u32_sub)
  have le: "unat (l + ZLIB_COMPRESS_EXPANSION) = unat l + 21"
    using ex assms(5) room_bound [OF assms(2)] by (subst unat_u32_add) simp_all
  have asrt: "b_size dest - b_pos dest \<ge> l + ZLIB_COMPRESS_EXPANSION"
    using assms(5) r le ex by (simp add: u32_nat)
  have fits: "length out \<le> room dest \<and> (ok \<and> length x \<le> unat l \<longrightarrow> a = 0)"
    if "ce_deflate env z x (room dest) = (ok, a, out, z')" for x ok a out z'
    using assms(4,5) that unfolding zlib_ok_def by fastforce
  have defl: "unat (b_pos dest) + length out \<le> length (b_data dest) \<and> (ok \<and> length x \<le> unat l \<longrightarrow> a = 0)"
    if "ce_deflate env z x (room dest) = (ok, a, out, z')" for x ok a out z'
    using fits [OF that] pos_room [OF assms(2)] by simp
  have src: "unat l \<le> length (b_data src)"
    using ws assms(7) by simp
  show ?thesis
    unfolding buf_compress_def Let_def z
    using assms(2,3,6-8) asrt r defl src wf_data [OF assms(2)]
    by (auto intro!: safe_intros split: prod.split)
qed

lemma room_fresh:
  assumes "unat l \<le> 10 ^ 9" "unat bs \<le> 128" "unat ms \<le> MAX_MAC_LEN"
    and "s = (l + 4 + 1) + max MIN_PACKET_LEN (ucast (bs :: byte)) + 3 + ucast (ms :: byte) + ZLIB_COMPRESS_EXPANSION + 1"
  shows "unat l + unat ZLIB_COMPRESS_EXPANSION + 5 \<le> unat s"
proof -
  have b: "unat (ucast bs :: u32) = unat bs" "unat (ucast ms :: u32) = unat ms" by (simp_all add: unat_ucast_byte)
  have m: "unat (max MIN_PACKET_LEN (ucast bs)) = max 16 (unat bs)"
    using b by (simp add: max_def MIN_PACKET_LEN_def u32_nat)
  show ?thesis unfolding assms(4) using assms(1-3) b m
    by (simp add: unat_u32_add ZLIB_COMPRESS_EXPANSION_def RECV_MAX_PAYLOAD_LEN_def MAX_MAC_LEN_def)
qed

lemma put_payload_safe:
  assumes "wf_dir env kd" "zlib_ok env" "wf_buf wb" "wf_buf wp" "b_pos wp = 0"
    "unat (b_len wp) + unat ZLIB_COMPRESS_EXPANSION \<le> room wb"
    and "\<And>wb' wp' kd'. wf_buf wb' \<Longrightarrow> wf_buf wp' \<Longrightarrow> b_size wp' = b_size wp \<Longrightarrow>
       kd' = kd \<or> (\<exists>z. kd' = kd\<lparr>kd_zstream := Some z\<rparr>) \<Longrightarrow> Q (wb', wp', kd')"
  shows "safe (put_payload env ses kd wb wp) Q"
proof -
  have z: "is_compress_trans ses kd \<Longrightarrow> kd_zstream kd \<noteq> None"
    using assms(1) by (auto simp: wf_dir_def is_compress_trans_def)
  have l: "unat (b_pos wb) + unat (b_len wp) \<le> length (b_data wb)"
    using pos_room [OF assms(3), of "unat (b_len wp)"] assms(6) by simp
  have copy: "unat (b_len wp) \<le> length (b_data wp)"
    using wf_bufD [OF assms(4)] by simp
  show ?thesis
  proof (cases "is_compress_trans ses kd")
    case True
    show ?thesis
      unfolding put_payload_def if_P [OF True]
      by (rule buf_compress_safe [OF z [OF True] assms(3,4,2,6,5)]) (auto intro: assms(7))
  next
    case False
    then show ?thesis
      unfolding put_payload_def
      using assms(3-5) l copy by (auto intro!: safe_intros assms(7) wf_data)
  qed
qed

lemma pad_packet_safe:
  assumes "bs \<noteq> 0" "wf_buf wb" and "\<And>wb'. wf_buf wb' \<Longrightarrow> 0 < unat (b_len wb') \<Longrightarrow> Q wb'"
  shows "safe (pad_packet env ses md bs wb) Q"
  unfolding pad_packet_def
  using assms(1,2) by (auto intro!: safe_intros assms(3) wf_data simp: put_by_def)

lemma fill_packet_safe:
  assumes "wf_dir env kd" "kd_algo_crypt kd = Some c" "kd_algo_mac kd = Some m" "zlib_ok env" "wf_buf wp" "b_pos wp = 0"
    and "\<And>wb wp' kd'. wf_buf wb \<Longrightarrow> 0 < unat (b_len wb) \<Longrightarrow> wf_buf wp' \<Longrightarrow> b_size wp' = b_size wp \<Longrightarrow> b_len wp' = 0 \<Longrightarrow>
       b_pos wp' = 0 \<Longrightarrow> kd' = kd \<or> (\<exists>z. kd' = kd\<lparr>kd_zstream := Some z\<rparr>) \<Longrightarrow> Q (wb, wp', kd')"
  shows "safe (fill_packet env ses kd md (dc_blocksize c) (dh_hashsize m) wp) Q"
proof -
  define S where "S = (b_len wp + 4 + 1) + max MIN_PACKET_LEN (ucast (dc_blocksize c)) + 3
            + ucast (dh_hashsize m) + ZLIB_COMPRESS_EXPANSION + 1"
  have c: "8 \<le> unat (dc_blocksize c)" "unat (dc_blocksize c) \<le> 128" "unat (dh_hashsize m) \<le> MAX_MAC_LEN"
    using assms(1-3) by (auto simp: wf_dir_def)
  have S: "unat (b_len wp) + unat ZLIB_COMPRESS_EXPANSION + 5 \<le> unat S"
    using room_fresh [OF _ c(2,3) S_def] wf_bufD [OF assms(5)] by simp
  have bs: "dc_blocksize c \<noteq> 0" using c(1) by auto
  note pay = put_payload_safe [OF assms(1,4) _ assms(5,6)] and pad = pad_packet_safe [OF bs]
  show ?thesis
    unfolding fill_packet_def Let_def S_def [symmetric] PACKET_PAYLOAD_OFF_def
    using S by (auto intro!: safe_intros pay pad wf_new assms(7) simp: room_def)
qed

lemma wf_dir_fill: "wf_dir env kd \<Longrightarrow> kd' = kd \<or> (\<exists>z. kd' = kd\<lparr>kd_zstream := Some z\<rparr>) \<Longrightarrow> wf_dir env kd'"
  by (auto intro: wf_dir_zstream)

lemma encrypt_body_safe:
  assumes "wf_dir env kd" "kd_algo_mac kd = Some m" "kd_crypt_mode kd = Some md" "wf_buf wb" "0 < unat (b_len wb)"
    and "\<And>wb' st. wf_buf wb' \<Longrightarrow> 0 < unat (b_len wb') \<Longrightarrow> Q (wb', st)"
  shows "safe (encrypt_body env ses kd md (dh_hashsize m) wb) Q"
proof -
  have md: "mode_ok md" using assms(1,3) by (auto simp: wf_dir_def)
  have ms: "unat (ucast (dh_hashsize m) :: u32) = unat (dh_hashsize m)" by (simp add: unat_ucast_byte)
  show ?thesis
  proof (cases "cm_aead_crypt md")
    case None
    then show ?thesis
      unfolding encrypt_body_def Let_def
      using assms(2,4,5) md ms
      by (auto intro!: safe_intros make_mac_safe [OF assms(1)] crypt_in_place_safe assms(6)
               dest: mode_okD(2) simp: put_by_def)
  next
    case (Some f)
    have add: "unat (b_len wb + ucast (dh_hashsize m)) = unat (b_len wb) + unat (dh_hashsize m)"
      unfolding ms [symmetric]
      by (rule unat_u32_add) (use ms wf_bufD(3,4) [OF assms(4)] unat_byte_less [of "dh_hashsize m"] in linarith)
    show ?thesis
      unfolding encrypt_body_def Let_def Some option.case
      using assms(4,5) md ms add Some
      by (auto intro!: safe_intros crypt_in_place_safe assms(6) dest: mode_okD(4))
  qed
qed

text \<open>
  The sending half of a session: the keys, the payload buffer of full size, the held
  replies, and the queue of packets that still have bytes to send, whose number
  \<open>writequeue_len\<close> counts.
\<close>

definition queue_ok :: "buffer list \<Rightarrow> bool" where
  "queue_ok q \<longleftrightarrow> (\<forall>b \<in> set q. wf_buf b \<and> b_pos b < b_len b)"

definition pending :: "buffer list \<Rightarrow> byte list" where
  "pending q = concat (map unread q)"

definition send_ok :: "env \<Rightarrow> sshsession \<Rightarrow> bool" where
  "send_ok env ses \<longleftrightarrow> (\<exists>k. ses_keys ses = Some k \<and> wf_dir env (kc_trans k))
     \<and> wf_buf (ses_writepayload ses) \<and> b_size (ses_writepayload ses) = TRANS_MAX_PAYLOAD_LEN
     \<and> (\<forall>b \<in> set (ses_reply_queue ses). wf_buf b)
     \<and> queue_ok (ses_writequeue ses) \<and> ses_writequeue_len ses = of_nat (length (pending (ses_writequeue ses)))"

definition payload_empty :: "sshsession \<Rightarrow> bool" where
  "payload_empty ses \<longleftrightarrow> b_len (ses_writepayload ses) = 0 \<and> b_pos (ses_writepayload ses) = 0"

lemma trans_keys_Some: "ses_keys ses = Some k \<Longrightarrow> trans_keys ses = Inr (kc_trans k)"
  by (simp add: trans_keys_def)

lemma safe_newcopy [safe_intros]:
  "wf_buf b \<Longrightarrow> (\<And>c. wf_buf c \<Longrightarrow> c = buf_of (take (unat (b_len b)) (b_data b)) \<Longrightarrow> Q c) \<Longrightarrow> safe (buf_newcopy b) Q"
  using wf_bufD [of b] by (simp add: buf_newcopy_eq wf_buf_of)

lemma enqueue_reply_safe:
  assumes "send_ok env ses" "\<And>ses'. send_ok env ses' \<Longrightarrow> payload_empty ses' \<Longrightarrow> Q ses'"
  shows "safe (enqueue_reply_packet ses) Q"
  unfolding enqueue_reply_packet_def
  using assms(1) by (auto simp: send_ok_def payload_empty_def intro!: safe_intros assms(2))

lemma writebuf_enqueue_safe:
  assumes "send_ok env ses" "wf_buf wb" "0 < unat (b_len wb)"
    and "\<And>wb'. send_ok env (ses\<lparr>ses_writequeue := ses_writequeue ses @ [wb'],
            ses_writequeue_len := ses_writequeue_len ses + b_len wb'\<rparr>) \<Longrightarrow>
          Q (ses\<lparr>ses_writequeue := ses_writequeue ses @ [wb'], ses_writequeue_len := ses_writequeue_len ses + b_len wb'\<rparr>)"
  shows "safe (writebuf_enqueue wb ses) Q"
proof -
  let ?wb = "wb\<lparr>b_pos := 0\<rparr>"
  have "send_ok env (ses\<lparr>ses_writequeue := ses_writequeue ses @ [?wb],
      ses_writequeue_len := ses_writequeue_len ses + b_len ?wb\<rparr>)" if "wf_buf ?wb"
    using assms(1,3) that length_unread [OF that]
    by (auto simp: send_ok_def queue_ok_def pending_def u32_nat)
  then show ?thesis
    unfolding writebuf_enqueue_def
    using assms(2) by (auto intro!: safe_intros assms(4) [of ?wb, simplified])
qed

lemma send_ok_frame [simp]:
  "send_ok env (set_kexstate f ses) = send_ok env ses"
  "send_ok env (ses\<lparr>ses_transseq := t, ses_last_packet_time_any_sent := a\<rparr>) = send_ok env ses"
  "send_ok env (ses\<lparr>ses_transseq := t, ses_last_packet_time_any_sent := a, ses_last_packet_time_idle := i\<rparr>) = send_ok env ses"
  by (simp_all add: send_ok_def set_kexstate_def)

lemma encrypt_packet_safe:
  assumes "send_ok env ses" "zlib_ok env" "\<And>ses'. send_ok env ses' \<Longrightarrow> payload_empty ses' \<Longrightarrow> Q ses'"
  shows "safe (encrypt_packet env ses) Q"
proof -
  obtain k where k: "ses_keys ses = Some k" and dir: "wf_dir env (kc_trans k)"
    using assms(1) by (auto simp: send_ok_def)
  obtain c m md where kd: "kd_algo_crypt (kc_trans k) = Some c" "kd_algo_mac (kc_trans k) = Some m"
    "kd_crypt_mode (kc_trans k) = Some md"
    using dir by (rule wf_dirE)
  note wp = assms(1) [unfolded send_ok_def]
  have queued: "send_ok env (ses\<lparr>ses_writepayload := wp', ses_keys := Some (k\<lparr>kc_trans := kd'\<lparr>kd_cipher_state := st\<rparr>\<rparr>),
      ses_kexstate := x\<rparr>)"
    if "wf_buf wp'" "b_size wp' = TRANS_MAX_PAYLOAD_LEN" "wf_dir env kd'" for kd' st wp' x
    using that wp k by (simp add: send_ok_def)
  have held: "safe (enqueue_reply_packet (ses\<lparr>ses_writepayload := wp'\<rparr>)) Q"
    if "wf_buf wp'" "b_size wp' = b_size (ses_writepayload ses)" for wp'
    using that wp by (intro enqueue_reply_safe [where env = env] assms(3)) (simp_all add: send_ok_def)
  have sent: "safe (fill_packet env ses' (kc_trans k) md (dc_blocksize c) (dh_hashsize m) wp') Q'"
    if "wf_buf wp'" "b_pos wp' = 0" "b_size wp' = b_size (ses_writepayload ses)"
      "\<And>wb wp' kd'. wf_buf wb \<Longrightarrow> 0 < unat (b_len wb) \<Longrightarrow> wf_buf wp' \<Longrightarrow> b_size wp' = b_size (ses_writepayload ses) \<Longrightarrow>
         b_len wp' = 0 \<Longrightarrow> b_pos wp' = 0 \<Longrightarrow> wf_dir env kd' \<Longrightarrow> kd_algo_mac kd' = Some m \<Longrightarrow> kd_crypt_mode kd' = Some md \<Longrightarrow>
         Q' (wb, wp', kd')" for ses' wp' Q'
    using that(1-3) dir kd by (intro fill_packet_safe [OF dir kd(1,2) assms(2)] that(4)) (auto intro: wf_dir_fill)
  have last: "Q (ses'\<lparr>ses_transseq := t, ses_last_packet_time_any_sent := n\<rparr>)"
    "Q (ses'\<lparr>ses_transseq := t, ses_last_packet_time_any_sent := n, ses_last_packet_time_idle := i\<rparr>)"
    if "send_ok env ses'" "payload_empty ses'" for ses' t n i
    using that by (auto intro!: assms(3) simp: payload_empty_def)
  show ?thesis
    unfolding encrypt_packet_def Let_def
    using wp k kd
    by (auto intro!: safe_intros held sent encrypt_body_safe writebuf_enqueue_safe [where env = env] queued last
             simp: trans_keys_Some payload_empty_def set_kexstate_def set_trans_keys_def)
qed

lemma flush_replies_safe:
  assumes "send_ok env ses" "payload_empty ses" "zlib_ok env" "\<forall>b \<in> set rs. wf_buf b"
    and "\<And>ses'. send_ok env ses' \<Longrightarrow> payload_empty ses' \<Longrightarrow> Q ses'"
  shows "safe (flush_replies env rs ses) Q"
  using assms(1,2,4)
proof (induction rs arbitrary: ses)
  case Nil
  then show ?case by (simp add: assms(5))
next
  case (Cons item rest)
  have item: "unat (b_len item) \<le> length (b_data item)"
    using Cons.prems(3) wf_bufD [of item] by simp
  have put: "send_ok env (ses\<lparr>ses_writepayload := wp\<rparr>)" if "put_by n (ses_writepayload ses) wp" for n wp
    using Cons.prems(1) that by (simp add: send_ok_def put_by_def)
  have wp: "wf_buf (ses_writepayload ses)" using Cons.prems(1) by (simp add: send_ok_def)
  show ?case
    unfolding flush_replies.simps
  proof (rule safe_bindE, rule safe_putbytes [OF wp item])
    fix wp' assume "put_by (unat (b_len item)) (ses_writepayload ses) wp'"
    then show "safe (bindE (encrypt_packet env (ses\<lparr>ses_writepayload := wp'\<rparr>)) (flush_replies env rest)) Q"
      using Cons.prems(3) by (intro safe_bindE encrypt_packet_safe [OF put assms(3)] Cons.IH) simp_all
  qed
qed

lemma maybe_flush_safe:
  assumes "send_ok env ses" "payload_empty ses" "zlib_ok env" and "\<And>ses'. send_ok env ses' \<Longrightarrow> payload_empty ses' \<Longrightarrow> Q ses'"
  shows "safe (maybe_flush_reply_queue env ses) Q"
proof (cases "ses_dataallowed ses")
  case True
  have q: "\<forall>b \<in> set (ses_reply_queue ses). wf_buf b" using assms(1) by (simp add: send_ok_def)
  have "safe (flush_replies env (ses_reply_queue ses) ses) (\<lambda>ses'. safe (returnE (ses'\<lparr>ses_reply_queue := []\<rparr>)) Q)"
    by (rule flush_replies_safe [OF assms(1-3) q]) (simp add: assms(4) send_ok_def payload_empty_def)
  then show ?thesis
    using True by (simp add: maybe_flush_reply_queue_def safe_bindE)
next
  case False
  then show ?thesis
    using assms by (simp add: maybe_flush_reply_queue_def)
qed

section \<open>Handing the queue to the kernel\<close>

lemma pending_simps [simp]: "pending [] = []" "pending (b # q) = unread b @ pending q"
  by (simp_all add: pending_def)

lemma sint_u32_small:
  assumes "unat (x :: u32) = n" "n < 2147483648"
  shows "sint x = int n"
proof -
  have "uint x = int n" unfolding assms(1) [symmetric] by (rule uint_nat)
  then show ?thesis
    unfolding sint_uint using assms(2) by (subst signed_take_bit_int_eq_self) simp_all
qed

lemma iovecs_eq:
  "queue_ok q \<Longrightarrow> n \<le> length q \<Longrightarrow> iovecs n q = Inr (map unread (take n q))"
proof (induction n arbitrary: q)
  case (Suc n bs)
  then obtain b q where bs: "bs = b # q" by (cases bs) simp_all
  have b: "wf_buf b" "b_pos b < b_len b" and IH: "iovecs n q = Inr (map unread (take n q))"
    using Suc.prems by (simp_all add: bs queue_ok_def Suc.IH)
  note wf = wf_bufD [OF b(1)]
  have d: "unat (b_len b - b_pos b) = length (unread b)"
    using wf length_unread [OF b(1)] by (simp add: unat_u32_sub)
  have s: "sint (b_len b - b_pos b) = int (length (unread b))"
    using d length_unread_bound [OF b(1)] by (intro sint_u32_small) simp_all
  have pos: "0 < length (unread b)" using b length_unread [OF b(1)] by (simp add: u32_nat)
  have rd: "mem_read (b_data b) (unat (b_pos b)) (length (unread b)) = Inr (unread b)"
    using wf length_unread [OF b(1)] by (simp add: mem_read_ok) (simp add: unread_def drop_take)
  have l: "unat (of_nat (length (unread b)) :: u32) = length (unread b)"
    using length_unread_bound [OF b(1)] by (simp add: unat_u32_of_nat)
  show ?case
    unfolding bs using s pos IH l rd b(1) by (simp add: Let_def buf_getptr_eq)
qed simp

lemma consume_eq:
  assumes "queue_ok q" "n \<le> length (pending q)"
  shows "\<exists>q'. packet_queue_consume q n = Inr q' \<and> queue_ok q' \<and> pending q' = drop n (pending q)"
  using assms
proof (induction q n rule: packet_queue_consume.induct)
  case (2 b q n)
  then have b: "wf_buf b" "b_pos b < b_len b" by (simp_all add: queue_ok_def)
  have l: "unat (b_len b - b_pos b) = length (unread b)"
    using wf_bufD [OF b(1)] length_unread [OF b(1)] by (simp add: unat_u32_sub)
  consider "n = 0" | "0 < n" "n < length (unread b)" | "0 < n" "length (unread b) \<le> n" by linarith
  then show ?case
  proof cases
    case 2
    have n: "unat (of_nat n :: u32) = n"
      using 2 length_unread_bound [OF b(1)] by (simp add: unat_u32_of_nat)
    have adv: "wf_buf (advance b n)" "unread (advance b n) = drop n (unread b)"
      using 2 b(1) by (simp_all add: wf_advance unread_advance)
    have "b_pos (advance b n) < b_len (advance b n)"
      using length_unread [OF adv(1)] 2 adv(2) by (simp add: u32_nat)
    then show ?thesis
      using 2 l n adv \<open>queue_ok (b # q)\<close> b(1) by (simp add: Let_def buf_incrpos_eq queue_ok_def)
  next
    case 3
    then show ?thesis
      using "2.IH" [OF 3(1) refl] "2.prems" l by (simp add: Let_def queue_ok_def)
  qed (use "2.prems" in simp)
qed simp

lemma init_send_ok: "send_ok plain_env init_session" "payload_empty init_session"
proof -
  have sz: "unat TRANS_MAX_PAYLOAD_LEN \<le> 1000000000" by (simp add: TRANS_MAX_PAYLOAD_LEN_def)
  have "ses_writepayload init_session =
      \<lparr>b_data = replicate (unat TRANS_MAX_PAYLOAD_LEN) 0, b_len = 0, b_pos = 0, b_size = TRANS_MAX_PAYLOAD_LEN\<rparr>"
    using init_session_fields(4) sz by (simp add: buf_new_eq)
  then have "wf_buf (ses_writepayload init_session) \<and> b_size (ses_writepayload init_session) = TRANS_MAX_PAYLOAD_LEN
      \<and> payload_empty init_session"
    using wf_new [OF sz] by (simp add: payload_empty_def)
  then show "send_ok plain_env init_session" "payload_empty init_session"
    using wf_init_dir by (simp_all add: send_ok_def init_session_fields queue_ok_def)
qed

text \<open>
  C12. Sending never faults.  From a well-formed session with any payload written,
  \<open>encrypt_packet\<close> stays inside the packet it allocates, whatever the padding, the
  growth by compression and the MAC come to; and sending the replies held back
  during a key exchange does so for each of them.  Both leave a well-formed
  session with an empty payload buffer, or stop the session.
\<close>

theorem sending_safe:
  assumes "send_ok env ses" "zlib_ok env"
  shows "safe (encrypt_packet env ses) (\<lambda>s. send_ok env s \<and> payload_empty s)
       \<and> (payload_empty ses \<longrightarrow> safe (maybe_flush_reply_queue env ses) (\<lambda>s. send_ok env s \<and> payload_empty s))"
proof (intro conjI impI)
  show "safe (encrypt_packet env ses) (\<lambda>s. send_ok env s \<and> payload_empty s)"
    by (rule encrypt_packet_safe [OF assms]) simp
  assume "payload_empty ses"
  then show "safe (maybe_flush_reply_queue env ses) (\<lambda>s. send_ok env s \<and> payload_empty s)"
    by (rule maybe_flush_safe [OF assms(1) _ assms(2)]) simp
qed

text \<open>A session with a message of one byte to send.\<close>

definition ready_session :: sshsession where
  "ready_session = init_session\<lparr>ses_writepayload := \<lparr>b_data = 2 # replicate 16383 0, b_len = 1, b_pos = 1, b_size = TRANS_MAX_PAYLOAD_LEN\<rparr>\<rparr>"

lemma ready_send_ok: "send_ok plain_env ready_session"
  using init_send_ok(1)
  by (simp add: send_ok_def ready_session_def wf_buf_def TRANS_MAX_PAYLOAD_LEN_def u32_nat)

theorem sending_safe_witness:
  "safe (encrypt_packet plain_env ready_session) (\<lambda>s. send_ok plain_env s \<and> payload_empty s)
   \<and> safe (maybe_flush_reply_queue plain_env init_session) (\<lambda>s. send_ok plain_env s \<and> payload_empty s)"
  using sending_safe [OF ready_send_ok plain_env_zlib] sending_safe [OF init_send_ok(1) plain_env_zlib] init_send_ok(2) by blast

text \<open>
  C13. Packets reach the kernel in order and without gaps.  \<open>write_packet\<close> offers the kernel
  a prefix of the bytes that are pending in the write queue, at least the first packet;
  when the kernel takes some of them, exactly those leave the queue, and
  \<open>writequeue_len\<close> counts what is left.
\<close>

theorem write_packet_in_order:
  assumes "send_ok env ses" "ses_writequeue ses \<noteq> []" "0 < iov_max"
  shows "\<exists>iov. packet_queue_to_iovec iov_max (ses_writequeue ses) 50 = Inr iov \<and> iov \<noteq> []
    \<and> (\<exists>rest. concat iov @ rest = pending (ses_writequeue ses))
    \<and> (\<forall>n. 0 < n \<and> n \<le> length (concat iov) \<longrightarrow> (\<exists>ses'. write_packet iov_max (Wr n) ses = Inr ses' \<and> send_ok env ses'
          \<and> take n (concat iov) @ pending (ses_writequeue ses') = pending (ses_writequeue ses)))"
proof -
  let ?q = "ses_writequeue ses"
  define m where "m = min (min (length ?q) iov_max) 50"
  define iov where "iov = map unread (take m ?q)"
  have q: "queue_ok ?q" using assms(1) by (simp add: send_ok_def)
  have iov: "packet_queue_to_iovec iov_max ?q 50 = Inr iov"
    unfolding packet_queue_to_iovec_def iov_def m_def by (rule iovecs_eq [OF q]) simp
  have split: "concat iov @ pending (drop m ?q) = pending ?q"
    unfolding iov_def pending_def by (simp flip: concat_append map_append)
  have ne: "iov \<noteq> []" using assms(2,3) by (simp add: iov_def m_def)
  have step: "\<exists>ses'. write_packet iov_max (Wr n) ses = Inr ses' \<and> send_ok env ses'
      \<and> take n (concat iov) @ pending (ses_writequeue ses') = pending ?q" if n: "0 < n" "n \<le> length (concat iov)" for n
  proof -
    have le: "n \<le> length (pending ?q)"
      using n(2) arg_cong [OF split, of length] by simp
    obtain q' where q': "packet_queue_consume ?q n = Inr q'" "queue_ok q'" "pending q' = drop n (pending ?q)"
      using consume_eq [OF q le] by blast
    have pre: "take n (concat iov) = take n (pending ?q)"
      using n(2) by (simp flip: split)
    show ?thesis
      using assms(1,2) iov q' n(1) le pre
      by (simp add: write_packet_def Let_def send_ok_def of_nat_diff)
  qed
  show ?thesis using iov ne split step by blast
qed

definition queued_session :: sshsession where
  "queued_session = init_session\<lparr>ses_writequeue := [buf_of [1, 2, 3], buf_of [4]], ses_writequeue_len := 4\<rparr>"

theorem write_packet_in_order_witness:
  "\<exists>ses'. write_packet 1 (Wr 2) queued_session = Inr ses' \<and> pending (ses_writequeue ses') = [3, 4]"
proof -
  have q: "ses_writequeue queued_session = [buf_of [1, 2, 3], buf_of [4]]" by (simp add: queued_session_def)
  have p: "pending (ses_writequeue queued_session) = [1, 2, 3, 4]" by (simp add: q unread_buf_of)
  have "send_ok plain_env queued_session"
    using init_send_ok(1) by (simp add: send_ok_def queued_session_def queue_ok_def wf_buf_of unread_buf_of)
      (simp add: buf_of_def)
  from write_packet_in_order [OF this, of 1] p
  obtain iov rest where iov: "packet_queue_to_iovec 1 (ses_writequeue queued_session) 50 = Inr iov"
    and step: "\<forall>n. 0 < n \<and> n \<le> length (concat iov) \<longrightarrow> (\<exists>ses'. write_packet 1 (Wr n) queued_session = Inr ses' \<and>
      send_ok plain_env ses' \<and> take n (concat iov) @ pending (ses_writequeue ses') = [1, 2, 3, 4])"
    by (auto simp: q)
  have "iov = [[1, 2, 3]]"
    using iov q iovecs_eq [of "ses_writequeue queued_session" 1] \<open>send_ok plain_env queued_session\<close>
    by (simp add: packet_queue_to_iovec_def send_ok_def unread_buf_of)
  then show ?thesis using step [rule_format, of 2] by auto
qed

end
