(* ===== verification/Buffer_Exact.thy ===== *)
theory Buffer_Exact
  imports Safe_Rules
begin

text \<open>
  Buffers with their length and position as natural numbers, and what each operation of
  \<open>buffer.c\<close> makes of one that is inside its bounds.  Proofs that follow the contents of
  a buffer through a handler rewrite with these equations.
\<close>

definition nbuf :: "byte list \<Rightarrow> nat \<Rightarrow> nat \<Rightarrow> buffer" where
  "nbuf d l p = \<lparr>b_data = d, b_len = of_nat l, b_pos = of_nat p, b_size = of_nat (length d)\<rparr>"

definition nbuf_ok :: "byte list \<Rightarrow> nat \<Rightarrow> nat \<Rightarrow> bool" where
  "nbuf_ok d l p \<longleftrightarrow> p \<le> l \<and> l \<le> length d \<and> length d \<le> 1000000000"

lemma nbuf_sel [simp]:
  "b_data (nbuf d l p) = d" "b_len (nbuf d l p) = of_nat l" "b_pos (nbuf d l p) = of_nat p"
  "b_size (nbuf d l p) = of_nat (length d)"
  by (simp_all add: nbuf_def)

lemma nbuf_unat:
  assumes "nbuf_ok d l p"
  shows "unat (of_nat l :: u32) = l" "unat (of_nat p :: u32) = p" "unat (of_nat (length d) :: u32) = length d"
  using assms by (simp_all add: nbuf_ok_def unat_u32_of_nat)

lemma wf_nbuf: "nbuf_ok d l p \<Longrightarrow> wf_buf (nbuf d l p)"
  by (rule wf_bufI) (simp_all add: nbuf_unat, simp_all add: nbuf_ok_def)

lemma nbuf_exists:
  assumes "wf_buf b"
  shows "b = nbuf (b_data b) (unat (b_len b)) (unat (b_pos b))" "nbuf_ok (b_data b) (unat (b_len b)) (unat (b_pos b))"
  using wf_bufD [OF assms] by (simp_all add: nbuf_def nbuf_ok_def)

lemma unread_nbuf: "nbuf_ok d l p \<Longrightarrow> unread (nbuf d l p) = take (l - p) (drop p d)"
  by (simp add: unread_def nbuf_unat drop_take)

lemma room_nbuf: "nbuf_ok d l p \<Longrightarrow> room (nbuf d l p) = length d - p"
  by (simp add: room_def nbuf_unat)

lemma setpos_nbuf:
  "nbuf_ok d l p \<Longrightarrow> unat w \<le> l \<Longrightarrow> buf_setpos (nbuf d l p) w = Inr (nbuf d l (unat w))"
  by (simp add: buf_setpos_eq wf_nbuf nbuf_unat nbuf_def)

lemma setlen_nbuf:
  assumes "nbuf_ok d l p" "unat w \<le> length d"
  shows "buf_setlen (nbuf d l p) w = Inr (nbuf d (unat w) (min p (unat w)))"
proof -
  have "min (of_nat p) w = (of_nat (min p (unat w)) :: u32)"
    using nbuf_unat(2) [OF assms(1)] by (auto simp: min_def u32_nat)
  then show ?thesis
    using assms nbuf_unat [OF assms(1)] by (simp add: buf_setlen_def u32_nat nbuf_def)
qed

lemma getptr_nbuf:
  "nbuf_ok d l p \<Longrightarrow> p + unat w \<le> l \<Longrightarrow> buf_getptr (nbuf d l p) w = Inr p"
  by (simp add: buf_getptr_eq wf_nbuf length_unread nbuf_unat)

lemma getwriteptr_nbuf:
  "nbuf_ok d l p \<Longrightarrow> p + unat w \<le> length d \<Longrightarrow> buf_getwriteptr (nbuf d l p) w = Inr p"
  by (simp add: buf_getwriteptr_eq wf_nbuf room_nbuf nbuf_unat)

lemma incrpos_nbuf:
  assumes "nbuf_ok d l p" "p + unat w \<le> l"
  shows "buf_incrpos (nbuf d l p) w = Inr (nbuf d l (p + unat w))"
proof -
  have "advance (nbuf d l p) (unat w) = nbuf d l (p + unat w)"
    by (simp add: advance_def nbuf_def)
  then show ?thesis
    using assms by (simp add: buf_incrpos_eq wf_nbuf length_unread nbuf_unat)
qed

lemma max_of_nat: "a < 4294967296 \<Longrightarrow> b < 4294967296 \<Longrightarrow> max (of_nat a) (of_nat b) = (of_nat (max a b) :: u32)"
  by (simp add: max_def u32_nat unat_u32_of_nat)

lemma incrwritepos_nbuf:
  assumes "nbuf_ok d l p" "p + unat w \<le> length d"
  shows "buf_incrwritepos (nbuf d l p) w = Inr (nbuf d (max l (p + unat w)) (p + unat w))"
proof -
  have w: "of_nat p + w = of_nat (p + unat w)" by simp
  have "max (of_nat l) (of_nat p + w) = (of_nat (max l (p + unat w)) :: u32)"
    unfolding w using assms by (intro max_of_nat) (simp_all add: nbuf_ok_def)
  then have "(nbuf d l p)\<lparr>b_pos := of_nat p + w, b_len := max (of_nat l) (of_nat p + w)\<rparr>
      = nbuf d (max l (p + unat w)) (p + unat w)"
    by (simp add: nbuf_def)
  moreover have "unat w \<le> room (nbuf d l p)"
    using assms by (simp add: room_nbuf)
  ultimately show ?thesis
    by (simp add: buf_incrwritepos_eq [OF wf_nbuf [OF assms(1)]])
qed

lemma incrlen_nbuf:
  assumes "nbuf_ok d l p" "l + unat w \<le> length d"
  shows "buf_incrlen (nbuf d l p) w = Inr (nbuf d (l + unat w) p)"
proof -
  have "unat (of_nat l + w) = l + unat w"
    using assms nbuf_unat [OF assms(1)] by (subst unat_u32_add) (simp_all add: nbuf_ok_def)
  then show ?thesis
    using assms nbuf_unat [OF assms(1)]
    by (simp add: buf_incrlen_def u32_nat BUF_MAX_INCR_def nbuf_def nbuf_ok_def)
qed

definition splice :: "byte list \<Rightarrow> nat \<Rightarrow> byte list \<Rightarrow> byte list" where
  "splice d p bs = take p d @ bs @ drop (p + length bs) d"

lemma length_splice [simp]: "p + length bs \<le> length d \<Longrightarrow> length (splice d p bs) = length d"
  by (simp add: splice_def)

lemma mem_write_splice: "p + length bs \<le> length d \<Longrightarrow> mem_write d p bs = Inr (splice d p bs)"
  by (simp add: mem_write_ok splice_def)

lemma overwrite_nbuf:
  assumes "nbuf_ok d l p" "p + length bs \<le> length d"
  shows "overwrite (nbuf d l p) bs = nbuf (splice d p bs) (max l (p + length bs)) (p + length bs)"
proof -
  have "max (of_nat l) (of_nat (p + length bs)) = (of_nat (max l (p + length bs)) :: u32)"
    using assms by (intro max_of_nat) (simp_all add: nbuf_ok_def)
  then show ?thesis
    using assms nbuf_unat [OF assms(1)] by (simp add: overwrite_def splice_def nbuf_def)
qed

lemma putint_nbuf:
  "nbuf_ok d l p \<Longrightarrow> p + 4 \<le> length d \<Longrightarrow>
     buf_putint (nbuf d l p) v = Inr (nbuf (splice d p (STORE32H v)) (max l (p + 4)) (p + 4))"
  by (simp add: buf_putint_eq wf_nbuf room_nbuf overwrite_nbuf)

lemma putbyte_nbuf:
  "nbuf_ok d l p \<Longrightarrow> p + 1 \<le> length d \<Longrightarrow>
     buf_putbyte (nbuf d l p) v = Inr (nbuf (splice d p [v]) (max l (p + 1)) (p + 1))"
  by (simp add: buf_putbyte_eq wf_nbuf room_nbuf overwrite_nbuf)

lemma putbytes_nbuf:
  "nbuf_ok d l p \<Longrightarrow> unat w \<le> length bs \<Longrightarrow> p + unat w \<le> length d \<Longrightarrow>
     buf_putbytes (nbuf d l p) bs w = Inr (nbuf (splice d p (take (unat w) bs)) (max l (p + unat w)) (p + unat w))"
  by (simp add: buf_putbytes_eq wf_nbuf room_nbuf overwrite_nbuf)

lemma getbyte_nbuf:
  assumes "nbuf_ok d l p" "p < l"
  shows "buf_getbyte (nbuf d l p) = Inr (d ! p, nbuf d l (p + 1))"
proof -
  have "unread (nbuf d l p) = d ! p # take (l - p - 1) (drop (p + 1) d)"
    using assms by (simp add: unread_nbuf nbuf_ok_def Cons_nth_drop_Suc [symmetric] take_Cons')
  moreover have "advance (nbuf d l p) 1 = nbuf d l (p + 1)"
    by (simp add: advance_def nbuf_def)
  ultimately show ?thesis
    using assms(1) by (simp add: buf_getbyte_eq wf_nbuf)
qed

lemma new_nbuf: "unat w \<le> 1000000000 \<Longrightarrow> buf_new w = Inr (nbuf (replicate (unat w) 0) 0 0)"
  by (simp add: buf_new_eq nbuf_def)

lemma data_nbuf [simp]: "length d' = length d \<Longrightarrow> (nbuf d l p)\<lparr>b_data := d'\<rparr> = nbuf d' l p"
  by (simp add: nbuf_def)

lemma getint_nbuf:
  assumes "nbuf_ok d l p" "p + 4 \<le> l"
  shows "buf_getint (nbuf d l p) = Inr (LOAD32H (take 4 (drop p d)), nbuf d l (p + 4))"
proof -
  have "advance (nbuf d l p) 4 = nbuf d l (p + 4)"
    by (simp add: advance_def nbuf_def)
  moreover have "length (unread (nbuf d l p)) = l - p"
    using assms(1) by (simp add: length_unread wf_nbuf nbuf_unat)
  moreover have "take 4 (unread (nbuf d l p)) = take 4 (drop p d)"
    using assms by (simp add: unread_nbuf nbuf_ok_def min_def)
  ultimately show ?thesis
    using assms by (simp add: buf_getint_eq wf_nbuf)
qed

lemma resize_nbuf:
  assumes "nbuf_ok d l p" "length d \<le> unat w" "unat w \<le> 1000000000"
  shows "\<exists>z. length z = unat w - length d \<and> buf_resize fr (nbuf d l p) w = Inr (nbuf (d @ z) l p)"
proof -
  let ?z = "map fr [length d..<unat w]"
  have "of_nat l \<le> w" "of_nat p \<le> w" "\<not> w > BUF_MAX_SIZE"
    using assms nbuf_unat [OF assms(1)] by (auto simp: u32_nat BUF_MAX_SIZE_def nbuf_ok_def)
  then have "buf_resize fr (nbuf d l p) w = Inr (nbuf (d @ ?z) l p)"
    using assms(2) by (simp add: buf_resize_def m_realloc_def nbuf_def min_absorb2)
  then show ?thesis by (intro exI [of _ ?z]) simp
qed

end
