(* ===== verification/Packet_Roundtrip.thy ===== *)
theory Packet_Roundtrip
  imports Packet_Send Buffer_Exact
begin

text \<open>
  What goes over the wire, byte for byte, and that the receiving side recovers it: the
  packet \<open>encrypt_packet\<close> builds, and \<open>read_packet\<close> on its bytes in any fragmentation.
\<close>

section \<open>The bytes of a packet\<close>

definition padding_of :: "bool \<Rightarrow> nat \<Rightarrow> nat \<Rightarrow> nat" where
  "padding_of aead bs n = pad_nat bs (5 + n) (if aead then 1 + n else 5 + n)"

definition clear_packet :: "env \<Rightarrow> u32 \<Rightarrow> bool \<Rightarrow> nat \<Rightarrow> byte list \<Rightarrow> byte list" where
  "clear_packet env seq aead bs pl =
     (let p = padding_of aead bs (length pl) in
      STORE32H (of_nat (1 + length pl + p)) @ of_nat p # pl @ map (ce_rnd env seq) [0..<p])"

lemma length_clear_packet: "length (clear_packet env seq aead bs pl) = 5 + length pl + padding_of aead bs (length pl)"
  by (simp add: clear_packet_def Let_def)

lemma padding_of_props:
  assumes "8 \<le> bs" "bs \<le> 128" "1 \<le> n"
  shows "4 \<le> padding_of aead bs n" "padding_of aead bs n \<le> bs + 9" "padding_of aead bs n < 256"
    "16 \<le> 5 + n + padding_of aead bs n" "\<not> aead \<Longrightarrow> bs dvd 5 + n + padding_of aead bs n"
    "aead \<Longrightarrow> bs dvd 1 + n + padding_of aead bs n"
  using assms pad_nat_props [of bs "5 + n" "if aead then 1 + n else 5 + n"]
  by (auto simp: padding_of_def)

lemma put_payload_nbuf:
  assumes "\<not> is_compress_trans ses kd" "nbuf_ok D n 0" "5 + n \<le> S" "S \<le> 1000000000"
  shows "put_payload env ses kd (nbuf (replicate S 0) 5 5) (nbuf D n 0) =
    Inr (nbuf (replicate 5 0 @ take n D @ replicate (S - (5 + n)) 0) (5 + n) (5 + n), nbuf D n 0, kd)"
proof -
  have ok: "nbuf_ok (replicate S 0) 5 5" using assms(3,4) by (simp add: nbuf_ok_def)
  have n: "unat (of_nat n :: u32) = n" using assms(2) by (rule nbuf_unat)
  have D: "n \<le> length D" using assms(2) by (simp add: nbuf_ok_def)
  have sp: "splice (replicate S 0) 5 (take n D) = replicate 5 0 @ take n D @ replicate (S - (5 + n)) 0"
    using assms(3) D by (simp add: splice_def min_def)
  have ok2: "nbuf_ok (replicate 5 0 @ take n D @ replicate (S - (5 + n)) 0) 5 5"
    using assms(3,4) D by (simp add: nbuf_ok_def)
  show ?thesis
    using assms(1,3) n D
    by (simp add: put_payload_def getwriteptr_nbuf [OF ok] getptr_nbuf [OF assms(2)] mem_read_ok mem_write_splice sp
        incrwritepos_nbuf [OF ok2])
qed

lemma pad_packet_nbuf:
  assumes "8 \<le> unat bs" "unat bs \<le> 128" "1 \<le> length pl" "aead = (cm_aead_crypt md \<noteq> None)"
    and "padding_of aead (unat bs) (length pl) \<le> R" "5 + length pl + R \<le> 1000000000"
  shows "pad_packet env ses md bs (nbuf (replicate 5 0 @ pl @ replicate R 0) (5 + length pl) (5 + length pl)) =
    Inr (nbuf (clear_packet env (ses_transseq ses) aead (unat bs) pl @ replicate (R - padding_of aead (unat bs) (length pl)) 0)
          (5 + length pl + padding_of aead (unat bs) (length pl)) (5 + length pl))"
proof -
  let ?n = "length pl" and ?d = "replicate 5 0 @ pl @ replicate R (0 :: byte)"
  define p where "p = padding_of aead (unat bs) ?n"
  let ?len = "of_nat (5 + ?n) :: u32"
  have p: "p < 256" "p \<le> R" using padding_of_props(3) [OF assms(1-3)] assms(5) by (simp_all add: p_def)
  have ul: "unat ?len = 5 + ?n" "unat (?len - 4) = 1 + ?n"
    using assms(6) by (simp_all add: unat_u32_of_nat unat_u32_sub del: of_nat_add)
  obtain b where b: "padding_len bs ?len (case cm_aead_crypt md of Some _ \<Rightarrow> ?len - 4 | None \<Rightarrow> ?len) = Inr b" "unat b = p"
  proof -
    have "unat (case cm_aead_crypt md of Some _ \<Rightarrow> ?len - 4 | None \<Rightarrow> ?len) = (if aead then 1 + ?n else 5 + ?n)"
      using ul assms(4) by (auto split: option.split simp del: of_nat_add)
    then show ?thesis
      using padding_len_nat [OF assms(1,2), of ?len "case cm_aead_crypt md of Some _ \<Rightarrow> ?len - 4 | None \<Rightarrow> ?len"]
        assms(3,6) that ul by (auto simp: p_def padding_of_def simp del: of_nat_add)
  qed
  have bn: "b = of_nat p" unfolding b(2) [symmetric] by simp
  have ub: "unat (ucast b :: u32) = p" using b(2) by (simp add: unat_ucast_byte)
  define v where "v = (of_nat (1 + ?n + p) :: u32)"
  have v: "?len + ucast b - 4 = v"
    unfolding v_def using ub ul p assms(6) by (simp add: u32_eq_nat unat_u32_sub unat_u32_add unat_u32_of_nat del: of_nat_add)
  let ?rnd = "map (ce_rnd env (ses_transseq ses)) [0..<p]"
  let ?d1 = "STORE32H v @ 0 # pl @ replicate R (0 :: byte)" and ?d2 = "STORE32H v @ b # pl @ replicate R (0 :: byte)"
  let ?d3 = "STORE32H v @ b # pl @ ?rnd @ replicate (R - p) (0 :: byte)"
  have ok: "nbuf_ok ?d (5 + ?n) 0" "nbuf_ok ?d (5 + ?n) (5 + ?n)" "nbuf_ok ?d1 (5 + ?n) 4" "nbuf_ok ?d2 (5 + ?n) 5"
    "nbuf_ok ?d2 (5 + ?n) (5 + ?n)" "nbuf_ok ?d2 (5 + ?n + p) (5 + ?n)"
    using assms(6) p by (simp_all add: nbuf_ok_def)
  have sp: "splice ?d 0 (STORE32H v) = ?d1" "splice ?d1 4 [b] = ?d2" "splice ?d2 (5 + ?n) ?rnd = ?d3"
    using p by (simp_all add: splice_def numeral_nat)
  have "pad_packet env ses md bs (nbuf ?d (5 + ?n) (5 + ?n)) = Inr (nbuf ?d3 (5 + ?n + p) (5 + ?n))"
    unfolding pad_packet_def nbuf_sel b(1) bindE_simps
    using b(2) p ub ul ok(6)
    by (simp add: setpos_nbuf [OF ok(2)] putint_nbuf [OF ok(1)] v sp(1) putbyte_nbuf [OF ok(3)] sp(2)
        setpos_nbuf [OF ok(4)] incrlen_nbuf [OF ok(5)] getptr_nbuf [OF ok(6)] mem_write_splice sp(3)
        nbuf_unat [OF ok(5)] del: of_nat_add)
  then show ?thesis
    by (simp add: clear_packet_def Let_def bn v_def flip: p_def)
qed

lemma fill_packet_nbuf:
  assumes "8 \<le> unat bs" "unat bs \<le> 128" "unat ms \<le> MAX_MAC_LEN" "\<not> is_compress_trans ses kd"
    and "nbuf_ok D n 0" "1 \<le> n" "length D \<le> 16384" "aead = (cm_aead_crypt md \<noteq> None)"
  shows "\<exists>Z. unat ms \<le> length Z \<and> length Z \<le> 1000 \<and>
    fill_packet env ses kd md bs ms (nbuf D n 0) =
      Inr (nbuf (clear_packet env (ses_transseq ses) aead (unat bs) (take n D) @ Z)
            (length (clear_packet env (ses_transseq ses) aead (unat bs) (take n D))) (5 + n), nbuf D 0 0, kd)"
proof -
  let ?S = "(of_nat n + 4 + 1) + max MIN_PACKET_LEN (ucast bs) + 3 + ucast ms + ZLIB_COMPRESS_EXPANSION + 1 :: u32"
  define R where "R = max 16 (unat bs) + 25 + unat ms"
  define p where "p = padding_of aead (unat bs) n"
  have n: "n \<le> length D" "n \<le> 16384" using assms(5,7) by (simp_all add: nbuf_ok_def)
  have un: "unat (of_nat n :: u32) = n" using n by (simp add: unat_u32_of_nat)
  have um: "unat (max MIN_PACKET_LEN (ucast bs :: u32)) = max 16 (unat bs)"
    by (simp add: max_def MIN_PACKET_LEN_def u32_nat unat_ucast_byte)
  have S: "unat ?S = 5 + n + R"
    using n(2) assms(2,3) un um
    by (simp add: unat_u32_add unat_ucast_byte R_def ZLIB_COMPRESS_EXPANSION_def RECV_MAX_PAYLOAD_LEN_def MAX_MAC_LEN_def)
  have R: "R \<le> 200" using assms(2,3) by (simp add: R_def MAX_MAC_LEN_def)
  have p: "p \<le> R - unat ms" using padding_of_props(2) [OF assms(1,2,6), of aead] by (simp add: p_def R_def)
  have pay: "put_payload env ses kd (nbuf (replicate (5 + n + R) 0) 5 5) (nbuf D n 0) =
      Inr (nbuf (replicate 5 0 @ take n D @ replicate R 0) (5 + n) (5 + n), nbuf D n 0, kd)"
    using put_payload_nbuf [OF assms(4,5), of "5 + n + R" env] n R by simp
  have pad: "pad_packet env ses md bs (nbuf (replicate 5 0 @ take n D @ replicate R 0) (5 + n) (5 + n)) =
      Inr (nbuf (clear_packet env (ses_transseq ses) aead (unat bs) (take n D) @ replicate (R - p) 0) (5 + n + p) (5 + n))"
    using pad_packet_nbuf [OF assms(1,2) _ assms(8), of "take n D" R env ses] n R p assms(6) by (simp add: p_def min_absorb2)
  have ok: "nbuf_ok (replicate (5 + n + R) (0 :: byte)) 0 0" "nbuf_ok (replicate (5 + n + R) (0 :: byte)) 5 0" "nbuf_ok D 0 0"
    using n R assms(7) by (simp_all add: nbuf_ok_def)
  have "fill_packet env ses kd md bs ms (nbuf D n 0) =
      Inr (nbuf (clear_packet env (ses_transseq ses) aead (unat bs) (take n D) @ replicate (R - p) 0) (5 + n + p) (5 + n),
           nbuf D 0 0, kd)"
    unfolding fill_packet_def Let_def nbuf_sel
    using S n R assms(5)
    by (simp add: new_nbuf PACKET_PAYLOAD_OFF_def setlen_nbuf [OF ok(1)] setpos_nbuf [OF ok(2)] pay
        setpos_nbuf [OF assms(5)] setlen_nbuf [OF assms(5)] pad)
  moreover have "unat ms \<le> R" by (simp add: R_def)
  then have "unat ms \<le> R - p" "R - p \<le> 1000" using p R by linarith+
  ultimately show ?thesis
    using n by (intro exI [of _ "replicate (R - p) 0"]) (simp add: length_clear_packet min_absorb2 flip: p_def)
qed

text \<open>The MAC of a packet.\<close>

definition packet_mac :: "env \<Rightarrow> key_context_directional \<Rightarrow> dropbear_hash \<Rightarrow> u32 \<Rightarrow> byte list \<Rightarrow> byte list option" where
  "packet_mac env kd m seq clear =
     (if dh_hashsize m > 0
      then map_option (take MAX_MAC_LEN) (ce_hmac env (kd_hash_index kd) (take (dh_keysize m) (kd_mackey kd)) (STORE32H seq @ clear))
      else Some [])"

lemma packet_mac_state [simp]: "packet_mac env (kd\<lparr>kd_cipher_state := r\<rparr>) m seq x = packet_mac env kd m seq x"
  by (simp add: packet_mac_def)

lemma make_mac_nbuf:
  assumes "kd_algo_mac kd = Some m" "dh_keysize m \<le> length (kd_mackey kd)" "nbuf_ok d l p" "n = unat w" "n \<le> l"
    and "packet_mac env kd m seq (take n d) = Some mac"
  shows "\<exists>p'. make_mac env seq kd (nbuf d l p) w = Inr (mac, nbuf d l p') \<and> p' \<le> l"
proof (cases "dh_hashsize m > 0")
  case True
  have ok: "nbuf_ok d l 0" using assms(3) by (simp add: nbuf_ok_def)
  have l: "n \<le> length d" using assms(3,5) by (simp add: nbuf_ok_def)
  show ?thesis
    using True assms l
    by (intro exI [of _ 0])
      (auto simp: make_mac_def packet_mac_def mem_read_ok setpos_nbuf [OF assms(3)] getptr_nbuf [OF ok] split: option.splits)
next
  case False
  then show ?thesis
    using assms by (intro exI [of _ p]) (simp add: make_mac_def packet_mac_def nbuf_ok_def)
qed

lemma crypt_nbuf:
  assumes "nbuf_ok d l p" "p + unat i \<le> l" "f (take (unat i) (drop p d)) st = Some (out, st')"
    and "length out = unat j" "p + unat j \<le> length d"
  shows "crypt_in_place f err (nbuf d l p) i j st = Inr (nbuf (splice d p out) l p, st')"
proof -
  have "p + unat i \<le> length d" using assms(1,2) by (simp add: nbuf_ok_def)
  then show ?thesis
    using assms by (simp add: crypt_in_place_def getptr_nbuf getwriteptr_nbuf mem_read_ok mem_write_splice)
qed

text \<open>Everything of a packet that is on the wire, for a cipher mode without AEAD.\<close>

lemma encrypt_body_nbuf:
  assumes "kd_algo_mac kd = Some m" "dh_keysize m \<le> length (kd_mackey kd)" "unat (dh_hashsize m) \<le> MAX_MAC_LEN"
    and "cm_aead_crypt md = None" "packet_mac env kd m (ses_transseq ses) clear = Some mac"
    and "unat (dh_hashsize m) \<le> length mac"
    and "cm_encrypt md clear (kd_cipher_state kd) = Some (ct, st)" "length ct = length clear"
    and "unat (dh_hashsize m) \<le> length Z" "length clear + length Z \<le> 1000000000" "p \<le> length clear"
  shows "encrypt_body env ses kd md (dh_hashsize m) (nbuf (clear @ Z) (length clear) p) =
    Inr (nbuf (ct @ take (unat (dh_hashsize m)) mac @ drop (unat (dh_hashsize m)) Z)
          (length clear + unat (dh_hashsize m)) (length clear + unat (dh_hashsize m)), st)"
proof -
  let ?n = "length clear" and ?ms = "unat (dh_hashsize m)"
  have ok: "nbuf_ok (clear @ Z) ?n p" "nbuf_ok (clear @ Z) ?n 0" "nbuf_ok (ct @ Z) ?n 0" "nbuf_ok (ct @ Z) ?n ?n"
    using assms(8,10,11) by (simp_all add: nbuf_ok_def)
  have n: "unat (of_nat ?n :: u32) = ?n" using nbuf_unat [OF ok(1)] by simp
  have ms: "unat (ucast (dh_hashsize m) :: u32) = ?ms" by (simp add: unat_ucast_byte)
  obtain p' where mac: "make_mac env (ses_transseq ses) kd (nbuf (clear @ Z) ?n p) (of_nat ?n) = Inr (mac, nbuf (clear @ Z) ?n p')"
    and p': "p' \<le> ?n"
    using make_mac_nbuf [OF assms(1,2) ok(1), of ?n "of_nat ?n" env "ses_transseq ses" mac] n assms(5) by auto
  have ok': "nbuf_ok (clear @ Z) ?n p'" using ok(1) p' by (simp add: nbuf_ok_def)
  have sp: "splice (clear @ Z) 0 ct = ct @ Z" "splice (ct @ Z) ?n (take ?ms mac) = ct @ take ?ms mac @ drop ?ms Z"
    using assms(6,8) by (simp_all add: splice_def min_absorb2)
  have crypt: "crypt_in_place (cm_encrypt md) ''Error encrypting'' (nbuf (clear @ Z) ?n 0) (of_nat ?n) (of_nat ?n)
      (kd_cipher_state kd) = Inr (nbuf (ct @ Z) ?n 0, st)"
    using crypt_nbuf [OF ok(2), of "of_nat ?n" "cm_encrypt md" "kd_cipher_state kd" ct st "of_nat ?n" "''Error encrypting''"]
      n assms(7,8) sp(1) by simp
  show ?thesis
    unfolding encrypt_body_def assms(4) option.case nbuf_sel mac bindE_simps prod.case Let_def
    using n ms assms(6,8,9)
    by (simp add: setpos_nbuf [OF ok'] crypt incrpos_nbuf [OF ok(3)] putbytes_nbuf [OF ok(4)] sp(2))
qed

definition payload_of :: "sshsession \<Rightarrow> byte list" where
  "payload_of ses = take (unat (b_len (ses_writepayload ses))) (b_data (ses_writepayload ses))"

text \<open>
  \<open>encrypt_packet\<close> queues exactly the encrypted packet and its MAC, and steps the cipher
  state and the sequence number.
\<close>

lemma encrypt_packet_wire:
  assumes "send_ok env ses" "ses_keys ses = Some k" "kd = kc_trans k"
    and "kd_algo_crypt kd = Some c" "kd_algo_mac kd = Some m" "kd_crypt_mode kd = Some md" "cm_aead_crypt md = None"
    and "\<not> is_compress_trans ses kd" "payload_of ses = pl" "pl \<noteq> []" "ses_dataallowed ses \<or> packet_is_okay_kex (hd pl)"
    and "clear = clear_packet env (ses_transseq ses) False (unat (dc_blocksize c)) pl"
    and "packet_mac env kd m (ses_transseq ses) clear = Some mac" "unat (dh_hashsize m) \<le> length mac"
    and "cm_encrypt md clear (kd_cipher_state kd) = Some (ct, st)" "length ct = length clear"
  shows "\<exists>ses' w. encrypt_packet env ses = Inr ses' \<and> ses_writequeue ses' = ses_writequeue ses @ [w]
    \<and> unread w = ct @ take (unat (dh_hashsize m)) mac \<and> ses_keys ses' = Some (k\<lparr>kc_trans := kd\<lparr>kd_cipher_state := st\<rparr>\<rparr>)
    \<and> ses_transseq ses' = ses_transseq ses + 1 \<and> ses_dataallowed ses' = ses_dataallowed ses
    \<and> ses_authstate ses' = ses_authstate ses"
proof -
  let ?wp = "ses_writepayload ses" and ?n = "length pl" and ?ms = "unat (dh_hashsize m)"
  let ?D = "b_data ?wp"
  have wf: "wf_buf ?wp" "b_size ?wp = TRANS_MAX_PAYLOAD_LEN" and dir: "wf_dir env kd"
    using assms(1-3) by (auto simp: send_ok_def)
  have n: "unat (b_len ?wp) = ?n" using assms(9) wf_bufD [OF wf(1)] by (auto simp: payload_of_def)
  have wp: "?wp = nbuf ?D ?n (unat (b_pos ?wp))" and okp: "nbuf_ok ?D ?n (unat (b_pos ?wp))"
    using nbuf_exists [OF wf(1)] n by simp_all
  have D: "length ?D \<le> 16384" using wf_bufD(1) [OF wf(1)] wf(2) by (simp add: TRANS_MAX_PAYLOAD_LEN_def)
  have n1: "1 \<le> ?n" using assms(10) by (cases pl) simp_all
  have pl: "take ?n ?D = pl" using assms(9) n by (simp add: payload_of_def)
  have okD: "nbuf_ok ?D ?n 0" "nbuf_ok ?D ?n 1" using okp n1 by (simp_all add: nbuf_ok_def)
  have hd: "?D ! 0 = hd pl" using pl n1 assms(10) by (metis hd_conv_nth length_greater_0_conv nth_take)
  have sizes: "8 \<le> unat (dc_blocksize c)" "unat (dc_blocksize c) \<le> 128" "?ms \<le> MAX_MAC_LEN" "dh_keysize m \<le> length (kd_mackey kd)"
    using dir assms(4,5) by (auto simp: wf_dir_def)
  define ses1 where "ses1 = ses\<lparr>ses_writepayload := nbuf ?D ?n 0\<rparr>"
  have f1: "ses_transseq ses1 = ses_transseq ses" "is_compress_trans ses1 kd = is_compress_trans ses kd"
    by (simp_all add: ses1_def is_compress_trans_def)
  obtain Z where Z: "?ms \<le> length Z" "length Z \<le> 1000"
    and fill: "fill_packet env ses1 kd md (dc_blocksize c) (dh_hashsize m) (nbuf ?D ?n 0) =
      Inr (nbuf (clear @ Z) (length clear) (5 + ?n), nbuf ?D 0 0, kd)"
    using fill_packet_nbuf [OF sizes(1-3) _ okD(1) n1 D, of ses1 kd False md env] assms(7,8) f1 pl
    unfolding assms(12) by auto
  have cl: "length clear \<le> 20000" "5 + ?n \<le> length clear"
    using padding_of_props(3) [OF sizes(1,2) n1, of False] D okD(1) assms(12)
    by (simp_all add: length_clear_packet nbuf_ok_def)
  let ?L = "length clear + ?ms" and ?W = "ct @ take ?ms mac @ drop ?ms Z"
  define ses2 where "ses2 = ses1\<lparr>ses_writepayload := nbuf ?D 0 0\<rparr>"
  have t2: "ses_transseq ses2 = ses_transseq ses" by (simp add: ses2_def f1)
  have body: "encrypt_body env ses2 kd md (dh_hashsize m) (nbuf (clear @ Z) (length clear) (5 + ?n)) = Inr (nbuf ?W ?L ?L, st)"
    using assms(13) Z cl
    by (intro encrypt_body_nbuf [OF assms(5) sizes(4,3) assms(7) _ assms(14,15,16)]) (simp_all add: t2)
  have okW: "nbuf_ok ?W ?L ?L" "nbuf_ok ?W ?L 0"
    using assms(14,16) Z cl sizes(3) by (simp_all add: nbuf_ok_def MAX_MAC_LEN_def min_absorb2)
  have w: "unread (nbuf ?W ?L 0) = ct @ take ?ms mac"
    using assms(14,16) by (simp add: unread_nbuf [OF okW(2)] min_absorb2)
  have gb: "buf_getbyte (nbuf ?D ?n 0) = Inr (hd pl, nbuf ?D ?n 1)"
    using getbyte_nbuf [OF okD(1)] n1 hd assms(10) by simp
  have start: "buf_setpos ?wp 0 = Inr (nbuf ?D ?n 0)" "buf_setpos (nbuf ?D ?n 1) 0 = Inr (nbuf ?D ?n 0)"
    using setpos_nbuf [OF okp, of 0] setpos_nbuf [OF okD(2), of 0] by (simp_all flip: wp)
  have da: "ses_dataallowed ses1 = ses_dataallowed ses" by (simp add: ses1_def)
  have keys: "trans_keys ses1 = Inr kd" using assms(2,3) by (simp add: ses1_def trans_keys_def)
  show ?thesis
    unfolding encrypt_packet_def start gb bindE_simps prod.case Let_def ses1_def [symmetric]
    using assms(11) da
    by (simp add: keys assms(4-6) fill ses2_def [symmetric] body writebuf_enqueue_def setpos_nbuf [OF okW(1)])
      (auto simp: ses2_def ses1_def set_trans_keys_def set_kexstate_def assms(2) w)
qed

section \<open>Receiving the bytes of a packet\<close>

text \<open>
  A packet on its way to a receiver with the keys \<open>kd\<close>: \<open>clear\<close> is its plain text, \<open>ct\<close> what
  is sent, \<open>mac\<close> its MAC.  The receiver decrypts the first block, then the rest; \<open>r1\<close> and
  \<open>r2\<close> are its cipher states after these.
\<close>

definition in_flight :: "env \<Rightarrow> key_context_directional \<Rightarrow> u32 \<Rightarrow> nat \<Rightarrow> nat \<Rightarrow> byte list \<Rightarrow> byte list \<Rightarrow> byte list \<Rightarrow> byte list
    \<Rightarrow> cipher_state \<Rightarrow> cipher_state \<Rightarrow> bool" where
  "in_flight env kd seq bs ms pl clear ct mac r1 r2 \<longleftrightarrow> (\<exists>c m md pad. kd_algo_crypt kd = Some c \<and> kd_algo_mac kd = Some m
     \<and> kd_crypt_mode kd = Some md \<and> cm_aead_crypt md = None \<and> wf_dir env kd \<and> bs = unat (dc_blocksize c)
     \<and> ms = unat (dh_hashsize m) \<and> pl \<noteq> [] \<and> length pl \<le> 16384 \<and> length pad = padding_of False bs (length pl)
     \<and> clear = STORE32H (of_nat (1 + length pl + length pad)) @ of_nat (length pad) # pl @ pad
     \<and> packet_mac env kd m seq clear = Some mac \<and> ms \<le> length mac \<and> length ct = length clear
     \<and> cm_decrypt md (take bs ct) (kd_cipher_state kd) = Some (take bs clear, r1)
     \<and> cm_decrypt md (drop bs ct) r1 = Some (drop bs clear, r2))"

lemma in_flight_sizes:
  assumes "in_flight env kd seq bs ms pl clear ct mac r1 r2"
  shows "8 \<le> bs" "bs \<le> 128" "ms \<le> 32" "bs dvd length clear" "bs \<le> length clear" "length clear \<le> 17000" "length ct = length clear"
    "16 \<le> length clear" "1 \<le> length pl" "length pl \<le> 16384" "ms \<le> length mac"
    "length clear = 5 + length pl + padding_of False bs (length pl)" "padding_of False bs (length pl) < 256"
proof -
  from assms obtain c m pad where *: "kd_algo_crypt kd = Some c" "kd_algo_mac kd = Some m" "wf_dir env kd" "bs = unat (dc_blocksize c)"
    "ms = unat (dh_hashsize m)" "pl \<noteq> []" "length pl \<le> 16384" "length pad = padding_of False bs (length pl)"
    "clear = STORE32H (of_nat (1 + length pl + length pad)) @ of_nat (length pad) # pl @ pad"
    "ms \<le> length mac" "length ct = length clear"
    unfolding in_flight_def by blast
  show bs: "8 \<le> bs" "bs \<le> 128" "ms \<le> 32" using *(1-5) by (auto simp: wf_dir_def MAX_MAC_LEN_def)
  show n: "1 \<le> length pl" using *(6) by (cases pl) simp_all
  note p = padding_of_props [OF bs(1,2) n, of False]
  show l: "length clear = 5 + length pl + padding_of False bs (length pl)" using *(8,9) by simp
  show "padding_of False bs (length pl) < 256" "length pl \<le> 16384" "ms \<le> length mac" "length ct = length clear"
    "bs dvd length clear" "16 \<le> length clear" "length clear \<le> 17000"
    using p *(7,10,11) l by simp_all
  show "bs \<le> length clear"
    using p(5) l by (simp add: dvd_imp_le)
qed

lemma checkmac_nbuf:
  assumes "kd_algo_mac kd = Some m" "dh_keysize m \<le> length (kd_mackey kd)" "ms = unat (dh_hashsize m)"
    and "nbuf_ok d (n + ms) p" "packet_mac env kd m seq (take n d) = Some mac" "ms \<le> length mac"
    and "take ms (drop n d) = take ms mac"
  shows "checkmac env seq kd (nbuf d (n + ms) p) = Inr (DROPBEAR_SUCCESS, nbuf d (n + ms) n)"
proof -
  let ?ms = "ucast (dh_hashsize m) :: u32" and ?w = "of_nat (n + ms) - ucast (dh_hashsize m) :: u32"
  have ums: "unat ?ms = ms" using assms(3) by (simp add: unat_ucast_byte)
  have w: "unat ?w = n"
    using ums nbuf_unat(1) [OF assms(4)] by (simp add: unat_u32_sub del: of_nat_add)
  have ok: "nbuf_ok d (n + ms) 0" "nbuf_ok d (n + ms) n" using assms(4) by (simp_all add: nbuf_ok_def)
  obtain p' where mac: "make_mac env seq kd (nbuf d (n + ms) 0) ?w = Inr (mac, nbuf d (n + ms) p')" and p': "p' \<le> n + ms"
    using make_mac_nbuf [OF assms(1,2) ok(1) w [symmetric] _ assms(5)] by auto
  have ok': "nbuf_ok d (n + ms) p'" using assms(4) p' by (simp add: nbuf_ok_def)
  have len: "n + ms \<le> length d" using assms(4) by (simp add: nbuf_ok_def)
  have cmp: "constant_time_memcmp mac (drop n d) ms = Inr 0"
    using constant_time_memcmp_eq [of ms mac "drop n d"] assms(6,7) len by auto
  show ?thesis
    unfolding checkmac_def assms(1) nn_simps bindE_simps Let_def nbuf_sel
    using w ums by (simp add: setpos_nbuf [OF assms(4)] mac setpos_nbuf [OF ok'] getptr_nbuf [OF ok(2)] cmp del: of_nat_add)
qed

lemma in_flightE:
  assumes "in_flight env kd seq bs ms pl clear ct mac r1 r2"
  obtains c m md pad where "kd_algo_crypt kd = Some c" "kd_algo_mac kd = Some m" "kd_crypt_mode kd = Some md"
    "cm_aead_crypt md = None" "dh_keysize m \<le> length (kd_mackey kd)" "bs = unat (dc_blocksize c)" "ms = unat (dh_hashsize m)"
    "clear = STORE32H (of_nat (1 + length pl + padding_of False bs (length pl))) @ of_nat (padding_of False bs (length pl)) # pl @ pad"
    "packet_mac env kd m seq clear = Some mac"
    "cm_decrypt md (take bs ct) (kd_cipher_state kd) = Some (take bs clear, r1)"
    "cm_decrypt md (drop bs ct) r1 = Some (drop bs clear, r2)"
  using assms unfolding in_flight_def wf_dir_def by fastforce

lemma decrypt_body_nbuf:
  assumes "in_flight env kd (ses_recvseq ses) bs ms pl clear ct mac r1 r2" "kd_crypt_mode kd = Some md"
    and "d = take bs clear @ drop bs ct @ take ms mac @ Z" "length d \<le> 1000000000" "p \<le> length clear + ms"
    and "unat wbs = bs" "unat wms = ms"
  shows "decrypt_body env ses (kd\<lparr>kd_cipher_state := r1\<rparr>) wbs wms (nbuf d (length clear + ms) p) =
    Inr (nbuf (clear @ take ms mac @ Z) (length clear + ms) (length clear), r2)"
  using assms(1)
proof (rule in_flightE)
  note sz = in_flight_sizes [OF assms(1)]
  fix c m md' pad
  assume kd: "kd_algo_mac kd = Some m" "kd_crypt_mode kd = Some md'" "cm_aead_crypt md' = None"
    "dh_keysize m \<le> length (kd_mackey kd)" "ms = unat (dh_hashsize m)"
    and mac: "packet_mac env kd m (ses_recvseq ses) clear = Some mac"
    and dec: "cm_decrypt md' (drop bs ct) r1 = Some (drop bs clear, r2)"
  let ?L = "length clear + ms" and ?e = "clear @ take ms mac @ Z"
  let ?kd = "kd\<lparr>kd_cipher_state := r1\<rparr>"
  have ld: "length d = ?L + length Z" using assms(3) sz by (simp add: min_absorb2)
  have ok: "nbuf_ok d ?L p" "nbuf_ok d ?L bs" "nbuf_ok ?e ?L bs" "nbuf_ok ?e ?L (length clear)"
    using assms(4,5) ld sz by (simp_all add: nbuf_ok_def min_absorb2)
  have len: "unat (of_nat ?L - wms - of_nat bs :: u32) = length clear - bs"
    using sz assms(7) by (simp add: unat_u32_sub unat_u32_of_nat del: of_nat_add)
  have sp: "splice d bs (drop bs clear) = ?e" using assms(3) sz by (simp add: splice_def)
  have inp: "take (length clear - bs) (drop bs d) = drop bs ct" using assms(3) sz by simp
  have crypt: "crypt_in_place (cm_decrypt md') ''Error decrypting'' (nbuf d ?L bs) (of_nat ?L - wms - of_nat bs)
      (of_nat ?L - wms - of_nat bs) r1 = Inr (nbuf ?e ?L bs, r2)"
    unfolding sp [symmetric]
    by (rule crypt_nbuf [OF ok(2)]) (use len inp dec sz ld in simp_all)
  have mac': "packet_mac env ?kd m (ses_recvseq ses) (take (length clear) ?e) = Some mac"
    using mac by simp
  have check: "checkmac env (ses_recvseq ses) ?kd (nbuf ?e ?L (length clear)) = Inr (DROPBEAR_SUCCESS, nbuf ?e ?L (length clear))"
    by (rule checkmac_nbuf [OF _ _ kd(5) ok(4) mac' sz(11)]) (use kd(1,4) sz(11) in \<open>simp_all add: min_absorb2\<close>)
  show ?thesis
    unfolding decrypt_body_def
    using kd(2,3) assms(6) sz(5) len
    by (simp add: Let_def setpos_nbuf [OF ok(1)] crypt incrpos_nbuf [OF ok(3)] check del: of_nat_add)
qed

text \<open>The session once the packet has arrived.\<close>

definition received :: "sshsession \<Rightarrow> sshsession \<Rightarrow> key_context \<Rightarrow> key_context_directional \<Rightarrow> byte list \<Rightarrow> bool" where
  "received ses ses' k kd pl \<longleftrightarrow> ses_keys ses' = Some (k\<lparr>kc_recv := kd\<rparr>) \<and> ses_recvseq ses' = ses_recvseq ses + 1
     \<and> ses_readbuf ses' = None \<and> ses_authstate ses' = ses_authstate ses
     \<and> (\<exists>b. ses_payload ses' = Some b \<and> wf_buf b \<and> unread b = pl)"

lemma decrypt_packet_nbuf:
  assumes "in_flight env kd (ses_recvseq ses) bs ms pl clear ct mac r1 r2" "ses_keys ses = Some k"
    and "kc_recv k = kd\<lparr>kd_cipher_state := r1\<rparr>" "\<not> is_compress_recv ses kd"
    and "d = take bs clear @ drop bs ct @ take ms mac @ Z" "length d \<le> 1000000000"
    and "ses_readbuf ses = Some (nbuf d (length clear + ms) (length clear + ms))"
  shows "\<exists>ses'. decrypt_packet env ses = Inr ses' \<and> received ses ses' k (kd\<lparr>kd_cipher_state := r2\<rparr>) pl"
  using assms(1)
proof (rule in_flightE)
  note sz = in_flight_sizes [OF assms(1)]
  fix c m md pad
  assume kd: "kd_algo_crypt kd = Some c" "kd_algo_mac kd = Some m" "kd_crypt_mode kd = Some md"
    "bs = unat (dc_blocksize c)" "ms = unat (dh_hashsize m)"
    and clear: "clear = STORE32H (of_nat (1 + length pl + padding_of False bs (length pl))) @
                  of_nat (padding_of False bs (length pl)) # pl @ pad"
  define p where "p = padding_of False bs (length pl)"
  define ses1 where "ses1 = set_kexstate (\<lambda>k. k\<lparr>kx_datarecv := kx_datarecv k + of_nat (length clear + ms)\<rparr>) ses"
  let ?L = "length clear + ms" and ?e = "clear @ take ms mac @ Z"
  have f1: "ses_recvseq ses1 = ses_recvseq ses" "is_compress_recv ses1 kd = is_compress_recv ses kd"
    by (simp_all add: ses1_def set_kexstate_def is_compress_recv_def)
  have ums: "unat (ucast (dh_hashsize m) :: u32) = ms" "unat (ucast (dc_blocksize c) :: u32) = bs"
    using kd(4,5) by (simp_all add: unat_ucast_byte)
  have body: "decrypt_body env ses1 (kd\<lparr>kd_cipher_state := r1\<rparr>) (ucast (dc_blocksize c)) (ucast (dh_hashsize m)) (nbuf d ?L ?L) =
      Inr (nbuf ?e ?L (length clear), r2)"
    by (rule decrypt_body_nbuf [OF _ kd(3) assms(5,6)]) (use assms(1) f1 ums in simp_all)
  have le: "length ?e = ?L + length Z" "length d = ?L + length Z" using sz assms(5) by (simp_all add: min_absorb2)
  have ok: "nbuf_ok ?e ?L (length clear)" "nbuf_ok ?e ?L 4" "nbuf_ok ?e ?L 5"
    using assms(6) le sz by (simp_all add: nbuf_ok_def)
  have nth: "?e ! 4 = of_nat p" using clear by (simp add: nth_append p_def)
  have up: "unat (ucast (of_nat p :: byte) :: u32) = p"
    using sz(13) by (simp add: unat_ucast_byte p_def unat_of_nat take_bit_nat_eq_self)
  have len: "unat (of_nat ?L - ucast (of_nat p :: byte) - 4 - 1 - ucast (dh_hashsize m) :: u32) = length pl"
    using sz up ums(1) by (simp add: unat_u32_sub unat_u32_of_nat p_def del: of_nat_add)
  have okp: "nbuf_ok ?e (5 + length pl) 5"
    using assms(6) le sz by (simp add: nbuf_ok_def)
  have pl: "unread (nbuf ?e (5 + length pl) 5) = pl"
    unfolding unread_nbuf [OF okp] using clear by simp
  have keys: "recv_keys ses = Inr (kd\<lparr>kd_cipher_state := r1\<rparr>)" using assms(2,3) by (simp add: recv_keys_def)
  have nocomp: "\<not> is_compress_recv ses1 (kd\<lparr>kd_cipher_state := r2\<rparr>)"
    using assms(4) f1 by (simp add: is_compress_recv_def)
  have range: "\<not> (of_nat ?L - ucast (of_nat p :: byte) - 4 - 1 - ucast (dh_hashsize m) > RECV_MAX_PAYLOAD_LEN + ZLIB_COMPRESS_EXPANSION
      \<or> of_nat ?L - ucast (of_nat p :: byte) - 4 - 1 - ucast (dh_hashsize m) < (1 :: u32))"
    using len sz(9,10) by (auto simp: u32_nat RECV_MAX_PAYLOAD_LEN_def ZLIB_COMPRESS_EXPANSION_def simp del: of_nat_add)
  have k1: "kd_algo_crypt (kd\<lparr>kd_cipher_state := r1\<rparr>) = Some c" "kd_algo_mac (kd\<lparr>kd_cipher_state := r1\<rparr>) = Some m"
    "(kd\<lparr>kd_cipher_state := r1\<rparr>)\<lparr>kd_cipher_state := r2\<rparr> = kd\<lparr>kd_cipher_state := r2\<rparr>"
    using kd(1,2) by simp_all
  have ops: "buf_setpos (nbuf ?e ?L (length clear)) PACKET_PADDING_OFF = Inr (nbuf ?e ?L 4)"
    "buf_getbyte (nbuf ?e ?L 4) = Inr (of_nat p, nbuf ?e ?L 5)" "buf_setpos (nbuf ?e ?L 5) PACKET_PAYLOAD_OFF = Inr (nbuf ?e ?L 5)"
    using sz(8) setpos_nbuf [OF ok(1), of 4] getbyte_nbuf [OF ok(2)] nth setpos_nbuf [OF ok(3), of 5]
    by (simp_all add: PACKET_PADDING_OFF_def PACKET_PAYLOAD_OFF_def)
  have cut: "buf_setlen (nbuf ?e ?L 5) (of_nat 5 + (of_nat ?L - ucast (of_nat p :: byte) - 4 - 1 - ucast (dh_hashsize m))) =
      Inr (nbuf ?e (5 + length pl) 5)"
  proof -
    have "unat (of_nat 5 + (of_nat ?L - ucast (of_nat p :: byte) - 4 - 1 - ucast (dh_hashsize m)) :: u32) = 5 + length pl"
      using len sz(10) by (subst unat_u32_add) (simp_all del: of_nat_add)
    then show ?thesis
      using okp by (subst setlen_nbuf [OF ok(3)]) (simp_all add: nbuf_ok_def)
  qed
  have "decrypt_packet env ses = Inr (set_recv_keys (kd\<lparr>kd_cipher_state := r2\<rparr>)
      (ses1\<lparr>ses_payload := Some (nbuf ?e (5 + length pl) 5), ses_payload_beginning := of_nat 5,
        ses_readbuf := None, ses_recvseq := ses_recvseq ses1 + 1\<rparr>))"
    unfolding decrypt_packet_def keys bindE_simps assms(7) k1 nn_simps nbuf_sel Let_def ses1_def [symmetric] body prod.case
      ops if_not_P [OF range] if_not_P [OF nocomp] cut ..
  then show ?thesis
    using assms(2) pl wf_nbuf [OF okp]
    by (auto simp: received_def set_recv_keys_def f1 ses1_def set_kexstate_def)
qed

text \<open>The receiver's buffer after \<open>i\<close> bytes of \<open>wire\<close>, less than a block.\<close>

definition rx_first :: "nat \<Rightarrow> byte list \<Rightarrow> buffer option \<Rightarrow> bool" where
  "rx_first i wire rb \<longleftrightarrow> (rb = None \<and> i = 0)
     \<or> (\<exists>Z. rb = Some (nbuf (take i wire @ Z) i i) \<and> length (take i wire @ Z) = unat INIT_READBUF)"

text \<open>The same from the first block on: \<open>clear\<close> in front, then what came in undecrypted.\<close>

definition rx_rest :: "nat \<Rightarrow> nat \<Rightarrow> byte list \<Rightarrow> byte list \<Rightarrow> buffer option \<Rightarrow> bool" where
  "rx_rest bs i clear wire rb \<longleftrightarrow> (\<exists>Z. rb = Some (nbuf (take bs clear @ drop bs (take i wire) @ Z) (length wire) i)
     \<and> length wire \<le> length (take bs clear @ drop bs (take i wire) @ Z)
     \<and> length (take bs clear @ drop bs (take i wire) @ Z) \<le> 1000000000)"

lemma first_block_nbuf:
  assumes "in_flight env kd (ses_recvseq ses) bs ms pl clear ct mac r1 r2"
    and "bs + length Z \<le> 1000000000" "unat wbs = bs" "unat wms = ms"
  shows "\<exists>plen len. first_block_len ses kd wbs wms (nbuf (take bs ct @ Z) bs 0) =
      Inr (plen, len, nbuf (take bs clear @ Z) bs 4, r1) \<and> unat plen = length clear \<and> unat len = length clear + ms"
  using assms(1)
proof (rule in_flightE)
  note sz = in_flight_sizes [OF assms(1)]
  fix c m md pad
  assume kd: "kd_crypt_mode kd = Some md" "cm_aead_crypt md = None"
    and clear: "clear = STORE32H (of_nat (1 + length pl + padding_of False bs (length pl))) @
                  of_nat (padding_of False bs (length pl)) # pl @ pad"
    and dec: "cm_decrypt md (take bs ct) (kd_cipher_state kd) = Some (take bs clear, r1)"
  have ok: "nbuf_ok (take bs ct @ Z) bs 0" "nbuf_ok (take bs clear @ Z) bs 0"
    using sz assms(2) by (simp_all add: nbuf_ok_def min_absorb2)
  let ?n = "of_nat (length clear - 4) :: u32"
  have hd: "take 4 (take bs clear @ Z) = STORE32H ?n"
    using sz(1,12) clear by (simp add: min_absorb1)
  have sp: "splice (take bs ct @ Z) 0 (take bs clear) = take bs clear @ Z"
    using sz by (simp add: splice_def min_absorb2)
  have crypt: "crypt_in_place (cm_decrypt md) ''Error decrypting'' (nbuf (take bs ct @ Z) bs 0) wbs wbs (kd_cipher_state kd) =
      Inr (nbuf (take bs clear @ Z) bs 0, r1)"
    unfolding sp [symmetric]
    by (rule crypt_nbuf [OF ok(1)]) (use assms(3) dec sz in \<open>simp_all add: min_absorb2\<close>)
  have u: "unat (?n + 4) = length clear" "unat (?n + 4 + wms) = length clear + ms"
    using sz assms(4) by (simp_all add: unat_u32_add unat_u32_of_nat)
  have int: "buf_getint (nbuf (take bs clear @ Z) bs 0) = Inr (?n, nbuf (take bs clear @ Z) bs 4)"
    by (subst getint_nbuf [OF ok(2)]) (use sz(1) in simp, simp only: drop_0 hd LOAD32H_STORE32H add_0)
  show ?thesis
    using kd u by (simp add: first_block_len_def crypt int Let_def)
qed

lemma check_packet_len_nbuf:
  assumes "8 \<le> bs" "bs \<le> L" "bs dvd L" "L + ms \<le> 18000" "unat wbs = bs" "unat plen = L" "unat len = L + ms"
    and "nbuf_ok d bs 4"
  shows "\<exists>Z. check_packet_len env wbs plen len (nbuf d bs 4) = Inr (nbuf (d @ Z) (L + ms) bs)
    \<and> L + ms \<le> length (d @ Z) \<and> length (d @ Z) \<le> 1000000000"
proof -
  have nz: "wbs \<noteq> 0" using assms(1,5) by auto
  have "unat (plen mod wbs) = 0" using assms(3,5,6) by (simp add: unat_mod)
  then have m: "plen mod wbs = 0" by (simp add: u32_eq_nat)
  have c: "\<not> (len > RECV_MAX_PACKET_LEN \<or> plen < wbs)"
    using assms by (auto simp: u32_nat RECV_MAX_PACKET_LEN_def RECV_MAX_PAYLOAD_LEN_def)
  have ld: "length d \<le> 1000000000" "bs \<le> length d" using assms(8) by (simp_all add: nbuf_ok_def)
  have szd: "len > of_nat (length d) \<longleftrightarrow> length d < L + ms"
    using assms(7) nbuf_unat(3) [OF assms(8)] by (simp add: u32_nat)
  obtain Z where Z: "(if len > of_nat (length d) then buf_resize (ce_fresh env) (nbuf d bs 4) len else returnE (nbuf d bs 4))
      = Inr (nbuf (d @ Z) bs 4)" "L + ms \<le> length (d @ Z)" "length (d @ Z) \<le> 1000000000"
  proof (cases "length d < L + ms")
    case True
    then show ?thesis
      using resize_nbuf [OF assms(8), of len "ce_fresh env"] assms(4,7) that szd by (auto simp: not_le)
  next
    case False
    then show ?thesis using that [of "[]"] szd ld by simp
  qed
  have ok: "nbuf_ok (d @ Z) bs 4" "nbuf_ok (d @ Z) (L + ms) 4"
    using Z assms(1,2) ld by (simp_all add: nbuf_ok_def)
  show ?thesis
    unfolding check_packet_len_def nbuf_sel
    using c nz m assms(1,2,5,7) Z ld
    by (intro exI [of _ Z]) (simp add: umod_def Z(1) setlen_nbuf [OF ok(1)] setpos_nbuf [OF ok(2)])
qed

text \<open>The first reads of a packet: part of a block, or its end.\<close>

lemma init_buffer_nbuf:
  assumes "rx_first i wire rb" "i < bs" "bs \<le> 128"
  shows "\<exists>Z. (case rb of None \<Rightarrow> buf_new INIT_READBUF | Some b \<Rightarrow> returnE b) = Inr (nbuf (take i wire @ Z) i i)
    \<and> length (take i wire @ Z) = 128 \<and> nbuf_ok (take i wire @ Z) i i"
  using assms unfolding rx_first_def by (auto simp: INIT_READBUF_def new_nbuf nbuf_ok_def)

lemma read_init_nbuf:
  assumes "in_flight env kd (ses_recvseq ses) bs ms pl clear ct mac r1 r2" "ses_keys ses = Some k" "kc_recv k = kd"
    and "wire = ct @ take ms mac" "rx_first i wire (ses_readbuf ses)" "i < bs" "x \<noteq> []" "i + length x \<le> bs"
    and "take (i + length x) wire = take i wire @ x" "rd (of_nat (bs - i)) = Rd x"
  shows "i + length x < bs \<Longrightarrow> \<exists>b. read_packet_init env rd ses = Inr (DROPBEAR_FAILURE, ses\<lparr>ses_readbuf := Some b\<rparr>)
        \<and> rx_first (i + length x) wire (Some b)"
    and "i + length x = bs \<Longrightarrow> \<exists>b. read_packet_init env rd ses =
          Inr (DROPBEAR_SUCCESS, set_recv_keys (kd\<lparr>kd_cipher_state := r1\<rparr>) (ses\<lparr>ses_readbuf := Some b\<rparr>))
        \<and> rx_rest bs bs clear wire (Some b)"
proof -
  note sz = in_flight_sizes [OF assms(1)]
  obtain c m where kd: "kd_algo_crypt kd = Some c" "kd_algo_mac kd = Some m" "bs = unat (dc_blocksize c)" "ms = unat (dh_hashsize m)"
    using assms(1) by (rule in_flightE)
  let ?bs = "ucast (dc_blocksize c) :: u32" and ?ms = "ucast (dh_hashsize m) :: u32"
  have u: "unat ?bs = bs" "unat ?ms = ms" using kd(3,4) by (simp_all add: unat_ucast_byte)
  have keys: "recv_keys ses = Inr kd" using assms(2,3) by (simp add: recv_keys_def)
  obtain Z where Z: "(case ses_readbuf ses of None \<Rightarrow> buf_new INIT_READBUF | Some b \<Rightarrow> returnE b) = Inr (nbuf (take i wire @ Z) i i)"
    "length (take i wire @ Z) = 128" "nbuf_ok (take i wire @ Z) i i"
    using init_buffer_nbuf [OF assms(5,6) sz(2)] by blast
  have max: "?bs - of_nat i = of_nat (bs - i)" and umax: "unat (of_nat (bs - i) :: u32) = bs - i"
    using u assms(6) sz(2) by (simp_all add: u32_eq_nat unat_u32_sub unat_u32_of_nat)
  let ?j = "i + length x" and ?Z = "drop (length x) Z"
  have tl: "length (take i wire) = i" using assms(6) sz assms(4) by simp
  have lx: "length x \<le> length Z" using Z(2) tl assms(8) sz(2) by simp
  have sp: "splice (take i wire @ Z) i x = take ?j wire @ ?Z"
    using tl assms(9) by (simp add: splice_def)
  have lj: "length (take ?j wire @ ?Z) = 128"
    using Z(2) tl lx assms(9) by simp
  have okj: "nbuf_ok (take ?j wire @ ?Z) i i" "nbuf_ok (take ?j wire @ ?Z) ?j ?j"
    using lj assms(6,8) sz(2) by (simp_all add: nbuf_ok_def)
  have ux: "unat (of_nat (length x) :: u32) = length x" using assms(8) sz(2) by (simp add: unat_u32_of_nat)
  have wr: "buf_getwriteptr (nbuf (take i wire @ Z) i i) (of_nat (bs - i)) = Inr i"
    using Z assms(6) sz(2) umax by (subst getwriteptr_nbuf) simp_all
  have mw: "mem_write (take i wire @ Z) i x = Inr (take ?j wire @ ?Z)"
    using mem_write_splice [of i x "take i wire @ Z"] sp Z(2) assms(8) sz(2) by simp
  have iw: "buf_incrwritepos (nbuf (take ?j wire @ ?Z) i i) (of_nat (length x)) = Inr (nbuf (take ?j wire @ ?Z) ?j ?j)"
    using incrwritepos_nbuf [OF okj(1), of "of_nat (length x)"] ux lj assms(8) sz(2) by simp
  have ne: "of_nat (length x) \<noteq> (of_nat (bs - i) :: u32) \<longleftrightarrow> ?j \<noteq> bs"
    using ux umax assms(6) by (auto simp: u32_eq_nat)
  have d: "(nbuf (take i wire @ Z) i i)\<lparr>b_data := take ?j wire @ ?Z\<rparr> = nbuf (take ?j wire @ ?Z) i i"
    using Z(2) lj by simp
  note run = read_packet_init_def [of env rd ses, unfolded keys bindE_simps kd(1,2) nn_simps Z(1) Let_def nbuf_sel max wr
      assms(10) io_read.case if_not_P [OF assms(7)] mw d iw ne]
  show "\<exists>b. read_packet_init env rd ses = Inr (DROPBEAR_FAILURE, ses\<lparr>ses_readbuf := Some b\<rparr>)
        \<and> rx_first ?j wire (Some b)" if "?j < bs"
    using that lj unfolding run rx_first_def
    by (intro exI [of _ "nbuf (take ?j wire @ ?Z) ?j ?j"]) (auto simp: INIT_READBUF_def intro!: exI [of _ ?Z])
  show "\<exists>b. read_packet_init env rd ses =
          Inr (DROPBEAR_SUCCESS, set_recv_keys (kd\<lparr>kd_cipher_state := r1\<rparr>) (ses\<lparr>ses_readbuf := Some b\<rparr>))
        \<and> rx_rest bs bs clear wire (Some b)" if j: "?j = bs"
  proof -
    have tw: "take bs wire = take bs ct" using assms(4) sz by simp
    have lz: "length (take bs ct) = bs" "bs + length ?Z = 128" using sz(5,7) lj j tw by simp_all
    have sp0: "buf_setpos (nbuf (take bs ct @ ?Z) bs bs) 0 = Inr (nbuf (take bs ct @ ?Z) bs 0)"
      using setpos_nbuf [OF okj(2), of 0] j tw by simp
    obtain plen len where fb: "first_block_len ses kd ?bs ?ms (nbuf (take bs ct @ ?Z) bs 0) =
        Inr (plen, len, nbuf (take bs clear @ ?Z) bs 4, r1)" "unat plen = length clear" "unat len = length clear + ms"
      using first_block_nbuf [OF assms(1) _ u, of ?Z] lz by auto
    have ok: "nbuf_ok (take bs clear @ ?Z) bs 4" using sz(1,5) lz by (simp add: nbuf_ok_def)
    obtain Z' where chk: "check_packet_len env ?bs plen len (nbuf (take bs clear @ ?Z) bs 4) =
        Inr (nbuf ((take bs clear @ ?Z) @ Z') (length clear + ms) bs)"
      "length clear + ms \<le> length ((take bs clear @ ?Z) @ Z')" "length ((take bs clear @ ?Z) @ Z') \<le> 1000000000"
      using check_packet_len_nbuf [OF sz(1,5,4) _ u(1) fb(2,3) ok, of env] sz(3,6) by auto
    have lw: "length wire = length clear + ms" using assms(4) sz by (simp add: min_absorb2)
    have "read_packet_init env rd ses = Inr (DROPBEAR_SUCCESS, set_recv_keys (kd\<lparr>kd_cipher_state := r1\<rparr>)
        (ses\<lparr>ses_readbuf := Some (nbuf ((take bs clear @ ?Z) @ Z') (length clear + ms) bs)\<rparr>))"
      unfolding run j tw using sp0 fb(1) chk(1) by simp
    moreover have "rx_rest bs bs clear wire (Some (nbuf ((take bs clear @ ?Z) @ Z') (length clear + ms) bs))"
      using chk lw unfolding rx_rest_def by (intro exI [of _ "?Z @ Z'"]) simp
    ultimately show ?thesis by blast
  qed
qed

lemma splice_append: "length a = i \<Longrightarrow> splice (a @ z) i y = a @ y @ drop (length y) z"
  by (simp add: splice_def)

text \<open>The reads after the first block.\<close>

lemma read_remainder_nbuf:
  assumes "in_flight env kd (ses_recvseq ses) bs ms pl clear ct mac r1 r2" "ses_keys ses = Some k"
    and "kc_recv k = kd\<lparr>kd_cipher_state := r1\<rparr>" "\<not> is_compress_recv ses kd"
    and "wire = ct @ take ms mac" "rx_rest bs i clear wire (ses_readbuf ses)" "bs \<le> i" "i + length y \<le> length wire"
    and "take (i + length y) wire = take i wire @ y" "rd (of_nat (length wire - i)) = (if y = [] then Rd_again else Rd y)"
  shows "i + length y < length wire \<Longrightarrow> \<exists>b. read_remainder env rd ses = Inr (ses\<lparr>ses_readbuf := Some b\<rparr>)
        \<and> rx_rest bs (i + length y) clear wire (Some b)"
    and "i + length y = length wire \<Longrightarrow> \<exists>ses'. read_remainder env rd ses = Inr ses' \<and> received ses ses' k (kd\<lparr>kd_cipher_state := r2\<rparr>) pl"
proof -
  note sz = in_flight_sizes [OF assms(1)]
  let ?W = "length wire" and ?j = "i + length y"
  have W: "?W = length clear + ms" "?W \<le> 18000" using assms(5) sz by (simp_all add: min_absorb2)
  obtain Z where Z: "ses_readbuf ses = Some (nbuf (take bs clear @ drop bs (take i wire) @ Z) ?W i)"
    "?W \<le> length (take bs clear @ drop bs (take i wire) @ Z)" "length (take bs clear @ drop bs (take i wire) @ Z) \<le> 1000000000"
    using assms(6) unfolding rx_rest_def by blast
  let ?d = "take bs clear @ drop bs (take i wire) @ Z"
  let ?e = "take bs clear @ drop bs (take ?j wire) @ drop (length y) Z"
  have pre: "length (take bs clear @ drop bs (take i wire)) = i" using sz(5) assms(7,8) by simp
  have sp: "splice ?d i y = ?e"
  proof -
    have "drop bs (take ?j wire) = drop bs (take i wire) @ y" using assms(7,8,9) by simp
    then show ?thesis using splice_append [OF pre, of Z y] by simp
  qed
  have ly: "length y \<le> length Z" using Z(2) pre assms(8) by simp
  have le: "length ?e = length ?d" using sp [symmetric] Z(2) assms(8) by simp
  have ok: "nbuf_ok ?d ?W i" "nbuf_ok ?e ?W i" "nbuf_ok ?e ?W ?j" using Z le assms(8) by (simp_all add: nbuf_ok_def)
  have max: "of_nat ?W - of_nat i = (of_nat (?W - i) :: u32)" and um: "unat (of_nat (?W - i) :: u32) = ?W - i"
    using assms(8) by (simp add: of_nat_diff, use W(2) in \<open>simp add: unat_u32_of_nat\<close>)
  have m0: "of_nat (?W - i) = (0 :: u32) \<longleftrightarrow> i = ?W" using um assms(8) by (auto simp: u32_eq_nat)
  have gp: "buf_getptr (nbuf ?d ?W i) (of_nat (?W - i)) = Inr i" using getptr_nbuf [OF ok(1)] um assms(8) by simp
  have uy: "unat (of_nat (length y) :: u32) = length y" using assms(8) W by (simp add: unat_u32_of_nat)
  have mw: "mem_write ?d i y = Inr ?e" using mem_write_splice [of i y ?d] sp Z(2) assms(8) by simp
  have ip: "buf_incrpos ((nbuf ?d ?W i)\<lparr>b_data := ?e\<rparr>) (of_nat (length y)) = Inr (nbuf ?e ?W ?j)"
    using incrpos_nbuf [OF ok(2), of "of_nat (length y)"] uy assms(8) le by simp
  have eq: "of_nat (length y) = (of_nat (?W - i) :: u32) \<longleftrightarrow> ?j = ?W" using uy um assms(8) by (auto simp: u32_eq_nat)
  note run = read_remainder_def [of env rd ses, unfolded Z(1) nn_simps bindE_simps Let_def nbuf_sel max m0 gp assms(10)]
  show "\<exists>b. read_remainder env rd ses = Inr (ses\<lparr>ses_readbuf := Some b\<rparr>) \<and> rx_rest bs ?j clear wire (Some b)" if "?j < ?W"
  proof (cases "y = []")
    case True
    then show ?thesis
      using that Z assms(6) unfolding run by (intro exI [of _ "nbuf ?d ?W i"]) simp
  next
    case False
    then show ?thesis
      using that Z(3) le ok(3) unfolding run rx_rest_def
      by (intro exI [of _ "nbuf ?e ?W ?j"]) (auto simp: mw ip eq nbuf_ok_def simp del: data_nbuf of_nat_diff intro!: exI [of _ "drop (length y) Z"])
  qed
  show "\<exists>ses'. read_remainder env rd ses = Inr ses' \<and> received ses ses' k (kd\<lparr>kd_cipher_state := r2\<rparr>) pl" if j: "?j = ?W"
  proof -
    let ?ses = "ses\<lparr>ses_readbuf := Some (nbuf ?e ?W ?W)\<rparr>"
    have e: "?e = take bs clear @ drop bs ct @ take ms mac @ drop (length y) Z"
      using j assms(5) sz by simp
    have fl: "in_flight env kd (ses_recvseq ?ses) bs ms pl clear ct mac r1 r2" using assms(1) by simp
    obtain ses' where dec: "decrypt_packet env ?ses = Inr ses'" "received ?ses ses' k (kd\<lparr>kd_cipher_state := r2\<rparr>) pl"
      using decrypt_packet_nbuf [OF fl _ assms(3) _ e] assms(2,4) Z(3) le W(1) by (auto simp: is_compress_recv_def)
    have same: "?ses = ses" if "y = []" using that Z(1) j by simp
    have "read_remainder env rd ses = decrypt_packet env ?ses"
    proof (cases "y = []")
      case True
      then show ?thesis using j unfolding run same [OF True] by simp
    next
      case False
      then have ne: "i \<noteq> ?W" using j by auto
      have all: "of_nat (length y) = (of_nat (?W - i) :: u32)" using eq j by simp
      show ?thesis
        unfolding run if_not_P [OF False] if_not_P [OF ne] io_read.case mw bindE_simps if_P [OF all] j ip [unfolded j] ..
    qed
    then show ?thesis using dec by (simp add: received_def)
  qed
qed

section \<open>Delivery in pieces\<close>

text \<open>
  Calls of \<open>read_packet\<close> while the bytes of one packet arrive.  The pair \<open>(a, b)\<close> of the
  schedule says how many bytes the kernel has for the two \<open>read\<close> calls of one round at
  most; \<open>i\<close> bytes have been delivered.  No bytes is \<open>EAGAIN\<close>.
\<close>

definition chunk :: "byte list \<Rightarrow> io_read" where
  "chunk x = (if x = [] then Rd_again else Rd x)"

primrec feed :: "env \<Rightarrow> nat \<Rightarrow> byte list \<Rightarrow> (nat \<times> nat) list \<Rightarrow> nat \<Rightarrow> sshsession \<Rightarrow> (nat \<times> sshsession) res" where
  "feed env bs wire [] i ses = Inr (i, ses)"
| "feed env bs wire (ab # sched) i ses =
     (if i \<ge> length wire then Inr (i, ses)
      else
        let x = take (min (fst ab) (bs - i)) (drop i wire); j = i + length x;
            y = (if j < bs then [] else take (snd ab) (drop j wire)) in
        bindE (read_packet env (\<lambda>_. chunk x) (\<lambda>_. chunk y) ses) (feed env bs wire sched (j + length y)))"

text \<open>The receiver after \<open>i\<close> bytes of a packet in flight, all of them included.\<close>

definition receiving :: "sshsession \<Rightarrow> key_context \<Rightarrow> nat \<Rightarrow> byte list \<Rightarrow> byte list \<Rightarrow> byte list \<Rightarrow> cipher_state \<Rightarrow> cipher_state \<Rightarrow> nat \<Rightarrow> sshsession \<Rightarrow> bool" where
  "receiving ses0 k bs pl clear wire r1 r2 i ses \<longleftrightarrow>
     (if i < bs then ses_keys ses = Some k \<and> rx_first i wire (ses_readbuf ses)
      else if i < length wire then ses_keys ses = Some (k\<lparr>kc_recv := (kc_recv k)\<lparr>kd_cipher_state := r1\<rparr>\<rparr>)
         \<and> rx_rest bs i clear wire (ses_readbuf ses)
      else received ses0 ses k ((kc_recv k)\<lparr>kd_cipher_state := r2\<rparr>) pl)
     \<and> (i < length wire \<longrightarrow> ses_recvseq ses = ses_recvseq ses0 \<and> ses_authstate ses = ses_authstate ses0)"

lemma received_keys:
  "received ses ses' (k\<lparr>kc_recv := kd\<rparr>) kd' pl \<Longrightarrow> ses_recvseq ses = ses_recvseq ses0 \<Longrightarrow> ses_authstate ses = ses_authstate ses0 \<Longrightarrow>
     received ses0 ses' k kd' pl"
  by (simp add: received_def)

lemma take_more:
  assumes "x = take (length x) (drop i w)"
  shows "take (i + length x) w = take i w @ x"
  unfolding take_add by (simp flip: assms)

lemma read_init_again:
  assumes "in_flight env kd (ses_recvseq ses) bs ms pl clear ct mac r1 r2" "ses_keys ses = Some k" "kc_recv k = kd"
    and "rx_first i wire (ses_readbuf ses)" "i < bs"
  shows "\<exists>b. read_packet_init env (\<lambda>_. Rd_again) ses = Inr (DROPBEAR_FAILURE, ses\<lparr>ses_readbuf := Some b\<rparr>) \<and> rx_first i wire (Some b)"
proof -
  note sz = in_flight_sizes [OF assms(1)]
  obtain c m where kd: "kd_algo_crypt kd = Some c" "kd_algo_mac kd = Some m" "bs = unat (dc_blocksize c)"
    using assms(1) by (rule in_flightE)
  have keys: "recv_keys ses = Inr kd" using assms(2,3) by (simp add: recv_keys_def)
  obtain Z where Z: "(case ses_readbuf ses of None \<Rightarrow> buf_new INIT_READBUF | Some b \<Rightarrow> returnE b) = Inr (nbuf (take i wire @ Z) i i)"
    "length (take i wire @ Z) = 128" "nbuf_ok (take i wire @ Z) i i"
    using init_buffer_nbuf [OF assms(4,5) sz(2)] by blast
  have u: "unat (ucast (dc_blocksize c) - of_nat i :: u32) = bs - i"
    using kd(3) assms(5) sz(2) by (simp add: unat_u32_sub unat_u32_of_nat unat_ucast_byte)
  have "buf_getwriteptr (nbuf (take i wire @ Z) i i) (ucast (dc_blocksize c) - of_nat i) = Inr i"
    using Z assms(5) sz(2) u by (subst getwriteptr_nbuf) simp_all
  then have "read_packet_init env (\<lambda>_. Rd_again) ses =
      Inr (DROPBEAR_FAILURE, ses\<lparr>ses_readbuf := Some (nbuf (take i wire @ Z) i i)\<rparr>)"
    unfolding read_packet_init_def keys bindE_simps kd(1,2) nn_simps Z(1) Let_def nbuf_sel by simp
  then show ?thesis
    using Z(2) unfolding rx_first_def by (auto simp: INIT_READBUF_def)
qed

lemma read_packet_step:
  assumes fl: "in_flight env kd (ses_recvseq ses0) bs ms pl clear ct mac r1 r2" and kd: "kc_recv k = kd" "\<not> is_compress_recv ses0 kd"
    and w: "wire = ct @ take ms mac" and st: "receiving ses0 k bs pl clear wire r1 r2 i ses" and i: "i < length wire"
    and x: "x = take (length x) (drop i wire)" "length x \<le> bs - i" "i + length x < bs \<Longrightarrow> y = []"
    and y: "y = take (length y) (drop (i + length x) wire)" "i + length x + length y \<le> length wire"
  shows "\<exists>ses'. read_packet env (\<lambda>_. chunk x) (\<lambda>_. chunk y) ses = Inr ses'
     \<and> receiving ses0 k bs pl clear wire r1 r2 (i + length x + length y) ses'"
proof -
  note sz = in_flight_sizes [OF fl]
  obtain c where c: "kd_algo_crypt kd = Some c" "bs = unat (dc_blocksize c)"
    using fl by (rule in_flightE)
  have u: "unat (ucast (dc_blocksize c) :: u32) = bs" using c(2) by (simp add: unat_ucast_byte)
  have lw: "length wire = length clear + ms" "length wire \<le> 18000" using w sz by (simp_all add: min_absorb2)
  have bw: "bs \<le> length wire" "unat (of_nat (length wire) :: u32) = length wire"
    using lw(1) sz(5) by (simp, use lw(2) in \<open>simp add: unat_u32_of_nat\<close>)
  have seq: "ses_recvseq ses = ses_recvseq ses0" "ses_authstate ses = ses_authstate ses0"
    using st i by (simp_all add: receiving_def)
  have fl': "in_flight env kd (ses_recvseq ses) bs ms pl clear ct mac r1 r2" using fl seq by simp
  have tx: "take (i + length x) wire = take i wire @ x" using x(1) by (rule take_more)
  have ty: "take (i + length x + length y) wire = take (i + length x) wire @ y" using y(1) by (rule take_more)
  let ?kd1 = "kd\<lparr>kd_cipher_state := r1\<rparr>"
  have rest: "\<exists>ses'. read_remainder env (\<lambda>_. chunk y) s = Inr ses'
      \<and> receiving ses0 k bs pl clear wire r1 r2 (i + length x + length y) ses'"
    if s: "ses_keys s = Some (k\<lparr>kc_recv := ?kd1\<rparr>)" "ses_recvseq s = ses_recvseq ses0" "ses_authstate s = ses_authstate ses0"
      "rx_rest bs (i + length x) clear wire (ses_readbuf s)" and ge: "bs \<le> i + length x" for s
  proof -
    have fs: "in_flight env kd (ses_recvseq s) bs ms pl clear ct mac r1 r2" using fl s by simp
    have nc: "\<not> is_compress_recv s kd" using kd(2) s(3) by (simp add: is_compress_recv_def)
    note rem = read_remainder_nbuf [OF fs s(1) _ nc w s(4) ge y(2) ty, of "\<lambda>_. chunk y"]
    show ?thesis
    proof (cases "i + length x + length y < length wire")
      case True
      then show ?thesis
        using rem(1) s ge kd(1) by (auto simp: receiving_def chunk_def)
    next
      case False
      then have eq: "i + length x + length y = length wire" using y(2) by simp
      obtain ses' where "read_remainder env (\<lambda>_. chunk y) s = Inr ses'"
        "received s ses' (k\<lparr>kc_recv := ?kd1\<rparr>) (kd\<lparr>kd_cipher_state := r2\<rparr>) pl"
        using rem(2) eq by (auto simp: chunk_def)
      then show ?thesis
        using received_keys [OF _ s(2,3)] eq ge kd(1) lw sz by (auto simp: receiving_def)
    qed
  qed
  show ?thesis
  proof (cases "i < bs")
    case False
    have keys: "ses_keys ses = Some (k\<lparr>kc_recv := ?kd1\<rparr>)" and rb: "rx_rest bs i clear wire (ses_readbuf ses)"
      using st False i kd(1) by (simp_all add: receiving_def)
    have "x = []" using x(2) False by simp
    have "recv_keys ses = Inr ?kd1" "kd_algo_crypt ?kd1 = Some c" using keys c(1) by (simp_all add: recv_keys_def)
    moreover obtain b where "ses_readbuf ses = Some b" "\<not> b_len b < ucast (dc_blocksize c)"
      using rb u bw unfolding rx_rest_def by (auto simp: u32_nat)
    ultimately have "read_packet env (\<lambda>_. chunk x) (\<lambda>_. chunk y) ses = read_remainder env (\<lambda>_. chunk y) ses"
      by (simp add: read_packet_def)
    then show ?thesis using rest [OF keys seq] rb False \<open>x = []\<close> by simp
  next
    case True
    have keys: "ses_keys ses = Some k" and rb: "rx_first i wire (ses_readbuf ses)"
      using st True by (simp_all add: receiving_def)
    have rk: "recv_keys ses = Inr kd" using keys kd(1) by (simp add: recv_keys_def)
    have first: "(case ses_readbuf ses of None \<Rightarrow> True | Some b \<Rightarrow> b_len b < ucast (dc_blocksize c))"
      using rb u True sz(2) unfolding rx_first_def by (auto simp: u32_nat unat_u32_of_nat)
    have run: "read_packet env (\<lambda>_. chunk x) (\<lambda>_. chunk y) ses =
        bindE (read_packet_init env (\<lambda>_. chunk x) ses) (\<lambda>(ret, ses). if ret = DROPBEAR_FAILURE then returnE ses
          else read_remainder env (\<lambda>_. chunk y) ses)"
      using first by (simp add: read_packet_def rk c(1))
    consider "x = []" | "x \<noteq> []" "i + length x < bs" | "x \<noteq> []" "i + length x = bs" using x(2) True by linarith
    then show ?thesis
    proof cases
      case 1
      then show ?thesis
        using read_init_again [OF fl' keys kd(1) rb True] x(3) True seq keys i
        unfolding run by (auto simp: chunk_def receiving_def)
    next
      case 2
      then show ?thesis
        using read_init_nbuf(1) [OF fl' keys kd(1) w rb True 2(1) _ tx, of "\<lambda>_. chunk x"] x(3) seq keys bw
        unfolding run by (auto simp: chunk_def receiving_def)
    next
      case 3
      obtain b where b: "read_packet_init env (\<lambda>_. chunk x) ses =
          Inr (DROPBEAR_SUCCESS, set_recv_keys ?kd1 (ses\<lparr>ses_readbuf := Some b\<rparr>))" "rx_rest bs bs clear wire (Some b)"
        using read_init_nbuf(2) [OF fl' keys kd(1) w rb True 3(1) _ tx, of "\<lambda>_. chunk x"] 3 by (auto simp: chunk_def)
      then show ?thesis
        using rest [of "set_recv_keys ?kd1 (ses\<lparr>ses_readbuf := Some b\<rparr>)"] 3 seq keys
        unfolding run by (simp add: set_recv_keys_def)
    qed
  qed
qed

lemma take_self: "take n xs = take (length (take n xs)) xs"
  by (cases "n \<le> length xs") simp_all

lemma feed_receives:
  assumes fl: "in_flight env kd (ses_recvseq ses0) bs ms pl clear ct mac r1 r2" and kd: "kc_recv k = kd" "\<not> is_compress_recv ses0 kd"
    and w: "wire = ct @ take ms mac"
  shows "receiving ses0 k bs pl clear wire r1 r2 i ses \<Longrightarrow> i \<le> length wire \<Longrightarrow>
    \<exists>i' ses'. feed env bs wire sched i ses = Inr (i', ses') \<and> i' \<le> length wire \<and> receiving ses0 k bs pl clear wire r1 r2 i' ses'
      \<and> ((\<forall>(a, b) \<in> set sched. 0 < a \<and> 0 < b) \<longrightarrow> i' = length wire \<or> i + length sched \<le> i')"
proof (induction sched arbitrary: i ses)
  case Nil
  then show ?case by simp
next
  case (Cons ab sched)
  obtain a b where ab: "ab = (a, b)" by (cases ab)
  show ?case
  proof (cases "i < length wire")
    case False
    then show ?thesis using Cons.prems by (simp add: ab)
  next
    case True
    define x where "x = take (min a (bs - i)) (drop i wire)"
    define y where "y = (if i + length x < bs then [] else take b (drop (i + length x) wire))"
    have lx: "length x = min (min a (bs - i)) (length wire - i)" by (simp add: x_def)
    have "length x \<le> length wire - i" by (simp add: x_def)
    then have lx': "i + length x \<le> length wire" using True by simp
    have x: "x = take (length x) (drop i wire)" "length x \<le> bs - i" "i + length x < bs \<Longrightarrow> y = []"
      unfolding x_def y_def by (rule take_self) simp_all
    have y: "y = take (length y) (drop (i + length x) wire)" "i + length x + length y \<le> length wire"
      unfolding y_def using take_self [of b "drop (i + length x) wire"] lx' by auto
    obtain ses1 where s1: "read_packet env (\<lambda>_. chunk x) (\<lambda>_. chunk y) ses = Inr ses1"
      "receiving ses0 k bs pl clear wire r1 r2 (i + length x + length y) ses1"
      using read_packet_step [OF fl kd w Cons.prems(1) True x y] by blast
    have more: "0 < a \<Longrightarrow> 0 < b \<Longrightarrow> 1 \<le> length x + length y"
      using True lx by (auto simp: y_def)
    have run: "feed env bs wire (ab # sched) i ses = feed env bs wire sched (i + length x + length y) ses1"
      unfolding ab feed.simps Let_def fst_conv snd_conv x_def [symmetric] y_def [symmetric]
      using True s1(1) by simp
    show ?thesis
      using Cons.IH [OF s1(2) y(2)] more unfolding run by (fastforce simp: ab)
  qed
qed

section \<open>Ciphers and the round trip\<close>

text \<open>
  A cipher mode without AEAD: \<open>sync\<close> relates the states of the two sides.  Decryption
  undoes encryption, also when it is done in two pieces at a block boundary.
\<close>

locale stream_mode =
  fixes md :: dropbear_cipher_mode and bs :: nat and sync :: "cipher_state \<Rightarrow> cipher_state \<Rightarrow> bool"
  assumes no_aead: "cm_aead_crypt md = None"
    and crypt: "sync s r \<Longrightarrow> bs dvd length x \<Longrightarrow>
      \<exists>y s' r'. cm_encrypt md x s = Some (y, s') \<and> length y = length x \<and> cm_decrypt md y r = Some (x, r') \<and> sync s' r'"
    and pieces: "sync s r \<Longrightarrow> cm_decrypt md (a @ b) r = Some (x, r') \<Longrightarrow> bs dvd length a \<Longrightarrow>
      \<exists>r1. cm_decrypt md a r = Some (take (length a) x, r1) \<and> cm_decrypt md b r1 = Some (drop (length a) x, r')"

text \<open>Two sessions, one sending to the other with the same keys and in step.\<close>

definition linked :: "env \<Rightarrow> dropbear_cipher_mode \<Rightarrow> nat \<Rightarrow> (cipher_state \<Rightarrow> cipher_state \<Rightarrow> bool) \<Rightarrow> sshsession \<Rightarrow> sshsession \<Rightarrow> bool" where
  "linked env md bs sync tx rx \<longleftrightarrow> (\<exists>ks kr c m. ses_keys tx = Some ks \<and> ses_keys rx = Some kr
     \<and> kc_recv kr = (kc_trans ks)\<lparr>kd_cipher_state := kd_cipher_state (kc_recv kr)\<rparr>
     \<and> sync (kd_cipher_state (kc_trans ks)) (kd_cipher_state (kc_recv kr))
     \<and> kd_algo_crypt (kc_trans ks) = Some c \<and> unat (dc_blocksize c) = bs \<and> kd_crypt_mode (kc_trans ks) = Some md
     \<and> kd_algo_mac (kc_trans ks) = Some m \<and> kd_algo_comp (kc_trans ks) = DROPBEAR_COMP_NONE
     \<and> (dh_hashsize m > 0 \<longrightarrow> (\<forall>msg. ce_hmac env (kd_hash_index (kc_trans ks)) (take (dh_keysize m) (kd_mackey (kc_trans ks))) msg \<noteq> None)))
     \<and> ses_transseq tx = ses_recvseq rx"

lemma no_compress:
  "kd_algo_comp kd = DROPBEAR_COMP_NONE \<Longrightarrow> \<not> is_compress_trans ses kd"
  "kd_algo_comp kd = DROPBEAR_COMP_NONE \<Longrightarrow> \<not> is_compress_recv ses kd"
  by (simp_all add: is_compress_trans_def is_compress_recv_def DROPBEAR_COMP_NONE_def DROPBEAR_COMP_ZLIB_def
      DROPBEAR_COMP_ZLIB_DELAY_def)

lemma packet_mac_exists:
  assumes "wf_dir env kd" "kd_algo_mac kd = Some m"
    and "dh_hashsize m > 0 \<longrightarrow> (\<forall>msg. ce_hmac env (kd_hash_index kd) (take (dh_keysize m) (kd_mackey kd)) msg \<noteq> None)"
  shows "\<exists>mac. packet_mac env kd m seq x = Some mac \<and> unat (dh_hashsize m) \<le> length mac"
proof (cases "dh_hashsize m > 0")
  case True
  then obtain mac where "ce_hmac env (kd_hash_index kd) (take (dh_keysize m) (kd_mackey kd)) (STORE32H seq @ x) = Some mac"
    using assms(3) by blast
  moreover from this have "unat (dh_hashsize m) \<le> length mac" "unat (dh_hashsize m) \<le> MAX_MAC_LEN"
    using assms(1,2) by (auto simp: wf_dir_def)
  ultimately show ?thesis using True by (simp add: packet_mac_def)
next
  case False
  then show ?thesis by (simp add: packet_mac_def word_less_nat_alt)
qed

context stream_mode
begin

text \<open>
  A payload that is sent arrives: the bytes queued by \<open>encrypt_packet\<close>, delivered in any
  pieces, make \<open>read_packet\<close> produce the payload, and the two sessions stay linked.
\<close>

lemma packet_delivered:
  assumes link: "linked env md bs sync tx rx" and tx: "send_ok env tx" and zlib: "zlib_ok env" and rx: "ses_readbuf rx = None"
    and pl: "payload_of tx = pl" "pl \<noteq> []" and ok: "ses_dataallowed tx \<or> packet_is_okay_kex (hd pl)"
  shows "\<exists>tx' w. encrypt_packet env tx = Inr tx' \<and> send_ok env tx' \<and> ses_writequeue tx' = ses_writequeue tx @ [w]
    \<and> (\<forall>sched. \<exists>i rx'. feed env bs (unread w) sched 0 rx = Inr (i, rx') \<and> i \<le> length (unread w)
        \<and> ((\<forall>(a, b) \<in> set sched. 0 < a \<and> 0 < b) \<and> length (unread w) \<le> length sched \<longrightarrow> i = length (unread w))
        \<and> (i = length (unread w) \<longrightarrow> linked env md bs sync tx' rx' \<and> ses_readbuf rx' = None
             \<and> (\<exists>b. ses_payload rx' = Some b \<and> wf_buf b \<and> unread b = pl)))"
proof -
  obtain ks kr c m where l: "ses_keys tx = Some ks" "ses_keys rx = Some kr"
    "kc_recv kr = (kc_trans ks)\<lparr>kd_cipher_state := kd_cipher_state (kc_recv kr)\<rparr>"
    "sync (kd_cipher_state (kc_trans ks)) (kd_cipher_state (kc_recv kr))"
    "kd_algo_crypt (kc_trans ks) = Some c" "unat (dc_blocksize c) = bs" "kd_crypt_mode (kc_trans ks) = Some md"
    "kd_algo_mac (kc_trans ks) = Some m" "kd_algo_comp (kc_trans ks) = DROPBEAR_COMP_NONE"
    and hm: "dh_hashsize m > 0 \<longrightarrow> (\<forall>msg. ce_hmac env (kd_hash_index (kc_trans ks)) (take (dh_keysize m) (kd_mackey (kc_trans ks))) msg \<noteq> None)"
    and seq: "ses_transseq tx = ses_recvseq rx"
    using link unfolding linked_def by blast
  let ?kd = "kc_trans ks" and ?kr = "kc_recv kr" and ?ms = "unat (dh_hashsize m)"
  define clear where "clear = clear_packet env (ses_transseq tx) False bs pl"
  have dir: "wf_dir env ?kd" using tx l(1) by (auto simp: send_ok_def)
  have sizes: "8 \<le> bs" "bs \<le> 128" using dir l(5,6) by (auto simp: wf_dir_def)
  have n: "1 \<le> length pl" "length pl \<le> 16384"
    using pl tx wf_bufD [of "ses_writepayload tx"] by (cases pl, auto simp: payload_of_def send_ok_def TRANS_MAX_PAYLOAD_LEN_def)
  have dvd: "bs dvd length clear"
    using padding_of_props(5) [OF sizes n(1), of False] by (simp add: clear_def length_clear_packet)
  obtain mac where mac: "packet_mac env ?kd m (ses_transseq tx) clear = Some mac" "?ms \<le> length mac"
    using packet_mac_exists [OF dir l(8) hm] by blast
  obtain ct st r2 where ct: "cm_encrypt md clear (kd_cipher_state ?kd) = Some (ct, st)" "length ct = length clear"
    "cm_decrypt md ct (kd_cipher_state ?kr) = Some (clear, r2)" "sync st r2"
    using crypt [OF l(4) dvd] by blast
  have len_bs: "bs \<le> length ct" using dvd ct(2) n by (intro dvd_imp_le) (simp_all add: clear_def length_clear_packet)
  obtain r1 where r1: "cm_decrypt md (take bs ct) (kd_cipher_state ?kr) = Some (take bs clear, r1)"
    "cm_decrypt md (drop bs ct) r1 = Some (drop bs clear, r2)"
    using pieces [OF l(4), of "take bs ct" "drop bs ct" clear r2] ct(3) len_bs by (auto simp: min_absorb2)
  obtain tx' w where w: "encrypt_packet env tx = Inr tx'" "ses_writequeue tx' = ses_writequeue tx @ [w]"
    "unread w = ct @ take ?ms mac" "ses_keys tx' = Some (ks\<lparr>kc_trans := ?kd\<lparr>kd_cipher_state := st\<rparr>\<rparr>)"
    "ses_transseq tx' = ses_transseq tx + 1"
    using encrypt_packet_wire [OF tx l(1) refl l(5,8,7) no_aead no_compress(1) [OF l(9)] pl ok _ mac ct(1,2)]
    by (auto simp: clear_def l(6))
  define R where "R = kd_cipher_state ?kr"
  have e: "?kr = ?kd\<lparr>kd_cipher_state := R\<rparr>" unfolding R_def by (rule l(3))
  have kr: "kd_algo_crypt ?kr = Some c" "kd_algo_mac ?kr = Some m" "kd_crypt_mode ?kr = Some md" "wf_dir env ?kr"
    "kd_algo_comp ?kr = DROPBEAR_COMP_NONE" "packet_mac env ?kr m (ses_recvseq rx) clear = Some mac"
    unfolding e using l dir mac(1) seq by simp_all
  have "padding_of False bs (length pl) = length (map (ce_rnd env (ses_transseq tx)) [0..<padding_of False bs (length pl)])" by simp
  then have fl: "in_flight env ?kr (ses_recvseq rx) bs ?ms pl clear ct mac r1 r2"
    unfolding in_flight_def
    using kr no_aead l(6) n pl(2) mac(2) ct(2) r1
    by (intro exI [of _ c] exI [of _ m] exI [of _ md] exI [of _ "map (ce_rnd env (ses_transseq tx)) [0..<padding_of False bs (length pl)]"])
      (simp add: clear_def clear_packet_def Let_def)
  have start: "receiving rx kr bs pl clear (unread w) r1 r2 0 rx"
    using sizes l(2) rx len_bs by (auto simp: receiving_def rx_first_def w(3))
  note del = feed_receives [OF fl refl no_compress(2) [OF kr(5)] w(3) start]
  have fin: "linked env md bs sync tx' rx' \<and> ses_readbuf rx' = None \<and> (\<exists>b. ses_payload rx' = Some b \<and> wf_buf b \<and> unread b = pl)"
    if "receiving rx kr bs pl clear (unread w) r1 r2 (length (unread w)) rx'" for rx'
  proof -
    have rc: "received rx rx' kr (?kr\<lparr>kd_cipher_state := r2\<rparr>) pl"
      using that len_bs by (auto simp: receiving_def w(3))
    have "linked env md bs sync tx' rx'"
      unfolding linked_def using rc w(4,5) l ct(4) hm seq e
      by (intro conjI exI [of _ "ks\<lparr>kc_trans := ?kd\<lparr>kd_cipher_state := st\<rparr>\<rparr>"] exI [of _ "kr\<lparr>kc_recv := ?kr\<lparr>kd_cipher_state := r2\<rparr>\<rparr>"]
          exI [of _ c] exI [of _ m]) (simp_all add: received_def)
    then show ?thesis using rc by (simp add: received_def)
  qed
  have "safe (encrypt_packet env tx) (send_ok env)"
    by (rule encrypt_packet_safe [OF tx zlib]) simp
  then have tx': "send_ok env tx'" using w(1) by simp
  show ?thesis
  proof (rule exI [of _ tx'], rule exI [of _ w], intro conjI allI)
    fix sched
    obtain i rx' where f: "feed env bs (unread w) sched 0 rx = Inr (i, rx')" "i \<le> length (unread w)"
      "receiving rx kr bs pl clear (unread w) r1 r2 i rx'"
      "(\<forall>(a, b) \<in> set sched. 0 < a \<and> 0 < b) \<longrightarrow> i = length (unread w) \<or> length sched \<le> i"
      using del [OF le0, of sched, unfolded add_0] by blast
    show "\<exists>i rx'. feed env bs (unread w) sched 0 rx = Inr (i, rx') \<and> i \<le> length (unread w)
        \<and> ((\<forall>(a, b) \<in> set sched. 0 < a \<and> 0 < b) \<and> length (unread w) \<le> length sched \<longrightarrow> i = length (unread w))
        \<and> (i = length (unread w) \<longrightarrow> linked env md bs sync tx' rx' \<and> ses_readbuf rx' = None
             \<and> (\<exists>b. ses_payload rx' = Some b \<and> wf_buf b \<and> unread b = pl))"
      using f fin by (intro exI [of _ i] exI [of _ rx']) auto
  qed (fact w tx')+
qed

end

end
