(* ===== verification/Packet_Ciphers.thy ===== *)
theory Packet_Ciphers
  imports Packet_Roundtrip
begin

text \<open>
  The packet layer with Dropbear's own ciphers: the modes of \<open>common-algo.c\<close> satisfy the
  contract the packet layer relies on, so packets sent in counter mode, or before
  the first key exchange with no cipher at all, arrive unchanged.
\<close>

section \<open>The modes keep the contract of the packet layer\<close>

definition no_sync :: "cipher_state \<Rightarrow> cipher_state \<Rightarrow> bool" where
  "no_sync s r \<longleftrightarrow> True"

definition ctr_sync :: "cipher_table \<Rightarrow> cipher_state \<Rightarrow> cipher_state \<Rightarrow> bool" where
  "ctr_sync cd s r \<longleftrightarrow> (\<exists>c d. s = CS_ctr c \<and> r = CS_ctr c \<and> cd (ctr_cipher c) = Some d \<and> wf_ctr d c
     \<and> ctr_blocklen c \<le> MAXBLOCKSIZE \<and> ctr_blocklen c mod 8 = 0)"

lemma mode_none_ok: "mode_ok dropbear_mode_none"
  by (simp add: mode_ok_def dropbear_mode_none_def void_cipher_def)

lemma mode_ctr_ok: "mode_ok (dropbear_mode_ctr cd)"
  by (auto simp: mode_ok_def dropbear_mode_ctr_def on_ctr_def ctr_decrypt_def dest: ctr_encrypt_length split: cipher_state.splits)

lemma mode_chachapoly_ok: "mode_ok dropbear_mode_chachapoly"
  by (auto simp: mode_ok_def dropbear_mode_chachapoly_def split: cipher_state.splits dest: chachapoly_length)

interpretation none: stream_mode dropbear_mode_none bs no_sync for bs
  by unfold_locales (auto simp: dropbear_mode_none_def void_cipher_def no_sync_def)

lemma ctr_sync_run:
  assumes "ctr_sync cd s r"
  obtains c d where "s = CS_ctr c" "r = CS_ctr c" "\<And>x. ctr_encrypt cd x c = ctr_loop d x c" "wf_ctr d c"
    "\<And>c' k. wf_ctr d c' \<Longrightarrow> ctr_blocklen c' = ctr_blocklen c \<Longrightarrow> ctr_cipher c' = ctr_cipher c \<Longrightarrow>
       ctr_sync cd (CS_ctr c') (CS_ctr c') \<and> ctr_encrypt cd k c' = ctr_loop d k c'"
proof -
  obtain c d where c: "s = CS_ctr c" "r = CS_ctr c" "cd (ctr_cipher c) = Some d" "wf_ctr d c"
    "ctr_blocklen c \<le> MAXBLOCKSIZE" "ctr_blocklen c mod 8 = 0"
    using assms by (auto simp: ctr_sync_def)
  have run: "ctr_encrypt cd x c' = ctr_loop d x c'"
    if "wf_ctr d c'" "ctr_blocklen c' = ctr_blocklen c" "ctr_cipher c' = ctr_cipher c" for x c'
    using that c by (auto simp: ctr_encrypt_def ctr_loop_fast_eq wf_ctr_def)
  show ?thesis
  proof (rule that [OF c(1,2) _ c(4)])
    show "ctr_encrypt cd x c = ctr_loop d x c" for x using run [OF c(4)] by simp
    show "ctr_sync cd (CS_ctr c') (CS_ctr c') \<and> ctr_encrypt cd k c' = ctr_loop d k c'"
      if "wf_ctr d c'" "ctr_blocklen c' = ctr_blocklen c" "ctr_cipher c' = ctr_cipher c" for c' k
      using that c run [OF that] by (auto simp: ctr_sync_def)
  qed
qed

interpretation ctr: stream_mode "dropbear_mode_ctr cd" bs "ctr_sync cd" for cd bs
proof
  show "cm_aead_crypt (dropbear_mode_ctr cd) = None" by (simp add: dropbear_mode_ctr_def)
next
  fix s r x assume s: "ctr_sync cd s r"
  then obtain c d where c: "s = CS_ctr c" "r = CS_ctr c" "\<And>x. ctr_encrypt cd x c = ctr_loop d x c" "wf_ctr d c"
    "\<And>c' k. wf_ctr d c' \<Longrightarrow> ctr_blocklen c' = ctr_blocklen c \<Longrightarrow> ctr_cipher c' = ctr_cipher c \<Longrightarrow>
       ctr_sync cd (CS_ctr c') (CS_ctr c') \<and> ctr_encrypt cd k c' = ctr_loop d k c'"
    by (rule ctr_sync_run) blast
  obtain y c' where "ctr_loop d x c = Some (y, c')" "length y = length x" "wf_ctr d c'" "ctr_blocklen c' = ctr_blocklen c"
    "ctr_cipher c' = ctr_cipher c"
    using ctr_loop_total [OF c(4)] by blast
  then show "\<exists>y s' r'. cm_encrypt (dropbear_mode_ctr cd) x s = Some (y, s') \<and> length y = length x
      \<and> cm_decrypt (dropbear_mode_ctr cd) y r = Some (x, r') \<and> ctr_sync cd s' r'"
    using c ctr_loop_invol [of d x c y c'] by (auto simp: dropbear_mode_ctr_def on_ctr_def ctr_decrypt_def)
next
  fix s r r' :: cipher_state and a b x :: "byte list"
  assume s: "ctr_sync cd s r" and dec: "cm_decrypt (dropbear_mode_ctr cd) (a @ b) r = Some (x, r')"
  from s obtain c d where c: "s = CS_ctr c" "r = CS_ctr c" "\<And>x. ctr_encrypt cd x c = ctr_loop d x c" "wf_ctr d c"
    "\<And>c' k. wf_ctr d c' \<Longrightarrow> ctr_blocklen c' = ctr_blocklen c \<Longrightarrow> ctr_cipher c' = ctr_cipher c \<Longrightarrow>
       ctr_sync cd (CS_ctr c') (CS_ctr c') \<and> ctr_encrypt cd k c' = ctr_loop d k c'"
    by (rule ctr_sync_run) blast
  obtain y c1 where y: "ctr_loop d a c = Some (y, c1)" "length y = length a" "wf_ctr d c1" "ctr_blocklen c1 = ctr_blocklen c"
    "ctr_cipher c1 = ctr_cipher c"
    using ctr_loop_total [OF c(4)] by blast
  obtain z c2 where z: "ctr_loop d b c1 = Some (z, c2)" using ctr_loop_total [OF y(3)] by blast
  have "x = y @ z" "r' = CS_ctr c2"
    using dec y z c(2,3) by (auto simp: dropbear_mode_ctr_def on_ctr_def ctr_decrypt_def ctr_loop_append)
  then show "\<exists>r1. cm_decrypt (dropbear_mode_ctr cd) a r = Some (take (length a) x, r1)
      \<and> cm_decrypt (dropbear_mode_ctr cd) b r1 = Some (drop (length a) x, r')"
    using y z c by (auto simp: dropbear_mode_ctr_def on_ctr_def ctr_decrypt_def)
qed

section \<open>Packets arrive\<close>

text \<open>
  C11. A packet arrives as it was sent.  Two sessions that share counter mode keys with a MAC, or none,
  and that have agreed on no compression (\<open>linked\<close> asks for \<open>DROPBEAR_COMP_NONE\<close>; packets that are
  compressed are not covered): the bytes \<open>encrypt_packet\<close> appends to the write queue, given to the other side in any pieces
  (a read may return any part of what was asked for), make \<open>read_packet\<close> produce
  exactly the payload that was sent, with the padding and MAC checked and removed; no
  sequence of reads faults, once every byte has been read the payload is there, and the two
  sessions are linked again for the next packet.
\<close>

theorem packet_roundtrip:
  assumes "linked env (dropbear_mode_ctr cd) bs (ctr_sync cd) tx rx" "send_ok env tx" "zlib_ok env" "ses_readbuf rx = None"
    and "payload_of tx = pl" "pl \<noteq> []" "ses_dataallowed tx \<or> packet_is_okay_kex (hd pl)"
  shows "\<exists>tx' w. encrypt_packet env tx = Inr tx' \<and> send_ok env tx' \<and> ses_writequeue tx' = ses_writequeue tx @ [w]
    \<and> (\<forall>sched. \<exists>i rx'. feed env bs (unread w) sched 0 rx = Inr (i, rx') \<and> i \<le> length (unread w)
        \<and> ((\<forall>(a, b) \<in> set sched. 0 < a \<and> 0 < b) \<and> length (unread w) \<le> length sched \<longrightarrow> i = length (unread w))
        \<and> (i = length (unread w) \<longrightarrow> linked env (dropbear_mode_ctr cd) bs (ctr_sync cd) tx' rx' \<and> ses_readbuf rx' = None
             \<and> (\<exists>b. ses_payload rx' = Some b \<and> wf_buf b \<and> unread b = pl)))"
  using assms by (rule ctr.packet_delivered)

definition ctr_dir :: key_context_directional where
  "ctr_dir = init_dir\<lparr>kd_crypt_mode := Some (dropbear_mode_ctr xor_table), kd_cipher_state := CS_ctr example_ctr\<rparr>"

definition one_byte_payload :: buffer where
  "one_byte_payload = \<lparr>b_data = 2 # replicate 16383 0, b_len = 1, b_pos = 0, b_size = TRANS_MAX_PAYLOAD_LEN\<rparr>"

definition ctr_sender :: sshsession where
  "ctr_sender = init_session\<lparr>ses_keys := Some (zero_keys\<lparr>kc_trans := ctr_dir, kc_recv := init_dir\<rparr>), ses_writepayload := one_byte_payload\<rparr>"

definition ctr_receiver :: sshsession where
  "ctr_receiver = init_session\<lparr>ses_keys := Some (zero_keys\<lparr>kc_recv := ctr_dir, kc_trans := init_dir\<rparr>)\<rparr>"

lemma wf_ctr_dir: "wf_dir plain_env ctr_dir"
  using wf_init_dir mode_ctr_ok [of xor_table] by (auto simp: wf_dir_def ctr_dir_def)

lemma ctr_sender_ok: "send_ok plain_env ctr_sender" "payload_of ctr_sender = [2]"
proof -
  have "wf_buf one_byte_payload" by (simp add: wf_buf_def one_byte_payload_def TRANS_MAX_PAYLOAD_LEN_def u32_nat)
  then show "send_ok plain_env ctr_sender"
    using init_send_ok(1) wf_ctr_dir by (simp add: send_ok_def ctr_sender_def one_byte_payload_def)
  show "payload_of ctr_sender = [2]"
    by (simp add: payload_of_def ctr_sender_def one_byte_payload_def)
qed

lemma ctr_linked: "linked plain_env (dropbear_mode_ctr xor_table) 8 (ctr_sync xor_table) ctr_sender ctr_receiver"
proof -
  have "ctr_sync xor_table (CS_ctr example_ctr) (CS_ctr example_ctr)"
    by (simp add: ctr_sync_def wf_ctr_def ecb_ok_def example_ctr_def xor_cipher_def xor_table_def MAXBLOCKSIZE_def)
  then show ?thesis
    by (simp add: linked_def ctr_sender_def ctr_receiver_def init_session_fields ctr_dir_def init_dir_def zero_keys_dir_def
        dropbear_nocipher_def dropbear_nohash_def DROPBEAR_COMP_NONE_def)
qed

theorem packet_roundtrip_witness:
  "\<exists>tx' w i rx' b. encrypt_packet plain_env ctr_sender = Inr tx' \<and> ses_writequeue tx' = [w]
     \<and> feed plain_env 8 (unread w) (replicate (length (unread w)) (3, 1)) 0 ctr_receiver = Inr (i, rx')
     \<and> ses_payload rx' = Some b \<and> unread b = [2]"
proof -
  have r: "ses_readbuf ctr_receiver = None" by (simp add: ctr_receiver_def init_session_fields)
  have d: "ses_dataallowed ctr_sender \<or> packet_is_okay_kex (hd [2])" by (simp add: ctr_sender_def init_session_fields)
  obtain tx' w where tx: "encrypt_packet plain_env ctr_sender = Inr tx'" "ses_writequeue tx' = ses_writequeue ctr_sender @ [w]"
    and all: "\<forall>sched. \<exists>i rx'. feed plain_env 8 (unread w) sched 0 ctr_receiver = Inr (i, rx') \<and> i \<le> length (unread w)
        \<and> ((\<forall>(a, b) \<in> set sched. 0 < a \<and> 0 < b) \<and> length (unread w) \<le> length sched \<longrightarrow> i = length (unread w))
        \<and> (i = length (unread w) \<longrightarrow> linked plain_env (dropbear_mode_ctr xor_table) 8 (ctr_sync xor_table) tx' rx' \<and> ses_readbuf rx' = None
             \<and> (\<exists>b. ses_payload rx' = Some b \<and> wf_buf b \<and> unread b = [2]))"
    using packet_roundtrip [OF ctr_linked ctr_sender_ok(1) plain_env_zlib r ctr_sender_ok(2) _ d] by blast
  have "ses_writequeue ctr_sender = []" by (simp add: ctr_sender_def init_session_fields)
  then show ?thesis using tx all [rule_format, of "replicate (length (unread w)) (3, 1)"] by auto
qed

end
