(* ===== verification/Process_Packet.thy ===== *)
theory Process_Packet
  imports Packet_Send
begin

text \<open>
  Dispatch of received packets, \<open>src/src/process-packet.c\<close>, with the server's table of
  handlers (\<open>src/src/svr-session.c\<close>).  A handler is a function on the session; the table
  is an argument of \<open>process_packet\<close>, as it is a pointer in the code.  The lemmas say
  when a handler can run at all: what is reachable before authentication, and
  what strict key exchange lets through.
\<close>

section \<open>Definitions\<close>

definition SSH_MSG_EXT_INFO :: byte where "SSH_MSG_EXT_INFO = 7"
definition SSH_MSG_KEXDH_INIT :: byte where "SSH_MSG_KEXDH_INIT = 30"
definition SSH_MSG_KEXDH_REPLY :: byte where "SSH_MSG_KEXDH_REPLY = 31"
definition SSH_MSG_USERAUTH_FAILURE :: byte where "SSH_MSG_USERAUTH_FAILURE = 51"
definition SSH_MSG_USERAUTH_SUCCESS :: byte where "SSH_MSG_USERAUTH_SUCCESS = 52"
definition SSH_MSG_USERAUTH_BANNER :: byte where "SSH_MSG_USERAUTH_BANNER = 53"
definition SSH_MSG_USERAUTH_PK_OK :: byte where "SSH_MSG_USERAUTH_PK_OK = 60"
definition SSH_MSG_GLOBAL_REQUEST :: byte where "SSH_MSG_GLOBAL_REQUEST = 80"
definition SSH_MSG_REQUEST_SUCCESS :: byte where "SSH_MSG_REQUEST_SUCCESS = 81"
definition SSH_MSG_CHANNEL_OPEN :: byte where "SSH_MSG_CHANNEL_OPEN = 90"
definition SSH_MSG_CHANNEL_OPEN_CONFIRMATION :: byte where "SSH_MSG_CHANNEL_OPEN_CONFIRMATION = 91"
definition SSH_MSG_CHANNEL_OPEN_FAILURE :: byte where "SSH_MSG_CHANNEL_OPEN_FAILURE = 92"
definition SSH_MSG_CHANNEL_WINDOW_ADJUST :: byte where "SSH_MSG_CHANNEL_WINDOW_ADJUST = 93"
definition SSH_MSG_CHANNEL_DATA :: byte where "SSH_MSG_CHANNEL_DATA = 94"
definition SSH_MSG_CHANNEL_EXTENDED_DATA :: byte where "SSH_MSG_CHANNEL_EXTENDED_DATA = 95"
definition SSH_MSG_CHANNEL_EOF :: byte where "SSH_MSG_CHANNEL_EOF = 96"
definition SSH_MSG_CHANNEL_CLOSE :: byte where "SSH_MSG_CHANNEL_CLOSE = 97"
definition SSH_MSG_CHANNEL_REQUEST :: byte where "SSH_MSG_CHANNEL_REQUEST = 98"
definition SSH_MSG_CHANNEL_SUCCESS :: byte where "SSH_MSG_CHANNEL_SUCCESS = 99"
definition SSH_MSG_CHANNEL_FAILURE :: byte where "SSH_MSG_CHANNEL_FAILURE = 100"

lemmas msg_defs = SSH_MSG_DISCONNECT_def SSH_MSG_IGNORE_def SSH_MSG_UNIMPLEMENTED_def SSH_MSG_DEBUG_def
  SSH_MSG_SERVICE_REQUEST_def SSH_MSG_SERVICE_ACCEPT_def SSH_MSG_EXT_INFO_def SSH_MSG_KEXINIT_def
  SSH_MSG_NEWKEYS_def SSH_MSG_KEXDH_INIT_def SSH_MSG_KEXDH_REPLY_def SSH_MSG_USERAUTH_REQUEST_def
  SSH_MSG_USERAUTH_FAILURE_def SSH_MSG_USERAUTH_SUCCESS_def SSH_MSG_USERAUTH_BANNER_def
  SSH_MSG_USERAUTH_PK_OK_def SSH_MSG_GLOBAL_REQUEST_def
  SSH_MSG_REQUEST_SUCCESS_def SSH_MSG_REQUEST_FAILURE_def SSH_MSG_CHANNEL_OPEN_def
  SSH_MSG_CHANNEL_OPEN_CONFIRMATION_def SSH_MSG_CHANNEL_OPEN_FAILURE_def
  SSH_MSG_CHANNEL_WINDOW_ADJUST_def SSH_MSG_CHANNEL_DATA_def SSH_MSG_CHANNEL_EXTENDED_DATA_def
  SSH_MSG_CHANNEL_EOF_def SSH_MSG_CHANNEL_CLOSE_def SSH_MSG_CHANNEL_REQUEST_def
  SSH_MSG_CHANNEL_SUCCESS_def SSH_MSG_CHANNEL_FAILURE_def

definition MAX_UNAUTH_PACKET_TYPE :: byte where "MAX_UNAUTH_PACKET_TYPE = SSH_MSG_USERAUTH_PK_OK"

type_synonym handler = "sshsession \<Rightarrow> sshsession res"

type_synonym packettype = "byte \<times> handler"

text \<open>The sequence number is the one the packet had; reading it has moved the counter on.\<close>

definition recv_unimplemented :: "env \<Rightarrow> sshsession \<Rightarrow> sshsession res" where
  "recv_unimplemented env ses =
     bindE (buf_putbyte (ses_writepayload ses) SSH_MSG_UNIMPLEMENTED) (\<lambda>wp.
     bindE (buf_putint wp (ses_recvseq ses - 1)) (\<lambda>wp.
     encrypt_packet env (ses\<lparr>ses_writepayload := wp\<rparr>)))"

text \<open>The search of the table, which ends at the entry of type 0.\<close>

fun find_handler :: "packettype list \<Rightarrow> byte \<Rightarrow> handler option" where
  "find_handler [] type = None"
| "find_handler ((t, h) # rest) type =
     (if t = 0 then None else if t = type then Some h else find_handler rest type)"

text \<open>The label \<open>out\<close>.\<close>

definition packet_out :: "byte \<Rightarrow> sshsession \<Rightarrow> sshsession res" where
  "packet_out type ses = returnE (ses\<lparr>ses_lastpacket := type, ses_payload := None\<rparr>)"

definition first_strict_kex :: "sshsession \<Rightarrow> bool" where
  "first_strict_kex ses \<longleftrightarrow> kx_strict_kex (ses_kexstate ses) \<and> \<not> kx_recvfirstnewkeys (ses_kexstate ses)"

text \<open>Packets that do not count as activity leave the idle time alone.\<close>

definition touch_idle :: "int \<Rightarrow> byte \<Rightarrow> sshsession \<Rightarrow> sshsession" where
  "touch_idle now type ses =
     (if \<not> (type = SSH_MSG_GLOBAL_REQUEST \<or> type = SSH_MSG_REQUEST_FAILURE \<or> type = SSH_MSG_CHANNEL_FAILURE)
      then ses\<lparr>ses_last_packet_time_idle := now\<rparr> else ses)"

definition clear_requirenext :: "byte \<Rightarrow> sshsession \<Rightarrow> sshsession" where
  "clear_requirenext type ses =
     (if ses_requirenext ses \<noteq> 0 \<and> ses_requirenext ses = type then ses\<lparr>ses_requirenext := 0\<rparr> else ses)"

definition process_packet :: "env \<Rightarrow> packettype list \<Rightarrow> sshsession \<Rightarrow> sshsession res" where
  "process_packet env packettypes ses =
     (let first_strict = first_strict_kex ses in
      bindE (nn (ses_payload ses)) (\<lambda>payload.
      bindE (buf_getbyte payload) (\<lambda>(type, payload).
      let now = ce_now env;
          ses = ses\<lparr>ses_payload := Some payload, ses_last_packet_time_keepalive_recv := now\<rparr> in
      if type = SSH_MSG_DISCONNECT then dropbear_close ''Disconnect received''
      else if \<not> first_strict \<and> (type = SSH_MSG_IGNORE \<or> type = SSH_MSG_DEBUG \<or> type = SSH_MSG_UNIMPLEMENTED)
      then packet_out type ses
      else
        let ses = touch_idle now type ses in
        if ses_requirenext ses \<noteq> 0 \<and> ses_requirenext ses \<noteq> type then
          if type \<ge> 1 \<and> type \<le> 49 \<and> type \<noteq> SSH_MSG_SERVICE_REQUEST \<and> type \<noteq> SSH_MSG_SERVICE_ACCEPT
             \<and> type \<noteq> SSH_MSG_KEXINIT \<and> \<not> first_strict
          then bindE (recv_unimplemented env ses) (packet_out type)
          else dropbear_exit ''Unexpected packet type''
        else if ses_ignorenext ses then packet_out type (ses\<lparr>ses_ignorenext := False\<rparr>)
        else
          let ses = clear_requirenext type ses in
          if \<not> as_authdone (ses_authstate ses) \<and> type > MAX_UNAUTH_PACKET_TYPE
          then dropbear_exit ''Received message before userauth''
          else
            case find_handler packettypes type of
              Some handler \<Rightarrow> bindE (handler ses) (packet_out type)
            | None \<Rightarrow> bindE (recv_unimplemented env ses) (packet_out type))))"

subsection \<open>The server's table\<close>

text \<open>The functions the table points to.\<close>

record svr_handlers =
  h_recv_msg_channel_data :: handler
  h_recv_msg_channel_window_adjust :: handler
  h_recv_msg_userauth_request :: handler
  h_recv_msg_service_request :: handler
  h_recv_msg_kexinit :: handler
  h_recv_msg_kexdh_init :: handler
  h_recv_msg_newkeys :: handler
  h_svr_recv_msg_global_request :: handler
  h_recv_msg_channel_request :: handler
  h_recv_msg_channel_open :: handler
  h_recv_msg_channel_eof :: handler
  h_recv_msg_channel_close :: handler
  h_ignore_recv_response :: handler
  h_recv_msg_channel_open_confirmation :: handler
  h_recv_msg_channel_open_failure :: handler

definition svr_packettypes :: "svr_handlers \<Rightarrow> packettype list" where
  "svr_packettypes h =
     [(SSH_MSG_CHANNEL_DATA, h_recv_msg_channel_data h),
      (SSH_MSG_CHANNEL_WINDOW_ADJUST, h_recv_msg_channel_window_adjust h),
      (SSH_MSG_USERAUTH_REQUEST, h_recv_msg_userauth_request h),
      (SSH_MSG_SERVICE_REQUEST, h_recv_msg_service_request h),
      (SSH_MSG_KEXINIT, h_recv_msg_kexinit h),
      (SSH_MSG_KEXDH_INIT, h_recv_msg_kexdh_init h),
      (SSH_MSG_NEWKEYS, h_recv_msg_newkeys h),
      (SSH_MSG_GLOBAL_REQUEST, h_svr_recv_msg_global_request h),
      (SSH_MSG_CHANNEL_REQUEST, h_recv_msg_channel_request h),
      (SSH_MSG_CHANNEL_OPEN, h_recv_msg_channel_open h),
      (SSH_MSG_CHANNEL_EOF, h_recv_msg_channel_eof h),
      (SSH_MSG_CHANNEL_CLOSE, h_recv_msg_channel_close h),
      (SSH_MSG_CHANNEL_SUCCESS, h_ignore_recv_response h),
      (SSH_MSG_CHANNEL_FAILURE, h_ignore_recv_response h),
      (SSH_MSG_REQUEST_FAILURE, h_ignore_recv_response h),
      (SSH_MSG_REQUEST_SUCCESS, h_ignore_recv_response h),
      (SSH_MSG_CHANNEL_OPEN_CONFIRMATION, h_recv_msg_channel_open_confirmation h),
      (SSH_MSG_CHANNEL_OPEN_FAILURE, h_recv_msg_channel_open_failure h)]"

text \<open>The additional functions of the client's table.\<close>

record cli_handlers = svr_handlers +
  h_recv_msg_channel_extended_data :: handler
  h_recv_msg_userauth_failure :: handler
  h_recv_msg_userauth_success :: handler
  h_recv_msg_kexdh_reply :: handler
  h_recv_msg_service_accept :: handler
  h_recv_msg_userauth_banner :: handler
  h_recv_msg_userauth_specific_60 :: handler
  h_recv_msg_global_request_cli :: handler
  h_cli_recv_msg_request_success :: handler
  h_cli_recv_msg_request_failure :: handler
  h_recv_msg_ext_info :: handler

definition cli_packettypes :: "cli_handlers \<Rightarrow> packettype list" where
  "cli_packettypes h =
     [(SSH_MSG_CHANNEL_DATA, h_recv_msg_channel_data h),
      (SSH_MSG_CHANNEL_EXTENDED_DATA, h_recv_msg_channel_extended_data h),
      (SSH_MSG_CHANNEL_WINDOW_ADJUST, h_recv_msg_channel_window_adjust h),
      (SSH_MSG_USERAUTH_FAILURE, h_recv_msg_userauth_failure h),
      (SSH_MSG_USERAUTH_SUCCESS, h_recv_msg_userauth_success h),
      (SSH_MSG_KEXINIT, h_recv_msg_kexinit h),
      (SSH_MSG_KEXDH_REPLY, h_recv_msg_kexdh_reply h),
      (SSH_MSG_NEWKEYS, h_recv_msg_newkeys h),
      (SSH_MSG_SERVICE_ACCEPT, h_recv_msg_service_accept h),
      (SSH_MSG_CHANNEL_REQUEST, h_recv_msg_channel_request h),
      (SSH_MSG_CHANNEL_OPEN, h_recv_msg_channel_open h),
      (SSH_MSG_CHANNEL_EOF, h_recv_msg_channel_eof h),
      (SSH_MSG_CHANNEL_CLOSE, h_recv_msg_channel_close h),
      (SSH_MSG_CHANNEL_OPEN_CONFIRMATION, h_recv_msg_channel_open_confirmation h),
      (SSH_MSG_CHANNEL_OPEN_FAILURE, h_recv_msg_channel_open_failure h),
      (SSH_MSG_USERAUTH_BANNER, h_recv_msg_userauth_banner h),
      (SSH_MSG_USERAUTH_PK_OK, h_recv_msg_userauth_specific_60 h),
      (SSH_MSG_GLOBAL_REQUEST, h_recv_msg_global_request_cli h),
      (SSH_MSG_CHANNEL_SUCCESS, h_ignore_recv_response h),
      (SSH_MSG_CHANNEL_FAILURE, h_ignore_recv_response h),
      (SSH_MSG_REQUEST_SUCCESS, h_cli_recv_msg_request_success h),
      (SSH_MSG_REQUEST_FAILURE, h_cli_recv_msg_request_failure h),
      (SSH_MSG_EXT_INFO, h_recv_msg_ext_info h)]"

section \<open>When a handler can run\<close>

text \<open>The conditions under which the table is consulted for a packet of a given type.\<close>

definition may_dispatch :: "sshsession \<Rightarrow> byte \<Rightarrow> bool" where
  "may_dispatch ses type \<longleftrightarrow> type \<noteq> SSH_MSG_DISCONNECT
     \<and> (first_strict_kex ses \<or> type \<notin> {SSH_MSG_IGNORE, SSH_MSG_DEBUG, SSH_MSG_UNIMPLEMENTED})
     \<and> (ses_requirenext ses = 0 \<or> ses_requirenext ses = type)
     \<and> \<not> ses_ignorenext ses
     \<and> (as_authdone (ses_authstate ses) \<or> type \<le> MAX_UNAUTH_PACKET_TYPE)"

text \<open>The type of the packet waiting to be processed.\<close>

definition packet_type :: "sshsession \<Rightarrow> byte option" where
  "packet_type ses = (case ses_payload ses of None \<Rightarrow> None
     | Some p \<Rightarrow> (case buf_getbyte p of Inl _ \<Rightarrow> None | Inr (type, _) \<Rightarrow> Some type))"

lemma packet_typeE:
  assumes "packet_type ses = Some type"
  obtains p p' where "ses_payload ses = Some p" "buf_getbyte p = Inr (type, p')"
  using assms that by (auto simp: packet_type_def split: option.splits sum.splits)

lemma packet_type_None:
  assumes "packet_type ses = None"
  obtains "ses_payload ses = None" | p e where "ses_payload ses = Some p" "buf_getbyte p = Inl e"
  using assms that by (auto simp: packet_type_def split: option.splits sum.splits)

text \<open>The session a handler is called on.\<close>

definition dispatched :: "env \<Rightarrow> byte \<Rightarrow> buffer \<Rightarrow> sshsession \<Rightarrow> sshsession" where
  "dispatched env type p ses = clear_requirenext type (touch_idle (ce_now env) type
     (ses\<lparr>ses_payload := Some p, ses_last_packet_time_keepalive_recv := ce_now env\<rparr>))"

lemma touch_idle_fields [simp]:
  "ses_requirenext (touch_idle now type ses) = ses_requirenext ses"
  "ses_ignorenext (touch_idle now type ses) = ses_ignorenext ses"
  "ses_authstate (touch_idle now type ses) = ses_authstate ses"
  by (simp_all add: touch_idle_def)

lemma clear_requirenext_fields [simp]:
  "ses_authstate (clear_requirenext type ses) = ses_authstate ses"
  "ses_ignorenext (clear_requirenext type ses) = ses_ignorenext ses"
  "ses_requirenext (clear_requirenext type ses) = (if ses_requirenext ses = type then 0 else ses_requirenext ses)"
  by (auto simp: clear_requirenext_def)

lemma process_packet_dispatch:
  assumes "ses_payload ses = Some p" "buf_getbyte p = Inr (type, p')" "may_dispatch ses type"
  shows "process_packet env tbl ses = bindE
     (case find_handler tbl type of Some h \<Rightarrow> h (dispatched env type p' ses)
      | None \<Rightarrow> recv_unimplemented env (dispatched env type p' ses)) (packet_out type)"
proof -
  have "(type = SSH_MSG_DISCONNECT) = False" "ses_ignorenext ses = False"
    "(\<not> first_strict_kex ses \<and> (type = SSH_MSG_IGNORE \<or> type = SSH_MSG_DEBUG \<or> type = SSH_MSG_UNIMPLEMENTED)) = False"
    "(ses_requirenext ses \<noteq> 0 \<and> ses_requirenext ses \<noteq> type) = False"
    "(\<not> as_authdone (ses_authstate ses) \<and> type > MAX_UNAUTH_PACKET_TYPE) = False"
    using assms(3) by (auto simp: may_dispatch_def)
  moreover have "ses_requirenext (ses\<lparr>ses_payload := q, ses_last_packet_time_keepalive_recv := n\<rparr>) = ses_requirenext ses"
    "ses_ignorenext (ses\<lparr>ses_payload := q, ses_last_packet_time_keepalive_recv := n\<rparr>) = ses_ignorenext ses"
    "ses_authstate (ses\<lparr>ses_payload := q, ses_last_packet_time_keepalive_recv := n\<rparr>) = ses_authstate ses" for q n
    by simp_all
  ultimately show ?thesis
    using assms(1,2)
    by (cases "find_handler tbl type") (simp_all only: process_packet_def dispatched_def Let_def nn_simps bindE_simps
          option.case prod.case if_False touch_idle_fields clear_requirenext_fields)
qed

lemma process_packet_table:
  assumes "\<And>type. packet_type ses = Some type \<Longrightarrow> may_dispatch ses type \<Longrightarrow> find_handler tbl type = find_handler tbl' type"
  shows "process_packet env tbl ses = process_packet env tbl' ses"
proof (cases "packet_type ses")
  case None
  then show ?thesis by (rule packet_type_None) (simp_all add: process_packet_def)
next
  case (Some type)
  then obtain p p' where p: "ses_payload ses = Some p" "buf_getbyte p = Inr (type, p')"
    by (rule packet_typeE)
  show ?thesis
  proof (cases "may_dispatch ses type")
    case True
    then show ?thesis using assms [OF Some True] p by (simp add: process_packet_dispatch)
  next
    case False
    then show ?thesis
      using p unfolding may_dispatch_def by (auto simp: process_packet_def Let_def not_less)
  qed
qed

text \<open>
  C21. Nothing but key exchange and authentication is reachable before authentication.
  While \<open>authdone\<close> is not set, what the server does with a packet does not depend on the
  handlers for channels, forwarding and global requests: two servers that share
  the handlers for \<open>KEXINIT\<close>, \<open>KEXDH_INIT\<close>, \<open>NEWKEYS\<close>, \<open>SERVICE_REQUEST\<close> and
  \<open>USERAUTH_REQUEST\<close> behave the same on every packet and in every state.
\<close>

theorem preauth_isolated:
  assumes "\<not> as_authdone (ses_authstate ses)"
    and "h_recv_msg_kexinit h = h_recv_msg_kexinit h'" "h_recv_msg_kexdh_init h = h_recv_msg_kexdh_init h'"
      "h_recv_msg_newkeys h = h_recv_msg_newkeys h'"
      "h_recv_msg_service_request h = h_recv_msg_service_request h'"
      "h_recv_msg_userauth_request h = h_recv_msg_userauth_request h'"
  shows "process_packet env (svr_packettypes h) ses = process_packet env (svr_packettypes h') ses"
proof (rule process_packet_table)
  fix type assume "may_dispatch ses type"
  then have "type \<le> 60"
    using assms(1) by (simp add: may_dispatch_def MAX_UNAUTH_PACKET_TYPE_def SSH_MSG_USERAUTH_PK_OK_def)
  then have "type \<notin> {80, 81, 82, 90, 91, 92, 93, 94, 96, 97, 98, 99, 100}"
    by (auto simp: word_le_nat_alt)
  then show "find_handler (svr_packettypes h) type = find_handler (svr_packettypes h') type"
    using assms(2-6) by (simp add: svr_packettypes_def msg_defs)
qed

text \<open>
  C22. Strict key exchange admits no other packet.  During the first key exchange of a
  session with strict mode agreed, while a particular packet is expected, every
  packet of another type ends the session, including the ones that are
  otherwise ignored; so an attacker who does not hold the keys cannot slip packets in
  to shift the sequence numbers.
\<close>

theorem strict_kex_no_extra:
  assumes "first_strict_kex ses" "ses_requirenext ses \<noteq> 0"
    and "packet_type ses = Some type" "type \<noteq> ses_requirenext ses"
  shows "process_packet env tbl ses \<in> {Inl (Close ''Disconnect received''), Inl (Exit ''Unexpected packet type'')}"
proof -
  obtain p p' where "ses_payload ses = Some p" "buf_getbyte p = Inr (type, p')"
    using assms(3) by (rule packet_typeE)
  then show ?thesis
    using assms(1,2,4) by (auto simp: process_packet_def Let_def)
qed

definition strict_witness_session :: sshsession where
  "strict_witness_session = init_session\<lparr>ses_payload := Some (buf_of [SSH_MSG_IGNORE]),
     ses_kexstate := zero_kexstate\<lparr>kx_strict_kex := True\<rparr>, ses_requirenext := SSH_MSG_NEWKEYS\<rparr>"

theorem strict_kex_no_extra_witness:
  "process_packet plain_env [] strict_witness_session
     \<in> {Inl (Close ''Disconnect received''), Inl (Exit ''Unexpected packet type'')}"
proof (rule strict_kex_no_extra)
  show "packet_type strict_witness_session = Some SSH_MSG_IGNORE"
    using buf_getbyte_eq [of "buf_of [SSH_MSG_IGNORE]"] wf_buf_of [of "[SSH_MSG_IGNORE]"]
    by (simp add: packet_type_def strict_witness_session_def unread_buf_of)
qed (simp_all add: strict_witness_session_def first_strict_kex_def zero_kexstate_def msg_defs)

definition dull_handlers :: "handler \<Rightarrow> svr_handlers" where
  "dull_handlers f = \<lparr>h_recv_msg_channel_data = f, h_recv_msg_channel_window_adjust = f,
     h_recv_msg_userauth_request = Inr, h_recv_msg_service_request = Inr, h_recv_msg_kexinit = Inr,
     h_recv_msg_kexdh_init = Inr, h_recv_msg_newkeys = Inr, h_svr_recv_msg_global_request = f,
     h_recv_msg_channel_request = f, h_recv_msg_channel_open = f, h_recv_msg_channel_eof = f,
     h_recv_msg_channel_close = f, h_ignore_recv_response = f, h_recv_msg_channel_open_confirmation = f,
     h_recv_msg_channel_open_failure = f\<rparr>"

text \<open>A server that gets a request for a channel before authentication.\<close>

definition early_session :: sshsession where
  "early_session = init_session\<lparr>ses_payload := Some (buf_of [SSH_MSG_CHANNEL_OPEN])\<rparr>"

theorem preauth_isolated_witness:
  "process_packet plain_env (svr_packettypes (dull_handlers Inr)) early_session
     = process_packet plain_env (svr_packettypes (dull_handlers (\<lambda>_. Inl Mem_fault))) early_session
   \<and> packet_type early_session = Some SSH_MSG_CHANNEL_OPEN"
proof
  show "process_packet plain_env (svr_packettypes (dull_handlers Inr)) early_session
     = process_packet plain_env (svr_packettypes (dull_handlers (\<lambda>_. Inl Mem_fault))) early_session"
    by (rule preauth_isolated) (simp_all add: dull_handlers_def early_session_def init_session_fields zero_authstate_def)
  show "packet_type early_session = Some SSH_MSG_CHANNEL_OPEN"
    using buf_getbyte_eq [of "buf_of [SSH_MSG_CHANNEL_OPEN]"] wf_buf_of [of "[SSH_MSG_CHANNEL_OPEN]"]
    by (simp add: packet_type_def early_session_def unread_buf_of)
qed

end
