(* ===== verification/Packet_Frame.thy ===== *)
theory Packet_Frame
  imports Packet_Send
begin

text \<open>
  What sending leaves alone: \<open>encrypt_packet\<close> changes the outgoing half of a session and the
  count of bytes sent, and nothing else.
\<close>

definition sends :: "sshsession \<Rightarrow> sshsession \<Rightarrow> bool" where
  "sends a b \<longleftrightarrow>
     ses_isserver b = ses_isserver a \<and> ses_connect_time b = ses_connect_time a \<and> ses_remoteident b = ses_remoteident a
   \<and> ses_readbuf b = ses_readbuf a \<and> ses_payload b = ses_payload a \<and> ses_payload_beginning b = ses_payload_beginning a
   \<and> ses_recvseq b = ses_recvseq a \<and> ses_dataallowed b = ses_dataallowed a \<and> ses_requirenext b = ses_requirenext a
   \<and> ses_ignorenext b = ses_ignorenext a \<and> ses_lastpacket b = ses_lastpacket a
   \<and> (ses_kexstate b)\<lparr>kx_datatrans := 0\<rparr> = (ses_kexstate a)\<lparr>kx_datatrans := 0\<rparr>
   \<and> map_option kc_recv (ses_keys b) = map_option kc_recv (ses_keys a)
   \<and> ses_newkeys b = ses_newkeys a \<and> ses_session_id b = ses_session_id a \<and> ses_dh_K b = ses_dh_K a
   \<and> ses_dh_K_bytes b = ses_dh_K_bytes a \<and> ses_hash b = ses_hash a \<and> ses_kexhashbuf b = ses_kexhashbuf a
   \<and> ses_transkexinit b = ses_transkexinit a \<and> ses_compress_algos_c2s b = ses_compress_algos_c2s a
   \<and> ses_compress_algos_s2c b = ses_compress_algos_s2c a \<and> ses_sigalgs b = ses_sigalgs a
   \<and> ses_allow_ext_info b = ses_allow_ext_info a \<and> ses_send_kex_first_guess b = ses_send_kex_first_guess a
   \<and> ses_authstate b = ses_authstate a \<and> ses_channels b = ses_channels a \<and> ses_chancount b = ses_chancount a
   \<and> ses_chantypes b = ses_chantypes a"

lemma sends_refl [simp]: "sends a a"
  by (simp add: sends_def)

lemma sends_trans: "sends a b \<Longrightarrow> sends b c \<Longrightarrow> sends a c"
  by (simp add: sends_def)

lemma kexstate_eqD:
  "k\<lparr>kx_datatrans := 0\<rparr> = k'\<lparr>kx_datatrans := 0\<rparr> \<Longrightarrow>
     kx_sentkexinit k = kx_sentkexinit k' \<and> kx_recvkexinit k = kx_recvkexinit k' \<and> kx_sentnewkeys k = kx_sentnewkeys k'
   \<and> kx_recvnewkeys k = kx_recvnewkeys k' \<and> kx_donefirstkex k = kx_donefirstkex k' \<and> kx_donesecondkex k = kx_donesecondkex k'
   \<and> kx_recvfirstnewkeys k = kx_recvfirstnewkeys k' \<and> kx_strict_kex k = kx_strict_kex k'
   \<and> kx_them_firstfollows k = kx_them_firstfollows k' \<and> kx_needrekey k = kx_needrekey k'
   \<and> kx_lastkextime k = kx_lastkextime k' \<and> kx_datarecv k = kx_datarecv k'"
  by (cases k; cases k') simp

lemmas sendsD = sends_def [THEN iffD1]

lemma sends_kex:
  assumes "sends a b"
  shows "kx_sentkexinit (ses_kexstate b) = kx_sentkexinit (ses_kexstate a)"
    "kx_recvkexinit (ses_kexstate b) = kx_recvkexinit (ses_kexstate a)"
    "kx_sentnewkeys (ses_kexstate b) = kx_sentnewkeys (ses_kexstate a)"
    "kx_recvnewkeys (ses_kexstate b) = kx_recvnewkeys (ses_kexstate a)"
    "kx_donefirstkex (ses_kexstate b) = kx_donefirstkex (ses_kexstate a)"
    "kx_donesecondkex (ses_kexstate b) = kx_donesecondkex (ses_kexstate a)"
    "kx_recvfirstnewkeys (ses_kexstate b) = kx_recvfirstnewkeys (ses_kexstate a)"
    "kx_strict_kex (ses_kexstate b) = kx_strict_kex (ses_kexstate a)"
  using assms kexstate_eqD [of "ses_kexstate b" "ses_kexstate a"] by (simp_all add: sends_def)

text \<open>What holds of the result, if there is one.\<close>

definition post :: "'a res \<Rightarrow> ('a \<Rightarrow> bool) \<Rightarrow> bool" where
  "post m Q \<longleftrightarrow> (\<forall>x. m = Inr x \<longrightarrow> Q x)"

lemma post_simps [simp]: "post (Inr x) Q = Q x" "post (Inl e) Q"
  by (simp_all add: post_def)

lemma post_bindE: "post m (\<lambda>x. post (f x) Q) \<Longrightarrow> post (bindE m f) Q"
  by (auto simp: post_def bindE_eq_Inr)

lemma post_any: "(\<And>x. post (f x) Q) \<Longrightarrow> post (bindE m f) Q"
  by (auto simp: post_def bindE_eq_Inr)

lemma post_prod: "(\<And>a b. p = (a, b) \<Longrightarrow> post (f a b) Q) \<Longrightarrow> post (case p of (a, b) \<Rightarrow> f a b) Q"
  by (cases p) simp

lemma post_if: "(c \<Longrightarrow> post x Q) \<Longrightarrow> (\<not> c \<Longrightarrow> post y Q) \<Longrightarrow> post (if c then x else y) Q"
  by simp

lemma post_weaken: "post m Q \<Longrightarrow> (\<And>x. Q x \<Longrightarrow> R x) \<Longrightarrow> post m R"
  by (auto simp: post_def)

lemma post_safe: "safe m Q \<Longrightarrow> post m Q"
  by (cases m) (auto simp: post_def)

lemma postD: "post m Q \<Longrightarrow> m = Inr x \<Longrightarrow> Q x"
  by (simp add: post_def)

lemma set_keys_recv [simp]: "map_option kc_recv (map_option (\<lambda>k. k\<lparr>kc_trans := t\<rparr>) ks) = map_option kc_recv ks"
  by (cases ks) simp_all

lemma encrypt_packet_sends: "post (encrypt_packet env ses) (sends ses)"
  unfolding encrypt_packet_def enqueue_reply_packet_def writebuf_enqueue_def Let_def bindE_assoc bindE_simps
  by (intro post_any post_prod post_if; simp add: sends_def set_trans_keys_def set_kexstate_def)

lemma flush_replies_sends: "post (flush_replies env rs ses) (sends ses)"
proof (induction rs arbitrary: ses)
  case (Cons r rs)
  have wp: "sends ses (ses\<lparr>ses_writepayload := wp\<rparr>)" for wp by (simp add: sends_def)
  show ?case
    by (simp, intro post_any post_bindE, rule post_weaken [OF encrypt_packet_sends])
       (rule post_weaken [OF Cons.IH], blast intro: sends_trans wp)
qed simp

lemma maybe_flush_sends: "post (maybe_flush_reply_queue env ses) (sends ses)"
  unfolding maybe_flush_reply_queue_def
  by (intro post_if post_bindE post_weaken [OF flush_replies_sends]) (simp_all add: sends_def)

end
