(* ===== verification/Hmac.thy ===== *)
theory Hmac
  imports Hash_Desc
begin

text \<open>
  HMAC of libtomcrypt: \<open>hmac_init.c\<close>, \<open>hmac_process.c\<close> and \<open>hmac_done.c\<close>, for any hash in the
  table.  It is shown to be the HMAC of RFC 2104.
\<close>

section \<open>Definitions\<close>

record hmac_state =
  hm_md :: hash_state
  hm_hash :: int
  hm_key :: "byte list"

text \<open>\<open>None\<close> is a result other than \<open>CRYPT_OK\<close>.\<close>

definition hmac_init :: "hash_table \<Rightarrow> int \<Rightarrow> byte list \<Rightarrow> hmac_state option" where
  "hmac_init table hash key =
     (case hash_is_valid table hash of
        None \<Rightarrow> None
      | Some d \<Rightarrow>
          if length key = 0 then None
          else
            let blocksize = hd_blocksize d in
            case (if length key > blocksize then hash_memory table hash key blocksize else Some key) of
              None \<Rightarrow> None
            | Some k \<Rightarrow>
                let key = k @ replicate (blocksize - length k) 0;
                    buf = map (\<lambda>b. b XOR 0x36) key in
                case hd_process d (hd_init d) buf of
                  (ok, md) \<Rightarrow> if ok then Some \<lparr>hm_md = md, hm_hash = hash, hm_key = key\<rparr> else None)"

definition hmac_process :: "hash_table \<Rightarrow> hmac_state \<Rightarrow> byte list \<Rightarrow> hmac_state option" where
  "hmac_process table hmac inp =
     (case hash_is_valid table (hm_hash hmac) of
        None \<Rightarrow> None
      | Some d \<Rightarrow> (case hd_process d (hm_md hmac) inp of
          (ok, md) \<Rightarrow> if ok then Some (hmac\<lparr>hm_md := md\<rparr>) else None))"

definition hmac_done :: "hash_table \<Rightarrow> hmac_state \<Rightarrow> nat \<Rightarrow> byte list option" where
  "hmac_done table hmac outlen =
     (case hash_is_valid table (hm_hash hmac) of
        None \<Rightarrow> None
      | Some d \<Rightarrow>
          (case hd_done d (hm_md hmac) of
             None \<Rightarrow> None
           | Some isha \<Rightarrow>
               let buf = map (\<lambda>b. b XOR 0x5C) (hm_key hmac) in
               case hd_process d (hd_init d) buf of
                 (ok, md) \<Rightarrow>
                   if \<not> ok then None
                   else case hd_process d md isha of
                          (ok, md) \<Rightarrow>
                            if \<not> ok then None
                            else map_option (\<lambda>out. take (min (hd_hashsize d) outlen) out) (hd_done d md)))"

text \<open>The calls of a message that comes in pieces.\<close>

fun hmac_feed :: "hash_table \<Rightarrow> hmac_state \<Rightarrow> byte list list \<Rightarrow> hmac_state option" where
  "hmac_feed table hmac [] = Some hmac"
| "hmac_feed table hmac (p # ps) =
     (case hmac_process table hmac p of None \<Rightarrow> None | Some hmac \<Rightarrow> hmac_feed table hmac ps)"

definition hmac_calls :: "hash_table \<Rightarrow> int \<Rightarrow> byte list \<Rightarrow> byte list list \<Rightarrow> nat \<Rightarrow> byte list option" where
  "hmac_calls table hash key ps outlen =
     (case hmac_init table hash key of
        None \<Rightarrow> None
      | Some hmac \<Rightarrow> (case hmac_feed table hmac ps of
          None \<Rightarrow> None
        | Some hmac \<Rightarrow> hmac_done table hmac outlen))"

section \<open>Specification\<close>

text \<open>RFC 2104, for a hash with blocks of \<open>B\<close> bytes.\<close>

definition hmac_key :: "nat \<Rightarrow> (byte list \<Rightarrow> byte list) \<Rightarrow> byte list \<Rightarrow> byte list" where
  "hmac_key B H K = (let k = (if length K > B then H K else K) in k @ replicate (B - length k) 0)"

definition HMAC :: "nat \<Rightarrow> (byte list \<Rightarrow> byte list) \<Rightarrow> byte list \<Rightarrow> byte list \<Rightarrow> byte list" where
  "HMAC B H K text = (let k = hmac_key B H K in
     H (map (\<lambda>b. b XOR 0x5C) k @ H (map (\<lambda>b. b XOR 0x36) k @ text)))"

section \<open>Correctness\<close>

lemma feed_append:
  "feed_hash f s (ps @ qs) = (case feed_hash f s ps of (ok, s) \<Rightarrow> if ok then feed_hash f s qs else (False, s))"
  by (induction ps arbitrary: s) (auto split: prod.split)

lemma hmac_feed_eq:
  assumes "hash_is_valid table (hm_hash hmac) = Some d" "feed_hash (hd_process d) (hm_md hmac) ps = (True, s)"
  shows "hmac_feed table hmac ps = Some (hmac\<lparr>hm_md := s\<rparr>)"
  using assms
proof (induction ps arbitrary: hmac)
  case (Cons p ps)
  obtain ok md where p: "hd_process d (hm_md hmac) p = (ok, md)" by fastforce
  then have "ok" "feed_hash (hd_process d) md ps = (True, s)" using Cons.prems(2) by (auto split: if_splits)
  then show ?case
    using Cons.IH [of "hmac\<lparr>hm_md := md\<rparr>"] Cons.prems(1) p by (simp add: hmac_process_def)
qed simp

context stream_hash
begin

lemma feed_one: "8 * length m < 2 ^ 64 \<Longrightarrow> \<exists>s. hd_process d (hd_init d) m = (True, s) \<and> hd_done d s = Some (H m)"
  using pieces [of "[m]"] by (auto split: prod.splits if_splits)

lemma length_hmac_key: "length (hmac_key (hd_blocksize d) H key) = hd_blocksize d"
  using size sizes(2) by (auto simp: hmac_key_def Let_def)

lemma hmac_init_eq:
  assumes "hash_is_valid table idx = Some d" "key \<noteq> []" "8 * length key < 2 ^ 64"
  shows "\<exists>s. hmac_init table idx key = Some \<lparr>hm_md = s, hm_hash = idx, hm_key = hmac_key (hd_blocksize d) H key\<rparr>
    \<and> hd_process d (hd_init d) (map (\<lambda>b. b XOR 0x36) (hmac_key (hd_blocksize d) H key)) = (True, s)"
proof -
  have "(if length key > hd_blocksize d then hash_memory table idx key (hd_blocksize d) else Some key)
      = Some (if length key > hd_blocksize d then H key else key)"
    using feed_one [OF assms(3)] sizes(2) assms(1) by (auto simp: hash_memory_def)
  moreover obtain s where "hd_process d (hd_init d) (map (\<lambda>b. b XOR 0x36) (hmac_key (hd_blocksize d) H key)) = (True, s)"
    using feed_one [of "map (\<lambda>b. b XOR 0x36) (hmac_key (hd_blocksize d) H key)"] sizes(3) length_hmac_key by fastforce
  ultimately show ?thesis
    using assms(1,2) by (simp add: hmac_init_def Let_def hmac_key_def)
qed

lemma hmac_done_eq:
  assumes "hash_is_valid table (hm_hash hmac) = Some d" "hd_done d (hm_md hmac) = Some i" "length i = hd_hashsize d"
    "length (hm_key hmac) = hd_blocksize d"
  shows "hmac_done table hmac outlen = Some (take outlen (H (map (\<lambda>b. b XOR 0x5C) (hm_key hmac) @ i)))"
proof -
  have "8 * length (concat [map (\<lambda>b. b XOR 0x5C) (hm_key hmac), i]) < 2 ^ 64"
    using assms(3,4) sizes(2,3) by simp
  moreover have "take (min (hd_hashsize d) outlen) (H m) = take outlen (H m)" for m
    using size [of m] by (simp add: min_def)
  ultimately show ?thesis
    using pieces [of "[map (\<lambda>b. b XOR 0x5C) (hm_key hmac), i]"] assms(1,2)
    by (auto simp: hmac_done_def Let_def split: prod.splits if_splits)
qed

lemma hmac_calls_eq:
  assumes "hash_is_valid table idx = Some d" "key \<noteq> []" "8 * length key < 2 ^ 64"
    and "8 * (128 + length (concat ps)) < 2 ^ 64"
  shows "hmac_calls table idx key ps outlen = Some (take outlen (HMAC (hd_blocksize d) H key (concat ps)))"
proof -
  let ?k = "hmac_key (hd_blocksize d) H key" let ?ik = "map (\<lambda>b. b XOR 0x36) ?k"
  obtain s where s: "hmac_init table idx key = Some \<lparr>hm_md = s, hm_hash = idx, hm_key = ?k\<rparr>"
    "hd_process d (hd_init d) ?ik = (True, s)"
    using hmac_init_eq [OF assms(1-3)] by blast
  have "8 * length (concat (?ik # ps)) < 2 ^ 64"
    using assms(4) sizes(3) length_hmac_key by simp
  then obtain s' where s': "feed_hash (hd_process d) s ps = (True, s')" "hd_done d s' = Some (H (?ik @ concat ps))"
    using pieces [of "?ik # ps"] s(2) by auto
  show ?thesis
    using s(1) hmac_feed_eq [of table "\<lparr>hm_md = s, hm_hash = idx, hm_key = ?k\<rparr>" d ps s'] s' assms(1)
      hmac_done_eq [of table "\<lparr>hm_md = s', hm_hash = idx, hm_key = ?k\<rparr>"] length_hmac_key size
    by (simp add: hmac_calls_def HMAC_def Let_def)
qed

end

text \<open>
  C26. The HMAC code computes HMAC.  With the four hashes of the program registered, for
  every key that is not empty, however long, and every message given in any pieces,
  the calls succeed and give the first \<open>outlen\<close> bytes of the HMAC of RFC 2104 over the
  hash of FIPS 180-4.
\<close>

theorem hmac_correct:
  assumes "key \<noteq> []" "length key < 2 ^ 60" "length (concat ps) < 2 ^ 60"
  shows "(hash_is_valid table idx = Some sha1_desc \<longrightarrow>
            hmac_calls table idx key ps outlen = Some (take outlen (HMAC 64 SHA1 key (concat ps))))
       \<and> (hash_is_valid table idx = Some sha256_desc \<longrightarrow>
            hmac_calls table idx key ps outlen = Some (take outlen (HMAC 64 SHA256 key (concat ps))))
       \<and> (hash_is_valid table idx = Some sha384_desc \<longrightarrow>
            hmac_calls table idx key ps outlen = Some (take outlen (HMAC 128 SHA384 key (concat ps))))
       \<and> (hash_is_valid table idx = Some sha512_desc \<longrightarrow>
            hmac_calls table idx key ps outlen = Some (take outlen (HMAC 128 SHA512 key (concat ps))))"
proof -
  have k: "8 * length key < 2 ^ 64" "8 * (128 + length (concat ps)) < 2 ^ 64"
    using assms(2,3) by simp_all
  have b: "hd_blocksize sha1_desc = 64" "hd_blocksize sha256_desc = 64" "hd_blocksize sha384_desc = 128"
    "hd_blocksize sha512_desc = 128"
    by (simp_all add: sha1_desc_def sha256_desc_def sha384_desc_def sha512_desc_def)
  show ?thesis
    using h_sha1.hmac_calls_eq [OF _ assms(1) k, of table idx outlen] h_sha256.hmac_calls_eq [OF _ assms(1) k, of table idx outlen]
      h_sha384.hmac_calls_eq [OF _ assms(1) k, of table idx outlen] h_sha512.hmac_calls_eq [OF _ assms(1) k, of table idx outlen]
    unfolding b by blast
qed

theorem hmac_correct_witness:
  "hmac_calls [Some sha1_desc, Some sha256_desc] 1 [7] [[1], [2, 3]] 32 = Some (take 32 (HMAC 64 SHA256 [7] [1, 2, 3]))"
  using hmac_correct [of "[7]" "[[1], [2, 3]]" "[Some sha1_desc, Some sha256_desc]" 1 32] by (simp add: hash_is_valid_def)

end
