(* ===== verification/Kex.thy ===== *)
theory Kex
  imports Process_Packet Packet_Frame Hmac
begin

text \<open>
  Key exchange, \<open>src/src/common-kex.c\<close>, with the two functions of \<open>signkey.c\<close> and \<open>bignum.c\<close> it
  uses: the \<open>KEXINIT\<close> messages and the choice of algorithms, the derivation of keys from the
  shared secret, and the moment each direction changes over to its new keys.
\<close>

section \<open>Definitions\<close>

definition MAX_IV_LEN :: nat where "MAX_IV_LEN = 20"
definition MAX_KEY_LEN :: nat where "MAX_KEY_LEN = 64"
definition MAX_PUBKEY_SIZE :: u32 where "MAX_PUBKEY_SIZE = 600"
definition MAX_KEX_PARTS :: u32 where "MAX_KEX_PARTS = 2 * 4 + 1184 + 1088 + 32 * 2 + 68"
definition KEXHASHBUF_MAX_INTS :: u32 where "KEXHASHBUF_MAX_INTS = MAX_PUBKEY_SIZE + MAX_KEX_PARTS"

definition SSH_EXT_INFO_C :: "byte list" where "SSH_EXT_INFO_C = str ''ext-info-c''"
definition SSH_STRICT_KEX_S :: "byte list" where "SSH_STRICT_KEX_S = str ''kex-strict-s-v00@openssh.com''"
definition SSH_STRICT_KEX_C :: "byte list" where "SSH_STRICT_KEX_C = str ''kex-strict-c-v00@openssh.com''"

text \<open>
  What the key exchange reads and does not change: the algorithm tables as the options left
  them, the option \<open>allow_compress\<close>, the names of the registered ciphers (a free slot has none),
  the registered hashes, the identification line, the random cookie of a packet, the
  results of zlib's functions (\<open>None\<close>: not \<open>Z_OK\<close>; for the ends, whether the result is
  \<open>Z_STREAM_ERROR\<close>) and the function behind \<open>send_kex_first_guess\<close>.
\<close>

record kexenv =
  ke_sshkex :: "(dropbear_kex, unit) algo_type list"
  ke_sshciphers :: "(dropbear_cipher, dropbear_cipher_mode) algo_type list"
  ke_sshhashes :: "(dropbear_hash, unit) algo_type list"
  ke_allow_compress :: bool
  ke_ciphers :: "string option list"
  ke_hashes :: hash_table
  ke_LOCAL_IDENT :: "byte list"
  ke_cookie :: "u32 \<Rightarrow> byte list"
  ke_inflateInit :: "mem option"
  ke_inflateEnd :: "mem \<Rightarrow> bool"
  ke_deflateInit2 :: "mem option"
  ke_deflateEnd :: "mem \<Rightarrow> bool"
  ke_first_guess :: "sshsession \<Rightarrow> sshsession res"

definition comp_algo :: "string \<Rightarrow> byte \<Rightarrow> (dropbear_cipher, dropbear_cipher_mode) algo_type" where
  "comp_algo name val = \<lparr>al_name = str name, al_val = val, al_data = None, al_usable = True, al_mode = None\<rparr>"

definition ssh_compress :: "(dropbear_cipher, dropbear_cipher_mode) algo_type list" where
  "ssh_compress = [comp_algo ''zlib@openssh.com'' DROPBEAR_COMP_ZLIB_DELAY, comp_algo ''zlib'' DROPBEAR_COMP_ZLIB,
     comp_algo ''none'' DROPBEAR_COMP_NONE]"

definition ssh_nocompress :: "(dropbear_cipher, dropbear_cipher_mode) algo_type list" where
  "ssh_nocompress = [comp_algo ''none'' DROPBEAR_COMP_NONE]"

fun find_cipher_from :: "int \<Rightarrow> string option list \<Rightarrow> string \<Rightarrow> int" where
  "find_cipher_from x [] name = - 1"
| "find_cipher_from x (n # ns) name = (if n = Some name then x else find_cipher_from (x + 1) ns name)"

definition find_cipher :: "kexenv \<Rightarrow> string \<Rightarrow> int" where
  "find_cipher ke name = find_cipher_from 0 (ke_ciphers ke) name"

definition signkey_type_from_signature :: "byte \<Rightarrow> int res" where
  "signkey_type_from_signature sigtype =
     (if sigtype = DROPBEAR_SIGNATURE_RSA_SHA256 then returnE (uint DROPBEAR_SIGNKEY_RSA)
      else bindE (dropbear_assert (sigtype < DROPBEAR_SIGNKEY_NUM_NAMED) ''sigtype'') (\<lambda>_. returnE (uint sigtype)))"

subsection \<open>KEXINIT\<close>

text \<open>The lists of a \<open>KEXINIT\<close> packet, after the cookie.\<close>

definition put_kex_algos :: "kexenv \<Rightarrow> sshsession \<Rightarrow> buffer \<Rightarrow> buffer res" where
  "put_kex_algos ke ses wp =
     bindE (buf_put_algolist wp (ke_sshkex ke)) (\<lambda>wp.
     bindE (buf_put_algolist wp (ses_sigalgs ses)) (\<lambda>wp.
     bindE (buf_put_algolist wp (ke_sshciphers ke)) (\<lambda>wp.
     bindE (buf_put_algolist wp (ke_sshciphers ke)) (\<lambda>wp.
     bindE (buf_put_algolist wp (ke_sshhashes ke)) (\<lambda>wp.
     bindE (buf_put_algolist wp (ke_sshhashes ke)) (\<lambda>wp.
     bindE (buf_put_algolist wp (ses_compress_algos_c2s ses)) (\<lambda>wp.
     bindE (buf_put_algolist wp (ses_compress_algos_s2c ses)) (\<lambda>wp.
     bindE (buf_putstring wp [] 0) (\<lambda>wp.
     bindE (buf_putstring wp [] 0) (\<lambda>wp.
     bindE (buf_putbyte wp (if ses_send_kex_first_guess ses then 1 else 0)) (\<lambda>wp.
     buf_putint wp 0)))))))))))"

definition send_msg_kexinit :: "env \<Rightarrow> kexenv \<Rightarrow> sshsession \<Rightarrow> sshsession res" where
  "send_msg_kexinit env ke ses =
     bindE (buf_putbyte (ses_writepayload ses) SSH_MSG_KEXINIT) (\<lambda>wp.
     bindE (buf_getwriteptr wp 16) (\<lambda>p.
     bindE (mem_write (b_data wp) p (ke_cookie ke (ses_transseq ses))) (\<lambda>d.
     bindE (buf_incrwritepos (wp\<lparr>b_data := d\<rparr>) 16) (\<lambda>wp.
     bindE (put_kex_algos ke ses wp) (\<lambda>wp.
     bindE (buf_newcopy wp) (\<lambda>transkexinit.
     bindE (encrypt_packet env (ses\<lparr>ses_writepayload := wp, ses_transkexinit := Some transkexinit\<rparr>)) (\<lambda>ses.
     let ses = set_kexstate (\<lambda>k. k\<lparr>kx_sentkexinit := True\<rparr>)
                 (ses\<lparr>ses_dataallowed := False, ses_newkeys := Some zero_keys\<rparr>) in
     if ses_send_kex_first_guess ses then
       bindE (nn (first_usable_algo (ke_sshkex ke))) (\<lambda>kex.
       bindE (nn (first_usable_algo (ses_sigalgs ses))) (\<lambda>sig.
       bindE (signkey_type_from_signature (al_val sig)) (\<lambda>hostkey.
       ke_first_guess ke (ses\<lparr>ses_newkeys := Some (zero_keys\<lparr>kc_algo_kex := al_data kex,
         kc_algo_signature := al_val sig, kc_algo_hostkey := hostkey\<rparr>)\<rparr>))))
     else returnE ses)))))))"

definition kexinitialise :: "env \<Rightarrow> sshsession \<Rightarrow> sshsession" where
  "kexinitialise env = set_kexstate (\<lambda>k. k\<lparr>kx_sentkexinit := False, kx_recvkexinit := False,
     kx_recvnewkeys := False, kx_sentnewkeys := False, kx_them_firstfollows := False,
     kx_datatrans := 0, kx_datarecv := 0, kx_our_first_follows_matches := False, kx_lastkextime := ce_now env\<rparr>)"

definition kex_setup_compress :: "kexenv \<Rightarrow> sshsession \<Rightarrow> sshsession" where
  "kex_setup_compress ke ses =
     (if \<not> ke_allow_compress ke
      then ses\<lparr>ses_compress_algos_c2s := ssh_nocompress, ses_compress_algos_s2c := ssh_nocompress\<rparr>
      else if \<not> ses_isserver ses
      then ses\<lparr>ses_compress_algos_c2s := ssh_compress, ses_compress_algos_s2c := ssh_compress\<rparr>
      else ses\<lparr>ses_compress_algos_c2s := ssh_nocompress, ses_compress_algos_s2c := ssh_compress\<rparr>)"

definition kexfirstinitialise :: "env \<Rightarrow> kexenv \<Rightarrow> sshsession \<Rightarrow> sshsession" where
  "kexfirstinitialise env ke ses = kexinitialise env (kex_setup_compress ke ses)"

subsection \<open>Taking new keys into use\<close>

definition gen_new_zstream_recv :: "kexenv \<Rightarrow> key_context \<Rightarrow> key_context \<Rightarrow> key_context res" where
  "gen_new_zstream_recv ke newkeys keys =
     bindE (if kd_algo_comp (kc_recv newkeys) = DROPBEAR_COMP_ZLIB
                \<or> kd_algo_comp (kc_recv newkeys) = DROPBEAR_COMP_ZLIB_DELAY
            then case ke_inflateInit ke of None \<Rightarrow> dropbear_exit ''zlib error'' | Some z \<Rightarrow> returnE (Some z)
            else returnE None) (\<lambda>z.
     let newkeys = newkeys\<lparr>kc_recv := (kc_recv newkeys)\<lparr>kd_zstream := z\<rparr>\<rparr> in
     case kd_zstream (kc_recv keys) of
       Some old \<Rightarrow> if ke_inflateEnd ke old then dropbear_exit ''Crypto error'' else returnE newkeys
     | None \<Rightarrow> returnE newkeys)"

definition gen_new_zstream_trans :: "kexenv \<Rightarrow> key_context \<Rightarrow> key_context \<Rightarrow> key_context res" where
  "gen_new_zstream_trans ke newkeys keys =
     bindE (if kd_algo_comp (kc_trans newkeys) = DROPBEAR_COMP_ZLIB
                \<or> kd_algo_comp (kc_trans newkeys) = DROPBEAR_COMP_ZLIB_DELAY
            then case ke_deflateInit2 ke of None \<Rightarrow> dropbear_exit ''zlib error'' | Some z \<Rightarrow> returnE (Some z)
            else returnE None) (\<lambda>z.
     let newkeys = newkeys\<lparr>kc_trans := (kc_trans newkeys)\<lparr>kd_zstream := z\<rparr>\<rparr> in
     case kd_zstream (kc_trans keys) of
       Some old \<Rightarrow> if ke_deflateEnd ke old then dropbear_exit ''Crypto error'' else returnE newkeys
     | None \<Rightarrow> returnE newkeys)"

text \<open>
  One direction of \<open>switch_keys\<close>: the new keys and the keys in use afterwards.  The new keys are
  looked at only when the \<open>NEWKEYS\<close> message of the direction has been seen.
\<close>

definition switch_recv :: "kexenv \<Rightarrow> bool \<Rightarrow> key_context option \<Rightarrow> key_context \<Rightarrow> (key_context option \<times> key_context) res" where
  "switch_recv ke recvnewkeys newkeys keys =
     (if recvnewkeys then
        bindE (nn newkeys) (\<lambda>nk.
        if kd_valid (kc_recv nk) then
          bindE (gen_new_zstream_recv ke nk keys) (\<lambda>nk.
          returnE (Some (nk\<lparr>kc_recv := zero_keys_dir\<rparr>), keys\<lparr>kc_recv := kc_recv nk\<rparr>))
        else returnE (newkeys, keys))
      else returnE (newkeys, keys))"

definition switch_trans :: "kexenv \<Rightarrow> bool \<Rightarrow> key_context option \<Rightarrow> key_context \<Rightarrow> (key_context option \<times> key_context) res" where
  "switch_trans ke sentnewkeys newkeys keys =
     (if sentnewkeys then
        bindE (nn newkeys) (\<lambda>nk.
        if kd_valid (kc_trans nk) then
          bindE (gen_new_zstream_trans ke nk keys) (\<lambda>nk.
          returnE (Some (nk\<lparr>kc_trans := zero_keys_dir\<rparr>), keys\<lparr>kc_trans := kc_trans nk\<rparr>))
        else returnE (newkeys, keys))
      else returnE (newkeys, keys))"

definition switch_keys :: "env \<Rightarrow> kexenv \<Rightarrow> sshsession \<Rightarrow> sshsession res" where
  "switch_keys env ke ses =
     (let kx = ses_kexstate ses in
      if \<not> (kx_sentkexinit kx \<and> kx_recvkexinit kx) then dropbear_exit ''Unexpected newkeys message''
      else
        let keys = (case ses_keys ses of None \<Rightarrow> zero_keys | Some k \<Rightarrow> k) in
        bindE (switch_recv ke (kx_recvnewkeys kx) (ses_newkeys ses) keys) (\<lambda>(newkeys, keys).
        bindE (switch_trans ke (kx_sentnewkeys kx) newkeys keys) (\<lambda>(newkeys, keys).
        if kx_sentnewkeys kx \<and> kx_recvnewkeys kx then
          bindE (nn newkeys) (\<lambda>nk.
          returnE (kexinitialise env (ses\<lparr>ses_newkeys := None, ses_keys := Some (keys\<lparr>kc_algo_kex := kc_algo_kex nk,
            kc_algo_hostkey := kc_algo_hostkey nk, kc_algo_signature := kc_algo_signature nk,
            kc_allow_compress := False\<rparr>)\<rparr>)))
        else returnE (ses\<lparr>ses_newkeys := newkeys, ses_keys := Some keys\<rparr>))))"

subsection \<open>Deriving keys\<close>

text \<open>
  \<open>out\<close> is the output array, of any size; writing past its end is a fault.  A \<open>done\<close> that failed
  would leave the digest unset.  \<open>offset\<close> is an \<open>unsigned int\<close> and wraps; the loop need not end.
\<close>

partial_function (option) hashkeys_loop :: "hash_descriptor \<Rightarrow> hash_state \<Rightarrow> u32 \<Rightarrow> byte list \<Rightarrow> u32 \<Rightarrow> byte list res option" where
  "hashkeys_loop hash_desc hs outlen out offset =
     (if offset < outlen then
        case mem_read out 0 (unat offset) of
          Inl e \<Rightarrow> Some (Inl e)
        | Inr prefix \<Rightarrow>
            (case hd_done hash_desc (snd (hd_process hash_desc hs prefix)) of
               None \<Rightarrow> Some (Inl Mem_fault)
             | Some tmpout \<Rightarrow>
                 (case bindE (mem_read tmpout 0 (min (unat (outlen - offset)) (hd_hashsize hash_desc))) (mem_write out (unat offset)) of
                    Inl e \<Rightarrow> Some (Inl e)
                  | Inr out \<Rightarrow> hashkeys_loop hash_desc hs outlen out (offset + of_nat (hd_hashsize hash_desc))))
      else Some (Inr out))"

declare hashkeys_loop.simps [code]

definition hashkeys :: "hash_descriptor \<Rightarrow> byte list \<Rightarrow> byte list \<Rightarrow> u32 \<Rightarrow> hash_state \<Rightarrow> byte \<Rightarrow> byte list res" where
  "hashkeys hash_desc session_id out outlen hs X =
     (let hs2 = snd (hd_process hash_desc hs [X]);
          hs2 = snd (hd_process hash_desc hs2 session_id) in
      case hd_done hash_desc hs2 of
        None \<Rightarrow> Inl Mem_fault
      | Some tmpout \<Rightarrow>
          bindE (mem_read tmpout 0 (min (hd_hashsize hash_desc) (unat outlen))) (\<lambda>bytes.
          bindE (mem_write out 0 bytes) (\<lambda>out.
          case hashkeys_loop hash_desc hs outlen out (of_nat (hd_hashsize hash_desc)) of
            None \<Rightarrow> Inl Diverge
          | Some r \<Rightarrow> r)))"

definition hash_process_mp :: "hash_descriptor \<Rightarrow> hash_state \<Rightarrow> int \<Rightarrow> hash_state res" where
  "hash_process_mp hash_desc hs mp =
     bindE (buf_new (512 + 20)) (\<lambda>buf.
     bindE (buf_putmpint buf mp) (\<lambda>buf.
     bindE (mem_read (b_data buf) 0 (unat (b_len buf))) (\<lambda>bytes.
     returnE (snd (hd_process hash_desc hs bytes)))))"

text \<open>The hash state all the keys start from: the shared secret and the exchange hash.\<close>

definition kex_hash_start :: "sshsession \<Rightarrow> hash_descriptor \<Rightarrow> hash_state res" where
  "kex_hash_start ses hash_desc =
     bindE (case ses_dh_K ses of
              Some K \<Rightarrow> hash_process_mp hash_desc (hd_init hash_desc) K
            | None \<Rightarrow> returnE (hd_init hash_desc)) (\<lambda>hs.
     bindE (case ses_dh_K_bytes ses of
              Some K \<Rightarrow> bindE (mem_read (b_data K) 0 (unat (b_len K))) (\<lambda>bytes. returnE (snd (hd_process hash_desc hs bytes)))
            | None \<Rightarrow> returnE hs) (\<lambda>hs.
     bindE (nn (ses_hash ses)) (\<lambda>hash.
     bindE (mem_read (b_data hash) 0 (unat (b_len hash))) (\<lambda>bytes.
     returnE (snd (hd_process hash_desc hs bytes))))))"

text \<open>The cipher of one direction is started with its IV and key.\<close>

definition start_cipher :: "kexenv \<Rightarrow> byte list \<Rightarrow> byte list \<Rightarrow> key_context_directional \<Rightarrow> key_context_directional res" where
  "start_cipher ke IV key kd =
     bindE (nn (kd_algo_crypt kd)) (\<lambda>algo_crypt.
     case dc_cipherdesc algo_crypt of
       None \<Rightarrow> returnE kd
     | Some name \<Rightarrow>
         bindE (case name of
                  None \<Rightarrow> returnE (- 1)
                | Some n \<Rightarrow> (let c = find_cipher ke n in if c < 0 then dropbear_exit ''Crypto error'' else returnE c)) (\<lambda>cipher.
         bindE (nn (kd_crypt_mode kd)) (\<lambda>crypt_mode.
         case cm_start crypt_mode cipher IV key (dc_keysize algo_crypt) 0 (kd_cipher_state kd) of
           None \<Rightarrow> dropbear_exit ''Crypto error''
         | Some st \<Rightarrow> returnE (kd\<lparr>kd_cipher_state := st\<rparr>))))"

text \<open>The MAC key of one direction, for the letter that belongs to it.\<close>

definition start_mac :: "kexenv \<Rightarrow> hash_descriptor \<Rightarrow> byte list \<Rightarrow> hash_state \<Rightarrow> byte \<Rightarrow> key_context_directional
    \<Rightarrow> key_context_directional res" where
  "start_mac ke hash_desc session_id hs letter kd =
     bindE (nn (kd_algo_mac kd)) (\<lambda>algo_mac.
     case dh_hash_desc algo_mac of
       None \<Rightarrow> returnE kd
     | Some name \<Rightarrow>
         bindE (hashkeys hash_desc session_id (kd_mackey kd) (of_nat (dh_keysize algo_mac)) hs letter) (\<lambda>mackey.
         returnE (kd\<lparr>kd_mackey := mackey, kd_hash_index := find_hash (ke_hashes ke) name\<rparr>)))"

text \<open>
  What \<open>gen_new_keys\<close> computes for both directions: the hash, its state, the session
  identifier, the IVs and the keys.  The arrays have the sizes of the source; what is in them
  before \<open>hashkeys\<close> fills them is nowhere read.
\<close>

definition kex_material :: "sshsession \<Rightarrow> key_context
    \<Rightarrow> (hash_descriptor \<times> hash_state \<times> byte list \<times> byte list \<times> byte list \<times> byte list \<times> byte list) res" where
  "kex_material ses nk =
     bindE (nn (kc_algo_kex nk)) (\<lambda>algo_kex.
     let hash_desc = kx_hash_desc algo_kex in
     bindE (kex_hash_start ses hash_desc) (\<lambda>hs.
     bindE (nn (ses_session_id ses)) (\<lambda>sid.
     bindE (mem_read (b_data sid) 0 (unat (b_len sid))) (\<lambda>session_id.
     bindE (hashkeys hash_desc session_id (replicate MAX_IV_LEN 0) (of_nat MAX_IV_LEN) hs 65) (\<lambda>C2S_IV.
     bindE (hashkeys hash_desc session_id (replicate MAX_IV_LEN 0) (of_nat MAX_IV_LEN) hs 66) (\<lambda>S2C_IV.
     bindE (hashkeys hash_desc session_id (replicate MAX_KEY_LEN 0) (of_nat MAX_KEY_LEN) hs 67) (\<lambda>C2S_key.
     bindE (hashkeys hash_desc session_id (replicate MAX_KEY_LEN 0) (of_nat MAX_KEY_LEN) hs 68) (\<lambda>S2C_key.
     returnE (hash_desc, hs, session_id, C2S_IV, S2C_IV, C2S_key, S2C_key)))))))))"

definition gen_new_keys :: "kexenv \<Rightarrow> sshsession \<Rightarrow> sshsession res" where
  "gen_new_keys ke ses =
     bindE (nn (ses_newkeys ses)) (\<lambda>nk.
     bindE (kex_material ses nk) (\<lambda>(hash_desc, hs, session_id, C2S_IV, S2C_IV, C2S_key, S2C_key).
     let ses = ses\<lparr>ses_dh_K := None, ses_dh_K_bytes := None, ses_hash := None\<rparr>;
         client = \<not> ses_isserver ses;
         trans_IV = (if client then C2S_IV else S2C_IV); recv_IV = (if client then S2C_IV else C2S_IV);
         trans_key = (if client then C2S_key else S2C_key); recv_key = (if client then S2C_key else C2S_key);
         mactransletter = (if client then 69 else 70); macrecvletter = (if client then 70 else 69) in
     bindE (start_cipher ke recv_IV recv_key (kc_recv nk)) (\<lambda>recv.
     bindE (start_cipher ke trans_IV trans_key (kc_trans nk)) (\<lambda>trans.
     bindE (start_mac ke hash_desc session_id hs mactransletter trans) (\<lambda>trans.
     bindE (start_mac ke hash_desc session_id hs macrecvletter recv) (\<lambda>recv.
     returnE (ses\<lparr>ses_newkeys := Some (nk\<lparr>kc_recv := recv\<lparr>kd_valid := True\<rparr>, kc_trans := trans\<lparr>kd_valid := True\<rparr>\<rparr>)\<rparr>)))))))"

definition finish_kexhashbuf :: "sshsession \<Rightarrow> sshsession res" where
  "finish_kexhashbuf ses =
     bindE (nn (ses_newkeys ses)) (\<lambda>nk.
     bindE (nn (kc_algo_kex nk)) (\<lambda>algo_kex.
     let hash_desc = kx_hash_desc algo_kex in
     bindE (nn (ses_kexhashbuf ses)) (\<lambda>kexhashbuf.
     bindE (buf_setpos kexhashbuf 0) (\<lambda>kexhashbuf.
     bindE (buf_getptr kexhashbuf (b_len kexhashbuf)) (\<lambda>p.
     bindE (mem_read (b_data kexhashbuf) p (unat (b_len kexhashbuf))) (\<lambda>bytes.
     let hs = snd (hd_process hash_desc (hd_init hash_desc) bytes) in
     bindE (buf_new (of_nat (hd_hashsize hash_desc))) (\<lambda>hash.
     bindE (buf_getwriteptr hash (of_nat (hd_hashsize hash_desc))) (\<lambda>q.
     case hd_done hash_desc hs of
       None \<Rightarrow> Inl Mem_fault
     | Some digest \<Rightarrow>
         bindE (mem_write (b_data hash) q digest) (\<lambda>d.
         bindE (buf_setlen (hash\<lparr>b_data := d\<rparr>) (of_nat (hd_hashsize hash_desc))) (\<lambda>hash.
         bindE (case ses_session_id ses of None \<Rightarrow> buf_newcopy hash | Some sid \<Rightarrow> returnE sid) (\<lambda>session_id.
         returnE (ses\<lparr>ses_kexhashbuf := None, ses_hash := Some hash, ses_session_id := Some session_id\<rparr>))))))))))))"

subsection \<open>NEWKEYS\<close>

definition send_msg_newkeys :: "env \<Rightarrow> kexenv \<Rightarrow> sshsession \<Rightarrow> sshsession res" where
  "send_msg_newkeys env ke ses =
     bindE (buf_putbyte (ses_writepayload ses) SSH_MSG_NEWKEYS) (\<lambda>wp.
     bindE (encrypt_packet env (ses\<lparr>ses_writepayload := wp\<rparr>)) (\<lambda>ses.
     let ses = (set_kexstate (\<lambda>k. k\<lparr>kx_sentnewkeys := True,
                  kx_donesecondkex := (kx_donefirstkex k \<or> kx_donesecondkex k), kx_donefirstkex := True\<rparr>) ses)
                 \<lparr>ses_dataallowed := True\<rparr> in
     bindE (gen_new_keys ke ses) (\<lambda>ses.
     bindE (switch_keys env ke ses) (\<lambda>ses.
     returnE (if kx_strict_kex (ses_kexstate ses) then ses\<lparr>ses_transseq := 0\<rparr> else ses)))))"

definition recv_msg_newkeys :: "env \<Rightarrow> kexenv \<Rightarrow> sshsession \<Rightarrow> sshsession res" where
  "recv_msg_newkeys env ke ses =
     bindE (switch_keys env ke (set_kexstate (\<lambda>k. k\<lparr>kx_recvnewkeys := True\<rparr>) ses)) (\<lambda>ses.
     let ses = (if kx_strict_kex (ses_kexstate ses) then ses\<lparr>ses_recvseq := 0\<rparr> else ses) in
     returnE (set_kexstate (\<lambda>k. k\<lparr>kx_recvfirstnewkeys := True\<rparr>) ses))"

subsection \<open>Choosing algorithms\<close>

text \<open>\<open>goto error\<close> for a list without a match.\<close>

definition need_algo :: "string \<Rightarrow> 'a option \<Rightarrow> 'a res" where
  "need_algo erralgo algo = (case algo of None \<Rightarrow> dropbear_exit (''No matching algo '' @ erralgo) | Some a \<Rightarrow> returnE a)"

text \<open>The names that only announce something: what they switch on, and the \<open>kexguess2\<close> flag.\<close>

definition read_kex_flags :: "sshsession \<Rightarrow> buffer \<Rightarrow> (bool \<times> sshsession \<times> buffer) res" where
  "read_kex_flags ses payload =
     bindE (buf_has_algo payload KEXGUESS2_ALGO_NAME) (\<lambda>(ret, payload).
     let kexguess2 = (ret = DROPBEAR_SUCCESS) in
     bindE (if ses_isserver ses \<and> \<not> kx_donefirstkex (ses_kexstate ses) then
              bindE (buf_has_algo payload SSH_EXT_INFO_C) (\<lambda>(ret, payload).
              returnE (if ret = DROPBEAR_SUCCESS then ses\<lparr>ses_allow_ext_info := True\<rparr> else ses, payload))
            else returnE (ses, payload)) (\<lambda>(ses, payload).
     bindE (if \<not> kx_donefirstkex (ses_kexstate ses) then
              bindE (buf_has_algo payload (if ses_isserver ses then SSH_STRICT_KEX_C else SSH_STRICT_KEX_S)) (\<lambda>(ret, payload).
              returnE (if ret = DROPBEAR_SUCCESS then set_kexstate (\<lambda>k. k\<lparr>kx_strict_kex := True\<rparr>) ses else ses, payload))
            else returnE (ses, payload)) (\<lambda>(ses, payload).
     returnE (kexguess2, ses, payload))))"

text \<open>The MAC list of one direction: \<open>None\<close> when the cipher brings its own MAC.\<close>

definition match_mac :: "kexenv \<Rightarrow> bool \<Rightarrow> string \<Rightarrow> (dropbear_cipher, dropbear_cipher_mode) algo_type \<Rightarrow> buffer
    \<Rightarrow> ((dropbear_hash, unit) algo_type option \<times> buffer) res" where
  "match_mac ke isserver erralgo cipher_algo payload =
     bindE (buf_match_algo isserver payload (ke_sshhashes ke) False) (\<lambda>(hash_algo, _, payload).
     bindE (nn (al_mode cipher_algo)) (\<lambda>mode.
     if cm_aead_crypt mode \<noteq> None then returnE (None, payload)
     else bindE (need_algo erralgo hash_algo) (\<lambda>hash_algo. returnE (Some hash_algo, payload))))"

text \<open>What a direction will use.\<close>

definition set_algos :: "(dropbear_cipher, dropbear_cipher_mode) algo_type \<Rightarrow> (dropbear_hash, unit) algo_type option
    \<Rightarrow> (dropbear_cipher, dropbear_cipher_mode) algo_type \<Rightarrow> key_context_directional \<Rightarrow> key_context_directional res" where
  "set_algos cipher_algo hash_algo compression kd =
     bindE (case hash_algo of
              None \<Rightarrow> bindE (nn (al_mode cipher_algo)) (\<lambda>mode. returnE (cm_aead_mac mode))
            | Some a \<Rightarrow> returnE (al_data a)) (\<lambda>algo_mac.
     returnE (kd\<lparr>kd_algo_crypt := al_data cipher_algo, kd_crypt_mode := al_mode cipher_algo,
                 kd_algo_mac := algo_mac, kd_algo_comp := al_val compression\<rparr>))"

definition read_kex_algos :: "kexenv \<Rightarrow> sshsession \<Rightarrow> sshsession res" where
  "read_kex_algos ke ses =
     bindE (nn (ses_payload ses)) (\<lambda>payload.
     bindE (buf_incrpos payload 16) (\<lambda>payload.
     bindE (nn (ses_newkeys ses)) (\<lambda>_.
     let srv = ses_isserver ses in
     bindE (read_kex_flags ses payload) (\<lambda>(kexguess2, ses, payload).
     bindE (buf_match_algo srv payload (ke_sshkex ke) kexguess2) (\<lambda>(algo, goodguess1, payload).
     bindE (need_algo ''kex'' algo) (\<lambda>kex.
     bindE (need_algo ''kex'' (al_data kex)) (\<lambda>algo_kex.
     bindE (buf_match_algo srv payload (ses_sigalgs ses) kexguess2) (\<lambda>(algo, goodguess2, payload).
     bindE (need_algo ''hostkey'' algo) (\<lambda>sig.
     bindE (signkey_type_from_signature (al_val sig)) (\<lambda>hostkey.
     bindE (buf_match_algo srv payload (ke_sshciphers ke) False) (\<lambda>(algo, _, payload).
     bindE (need_algo ''enc c->s'' algo) (\<lambda>c2s_cipher_algo.
     bindE (buf_match_algo srv payload (ke_sshciphers ke) False) (\<lambda>(algo, _, payload).
     bindE (need_algo ''enc s->c'' algo) (\<lambda>s2c_cipher_algo.
     bindE (match_mac ke srv ''mac c->s'' c2s_cipher_algo payload) (\<lambda>(c2s_hash_algo, payload).
     bindE (match_mac ke srv ''mac s->c'' s2c_cipher_algo payload) (\<lambda>(s2c_hash_algo, payload).
     bindE (buf_match_algo srv payload (ses_compress_algos_c2s ses) False) (\<lambda>(algo, _, payload).
     bindE (need_algo ''comp c->s'' algo) (\<lambda>c2s_comp_algo.
     bindE (buf_match_algo srv payload (ses_compress_algos_s2c ses) False) (\<lambda>(algo, _, payload).
     bindE (need_algo ''comp s->c'' algo) (\<lambda>s2c_comp_algo.
     bindE (buf_eatstring payload) (\<lambda>payload.
     bindE (buf_eatstring payload) (\<lambda>payload.
     bindE (buf_getbool payload) (\<lambda>(follows, payload).
     let allgood = (goodguess1 \<and> goodguess2);
         ses = (if follows \<noteq> 0 then
                  (set_kexstate (\<lambda>k. k\<lparr>kx_them_firstfollows := True\<rparr>) ses)
                    \<lparr>ses_ignorenext := (\<not> allgood \<or> ses_ignorenext ses)\<rparr>
                else ses) in
     bindE (set_algos (if srv then c2s_cipher_algo else s2c_cipher_algo) (if srv then c2s_hash_algo else s2c_hash_algo)
              (if srv then c2s_comp_algo else s2c_comp_algo) zero_keys_dir) (\<lambda>recv.
     bindE (set_algos (if srv then s2c_cipher_algo else c2s_cipher_algo) (if srv then s2c_hash_algo else c2s_hash_algo)
              (if srv then s2c_comp_algo else c2s_comp_algo) zero_keys_dir) (\<lambda>trans.
     bindE (buf_getint payload) (\<lambda>(_, payload).
     let ses = ses\<lparr>ses_payload := Some payload,
                   ses_newkeys := Some (zero_keys\<lparr>kc_algo_kex := Some algo_kex, kc_algo_signature := al_val sig,
                     kc_algo_hostkey := hostkey, kc_recv := recv, kc_trans := trans\<rparr>)\<rparr> in
     returnE (if ses_send_kex_first_guess ses \<and> allgood
              then set_kexstate (\<lambda>k. k\<lparr>kx_our_first_follows_matches := True\<rparr>) ses else ses)))))))))))))))))))))))))))"

subsection \<open>Receiving KEXINIT\<close>

text \<open>A block of memory as an SSH string into the hash buffer.\<close>

definition put_payload_string :: "sshsession \<Rightarrow> buffer \<Rightarrow> (buffer \<times> buffer) res" where
  "put_payload_string ses kexhashbuf =
     bindE (nn (ses_payload ses)) (\<lambda>payload.
     bindE (buf_setpos payload (ses_payload_beginning ses)) (\<lambda>payload.
     bindE (buf_getptr payload (b_len payload - b_pos payload)) (\<lambda>p.
     bindE (buf_putstring kexhashbuf (drop p (b_data payload)) (b_len payload - b_pos payload)) (\<lambda>kexhashbuf.
     returnE (kexhashbuf, payload)))))"

definition recv_msg_kexinit :: "env \<Rightarrow> kexenv \<Rightarrow> sshsession \<Rightarrow> sshsession res" where
  "recv_msg_kexinit env ke ses =
     bindE (if \<not> kx_sentkexinit (ses_kexstate ses) then send_msg_kexinit env ke ses else returnE ses) (\<lambda>ses.
     if kx_recvkexinit (ses_kexstate ses) then dropbear_exit ''Unexpected KEXINIT''
     else
       bindE (nn (ses_remoteident ses)) (\<lambda>remoteident.
       bindE (nn (ses_transkexinit ses)) (\<lambda>transkexinit.
       bindE (nn (ses_payload ses)) (\<lambda>payload.
       let LOCAL_IDENT = ke_LOCAL_IDENT ke;
           local_ident_len = of_nat (length LOCAL_IDENT) :: u32;
           remote_ident_len = of_nat (length remoteident) :: u32;
           kexhashbuf_len = local_ident_len + remote_ident_len + b_len transkexinit + b_len payload + KEXHASHBUF_MAX_INTS in
       bindE (buf_new kexhashbuf_len) (\<lambda>kexhashbuf.
       bindE (read_kex_algos ke ses) (\<lambda>ses.
       bindE (if \<not> ses_isserver ses then
                bindE (buf_putstring kexhashbuf LOCAL_IDENT local_ident_len) (\<lambda>kexhashbuf.
                bindE (buf_putstring kexhashbuf remoteident remote_ident_len) (\<lambda>kexhashbuf.
                bindE (buf_putstring kexhashbuf (b_data transkexinit) (b_len transkexinit)) (\<lambda>kexhashbuf.
                bindE (put_payload_string ses kexhashbuf) (\<lambda>(kexhashbuf, payload).
                returnE (kexhashbuf, payload, SSH_MSG_KEXDH_REPLY)))))
              else
                bindE (buf_putstring kexhashbuf remoteident remote_ident_len) (\<lambda>kexhashbuf.
                bindE (buf_putstring kexhashbuf LOCAL_IDENT local_ident_len) (\<lambda>kexhashbuf.
                bindE (put_payload_string ses kexhashbuf) (\<lambda>(kexhashbuf, payload).
                bindE (buf_putstring kexhashbuf (b_data transkexinit) (b_len transkexinit)) (\<lambda>kexhashbuf.
                returnE (kexhashbuf, payload, SSH_MSG_KEXDH_INIT)))))) (\<lambda>(kexhashbuf, payload, next).
       let ses = set_kexstate (\<lambda>k. k\<lparr>kx_recvkexinit := True\<rparr>)
                   (ses\<lparr>ses_kexhashbuf := Some kexhashbuf, ses_payload := Some payload, ses_requirenext := next,
                        ses_transkexinit := None\<rparr>) in
       if kx_strict_kex (ses_kexstate ses) \<and> \<not> kx_donefirstkex (ses_kexstate ses) \<and> ses_recvseq ses \<noteq> 1
       then dropbear_exit ''First packet wasn't kexinit''
       else returnE ses)))))))"

end
