(* ===== verification/Kex_Keys.thy ===== *)
theory Kex_Keys
  imports Kex
begin

text \<open>
  The derivation of keys: \<open>hashkeys\<close> is the key expansion of RFC 4253, section 7.2, and always ends,
  and the two sides of a key exchange end up with the same keys for each direction.
\<close>

section \<open>Key expansion\<close>

text \<open>RFC 4253, section 7.2: $K_1 = H(K \| H \| X \| id)$ and $K_{n+1} = H(K \| H \| K_1 \| \dots \| K_n)$.\<close>

fun rfc_key :: "(byte list \<Rightarrow> byte list) \<Rightarrow> byte list \<Rightarrow> byte \<Rightarrow> byte list \<Rightarrow> nat \<Rightarrow> byte list" where
  "rfc_key H KH X sid 0 = H (KH @ X # sid)"
| "rfc_key H KH X sid (Suc n) = rfc_key H KH X sid n @ H (KH @ rfc_key H KH X sid n)"

text \<open>A hash state that has taken in a message.\<close>

definition has_hashed :: "hash_descriptor \<Rightarrow> hash_state \<Rightarrow> byte list \<Rightarrow> bool" where
  "has_hashed d hs m \<longleftrightarrow> (\<exists>ps. feed_hash (hd_process d) (hd_init d) ps = (True, hs) \<and> concat ps = m)"

lemma has_hashed_init: "has_hashed d (hd_init d) []"
  by (auto simp: has_hashed_def intro!: exI [of _ "[]"])

text \<open>An array whose first bytes have been replaced.\<close>

definition filled :: "byte list \<Rightarrow> byte list \<Rightarrow> byte list" where
  "filled bs out = bs @ drop (length bs) out"

lemma write_filled:
  assumes "length bs \<le> length out"
  shows "mem_write (filled bs out) (length bs) cs = (if length bs + length cs \<le> length out then Inr (filled (bs @ cs) out) else Inl Mem_fault)"
  using assms by (auto simp: mem_write_def filled_def add.commute)

context stream_hash
begin

lemma hashed_more:
  assumes "has_hashed d hs m" "8 * (length m + length x) < 2 ^ 64"
  shows "has_hashed d (snd (hd_process d hs x)) (m @ x)"
proof -
  obtain ps where ps: "feed_hash (hd_process d) (hd_init d) ps = (True, hs)" "concat ps = m"
    using assms(1) by (auto simp: has_hashed_def)
  have "8 * length (concat (ps @ [x])) < 2 ^ 64"
    using assms(2) ps(2) by simp
  then obtain s where "feed_hash (hd_process d) (hd_init d) (ps @ [x]) = (True, s)"
    using pieces by blast
  moreover from this have "hd_process d hs x = (True, s)"
    using ps(1) by (auto simp: feed_append split: prod.splits if_splits)
  ultimately show ?thesis
    using ps(2) unfolding has_hashed_def by (intro exI [of _ "ps @ [x]"]) simp
qed

lemma hashed_done:
  assumes "has_hashed d hs m" "8 * length m < 2 ^ 64"
  shows "hd_done d hs = Some (H m)"
proof -
  obtain ps where ps: "feed_hash (hd_process d) (hd_init d) ps = (True, hs)" "concat ps = m"
    using assms(1) by (auto simp: has_hashed_def)
  then show ?thesis using pieces [of ps] assms(2) by auto
qed

lemma length_rfc_key: "length (rfc_key H KH X sid n) = Suc n * hd_hashsize d"
  by (induction n) (simp_all add: size)

lemma rfc_key_prefix: "n \<le> m \<Longrightarrow> take (length (rfc_key H KH X sid n)) (rfc_key H KH X sid m) = rfc_key H KH X sid n"
proof (induction m)
  case (Suc m)
  show ?case
  proof (cases "n = Suc m")
    case False
    then have "n \<le> m" using Suc.prems by simp
    moreover have "length (rfc_key H KH X sid n) \<le> length (rfc_key H KH X sid m)"
      using \<open>n \<le> m\<close> by (simp add: length_rfc_key)
    ultimately show ?thesis using Suc.IH by simp
  qed simp
qed simp

text \<open>
  The loop, from a multiple of the hash size on.  It fills the array when the array has
  \<open>outlen\<close> bytes, and writes past its end otherwise.
\<close>

lemma hashkeys_loop_eq:
  assumes "has_hashed d hs KH" "8 * (length KH + unat outlen) < 2 ^ 64" "unat outlen + hd_hashsize d \<le> 2 ^ 32"
    "unat offset = Suc n * hd_hashsize d" "min (unat outlen) (unat offset) \<le> length out"
    "unat outlen \<le> m * hd_hashsize d + hd_hashsize d" "n \<le> m"
  shows "hashkeys_loop d hs outlen (filled (take (unat outlen) (rfc_key H KH X sid n)) out) offset =
     Some (if unat outlen \<le> length out then Inr (filled (take (unat outlen) (rfc_key H KH X sid m)) out) else Inl Mem_fault)"
  using assms(4-7)
proof (induction "unat outlen - unat offset" arbitrary: n offset rule: less_induct)
  case less
  note hs = sizes(1)
  let ?R = "rfc_key H KH X sid" and ?L = "unat outlen"
  show ?case
  proof (cases "offset < outlen")
    case True
    then have lt: "unat offset < ?L" by (simp add: u32_nat)
    have R: "take ?L (?R n) = ?R n" "length (?R n) = unat offset" "length (?R n) \<le> length out"
      using less.prems(1,2) lt by (simp_all add: length_rfc_key)
    have KH: "8 * (length KH + length (?R n)) < 2 ^ 64"
      using assms(2) lt R(2) by simp
    have dn: "hd_done d (snd (hd_process d hs (?R n))) = Some (H (KH @ ?R n))"
      using hashed_done [OF hashed_more [OF assms(1) KH]] KH by simp
    have n: "Suc n \<le> m"
    proof (rule ccontr)
      assume "\<not> Suc n \<le> m"
      then have "m = n" using less.prems(4) by simp
      then show False using less.prems(1,3) lt by simp
    qed
    have off: "unat (offset + of_nat (hd_hashsize d)) = unat offset + hd_hashsize d"
      using lt assms(3) hs by (subst unat_u32_add) (simp_all add: unat_u32_of_nat)
    have sub: "unat (outlen - offset) = ?L - unat offset"
      using lt by (intro unat_u32_sub) simp
    let ?b = "take (min (?L - unat offset) (hd_hashsize d)) (H (KH @ ?R n))"
    have b: "?R n @ ?b = take ?L (?R (Suc n))" "length ?b = min (?L - unat offset) (hd_hashsize d)"
      using R lt size [of "KH @ ?R n"] by (simp_all add: min_def)
    have rd: "mem_read (filled (?R n) out) 0 (unat offset) = Inr (?R n)"
      "mem_read (H (KH @ ?R n)) 0 (min (?L - unat offset) (hd_hashsize d)) = Inr ?b"
      using R(2,3) size [of "KH @ ?R n"] by (simp_all add: mem_read_def filled_def)
    have wr: "mem_write (filled (?R n) out) (unat offset) ?b =
        (if min ?L (unat offset + hd_hashsize d) \<le> length out then Inr (filled (take ?L (?R (Suc n))) out) else Inl Mem_fault)"
    proof -
      have "length (?R n) + length ?b = min ?L (unat offset + hd_hashsize d)" unfolding b(2) R(2) using lt by linarith
      with write_filled [OF R(3), of ?b] show ?thesis by (simp only: b(1) R(2))
    qed
    show ?thesis
    proof (cases "min ?L (unat offset + hd_hashsize d) \<le> length out")
      case fits: True
      have "hashkeys_loop d hs outlen (filled (take ?L (?R (Suc n))) out) (offset + of_nat (hd_hashsize d)) =
          Some (if ?L \<le> length out then Inr (filled (take ?L (?R m)) out) else Inl Mem_fault)"
        using less.hyps [of "offset + of_nat (hd_hashsize d)" "Suc n"] less.prems(1,3) lt hs n fits off by simp
      then show ?thesis
        unfolding R(1) using True dn rd wr fits sub by (subst hashkeys_loop.simps) simp
    next
      case False
      then have "\<not> ?L \<le> length out" by simp
      then show ?thesis
        unfolding R(1) using True dn rd wr False sub by (subst hashkeys_loop.simps) simp
    qed
  next
    case False
    then have ge: "?L \<le> unat offset" by (simp add: u32_nat)
    have "take ?L (?R m) = take ?L (take (length (?R n)) (?R m))"
      using ge less.prems(1) by (simp add: length_rfc_key min_absorb1)
    then show ?thesis
      using False ge less.prems(2) rfc_key_prefix [OF less.prems(4)] by (subst hashkeys_loop.simps) simp
  qed
qed

lemma hashkeys_eq:
  assumes "has_hashed d hs KH" "8 * (length KH + unat outlen + length sid + 1) < 2 ^ 64" "unat outlen + hd_hashsize d < 2 ^ 32"
  shows "hashkeys d sid out outlen hs X =
     (if unat outlen \<le> length out
      then Inr (take (unat outlen) (rfc_key H KH X sid (unat outlen div hd_hashsize d)) @ drop (unat outlen) out)
      else Inl Mem_fault)"
proof -
  let ?L = "unat outlen"
  let ?n = "?L div hd_hashsize d" and ?R = "rfc_key H KH X sid"
  have 1: "has_hashed d (snd (hd_process d hs [X])) (KH @ [X])"
    using assms by (intro hashed_more) simp_all
  have 2: "has_hashed d (snd (hd_process d (snd (hd_process d hs [X])) sid)) (KH @ X # sid)"
    using hashed_more [OF 1, of sid] assms(2) by simp
  have dn: "hd_done d (snd (hd_process d (snd (hd_process d hs [X])) sid)) = Some (?R 0)"
    using hashed_done [OF 2] assms(2) by simp
  have len: "length (?R 0) = hd_hashsize d" using length_rfc_key [of KH X sid 0] by simp
  have rd: "mem_read (?R 0) 0 (min (hd_hashsize d) ?L) = Inr (take ?L (?R 0))"
    using len by (simp add: mem_read_def min_def del: rfc_key.simps)
  have wr: "mem_write out 0 (take ?L (?R 0)) = (if min ?L (hd_hashsize d) \<le> length out then Inr (filled (take ?L (?R 0)) out) else Inl Mem_fault)"
    using write_filled [of "[]" out "take ?L (?R 0)"] len by (simp add: filled_def min.commute del: rfc_key.simps)
  have hs: "unat (of_nat (hd_hashsize d) :: u32) = hd_hashsize d"
    using assms(3) by (intro unat_u32_of_nat) simp
  have "?L = ?n * hd_hashsize d + ?L mod hd_hashsize d" by simp
  then have n: "?L \<le> ?n * hd_hashsize d + hd_hashsize d"
    using mod_less_divisor [OF sizes(1), of ?L] by linarith
  then have fl: "filled (take ?L (?R ?n)) out = take ?L (?R ?n) @ drop ?L out"
    by (simp add: filled_def length_rfc_key min_absorb2)
  have loop: "hashkeys_loop d hs outlen (filled (take ?L (?R 0)) out) (of_nat (hd_hashsize d))
      = Some (if ?L \<le> length out then Inr (filled (take ?L (?R ?n)) out) else Inl Mem_fault)" if "min ?L (hd_hashsize d) \<le> length out"
    using assms hs n that by (intro hashkeys_loop_eq [where n = 0]) simp_all
  show ?thesis
    using dn rd wr loop fl by (auto simp: hashkeys_def Let_def min_le_iff_disj simp del: rfc_key.simps)
qed

end

text \<open>The loop ends for every hash with a digest that is not empty, whatever its functions do, when \<open>offset\<close> cannot wrap.\<close>

lemma hashkeys_loop_ends:
  assumes "0 < hd_hashsize d" "unat outlen + hd_hashsize d \<le> 2 ^ 32"
  shows "hashkeys_loop d hs outlen out offset \<noteq> None \<and> hashkeys_loop d hs outlen out offset \<noteq> Some (Inl Diverge)"
proof (induction "unat outlen - unat offset" arbitrary: out offset rule: less_induct)
  case less
  have IH: "hashkeys_loop d hs outlen out' (offset + of_nat (hd_hashsize d)) \<noteq> None
      \<and> hashkeys_loop d hs outlen out' (offset + of_nat (hd_hashsize d)) \<noteq> Some (Inl Diverge)" if "offset < outlen" for out'
  proof -
    have "unat offset < unat outlen" using that by (simp add: u32_nat)
    moreover from this have "unat (offset + of_nat (hd_hashsize d)) = unat offset + hd_hashsize d"
      using assms by (subst unat_u32_add) (simp_all add: unat_u32_of_nat)
    ultimately show ?thesis using less assms(1) by simp
  qed
  show ?case
    by (subst (1 2) hashkeys_loop.simps) (use IH in \<open>simp add: mem_read_def mem_write_def split: option.split\<close>)
qed

text \<open>
  C27. Key derivation always ends.  \<open>hashkeys\<close> fills its output in a loop that moves on by the
  hash size, in 32 bits.  For every hash whose size is not 0, whatever its functions do, every array
  and every output length from which the offset cannot wrap (at most $2^{32}$ less the hash size)
  it comes to an end.
\<close>

theorem hashkeys_ends:
  assumes "0 < hd_hashsize d" "unat outlen + hd_hashsize d \<le> 2 ^ 32"
  shows "hashkeys d sid out outlen hs X \<noteq> Inl Diverge"
proof -
  have "(case hashkeys_loop d hs outlen out offset of None \<Rightarrow> Inl Diverge | Some r \<Rightarrow> r) \<noteq> Inl Diverge" for out offset
    using hashkeys_loop_ends [OF assms, of hs out offset] by (cases "hashkeys_loop d hs outlen out offset") auto
  then show ?thesis
    by (cases "hd_done d (snd (hd_process d (snd (hd_process d hs [X])) sid))")
       (simp_all add: hashkeys_def Let_def mem_read_def mem_write_def)
qed

theorem hashkeys_ends_witness: "hashkeys sha1_desc [] (replicate 64 0) 64 (hd_init sha1_desc) 67 \<noteq> Inl Diverge"
  by (rule hashkeys_ends) (simp_all add: sha1_desc_def)

text \<open>
  C28. Keys are expanded as RFC 4253 asks.  From a hash state that has taken in the shared secret
  and the exchange hash (\<open>KH\<close>), \<open>hashkeys\<close> fills the first \<open>outlen\<close> bytes of its output array with
  the first \<open>outlen\<close> bytes of $K_1 \| K_2 \| \dots$ of section 7.2, over the hash of the key exchange,
  and leaves the others, for every letter, session identifier and output length below
  $2^{32} - 64$.  It needs an array of \<open>outlen\<close> bytes, and writes past the end of a shorter one.
\<close>

theorem hashkeys_rfc4253:
  assumes "length KH < 2 ^ 50" "length sid < 2 ^ 50" "unat outlen + 64 < 2 ^ 32"
    and "(d, H) \<in> {(sha1_desc, SHA1), (sha256_desc, SHA256), (sha384_desc, SHA384), (sha512_desc, SHA512)}" "has_hashed d hs KH"
  shows "hashkeys d sid out outlen hs X =
     (if unat outlen \<le> length out
      then Inr (take (unat outlen) (rfc_key H KH X sid (unat outlen div hd_hashsize d)) @ drop (unat outlen) out)
      else Inl Mem_fault)"
proof -
  have l: "8 * (length KH + unat outlen + length sid + 1) < 2 ^ 64" using assms(1-3) by simp
  have sz: "hd_hashsize sha1_desc = 20" "hd_hashsize sha256_desc = 32" "hd_hashsize sha384_desc = 48" "hd_hashsize sha512_desc = 64"
    by (simp_all add: sha1_desc_def sha256_desc_def sha384_desc_def sha512_desc_def)
  show ?thesis
    using assms(3-5) sz h_sha1.hashkeys_eq [OF _ l] h_sha256.hashkeys_eq [OF _ l] h_sha384.hashkeys_eq [OF _ l] h_sha512.hashkeys_eq [OF _ l]
    by (elim insertE emptyE) simp_all
qed

theorem hashkeys_rfc4253_witness:
  "hashkeys sha256_desc [1, 2] (replicate 64 0) 64 (hd_init sha256_desc) 67 = Inr (take 64 (rfc_key SHA256 [] 67 [1, 2] 2))"
  using hashkeys_rfc4253 [of "[]" "[1, 2]" 64 sha256_desc SHA256 "hd_init sha256_desc" "replicate 64 0" 67] has_hashed_init [of sha256_desc]
  by (simp add: sha256_desc_def)

section \<open>Both sides have the same keys\<close>

definition mirrored :: "key_context \<Rightarrow> key_context \<Rightarrow> bool" where
  "mirrored n m \<longleftrightarrow> kc_algo_kex n = kc_algo_kex m \<and> kc_recv n = kc_trans m \<and> kc_trans n = kc_recv m"

definition same_secrets :: "sshsession \<Rightarrow> sshsession \<Rightarrow> bool" where
  "same_secrets c s \<longleftrightarrow> ses_dh_K c = ses_dh_K s \<and> ses_dh_K_bytes c = ses_dh_K_bytes s \<and> ses_hash c = ses_hash s
     \<and> ses_session_id c = ses_session_id s"

lemma gen_new_keys_mirrored:
  assumes "gen_new_keys ke c = Inr c'" "\<not> ses_isserver c" "ses_isserver s" "same_secrets c s"
    "ses_newkeys c = Some nc" "ses_newkeys s = Some ns" "mirrored nc ns"
    "gen_new_keys ke s = Inr s'"
  shows "\<exists>nc' ns'. ses_newkeys c' = Some nc' \<and> ses_newkeys s' = Some ns' \<and> mirrored nc' ns'"
proof -
  have "kex_hash_start c hd = kex_hash_start s hd" for hd
    using assms(4) by (simp add: kex_hash_start_def same_secrets_def)
  then have m: "kex_material c nc = kex_material s ns"
    using assms(4,7) by (simp add: kex_material_def same_secrets_def mirrored_def)
  show ?thesis
  proof (cases "kex_material s ns")
    case (Inr r)
    obtain hd hs sid ci si ck sk where r: "r = (hd, hs, sid, ci, si, ck, sk)" by (metis prod_cases7)
    show ?thesis
      using assms(1-3,5-8) Inr r m
      by (auto simp: gen_new_keys_def Let_def bindE_eq_Inr mirrored_def)
  qed (use assms(6,8) in \<open>simp add: gen_new_keys_def\<close>)
qed

lemma gen_new_keys_post:
  assumes "ses_newkeys ses = Some nk"
  shows "post (gen_new_keys ke ses) (\<lambda>s. \<exists>nk'. s = ses\<lparr>ses_dh_K := None, ses_dh_K_bytes := None, ses_hash := None,
     ses_newkeys := Some nk'\<rparr> \<and> kd_valid (kc_recv nk') \<and> kd_valid (kc_trans nk'))"
  unfolding gen_new_keys_def Let_def assms nn_simps bindE_simps
  by (rule post_any, intro post_prod, rule post_any, rule post_any, rule post_any, rule post_any)
     (simp only: post_simps, rule exI, rule conjI, rule refl, simp)

text \<open>The stream \<open>gen_new_zstream_recv\<close> and \<open>gen_new_zstream_trans\<close> give a direction: one that zlib has set up, or none.\<close>

definition new_zstream :: "mem option \<Rightarrow> key_context_directional \<Rightarrow> mem option" where
  "new_zstream zinit kd = (if kd_algo_comp kd = DROPBEAR_COMP_ZLIB \<or> kd_algo_comp kd = DROPBEAR_COMP_ZLIB_DELAY then zinit else None)"

lemma gen_new_zstream_post:
  "post (gen_new_zstream_recv ke nk k) (\<lambda>r. r = nk\<lparr>kc_recv := (kc_recv nk)\<lparr>kd_zstream := new_zstream (ke_inflateInit ke) (kc_recv nk)\<rparr>\<rparr>)"
  "post (gen_new_zstream_trans ke nk k) (\<lambda>r. r = nk\<lparr>kc_trans := (kc_trans nk)\<lparr>kd_zstream := new_zstream (ke_deflateInit2 ke) (kc_trans nk)\<rparr>\<rparr>)"
proof -
  have z: "post (if c then case zinit of None \<Rightarrow> dropbear_exit msg | Some z \<Rightarrow> returnE (Some z) else returnE None)
      (\<lambda>z. z = (if c then zinit else None))" for c msg and zinit :: "mem option"
    by (simp split: option.split)
  have e: "post (case old of None \<Rightarrow> returnE x | Some z \<Rightarrow> if f z then dropbear_exit msg else returnE x) (\<lambda>r. r = x)"
    for old :: "mem option" and f msg and x :: key_context
    by (simp split: option.split)
  show "post (gen_new_zstream_recv ke nk k) (\<lambda>r. r = nk\<lparr>kc_recv := (kc_recv nk)\<lparr>kd_zstream := new_zstream (ke_inflateInit ke) (kc_recv nk)\<rparr>\<rparr>)"
    unfolding gen_new_zstream_recv_def new_zstream_def Let_def by (rule post_bindE, rule post_weaken [OF z], simp only: e)
  show "post (gen_new_zstream_trans ke nk k) (\<lambda>r. r = nk\<lparr>kc_trans := (kc_trans nk)\<lparr>kd_zstream := new_zstream (ke_deflateInit2 ke) (kc_trans nk)\<rparr>\<rparr>)"
    unfolding gen_new_zstream_trans_def new_zstream_def Let_def by (rule post_bindE, rule post_weaken [OF z], simp only: e)
qed

text \<open>Taking the new keys for sending into use, after our own \<open>NEWKEYS\<close>.\<close>

lemma switch_keys_sent:
  assumes "kx_sentnewkeys (ses_kexstate ses)" "\<not> kx_recvnewkeys (ses_kexstate ses)"
    "ses_newkeys ses = Some nk" "kd_valid (kc_trans nk)" "ses_keys ses = Some k"
  shows "post (switch_keys env ke ses) (\<lambda>s. s = ses\<lparr>ses_newkeys := Some (nk\<lparr>kc_trans := zero_keys_dir\<rparr>),
     ses_keys := Some (k\<lparr>kc_trans := (kc_trans nk)\<lparr>kd_zstream := new_zstream (ke_deflateInit2 ke) (kc_trans nk)\<rparr>\<rparr>)\<rparr>)"
proof -
  have "post (switch_trans ke True (Some nk) k) (\<lambda>r. r = (Some (nk\<lparr>kc_trans := zero_keys_dir\<rparr>),
      k\<lparr>kc_trans := (kc_trans nk)\<lparr>kd_zstream := new_zstream (ke_deflateInit2 ke) (kc_trans nk)\<rparr>\<rparr>))"
    using assms(4) gen_new_zstream_post(2) [of ke nk k] by (auto simp: switch_trans_def post_def bindE_eq_Inr)
  then show ?thesis
    using assms by (auto simp: switch_keys_def switch_recv_def Let_def intro!: post_bindE elim!: post_weaken)
qed

text \<open>Taking the new keys for receiving into use, after the other side's \<open>NEWKEYS\<close>.\<close>

lemma switch_keys_received:
  assumes "kx_sentnewkeys (ses_kexstate ses)" "kx_recvnewkeys (ses_kexstate ses)"
    "ses_newkeys ses = Some nk" "kd_valid (kc_recv nk)" "\<not> kd_valid (kc_trans nk)" "ses_keys ses = Some k"
  shows "post (switch_keys env ke ses) (\<lambda>s. s = kexinitialise env (ses\<lparr>ses_newkeys := None, ses_keys :=
     Some (k\<lparr>kc_recv := (kc_recv nk)\<lparr>kd_zstream := new_zstream (ke_inflateInit ke) (kc_recv nk)\<rparr>, kc_algo_kex := kc_algo_kex nk,
             kc_algo_hostkey := kc_algo_hostkey nk, kc_algo_signature := kc_algo_signature nk, kc_allow_compress := False\<rparr>)\<rparr>))"
proof -
  have "post (switch_recv ke True (Some nk) k) (\<lambda>r. r = (Some (nk\<lparr>kc_recv := zero_keys_dir\<rparr>),
      k\<lparr>kc_recv := (kc_recv nk)\<lparr>kd_zstream := new_zstream (ke_inflateInit ke) (kc_recv nk)\<rparr>\<rparr>))"
    using assms(4) gen_new_zstream_post(1) [of ke nk k] by (auto simp: switch_recv_def post_def bindE_eq_Inr)
  then show ?thesis
    using assms by (auto simp: switch_keys_def switch_trans_def Let_def intro!: post_bindE elim!: post_weaken)
qed

end
