(* ===== verification/Kex_Agree.thy ===== *)
theory Kex_Agree
  imports Kex_Keys Packet_Ciphers
begin

text \<open>
  The two sides of a key exchange agree: what one side takes into use for sending with its
  \<open>NEWKEYS\<close> is what the other takes into use for receiving when that message arrives.
\<close>

section \<open>Sending NEWKEYS\<close>

lemma mirrored_sym: "mirrored n m \<Longrightarrow> mirrored m n"
  by (simp add: mirrored_def)

lemma same_secrets_sym: "same_secrets a b \<Longrightarrow> same_secrets b a"
  by (simp add: same_secrets_def)

text \<open>Both \<open>KEXINIT\<close>s are there, the new algorithms are chosen, and no \<open>NEWKEYS\<close> has been sent or received.\<close>

definition before_newkeys :: "sshsession \<Rightarrow> key_context \<Rightarrow> bool" where
  "before_newkeys ses nk \<longleftrightarrow>
     kx_sentkexinit (ses_kexstate ses) \<and> kx_recvkexinit (ses_kexstate ses) \<and> \<not> kx_recvnewkeys (ses_kexstate ses)
   \<and> ses_newkeys ses = Some nk \<and> ses_keys ses \<noteq> None"

lemma send_msg_newkeys_post:
  assumes "send_msg_newkeys env ke a = Inr a'" "before_newkeys a nk"
  shows "\<exists>a0 n k. gen_new_keys ke a0 = Inr (a0\<lparr>ses_dh_K := None, ses_dh_K_bytes := None, ses_hash := None, ses_newkeys := Some n\<rparr>)
     \<and> same_secrets a0 a \<and> ses_newkeys a0 = Some nk \<and> ses_isserver a0 = ses_isserver a
     \<and> kd_valid (kc_recv n) \<and> kd_valid (kc_trans n)
     \<and> ses_newkeys a' = Some (n\<lparr>kc_trans := zero_keys_dir\<rparr>) \<and> ses_keys a' = Some k
     \<and> kc_trans k = (kc_trans n)\<lparr>kd_zstream := new_zstream (ke_deflateInit2 ke) (kc_trans n)\<rparr>
     \<and> (kx_strict_kex (ses_kexstate a) \<longrightarrow> ses_transseq a' = 0)
     \<and> kx_sentnewkeys (ses_kexstate a') \<and> \<not> kx_recvnewkeys (ses_kexstate a')
     \<and> kx_strict_kex (ses_kexstate a') = kx_strict_kex (ses_kexstate a)"
proof -
  let ?f = "\<lambda>s. (set_kexstate (\<lambda>k. k\<lparr>kx_sentnewkeys := True, kx_donesecondkex := (kx_donefirstkex k \<or> kx_donesecondkex k),
      kx_donefirstkex := True\<rparr>) s)\<lparr>ses_dataallowed := True\<rparr>"
  obtain wp s s1 s2 where wp: "encrypt_packet env (a\<lparr>ses_writepayload := wp\<rparr>) = Inr s"
    and g: "gen_new_keys ke (?f s) = Inr s1" and sw: "switch_keys env ke s1 = Inr s2"
    and a': "a' = (if kx_strict_kex (ses_kexstate s2) then s2\<lparr>ses_transseq := 0\<rparr> else s2)"
    using assms(1) by (auto simp: send_msg_newkeys_def bindE_eq_Inr Let_def)
  have sends: "sends a s"
    using postD [OF encrypt_packet_sends wp] by (simp add: sends_def)
  then have nk: "ses_newkeys (?f s) = Some nk" and sec: "same_secrets (?f s) a" and srv: "ses_isserver (?f s) = ses_isserver a"
    using assms(2) by (simp_all add: sends_def before_newkeys_def same_secrets_def set_kexstate_def)
  obtain k where k: "ses_keys s = Some k"
    using sends assms(2) by (auto simp: sends_def before_newkeys_def)
  obtain n where n: "s1 = (?f s)\<lparr>ses_dh_K := None, ses_dh_K_bytes := None, ses_hash := None, ses_newkeys := Some n\<rparr>"
    and rdy: "kd_valid (kc_recv n)" "kd_valid (kc_trans n)"
    using postD [OF gen_new_keys_post [OF nk] g] assms(2) by (auto simp: before_newkeys_def)
  have flags: "kx_sentnewkeys (ses_kexstate s1)" "\<not> kx_recvnewkeys (ses_kexstate s1)"
    "kx_strict_kex (ses_kexstate s1) = kx_strict_kex (ses_kexstate a)" "ses_keys s1 = Some k" "ses_newkeys s1 = Some n"
    using n k assms(2) sends_kex [OF sends] by (simp_all add: set_kexstate_def before_newkeys_def)
  have s2: "s2 = s1\<lparr>ses_newkeys := Some (n\<lparr>kc_trans := zero_keys_dir\<rparr>),
     ses_keys := Some (k\<lparr>kc_trans := (kc_trans n)\<lparr>kd_zstream := new_zstream (ke_deflateInit2 ke) (kc_trans n)\<rparr>\<rparr>)\<rparr>"
    using postD [OF switch_keys_sent [OF flags(1,2,5) rdy(2) flags(4)] sw] .
  have "ses_newkeys a' = Some (n\<lparr>kc_trans := zero_keys_dir\<rparr>)"
    "ses_keys a' = Some (k\<lparr>kc_trans := (kc_trans n)\<lparr>kd_zstream := new_zstream (ke_deflateInit2 ke) (kc_trans n)\<rparr>\<rparr>)"
    "kx_strict_kex (ses_kexstate a) \<longrightarrow> ses_transseq a' = 0"
    "kx_sentnewkeys (ses_kexstate a') \<and> \<not> kx_recvnewkeys (ses_kexstate a')
     \<and> kx_strict_kex (ses_kexstate a') = kx_strict_kex (ses_kexstate a)"
    using flags by (simp_all add: a' s2)
  then show ?thesis
    using g [unfolded n] sec nk srv rdy
    by (intro exI [of _ "?f s"] exI [of _ n] exI [of _ "k\<lparr>kc_trans := (kc_trans n)\<lparr>kd_zstream := new_zstream (ke_deflateInit2 ke) (kc_trans n)\<rparr>\<rparr>"]) simp
qed

section \<open>Receiving NEWKEYS\<close>

lemma recv_msg_newkeys_post:
  assumes "recv_msg_newkeys env ke b = Inr b'" "kx_sentnewkeys (ses_kexstate b)" "ses_newkeys b = Some (n\<lparr>kc_trans := zero_keys_dir\<rparr>)"
    "kd_valid (kc_recv n)" "ses_keys b \<noteq> None"
  shows "\<exists>k. ses_keys b' = Some k \<and> kc_recv k = (kc_recv n)\<lparr>kd_zstream := new_zstream (ke_inflateInit ke) (kc_recv n)\<rparr> \<and> ses_newkeys b' = None
     \<and> (kx_strict_kex (ses_kexstate b) \<longrightarrow> ses_recvseq b' = 0)"
proof -
  let ?b = "set_kexstate (\<lambda>k. k\<lparr>kx_recvnewkeys := True\<rparr>) b"
  obtain s where sw: "switch_keys env ke ?b = Inr s"
    and b': "b' = set_kexstate (\<lambda>k. k\<lparr>kx_recvfirstnewkeys := True\<rparr>) (if kx_strict_kex (ses_kexstate s) then s\<lparr>ses_recvseq := 0\<rparr> else s)"
    using assms(1) by (auto simp: recv_msg_newkeys_def bindE_eq_Inr Let_def)
  obtain k where k: "ses_keys b = Some k" using assms(5) by blast
  have z: "\<not> kd_valid (kc_trans (n\<lparr>kc_trans := zero_keys_dir\<rparr>))" by (simp add: zero_keys_dir_def)
  have r: "kd_valid (kc_recv (n\<lparr>kc_trans := zero_keys_dir\<rparr>))" using assms(4) by simp
  have "kx_sentnewkeys (ses_kexstate ?b)" "kx_recvnewkeys (ses_kexstate ?b)" "ses_keys ?b = Some k"
    "ses_newkeys ?b = Some (n\<lparr>kc_trans := zero_keys_dir\<rparr>)"
    using assms(2,3) k by (simp_all add: set_kexstate_def)
  from postD [OF switch_keys_received [OF this(1,2,4) r z this(3)] sw]
  show ?thesis by (simp add: b' kexinitialise_def set_kexstate_def)
qed

text \<open>
  C29. Both sides take the same keys into use.  Let \<open>a\<close> and \<open>b\<close> be the two ends of a key
  exchange that have chosen the same algorithms, each for the direction it is for, and hold
  the same shared secret, exchange hash and session identifier.  When each has sent its
  \<open>NEWKEYS\<close> and \<open>b\<close>, whatever else it did meanwhile, processes the one of \<open>a\<close>, the
  keys with which \<open>b\<close> receives are exactly those with which \<open>a\<close> began to send: cipher, cipher
  state with key and IV, MAC, MAC key and compression method.  Only the zlib streams differ: where
  the method compresses, the sender has a new stream to deflate and the receiver a new one to
  inflate; where it does not, neither has one.  In strict mode both begin to count packets from 0.
\<close>

theorem newkeys_agree:
  assumes "before_newkeys a na" "before_newkeys b nb" "mirrored na nb" "same_secrets a b" "ses_isserver a \<noteq> ses_isserver b"
    and "send_msg_newkeys env ke a = Inr a'" "send_msg_newkeys env' ke b = Inr b'"
    and "ses_newkeys b'' = ses_newkeys b'" "kx_sentnewkeys (ses_kexstate b'')" "ses_keys b'' \<noteq> None"
    and "recv_msg_newkeys env'' ke b'' = Inr b3"
  shows "\<exists>ka kb. ses_keys a' = Some ka \<and> ses_keys b3 = Some kb \<and> kd_valid (kc_recv kb)
     \<and> kc_recv kb = (kc_trans ka)\<lparr>kd_zstream := new_zstream (ke_inflateInit ke) (kc_trans ka)\<rparr>
     \<and> kd_zstream (kc_trans ka) = new_zstream (ke_deflateInit2 ke) (kc_trans ka)
     \<and> (kx_strict_kex (ses_kexstate a) \<longrightarrow> ses_transseq a' = 0) \<and> (kx_strict_kex (ses_kexstate b'') \<longrightarrow> ses_recvseq b3 = 0)"
proof -
  obtain a0 m k where a: "gen_new_keys ke a0 = Inr (a0\<lparr>ses_dh_K := None, ses_dh_K_bytes := None, ses_hash := None, ses_newkeys := Some m\<rparr>)"
      "same_secrets a0 a" "ses_newkeys a0 = Some na" "ses_isserver a0 = ses_isserver a" "kd_valid (kc_trans m)"
      "ses_keys a' = Some k" "kc_trans k = (kc_trans m)\<lparr>kd_zstream := new_zstream (ke_deflateInit2 ke) (kc_trans m)\<rparr>" "kx_strict_kex (ses_kexstate a) \<longrightarrow> ses_transseq a' = 0"
    using send_msg_newkeys_post [OF assms(6,1)] by blast
  obtain b0 n where b: "gen_new_keys ke b0 = Inr (b0\<lparr>ses_dh_K := None, ses_dh_K_bytes := None, ses_hash := None, ses_newkeys := Some n\<rparr>)"
      "same_secrets b0 b" "ses_newkeys b0 = Some nb" "ses_isserver b0 = ses_isserver b" "kd_valid (kc_recv n)"
      "ses_newkeys b' = Some (n\<lparr>kc_trans := zero_keys_dir\<rparr>)"
    using send_msg_newkeys_post [OF assms(7,2)] by blast
  have sec: "same_secrets a0 b0" "same_secrets b0 a0"
    using a(2) b(2) assms(4) by (simp_all add: same_secrets_def)
  have "mirrored m n"
  proof (cases "ses_isserver a")
    case False
    then have "\<not> ses_isserver a0" "ses_isserver b0" using a(4) b(4) assms(5) by simp_all
    from gen_new_keys_mirrored [OF a(1) this sec(1) a(3) b(3) assms(3) b(1)] show ?thesis by simp
  next
    case True
    then have "ses_isserver a0" "\<not> ses_isserver b0" using a(4) b(4) assms(5) by simp_all
    from gen_new_keys_mirrored [OF b(1) this(2,1) sec(2) b(3) a(3) mirrored_sym [OF assms(3)] a(1)]
    show ?thesis by (simp add: mirrored_sym)
  qed
  moreover have "ses_newkeys b'' = Some (n\<lparr>kc_trans := zero_keys_dir\<rparr>)" using assms(8) b(6) by simp
  from recv_msg_newkeys_post [OF assms(11,9) this b(5) assms(10)]
  obtain kb where "ses_keys b3 = Some kb" "kc_recv kb = (kc_recv n)\<lparr>kd_zstream := new_zstream (ke_inflateInit ke) (kc_recv n)\<rparr>"
      "kx_strict_kex (ses_kexstate b'') \<longrightarrow> ses_recvseq b3 = 0" by blast
  ultimately show ?thesis
    using a(5-8) by (simp add: mirrored_def new_zstream_def)
qed

section \<open>An example\<close>

text \<open>A small exchange: a hash with constant digests, chacha20-poly1305 and delayed compression in both directions.\<close>

definition dull_hash :: hash_descriptor where
  "dull_hash = \<lparr>hd_name = ''dull'', hd_hashsize = 32, hd_blocksize = 64, hd_init = hd_init sha1_desc,
     hd_process = (\<lambda>hs _. (True, hs)), hd_done = (\<lambda>_. Some (replicate 32 7))\<rparr>"

definition dull_kexenv :: kexenv where
  "dull_kexenv = \<lparr>ke_sshkex = [], ke_sshciphers = [], ke_sshhashes = [], ke_allow_compress = False, ke_ciphers = [],
     ke_hashes = [], ke_LOCAL_IDENT = [], ke_cookie = (\<lambda>_. replicate 16 0), ke_inflateInit = Some [1],
     ke_inflateEnd = (\<lambda>_. False), ke_deflateInit2 = Some [2], ke_deflateEnd = (\<lambda>_. False), ke_first_guess = Inr\<rparr>"

definition agreed_dir :: key_context_directional where
  "agreed_dir = zero_keys_dir\<lparr>kd_algo_crypt := Some dropbear_chachapoly, kd_crypt_mode := Some dropbear_mode_chachapoly,
     kd_algo_mac := Some dropbear_chachapoly_mac, kd_algo_comp := DROPBEAR_COMP_ZLIB_DELAY\<rparr>"

definition agreed_keys :: key_context where
  "agreed_keys = zero_keys\<lparr>kc_algo_kex := Some \<lparr>kx_mode = DROPBEAR_KEX_NORMAL_DH, kx_dh_p_bytes = [], kx_hash_desc = dull_hash\<rparr>,
     kc_recv := agreed_dir, kc_trans := agreed_dir\<rparr>"

definition agreed_session :: "bool \<Rightarrow> sshsession" where
  "agreed_session isserver =
     \<lparr>ses_isserver = isserver, ses_connect_time = 0, ses_remoteident = None,
       ses_writepayload = \<lparr>b_data = replicate 32 0, b_len = 0, b_pos = 0, b_size = 32\<rparr>, ses_writequeue = [], ses_writequeue_len = 0,
       ses_readbuf = None, ses_payload = None, ses_payload_beginning = 0, ses_transseq = 3, ses_recvseq = 3,
       ses_dataallowed = True, ses_requirenext = SSH_MSG_NEWKEYS, ses_ignorenext = False, ses_lastpacket = 0,
       ses_last_packet_time_keepalive_sent = 0, ses_last_packet_time_keepalive_recv = 0,
       ses_last_packet_time_any_sent = 0, ses_last_packet_time_idle = 0,
       ses_kexstate = zero_kexstate\<lparr>kx_sentkexinit := True, kx_recvkexinit := True, kx_strict_kex := True\<rparr>,
       ses_keys = Some (zero_keys\<lparr>kc_recv := init_dir, kc_trans := init_dir\<rparr>),
       ses_newkeys = Some agreed_keys, ses_session_id = Some (buf_of [1, 2]), ses_dh_K = None,
       ses_dh_K_bytes = Some (buf_of [9]), ses_hash = Some (buf_of [1, 2]),
       ses_kexhashbuf = None, ses_transkexinit = None, ses_compress_algos_c2s = [], ses_compress_algos_s2c = [],
       ses_sigalgs = [], ses_allow_ext_info = False, ses_reply_queue = [], ses_send_kex_first_guess = False,
       ses_authstate = zero_authstate, ses_channels = [], ses_chancount = 0, ses_chantypes = []\<rparr>"

lemma agreed_before: "before_newkeys (agreed_session srv) agreed_keys"
  by (simp add: before_newkeys_def agreed_session_def zero_kexstate_def agreed_keys_def agreed_dir_def zero_keys_dir_def
      DROPBEAR_COMP_NONE_def)

lemma agreed_completes:
  "isl (bindE (send_msg_newkeys plain_env dull_kexenv (agreed_session True)) (recv_msg_newkeys plain_env dull_kexenv)) = False"
  "isl (send_msg_newkeys plain_env dull_kexenv (agreed_session False)) = False"
  by code_simp+

theorem newkeys_agree_witness:
  "\<exists>a' b' b3 ka kb. send_msg_newkeys plain_env dull_kexenv (agreed_session False) = Inr a'
     \<and> send_msg_newkeys plain_env dull_kexenv (agreed_session True) = Inr b'
     \<and> recv_msg_newkeys plain_env dull_kexenv b' = Inr b3
     \<and> ses_keys a' = Some ka \<and> ses_keys b3 = Some kb \<and> ses_transseq a' = 0
     \<and> kc_recv kb = (kc_trans ka)\<lparr>kd_zstream := new_zstream (Some [1]) (kc_trans ka)\<rparr>
     \<and> kd_zstream (kc_trans ka) = new_zstream (Some [2]) (kc_trans ka)"
proof -
  obtain a' where a: "send_msg_newkeys plain_env dull_kexenv (agreed_session False) = Inr a'"
    using agreed_completes(2) by (cases "send_msg_newkeys plain_env dull_kexenv (agreed_session False)") auto
  obtain b' b3 where b: "send_msg_newkeys plain_env dull_kexenv (agreed_session True) = Inr b'"
    and b3: "recv_msg_newkeys plain_env dull_kexenv b' = Inr b3"
    using agreed_completes(1)
    by (cases "bindE (send_msg_newkeys plain_env dull_kexenv (agreed_session True)) (recv_msg_newkeys plain_env dull_kexenv)")
       (auto simp: bindE_eq_Inr)
  have ses: "same_secrets (agreed_session False) (agreed_session True)" "mirrored agreed_keys agreed_keys"
    "ses_isserver (agreed_session False) \<noteq> ses_isserver (agreed_session True)" "kx_strict_kex (ses_kexstate (agreed_session False))"
    by (simp_all add: same_secrets_def agreed_session_def mirrored_def agreed_keys_def)
  have "kx_sentnewkeys (ses_kexstate b')" "ses_keys b' \<noteq> None"
    using send_msg_newkeys_post [OF b agreed_before] by auto
  from newkeys_agree [OF agreed_before agreed_before ses(2,1,3) a b refl this b3] a b b3 ses(4)
  show ?thesis by (auto simp: dull_kexenv_def)
qed

end
