(* ===== verification/Kex_Choice.thy ===== *)
theory Kex_Choice
  imports Kex_Agree
begin

text \<open>
  The choice of algorithms: what \<open>put_kex_algos\<close> writes into a \<open>KEXINIT\<close> packet, and what
  \<open>read_kex_algos\<close> makes of such a packet on the other side.
\<close>

section \<open>The lists of a KEXINIT packet\<close>

text \<open>The tables a side brings to the exchange can be written and read.\<close>

definition tables_ok :: "kexenv \<Rightarrow> sshsession \<Rightarrow> bool" where
  "tables_ok ke ses \<longleftrightarrow> table_ok (ke_sshkex ke) \<and> table_ok (ses_sigalgs ses) \<and> table_ok (ke_sshciphers ke)
     \<and> table_ok (ke_sshhashes ke) \<and> table_ok (ses_compress_algos_c2s ses) \<and> table_ok (ses_compress_algos_s2c ses)"

definition kexinit_lists :: "kexenv \<Rightarrow> sshsession \<Rightarrow> byte list" where
  "kexinit_lists ke ses = enc_algos (ke_sshkex ke) False @ enc_algos (ses_sigalgs ses) False
     @ enc_algos (ke_sshciphers ke) False @ enc_algos (ke_sshciphers ke) False
     @ enc_algos (ke_sshhashes ke) False @ enc_algos (ke_sshhashes ke) False
     @ enc_algos (ses_compress_algos_c2s ses) False @ enc_algos (ses_compress_algos_s2c ses) False
     @ STORE32H 0 @ STORE32H 0 @ [if ses_send_kex_first_guess ses then 1 else 0] @ STORE32H 0"

lemma table_ok_short: "table_ok algos \<Longrightarrow> \<forall>a \<in> set algos. length (al_name a) < 4294967296"
  by (auto simp: table_ok_def MAX_NAME_LEN_def)

text \<open>A call that, if it succeeds, writes exactly some bytes.\<close>

definition writes :: "(buffer \<Rightarrow> buffer res) \<Rightarrow> byte list \<Rightarrow> bool" where
  "writes f bs \<longleftrightarrow> (\<forall>b b'. wf_buf b \<longrightarrow> f b = Inr b' \<longrightarrow> length bs \<le> room b \<and> b' = overwrite b bs)"

lemma writes_bindE:
  assumes "writes f bs" "writes g cs"
  shows "writes (\<lambda>b. bindE (f b) g) (bs @ cs)"
  unfolding writes_def
proof (intro allI impI)
  fix b b' assume b: "wf_buf b" "bindE (f b) g = Inr b'"
  then obtain b1 where b1: "f b = Inr b1" "g b1 = Inr b'" by (auto simp: bindE_eq_Inr)
  have f: "length bs \<le> room b" "b1 = overwrite b bs" using assms(1) b(1) b1(1) by (auto simp: writes_def)
  then have g: "length cs \<le> room b1" "b' = overwrite b1 cs"
    using assms(2) b1(2) wf_overwrite [OF b(1)] by (auto simp: writes_def)
  then have "length bs + length cs \<le> room b" using f room_overwrite [OF b(1) f(1)] by simp
  then show "length (bs @ cs) \<le> room b \<and> b' = overwrite b (bs @ cs)"
    using g f overwrite_overwrite [OF b(1)] by simp
qed

lemma writes_calls:
  "table_ok algos \<Longrightarrow> writes (\<lambda>b. buf_put_algolist b algos) (enc_algos algos False)"
  "writes (\<lambda>b. buf_putbyte b v) [v]" "writes (\<lambda>b. buf_putint b w) (STORE32H w)" "writes (\<lambda>b. buf_putstring b [] 0) (STORE32H 0)"
  using table_ok_short [of algos]
  by (auto simp: writes_def buf_put_algolist_def buf_put_algolist_all_iff buf_putbyte_eq buf_putint_eq buf_putstring_eq split: if_splits)

lemma put_kex_algos_writes:
  assumes "tables_ok ke ses"
  shows "writes (put_kex_algos ke ses) (kexinit_lists ke ses)"
proof -
  have w: "writes (\<lambda>wp.
     bindE (buf_put_algolist wp (ke_sshkex ke)) (\<lambda>wp.
     bindE (buf_put_algolist wp (ses_sigalgs ses)) (\<lambda>wp.
     bindE (buf_put_algolist wp (ke_sshciphers ke)) (\<lambda>wp.
     bindE (buf_put_algolist wp (ke_sshciphers ke)) (\<lambda>wp.
     bindE (buf_put_algolist wp (ke_sshhashes ke)) (\<lambda>wp.
     bindE (buf_put_algolist wp (ke_sshhashes ke)) (\<lambda>wp.
     bindE (buf_put_algolist wp (ses_compress_algos_c2s ses)) (\<lambda>wp.
     bindE (buf_put_algolist wp (ses_compress_algos_s2c ses)) (\<lambda>wp.
     bindE (buf_putstring wp [] 0) (\<lambda>wp.
     bindE (buf_putstring wp [] 0) (\<lambda>wp.
     bindE (buf_putbyte wp (if ses_send_kex_first_guess ses then 1 else 0)) (\<lambda>wp.
     buf_putint wp 0))))))))))))  (kexinit_lists ke ses)"
    unfolding kexinit_lists_def using assms
    by (intro writes_bindE writes_calls) (simp_all add: tables_ok_def)
  show ?thesis using w by (simp add: put_kex_algos_def [abs_def])
qed

section \<open>Reading the lists\<close>

text \<open>What a choice depends on.\<close>

definition view :: "('d, 'm) algo_type \<Rightarrow> 'd option \<times> 'm option \<times> byte" where
  "view a = (al_data a, al_mode a, al_val a)"

text \<open>
  The entry \<open>r\<close> of a table is the one negotiated with the table of the other side; entries of
  the same name stand for the same algorithm on both sides.
\<close>

definition negotiated :: "bool \<Rightarrow> ('d, 'm) algo_type list \<Rightarrow> ('d, 'm) algo_type list \<Rightarrow> ('d, 'm) algo_type option \<Rightarrow> bool" where
  "negotiated isserver localalgos remote r \<longleftrightarrow>
     map_option al_name r = (if isserver then negotiate (usable_names remote False) (usable_names localalgos False)
          else negotiate (usable_names localalgos False) (usable_names remote False))
   \<and> (\<forall>a. r = Some a \<longrightarrow> a \<in> set localalgos)"

definition coherent :: "('d, 'm) algo_type list \<Rightarrow> ('d, 'm) algo_type list \<Rightarrow> bool" where
  "coherent xs ys \<longleftrightarrow> (\<forall>a \<in> set xs. \<forall>b \<in> set ys. al_name a = al_name b \<longrightarrow> view a = view b)"

lemma negotiated_views:
  assumes "negotiated False cli srv rc" "negotiated True srv cli rs" "coherent cli srv"
  shows "map_option view rc = map_option view rs"
proof -
  have n: "map_option al_name rs = map_option al_name rc" using assms by (simp add: negotiated_def)
  show ?thesis
  proof (cases rc)
    case (Some a)
    then obtain b where "rs = Some b" "al_name b = al_name a" using n by auto
    then show ?thesis using assms Some by (auto simp: negotiated_def coherent_def)
  qed (use n in simp)
qed

text \<open>A buffer that stands before some bytes, in a session's payload.\<close>

definition before :: "buffer \<Rightarrow> byte list \<Rightarrow> bool" where
  "before b bs \<longleftrightarrow> wf_buf b \<and> unread b = bs"

lemma before_advance: "before b (bs @ cs) \<Longrightarrow> before (advance b (length bs)) cs"
  by (simp add: before_def wf_advance unread_advance)

lemma match_next:
  assumes "before b (enc_algos remote False @ rest)" "table_ok remote" "table_ok localalgos"
  shows "\<exists>r b'. (\<forall>kexguess2. \<exists>g. buf_match_algo isserver b localalgos kexguess2 = Inr (r, g, b'))
     \<and> negotiated isserver localalgos remote r \<and> before b' rest"
proof -
  let ?js = "join_names (usable_names remote False)"
  note t = table_ok_join [OF assms(2)]
  have b: "wf_buf b" "unread b = STORE32H (of_nat (length ?js)) @ ?js @ rest"
    using assms(1) by (simp_all add: before_def enc_algos_def Let_def)
  have l: "length localalgos \<le> 50" using assms(3) by (simp add: table_ok_def)
  have m: "\<exists>r g. buf_match_algo isserver b localalgos k = Inr (r, g, advance b (4 + length ?js)) \<and> negotiated isserver localalgos remote r" for k
    using buf_match_algo_eq [OF b t(3,2,4) l, of isserver k] unfolding t(1) negotiated_def by blast
  obtain r g where r: "buf_match_algo isserver b localalgos False = Inr (r, g, advance b (4 + length ?js))"
      "negotiated isserver localalgos remote r" using m by blast
  have "fst (projr (buf_match_algo isserver b localalgos k)) = fst (projr (buf_match_algo isserver b localalgos False))" for k
    using m [of k] r(1) by (auto simp: buf_match_algo_def bindE_eq_Inr Let_def split: if_splits option.splits)
  then have f: "fst (projr (buf_match_algo isserver b localalgos k)) = r" for k using r(1) by simp
  have "\<exists>g. buf_match_algo isserver b localalgos k = Inr (r, g, advance b (4 + length ?js))" for k
    using m [of k] f [of k] by auto
  moreover have "before (advance b (4 + length ?js)) rest"
    using before_advance [of b "STORE32H (of_nat (length ?js)) @ ?js" rest] b by (simp add: before_def)
  ultimately show ?thesis using r(2) by blast
qed

lemma has_algo_next:
  assumes "before b (enc_algos remote False @ rest)" "table_ok remote"
  shows "\<exists>ret. buf_has_algo b name = Inr (ret, b)"
proof -
  let ?js = "join_names (usable_names remote False)"
  note t = table_ok_join [OF assms(2)]
  have b: "wf_buf b" "unread b = STORE32H (of_nat (length ?js)) @ ?js @ rest"
    using assms(1) by (simp_all add: before_def enc_algos_def Let_def)
  have l: "unat (of_nat (length ?js) :: u32) = length ?js"
    using t(3) by (intro unat_u32_of_nat) simp
  have "buf_getstring b = Inr ((?js @ [0], of_nat (length ?js)), advance b (4 + length ?js))"
    using b l t(3) by (simp add: buf_getstring_eq)
  moreover have "remote_names (?js @ [0], of_nat (length ?js)) = Inr (split_names ?js)"
    using t(2,4) l by (rule remote_names_eq)
  moreover have "unat (b_pos b) \<le> unat (b_len b)" using wf_bufD [OF b(1)] by simp
  moreover have "(advance b n)\<lparr>b_pos := b_pos b\<rparr> = b" for n by (simp add: advance_def)
  ultimately show ?thesis by (simp add: buf_has_algo_def Let_def buf_setpos_eq)
qed

text \<open>The flags change nothing the choice depends on.\<close>

definition same_tables :: "sshsession \<Rightarrow> sshsession \<Rightarrow> bool" where
  "same_tables a b \<longleftrightarrow> ses_isserver b = ses_isserver a \<and> ses_sigalgs b = ses_sigalgs a
     \<and> ses_compress_algos_c2s b = ses_compress_algos_c2s a \<and> ses_compress_algos_s2c b = ses_compress_algos_s2c a
     \<and> ses_send_kex_first_guess b = ses_send_kex_first_guess a"

lemma read_kex_flags_eq:
  assumes "before b (enc_algos remote False @ rest)" "table_ok remote"
  shows "\<exists>g ses'. read_kex_flags ses b = Inr (g, ses', b) \<and> same_tables ses ses'"
proof -
  obtain r1 where r1: "buf_has_algo b KEXGUESS2_ALGO_NAME = Inr (r1, b)" using has_algo_next [OF assms] by blast
  obtain r2 where r2: "buf_has_algo b SSH_EXT_INFO_C = Inr (r2, b)" using has_algo_next [OF assms] by blast
  obtain r3 where r3: "buf_has_algo b SSH_STRICT_KEX_C = Inr (r3, b)" using has_algo_next [OF assms] by blast
  obtain r4 where r4: "buf_has_algo b SSH_STRICT_KEX_S = Inr (r4, b)" using has_algo_next [OF assms] by blast
  show ?thesis
    by (simp add: read_kex_flags_def r1 r2 r3 r4 same_tables_def set_kexstate_def Let_def)
qed

section \<open>The choice\<close>

text \<open>
  What the matches of the eight lists come to, written once for both sides: the key exchange,
  the signature and host key types, and what either direction will use.
\<close>

definition mac_choice :: "string \<Rightarrow> dropbear_cipher option \<times> dropbear_cipher_mode option \<times> byte
    \<Rightarrow> (dropbear_hash option \<times> unit option \<times> byte) option \<Rightarrow> dropbear_hash option res" where
  "mac_choice erralgo cipher m = (case cipher of (_, mode, _) \<Rightarrow>
     bindE (nn mode) (\<lambda>mode. if cm_aead_crypt mode \<noteq> None then returnE (cm_aead_mac mode)
     else bindE (need_algo erralgo m) (\<lambda>(d, _, _). returnE d)))"

definition dir_of :: "dropbear_cipher option \<times> dropbear_cipher_mode option \<times> byte \<Rightarrow> dropbear_hash option
    \<Rightarrow> dropbear_cipher option \<times> dropbear_cipher_mode option \<times> byte \<Rightarrow> key_context_directional" where
  "dir_of cipher mac compression = (case (cipher, compression) of ((d, mode, _), (_, _, v)) \<Rightarrow>
     zero_keys_dir\<lparr>kd_algo_crypt := d, kd_crypt_mode := mode, kd_algo_mac := mac, kd_algo_comp := v\<rparr>)"

definition kex_choice where
  "kex_choice kex sig cc cs mc ms zc zs =
     bindE (need_algo ''kex'' kex) (\<lambda>kex.
     bindE (need_algo ''kex'' (fst kex)) (\<lambda>kd.
     bindE (need_algo ''hostkey'' sig) (\<lambda>sig.
     bindE (signkey_type_from_signature (snd (snd sig))) (\<lambda>hk.
     bindE (need_algo ''enc c->s'' cc) (\<lambda>cc.
     bindE (need_algo ''enc s->c'' cs) (\<lambda>cs.
     bindE (mac_choice ''mac c->s'' cc mc) (\<lambda>mc.
     bindE (mac_choice ''mac s->c'' cs ms) (\<lambda>ms.
     bindE (need_algo ''comp c->s'' zc) (\<lambda>zc.
     bindE (need_algo ''comp s->c'' zs) (\<lambda>zs.
     returnE (kd, snd (snd sig), hk, dir_of cc mc zc, dir_of cs ms zs)))))))))))"

definition chosen_keys :: "bool \<Rightarrow> dropbear_kex \<times> byte \<times> int \<times> key_context_directional \<times> key_context_directional \<Rightarrow> key_context" where
  "chosen_keys isserver = (\<lambda>(kd, sv, hk, c2s, s2c). zero_keys\<lparr>kc_algo_kex := Some kd, kc_algo_signature := sv,
     kc_algo_hostkey := hk, kc_recv := (if isserver then c2s else s2c), kc_trans := (if isserver then s2c else c2s)\<rparr>)"

lemma need_algo_view: "need_algo e (map_option view r) = bindE (need_algo e r) (\<lambda>a. returnE (view a))"
  by (cases r) (simp_all add: need_algo_def)

lemma view_simps: "fst (view a) = al_data a" "snd (snd (view a)) = al_val a"
  by (simp_all add: view_def)

definition mac_pick :: "string \<Rightarrow> (dropbear_cipher, dropbear_cipher_mode) algo_type \<Rightarrow> (dropbear_hash, unit) algo_type option
    \<Rightarrow> (dropbear_hash, unit) algo_type option res" where
  "mac_pick erralgo cipher m = bindE (nn (al_mode cipher)) (\<lambda>mode. if cm_aead_crypt mode \<noteq> None then returnE None
     else bindE (need_algo erralgo m) (\<lambda>a. returnE (Some a)))"

definition mac_value :: "(dropbear_cipher, dropbear_cipher_mode) algo_type \<Rightarrow> (dropbear_hash, unit) algo_type option \<Rightarrow> dropbear_hash option" where
  "mac_value cipher h = (case h of None \<Rightarrow> cm_aead_mac (the (al_mode cipher)) | Some a \<Rightarrow> al_data a)"

lemma match_mac_pick:
  "buf_match_algo srv b (ke_sshhashes ke) False = Inr (m, g, b') \<Longrightarrow>
     match_mac ke srv e cipher b = bindE (mac_pick e cipher m) (\<lambda>h. returnE (h, b'))"
  by (cases "al_mode cipher"; cases m) (simp_all add: match_mac_def mac_pick_def need_algo_def)

lemma mac_choice_pick:
  "mac_choice e (view c) (map_option view m) = bindE (mac_pick e c m) (\<lambda>h. returnE (mac_value c h))"
  by (cases "al_mode c"; cases m) (simp_all add: mac_choice_def mac_pick_def mac_value_def need_algo_def view_def)

lemma set_algos_pick:
  "mac_pick e c m = Inr h \<Longrightarrow> set_algos c h z zero_keys_dir = Inr (dir_of (view c) (mac_value c h) (view z))"
  by (cases "al_mode c"; cases h) (simp_all add: mac_pick_def set_algos_def dir_of_def mac_value_def view_def)

lemma read_kex_algos_eq:
  assumes "ses_payload ses = Some b" "before b (cookie @ kexinit_lists ke' other)" "length cookie = 16"
    and "tables_ok ke ses" "tables_ok ke' other" "ses_newkeys ses \<noteq> None"
  shows "\<exists>kex sig cc cs mc ms zc zs f. read_kex_algos ke ses =
       bindE (kex_choice (map_option view kex) (map_option view sig) (map_option view cc) (map_option view cs)
         (map_option view mc) (map_option view ms) (map_option view zc) (map_option view zs)) (\<lambda>ch. returnE (f ch))
     \<and> (\<forall>ch. ses_newkeys (f ch) = Some (chosen_keys (ses_isserver ses) ch))
     \<and> negotiated (ses_isserver ses) (ke_sshkex ke) (ke_sshkex ke') kex
     \<and> negotiated (ses_isserver ses) (ses_sigalgs ses) (ses_sigalgs other) sig
     \<and> negotiated (ses_isserver ses) (ke_sshciphers ke) (ke_sshciphers ke') cc
     \<and> negotiated (ses_isserver ses) (ke_sshciphers ke) (ke_sshciphers ke') cs
     \<and> negotiated (ses_isserver ses) (ke_sshhashes ke) (ke_sshhashes ke') mc
     \<and> negotiated (ses_isserver ses) (ke_sshhashes ke) (ke_sshhashes ke') ms
     \<and> negotiated (ses_isserver ses) (ses_compress_algos_c2s ses) (ses_compress_algos_c2s other) zc
     \<and> negotiated (ses_isserver ses) (ses_compress_algos_s2c ses) (ses_compress_algos_s2c other) zs"
proof -
  let ?srv = "ses_isserver ses"
  let ?r8 = "STORE32H 0 @ STORE32H 0 @ [if ses_send_kex_first_guess other then 1 else 0] @ STORE32H 0"
  let ?r7 = "enc_algos (ses_compress_algos_s2c other) False @ ?r8"
  let ?r6 = "enc_algos (ses_compress_algos_c2s other) False @ ?r7"
  let ?r5 = "enc_algos (ke_sshhashes ke') False @ ?r6"
  let ?r4 = "enc_algos (ke_sshhashes ke') False @ ?r5"
  let ?r3 = "enc_algos (ke_sshciphers ke') False @ ?r4"
  let ?r2 = "enc_algos (ke_sshciphers ke') False @ ?r3"
  let ?r1 = "enc_algos (ses_sigalgs other) False @ ?r2"
  let ?r0 = "enc_algos (ke_sshkex ke') False @ ?r1"
  have t: "table_ok (ke_sshkex ke)" "table_ok (ses_sigalgs ses)" "table_ok (ke_sshciphers ke)" "table_ok (ke_sshhashes ke)"
    "table_ok (ses_compress_algos_c2s ses)" "table_ok (ses_compress_algos_s2c ses)"
    using assms(4) by (simp_all add: tables_ok_def)
  have t': "table_ok (ke_sshkex ke')" "table_ok (ses_sigalgs other)" "table_ok (ke_sshciphers ke')" "table_ok (ke_sshhashes ke')"
    "table_ok (ses_compress_algos_c2s other)" "table_ok (ses_compress_algos_s2c other)"
    using assms(5) by (simp_all add: tables_ok_def)
  have b0: "before (advance b 16) ?r0"
    using before_advance [OF assms(2)] assms(3) by (simp add: kexinit_lists_def)
  have i0: "buf_incrpos b 16 = Inr (advance b 16)"
    using assms(2,3) by (simp add: buf_incrpos_eq before_def)
  obtain g ses' where fl: "read_kex_flags ses (advance b 16) = Inr (g, ses', advance b 16)" and same: "same_tables ses ses'"
    using read_kex_flags_eq [OF b0 t'(1)] by blast
  obtain kex b1 where m1: "\<forall>k. \<exists>g. buf_match_algo ?srv (advance b 16) (ke_sshkex ke) k = Inr (kex, g, b1)"
    and n1: "negotiated ?srv (ke_sshkex ke) (ke_sshkex ke') kex" and b1: "before b1 ?r1"
    using match_next [OF b0 t'(1) t(1)] by blast
  obtain sig b2 where m2: "\<forall>k. \<exists>g. buf_match_algo ?srv b1 (ses_sigalgs ses) k = Inr (sig, g, b2)"
    and n2: "negotiated ?srv (ses_sigalgs ses) (ses_sigalgs other) sig" and b2: "before b2 ?r2"
    using match_next [OF b1 t'(2) t(2)] by blast
  obtain cc b3 where m3: "\<forall>k. \<exists>g. buf_match_algo ?srv b2 (ke_sshciphers ke) k = Inr (cc, g, b3)"
    and n3: "negotiated ?srv (ke_sshciphers ke) (ke_sshciphers ke') cc" and b3: "before b3 ?r3"
    using match_next [OF b2 t'(3) t(3)] by blast
  obtain cs b4 where m4: "\<forall>k. \<exists>g. buf_match_algo ?srv b3 (ke_sshciphers ke) k = Inr (cs, g, b4)"
    and n4: "negotiated ?srv (ke_sshciphers ke) (ke_sshciphers ke') cs" and b4: "before b4 ?r4"
    using match_next [OF b3 t'(3) t(3)] by blast
  obtain mc b5 where m5: "\<forall>k. \<exists>g. buf_match_algo ?srv b4 (ke_sshhashes ke) k = Inr (mc, g, b5)"
    and n5: "negotiated ?srv (ke_sshhashes ke) (ke_sshhashes ke') mc" and b5: "before b5 ?r5"
    using match_next [OF b4 t'(4) t(4)] by blast
  obtain ms b6 where m6: "\<forall>k. \<exists>g. buf_match_algo ?srv b5 (ke_sshhashes ke) k = Inr (ms, g, b6)"
    and n6: "negotiated ?srv (ke_sshhashes ke) (ke_sshhashes ke') ms" and b6: "before b6 ?r6"
    using match_next [OF b5 t'(4) t(4)] by blast
  obtain zc b7 where m7: "\<forall>k. \<exists>g. buf_match_algo ?srv b6 (ses_compress_algos_c2s ses) k = Inr (zc, g, b7)"
    and n7: "negotiated ?srv (ses_compress_algos_c2s ses) (ses_compress_algos_c2s other) zc" and b7: "before b7 ?r7"
    using match_next [OF b6 t'(5) t(5)] by blast
  obtain zs b8 where m8: "\<forall>k. \<exists>g. buf_match_algo ?srv b7 (ses_compress_algos_s2c ses) k = Inr (zs, g, b8)"
    and n8: "negotiated ?srv (ses_compress_algos_s2c ses) (ses_compress_algos_s2c other) zs" and b8: "before b8 ?r8"
    using match_next [OF b7 t'(6) t(6)] by blast
  obtain g1 where g1: "buf_match_algo ?srv (advance b 16) (ke_sshkex ke) g = Inr (kex, g1, b1)" using m1 by blast
  obtain g2 where g2: "buf_match_algo ?srv b1 (ses_sigalgs ses) g = Inr (sig, g2, b2)" using m2 by blast
  obtain g3 g4 where g3: "buf_match_algo ?srv b2 (ke_sshciphers ke) False = Inr (cc, g3, b3)"
    and g4: "buf_match_algo ?srv b3 (ke_sshciphers ke) False = Inr (cs, g4, b4)" using m3 m4 by blast
  obtain g5 g6 where g5: "buf_match_algo ?srv b4 (ke_sshhashes ke) False = Inr (mc, g5, b5)"
    and g6: "buf_match_algo ?srv b5 (ke_sshhashes ke) False = Inr (ms, g6, b6)" using m5 m6 by blast
  obtain g7 g8 where g7: "buf_match_algo ?srv b6 (ses_compress_algos_c2s ses) False = Inr (zc, g7, b7)"
    and g8: "buf_match_algo ?srv b7 (ses_compress_algos_s2c ses) False = Inr (zs, g8, b8)" using m7 m8 by blast
  let ?v = "if ses_send_kex_first_guess other then 1 else 0 :: byte"
  define c9 where "c9 = advance b8 4"
  define c10 where "c10 = advance c9 4"
  define c11 where "c11 = advance c10 1"
  define c12 where "c12 = advance c11 4"
  have e9: "buf_eatstring b8 = Inr c9"
    using b8 by (simp add: c9_def before_def buf_eatstring_eq)
  have b9: "before c9 (STORE32H 0 @ [?v] @ STORE32H 0)"
    using before_advance [OF b8] by (simp add: c9_def)
  have e10: "buf_eatstring c9 = Inr c10"
    using b9 by (simp add: c10_def before_def buf_eatstring_eq)
  have b10: "before c10 ([?v] @ STORE32H 0)"
    using before_advance [OF b9] by (simp add: c10_def)
  have e11: "buf_getbool c10 = Inr (?v, c11)"
    using b10 by (simp add: c11_def before_def buf_getbool_def buf_getbyte_eq)
  have b11: "before c11 (STORE32H 0)"
    using before_advance [OF b10] by (simp add: c11_def)
  have e12: "buf_getint c11 = Inr (0, c12)"
    using b11 buf_getint_STORE32H [of c11 0 "[]"] by (simp add: c12_def before_def)
  let ?ses = "if ?v \<noteq> 0 then (set_kexstate (\<lambda>k. k\<lparr>kx_them_firstfollows := True\<rparr>) ses')
                 \<lparr>ses_ignorenext := (\<not> (g1 \<and> g2) \<or> ses_ignorenext ses')\<rparr> else ses'"
  define f where "f = (\<lambda>ch. let s = ?ses\<lparr>ses_payload := Some c12, ses_newkeys := Some (chosen_keys ?srv ch)\<rparr> in
     if ses_send_kex_first_guess s \<and> g1 \<and> g2 then set_kexstate (\<lambda>k. k\<lparr>kx_our_first_follows_matches := True\<rparr>) s else s)"
  have f: "ses_newkeys (f ch) = Some (chosen_keys ?srv ch)" for ch
    by (simp add: f_def Let_def set_kexstate_def)
  have same': "ses_isserver ses' = ?srv" "ses_sigalgs ses' = ses_sigalgs ses"
    "ses_compress_algos_c2s ses' = ses_compress_algos_c2s ses" "ses_compress_algos_s2c ses' = ses_compress_algos_s2c ses"
    using same by (simp_all add: same_tables_def)
  obtain nk where nk: "ses_newkeys ses = Some nk" using assms(6) by blast
  have "read_kex_algos ke ses =
       bindE (kex_choice (map_option view kex) (map_option view sig) (map_option view cc) (map_option view cs)
         (map_option view mc) (map_option view ms) (map_option view zc) (map_option view zs)) (\<lambda>ch. returnE (f ch))"
    unfolding read_kex_algos_def kex_choice_def assms(1) nk nn_simps bindE_simps i0 Let_def fl prod.case same' g1 g2 g3 g4 g7 g8
      match_mac_pick [OF g5] match_mac_pick [OF g6] need_algo_view bindE_assoc e9 e10 e11 e12 view_simps mac_choice_pick
    by (rule bindE_cong [OF refl])+ (auto simp: set_algos_pick chosen_keys_def f_def Let_def)
  then show ?thesis using f n1 n2 n3 n4 n5 n6 n7 n8 by blast
qed

section \<open>Both sides choose the same\<close>

definition coherent_tables :: "kexenv \<Rightarrow> sshsession \<Rightarrow> kexenv \<Rightarrow> sshsession \<Rightarrow> bool" where
  "coherent_tables kec c kes s \<longleftrightarrow> coherent (ke_sshkex kec) (ke_sshkex kes) \<and> coherent (ses_sigalgs c) (ses_sigalgs s)
     \<and> coherent (ke_sshciphers kec) (ke_sshciphers kes) \<and> coherent (ke_sshhashes kec) (ke_sshhashes kes)
     \<and> coherent (ses_compress_algos_c2s c) (ses_compress_algos_c2s s) \<and> coherent (ses_compress_algos_s2c c) (ses_compress_algos_s2c s)"

text \<open>The payload of a session is a cookie and the lists that the other side wrote from \<open>w\<close> on.\<close>

definition received_kexinit :: "sshsession \<Rightarrow> buffer \<Rightarrow> buffer \<Rightarrow> bool" where
  "received_kexinit ses w w' \<longleftrightarrow> (\<exists>b cookie. ses_payload ses = Some b \<and> length cookie = 16
     \<and> before b (cookie @ unread (w'\<lparr>b_pos := b_pos w\<rparr>)) \<and> wf_buf w \<and> b_len w = b_pos w)"

lemma received_lists:
  assumes "put_kex_algos ke' other w = Inr w'" "tables_ok ke' other" "received_kexinit ses w w'"
  shows "\<exists>b cookie. ses_payload ses = Some b \<and> length cookie = 16 \<and> before b (cookie @ kexinit_lists ke' other)"
proof -
  have w: "wf_buf w" "b_len w = b_pos w" using assms(3) by (auto simp: received_kexinit_def)
  have o: "length (kexinit_lists ke' other) \<le> room w" "w' = overwrite w (kexinit_lists ke' other)"
    using put_kex_algos_writes [OF assms(2)] assms(1) w(1) by (auto simp: writes_def)
  have "unread w = []" using w by (simp add: unread_def)
  then have "unread (w'\<lparr>b_pos := b_pos w\<rparr>) = kexinit_lists ke' other"
    using unread_back [OF w(1) o(1)] by (simp add: o(2))
  then show ?thesis using assms(3) by (auto simp: received_kexinit_def)
qed

text \<open>
  C30. Both sides of a key exchange choose the same algorithms.  Client and server write
  the lists of their \<open>KEXINIT\<close> packets and read each other's; entries of the same name stand for
  the same algorithm in their tables.  Then \<open>read_kex_algos\<close> succeeds on one side exactly when it
  succeeds on the other, and then both have the same key exchange, host key and signature
  algorithms, and each direction's cipher, mode, MAC and compression are the same on the sending and the
  receiving side.  For a cipher that authenticates itself no MAC has to match.
\<close>

theorem kex_choice_agrees:
  assumes "\<not> ses_isserver c" "ses_isserver s" "tables_ok kec c" "tables_ok kes s" "coherent_tables kec c kes s"
    and "put_kex_algos kec c wc = Inr wc'" "put_kex_algos kes s ws = Inr ws'"
    and "received_kexinit s wc wc'" "received_kexinit c ws ws'"
    and "ses_newkeys c \<noteq> None" "ses_newkeys s \<noteq> None"
  shows "isl (read_kex_algos kec c) = isl (read_kex_algos kes s)
    \<and> (\<forall>c' s'. read_kex_algos kec c = Inr c' \<and> read_kex_algos kes s = Inr s' \<longrightarrow>
         (\<exists>nc ns. ses_newkeys c' = Some nc \<and> ses_newkeys s' = Some ns \<and> mirrored nc ns
            \<and> kc_algo_hostkey nc = kc_algo_hostkey ns \<and> kc_algo_signature nc = kc_algo_signature ns))"
proof -
  have srv: "ses_isserver c = False" "ses_isserver s = True" using assms(1,2) by simp_all
  obtain bc kc where bc: "ses_payload c = Some bc" "before bc (kc @ kexinit_lists kes s)" "length kc = 16"
    using received_lists [OF assms(7,4,9)] by blast
  obtain bs ks where bs: "ses_payload s = Some bs" "before bs (ks @ kexinit_lists kec c)" "length ks = 16"
    using received_lists [OF assms(6,3,8)] by blast
  obtain k1 k2 k3 k4 k5 k6 k7 k8 f where c: "read_kex_algos kec c = bindE (kex_choice (map_option view k1) (map_option view k2)
        (map_option view k3) (map_option view k4) (map_option view k5) (map_option view k6) (map_option view k7) (map_option view k8))
        (\<lambda>ch. returnE (f ch))" "\<forall>ch. ses_newkeys (f ch) = Some (chosen_keys False ch)"
    and k: "negotiated False (ke_sshkex kec) (ke_sshkex kes) k1" "negotiated False (ses_sigalgs c) (ses_sigalgs s) k2"
      "negotiated False (ke_sshciphers kec) (ke_sshciphers kes) k3" "negotiated False (ke_sshciphers kec) (ke_sshciphers kes) k4"
      "negotiated False (ke_sshhashes kec) (ke_sshhashes kes) k5" "negotiated False (ke_sshhashes kec) (ke_sshhashes kes) k6"
      "negotiated False (ses_compress_algos_c2s c) (ses_compress_algos_c2s s) k7"
      "negotiated False (ses_compress_algos_s2c c) (ses_compress_algos_s2c s) k8"
    using read_kex_algos_eq [OF bc assms(3,4,10)] unfolding srv by blast
  obtain l1 l2 l3 l4 l5 l6 l7 l8 g where s: "read_kex_algos kes s = bindE (kex_choice (map_option view l1) (map_option view l2)
        (map_option view l3) (map_option view l4) (map_option view l5) (map_option view l6) (map_option view l7) (map_option view l8))
        (\<lambda>ch. returnE (g ch))" "\<forall>ch. ses_newkeys (g ch) = Some (chosen_keys True ch)"
    and l: "negotiated True (ke_sshkex kes) (ke_sshkex kec) l1" "negotiated True (ses_sigalgs s) (ses_sigalgs c) l2"
      "negotiated True (ke_sshciphers kes) (ke_sshciphers kec) l3" "negotiated True (ke_sshciphers kes) (ke_sshciphers kec) l4"
      "negotiated True (ke_sshhashes kes) (ke_sshhashes kec) l5" "negotiated True (ke_sshhashes kes) (ke_sshhashes kec) l6"
      "negotiated True (ses_compress_algos_c2s s) (ses_compress_algos_c2s c) l7"
      "negotiated True (ses_compress_algos_s2c s) (ses_compress_algos_s2c c) l8"
    using read_kex_algos_eq [OF bs assms(4,3,11)] unfolding srv by blast
  have coh: "coherent (ke_sshkex kec) (ke_sshkex kes)" "coherent (ses_sigalgs c) (ses_sigalgs s)"
      "coherent (ke_sshciphers kec) (ke_sshciphers kes)" "coherent (ke_sshhashes kec) (ke_sshhashes kes)"
      "coherent (ses_compress_algos_c2s c) (ses_compress_algos_c2s s)" "coherent (ses_compress_algos_s2c c) (ses_compress_algos_s2c s)"
    using assms(5) by (simp_all add: coherent_tables_def)
  note v = negotiated_views [OF k(1) l(1) coh(1)] negotiated_views [OF k(2) l(2) coh(2)] negotiated_views [OF k(3) l(3) coh(3)]
    negotiated_views [OF k(4) l(4) coh(3)] negotiated_views [OF k(5) l(5) coh(4)] negotiated_views [OF k(6) l(6) coh(4)]
    negotiated_views [OF k(7) l(7) coh(5)] negotiated_views [OF k(8) l(8) coh(6)]
  obtain r where r: "read_kex_algos kec c = bindE r (\<lambda>ch. returnE (f ch))" "read_kex_algos kes s = bindE r (\<lambda>ch. returnE (g ch))"
    using c(1) s(1) unfolding v by blast
  show ?thesis
  proof (cases r)
    case (Inr ch)
    obtain kd sv hk c2s s2c where "ch = (kd, sv, hk, c2s, s2c)" by (metis prod_cases5)
    then show ?thesis using r Inr c(2) s(2) by (simp add: chosen_keys_def mirrored_def)
  qed (use r in simp)
qed

section \<open>An example\<close>

definition plain_algo :: "string \<Rightarrow> 'd \<Rightarrow> 'm option \<Rightarrow> ('d, 'm) algo_type" where
  "plain_algo name d m = \<lparr>al_name = str name, al_val = 0, al_data = Some d, al_usable = True, al_mode = m\<rparr>"

definition choice_kexenv :: "bool \<Rightarrow> kexenv" where
  "choice_kexenv isserver =
     (let cp = plain_algo ''cp'' dropbear_chachapoly (Some dropbear_mode_chachapoly);
          nc = plain_algo ''no'' dropbear_nocipher (Some dropbear_mode_none) in
      dull_kexenv\<lparr>ke_sshkex := [plain_algo ''k'' \<lparr>kx_mode = DROPBEAR_KEX_NORMAL_DH, kx_dh_p_bytes = [], kx_hash_desc = dull_hash\<rparr> None],
        ke_sshciphers := (if isserver then [nc, cp] else [cp, nc]), ke_sshhashes := [plain_algo ''h'' dropbear_nohash None]\<rparr>)"

definition choice_session :: "bool \<Rightarrow> sshsession" where
  "choice_session isserver = (agreed_session isserver)\<lparr>ses_sigalgs := [sigalg ''e'' DROPBEAR_SIGNATURE_ED25519],
     ses_compress_algos_c2s := ssh_nocompress, ses_compress_algos_s2c := ssh_nocompress\<rparr>"

definition choice_payload :: "bool \<Rightarrow> sshsession" where
  "choice_payload isserver = (choice_session isserver)\<lparr>ses_payload :=
     Some (buf_of (replicate 16 0 @ kexinit_lists (choice_kexenv (\<not> isserver)) (choice_session (\<not> isserver))))\<rparr>"

definition choice_out :: buffer where
  "choice_out = \<lparr>b_data = replicate 120 0, b_len = 0, b_pos = 0, b_size = 120\<rparr>"

lemma choice_fields:
  "ses_sigalgs (choice_payload srv) = [sigalg ''e'' DROPBEAR_SIGNATURE_ED25519]" "ses_compress_algos_c2s (choice_payload srv) = ssh_nocompress"
  "ses_compress_algos_s2c (choice_payload srv) = ssh_nocompress" "ses_isserver (choice_payload srv) = srv"
  "ses_newkeys (choice_payload srv) = Some agreed_keys"
  "kexinit_lists ke (choice_payload srv) = kexinit_lists ke (choice_session srv)"
  "put_kex_algos ke (choice_payload srv) = put_kex_algos ke (choice_session srv)"
  by (simp_all add: choice_payload_def choice_session_def agreed_session_def kexinit_lists_def put_kex_algos_def [abs_def])

lemma choice_out_wf: "wf_buf choice_out"
  by (simp add: choice_out_def wf_buf_def u32_nat)

lemma choice_tables: "tables_ok (choice_kexenv srv) (choice_payload srv)"
  by (cases srv; simp add: tables_ok_def choice_fields choice_kexenv_def Let_def plain_algo_def table_ok_def usable_names_def
      str_def MAX_NAME_LEN_def sigalg_def ssh_nocompress_def comp_algo_def)

lemma choice_coherent: "coherent_tables (choice_kexenv False) (choice_payload False) (choice_kexenv True) (choice_payload True)"
  by (simp add: coherent_tables_def coherent_def choice_fields choice_kexenv_def Let_def ssh_nocompress_def view_def plain_algo_def str_def)

lemma choice_picks:
  "negotiated srv (ke_sshkex (choice_kexenv srv)) (ke_sshkex (choice_kexenv (\<not> srv))) r1 \<Longrightarrow> \<exists>a. r1 = Some a \<and> al_data a \<noteq> None"
  "negotiated srv [sigalg ''e'' DROPBEAR_SIGNATURE_ED25519] [sigalg ''e'' DROPBEAR_SIGNATURE_ED25519] r2 \<Longrightarrow>
     r2 = Some (sigalg ''e'' DROPBEAR_SIGNATURE_ED25519)"
  "negotiated srv (ke_sshciphers (choice_kexenv srv)) (ke_sshciphers (choice_kexenv (\<not> srv))) r3 \<Longrightarrow>
     \<exists>a. r3 = Some a \<and> al_mode a = Some dropbear_mode_chachapoly"
  "negotiated srv ssh_nocompress ssh_nocompress r4 \<Longrightarrow> \<exists>a. r4 = Some a"
  by (cases srv; auto simp: negotiated_def negotiate_def usable_names_def choice_kexenv_def Let_def plain_algo_def str_def
      sigalg_def ssh_nocompress_def comp_algo_def)+

lemma choice_succeeds:
  assumes "ses_payload ses = Some b" "before b (cookie @ kexinit_lists (choice_kexenv (\<not> srv)) (choice_session (\<not> srv)))" "length cookie = 16"
    "ses_isserver ses = srv" "ses_sigalgs ses = [sigalg ''e'' DROPBEAR_SIGNATURE_ED25519]" "ses_compress_algos_c2s ses = ssh_nocompress"
    "ses_compress_algos_s2c ses = ssh_nocompress" "ses_newkeys ses \<noteq> None"
  shows "\<exists>ses'. read_kex_algos (choice_kexenv srv) ses = Inr ses'"
proof -
  have t: "tables_ok (choice_kexenv srv) ses" "tables_ok (choice_kexenv (\<not> srv)) (choice_session (\<not> srv))"
    using choice_tables [of srv] choice_tables [of "\<not> srv"] assms(5-7)
    by (simp_all add: tables_ok_def choice_fields) (simp_all add: choice_session_def)
  have o: "ses_sigalgs (choice_session x) = [sigalg ''e'' DROPBEAR_SIGNATURE_ED25519]" "ses_compress_algos_c2s (choice_session x) = ssh_nocompress"
    "ses_compress_algos_s2c (choice_session x) = ssh_nocompress" for x by (simp_all add: choice_session_def)
  obtain kex sig cc cs mc ms zc zs f where r: "read_kex_algos (choice_kexenv srv) ses =
       bindE (kex_choice (map_option view kex) (map_option view sig) (map_option view cc) (map_option view cs)
         (map_option view mc) (map_option view ms) (map_option view zc) (map_option view zs)) (\<lambda>ch. returnE (f ch))"
    and n: "negotiated srv (ke_sshkex (choice_kexenv srv)) (ke_sshkex (choice_kexenv (\<not> srv))) kex"
      "negotiated srv [sigalg ''e'' DROPBEAR_SIGNATURE_ED25519] [sigalg ''e'' DROPBEAR_SIGNATURE_ED25519] sig"
      "negotiated srv (ke_sshciphers (choice_kexenv srv)) (ke_sshciphers (choice_kexenv (\<not> srv))) cc"
      "negotiated srv (ke_sshciphers (choice_kexenv srv)) (ke_sshciphers (choice_kexenv (\<not> srv))) cs"
      "negotiated srv ssh_nocompress ssh_nocompress zc" "negotiated srv ssh_nocompress ssh_nocompress zs"
    using read_kex_algos_eq [OF assms(1-3) t assms(8)] unfolding assms(4-7) o by blast
  obtain a1 a3 a4 a7 a8 where a: "kex = Some a1" "al_data a1 \<noteq> None" "cc = Some a3" "al_mode a3 = Some dropbear_mode_chachapoly"
      "cs = Some a4" "al_mode a4 = Some dropbear_mode_chachapoly" "zc = Some a7" "zs = Some a8"
    using choice_picks(1) [OF n(1)] choice_picks(3) [OF n(3)] choice_picks(3) [OF n(4)] choice_picks(4) [OF n(5)] choice_picks(4) [OF n(6)]
    by blast
  have s: "sig = Some (sigalg ''e'' DROPBEAR_SIGNATURE_ED25519)" using choice_picks(2) [OF n(2)] .
  have k: "signkey_type_from_signature DROPBEAR_SIGNATURE_ED25519 = Inr 5"
    by (simp add: signkey_type_from_signature_def DROPBEAR_SIGNATURE_ED25519_def DROPBEAR_SIGNATURE_RSA_SHA256_def DROPBEAR_SIGNKEY_NUM_NAMED_def)
  show ?thesis
    unfolding r using a s k
    by (auto simp: kex_choice_def need_algo_def mac_choice_def view_def sigalg_def dropbear_mode_chachapoly_def)
qed

lemma choice_steps:
  "isl (put_kex_algos (choice_kexenv True) (choice_session True) choice_out) = False"
  "isl (put_kex_algos (choice_kexenv False) (choice_session False) choice_out) = False"
  by code_simp+

lemma choice_lists_short: "length (kexinit_lists (choice_kexenv srv) (choice_session srv)) \<le> 120"
proof -
  obtain w where "put_kex_algos (choice_kexenv srv) (choice_session srv) choice_out = Inr w"
    using choice_steps by (cases srv; cases "put_kex_algos (choice_kexenv srv) (choice_session srv) choice_out") auto
  then have "length (kexinit_lists (choice_kexenv srv) (choice_payload srv)) \<le> room choice_out"
    using put_kex_algos_writes [OF choice_tables] choice_out_wf unfolding writes_def choice_fields by blast
  then show ?thesis by (simp add: room_def choice_out_def choice_fields)
qed

lemma choice_received:
  assumes "put_kex_algos (choice_kexenv (\<not> srv)) (choice_payload (\<not> srv)) choice_out = Inr w"
  shows "received_kexinit (choice_payload srv) choice_out w"
proof -
  define l where "l = kexinit_lists (choice_kexenv (\<not> srv)) (choice_payload (\<not> srv))"
  have o: "wf_buf choice_out" "b_len choice_out = b_pos choice_out" "unread choice_out = []"
    by (simp_all add: choice_out_def wf_buf_def u32_nat unread_def)
  have fit: "length l \<le> room choice_out" and w: "w = overwrite choice_out l"
    using put_kex_algos_writes [OF choice_tables] assms o(1) unfolding writes_def l_def by blast+
  have "room choice_out = 120" by (simp add: room_def choice_out_def)
  then have "length (replicate 16 (0::byte) @ l) \<le> 1000" using fit by simp
  then have b: "wf_buf (buf_of (replicate 16 0 @ l))" by (intro wf_buf_of) simp
  have u: "unread (buf_of (replicate 16 0 @ l)) = replicate 16 0 @ l"
    using \<open>length (replicate 16 (0::byte) @ l) \<le> 1000\<close> by (intro unread_buf_of) simp
  have r: "unread (w\<lparr>b_pos := b_pos choice_out\<rparr>) = l"
    using unread_back [OF o(1) fit] o(3) by (simp add: w)
  have p: "ses_payload (choice_payload srv) = Some (buf_of (replicate 16 0 @ l))"
    unfolding l_def choice_fields(6) by (simp add: choice_payload_def)
  show ?thesis
    unfolding received_kexinit_def before_def p r
    using b u o(1,2) length_replicate [of 16 "0::byte"] by blast
qed

lemma choice_payload_before:
  "length (replicate 16 (0::byte) @ kexinit_lists (choice_kexenv srv) (choice_session srv)) \<le> 136"
  "before (buf_of (replicate 16 0 @ kexinit_lists (choice_kexenv srv) (choice_session srv)))
     (replicate 16 0 @ kexinit_lists (choice_kexenv srv) (choice_session srv))"
proof -
  show l: "length (replicate 16 (0::byte) @ kexinit_lists (choice_kexenv srv) (choice_session srv)) \<le> 136"
    using choice_lists_short [of srv] by simp
  then show "before (buf_of (replicate 16 0 @ kexinit_lists (choice_kexenv srv) (choice_session srv)))
     (replicate 16 0 @ kexinit_lists (choice_kexenv srv) (choice_session srv))"
    unfolding before_def by (intro conjI wf_buf_of unread_buf_of) simp_all
qed

lemma choice_reads: "\<exists>s. read_kex_algos (choice_kexenv srv) (choice_payload srv) = Inr s"
proof (rule choice_succeeds [OF _ choice_payload_before(2) length_replicate])
  show "ses_payload (choice_payload srv) = Some (buf_of (replicate 16 0 @ kexinit_lists (choice_kexenv (\<not> srv)) (choice_session (\<not> srv))))"
    by (simp add: choice_payload_def)
qed (simp_all add: choice_fields)

theorem kex_choice_agrees_witness:
  "\<exists>c' s' nc ns. read_kex_algos (choice_kexenv False) (choice_payload False) = Inr c'
     \<and> read_kex_algos (choice_kexenv True) (choice_payload True) = Inr s'
     \<and> ses_newkeys c' = Some nc \<and> ses_newkeys s' = Some ns \<and> mirrored nc ns"
proof -
  obtain wc where wc: "put_kex_algos (choice_kexenv False) (choice_payload False) choice_out = Inr wc"
    using choice_steps(2) by (cases "put_kex_algos (choice_kexenv False) (choice_session False) choice_out") (auto simp: choice_fields)
  obtain ws where ws: "put_kex_algos (choice_kexenv True) (choice_payload True) choice_out = Inr ws"
    using choice_steps(1) by (cases "put_kex_algos (choice_kexenv True) (choice_session True) choice_out") (auto simp: choice_fields)
  have rc: "received_kexinit (choice_payload True) choice_out wc" using choice_received [of True] wc by simp
  have rs: "received_kexinit (choice_payload False) choice_out ws" using choice_received [of False] ws by simp
  have srv: "\<not> ses_isserver (choice_payload False)" "ses_isserver (choice_payload True)"
    "ses_newkeys (choice_payload False) \<noteq> None" "ses_newkeys (choice_payload True) \<noteq> None" by (simp_all add: choice_fields)
  note agrees = kex_choice_agrees [OF srv(1,2) choice_tables choice_tables choice_coherent wc ws rc rs srv(3,4)]
  obtain s' where s: "read_kex_algos (choice_kexenv True) (choice_payload True) = Inr s'"
    using choice_reads by blast
  obtain c' where c: "read_kex_algos (choice_kexenv False) (choice_payload False) = Inr c'"
    using agrees s by (cases "read_kex_algos (choice_kexenv False) (choice_payload False)") auto
  show ?thesis using agrees s c by blast
qed

end
