(* ===== verification/Kex_Hash.thy ===== *)
theory Kex_Hash
  imports Kex_Choice
begin

text \<open>
  The exchange hash: client and server put the same bytes into it, the identification lines
  and the \<open>KEXINIT\<close> payloads of both in the order of RFC 4253.
\<close>

section \<open>Reading leaves the bytes alone\<close>

definition keeps :: "buffer \<Rightarrow> buffer \<Rightarrow> bool" where
  "keeps b b' \<longleftrightarrow> b_data b' = b_data b \<and> b_len b' = b_len b \<and> b_size b' = b_size b"

lemma keeps_refl [simp]: "keeps b b"
  by (simp add: keeps_def)

lemma keeps_trans: "keeps a b \<Longrightarrow> keeps b c \<Longrightarrow> keeps a c"
  by (simp add: keeps_def)

lemma post_keeps:
  assumes "post m (\<lambda>(r, b'). keeps b b')" "\<And>r b'. keeps b b' \<Longrightarrow> post (f r b') Q"
  shows "post (bindE m (\<lambda>(r, b'). f r b')) Q"
  using assms by (auto simp: post_def bindE_eq_Inr split: prod.splits)

lemma keeps_calls:
  "post (buf_incrpos b n) (keeps b)" "post (buf_setpos b n) (keeps b)"
  "post (buf_getbyte b) (\<lambda>(_, b'). keeps b b')" "post (buf_getbool b) (\<lambda>(_, b'). keeps b b')"
  "post (buf_getint b) (\<lambda>(_, b'). keeps b b')" "post (buf_getstring b) (\<lambda>(_, b'). keeps b b')"
  "post (buf_eatstring b) (keeps b)"
  by (auto simp: post_def keeps_def buf_incrpos_def buf_setpos_def buf_getbyte_def buf_getbool_def buf_getint_def buf_getstring_def
      buf_eatstring_def bindE_eq_Inr split: if_splits)

lemma keeps_has_algo: "post (buf_has_algo b n) (\<lambda>(_, b'). keeps b b')"
  using keeps_calls(2,6)
  by (fastforce simp: post_def buf_has_algo_def bindE_eq_Inr Let_def keeps_def)

lemma keeps_match_algo: "post (buf_match_algo srv b algos k) (\<lambda>(_, _, b'). keeps b b')"
  unfolding buf_match_algo_def Let_def
  by (rule post_keeps [OF keeps_calls(6)], rule post_any, rule post_if) (simp_all split: option.split)

lemma keeps_match_mac: "post (match_mac ke srv e c b) (\<lambda>(_, b'). keeps b b')"
  using keeps_match_algo [of srv b "ke_sshhashes ke" False]
  by (fastforce simp: post_def match_mac_def bindE_eq_Inr split: if_splits)

text \<open>What a session keeps while the algorithms are chosen.\<close>

definition choosing :: "sshsession \<Rightarrow> sshsession \<Rightarrow> bool" where
  "choosing a b \<longleftrightarrow> ses_isserver b = ses_isserver a \<and> ses_payload_beginning b = ses_payload_beginning a
     \<and> ses_session_id b = ses_session_id a \<and> ses_keys b = ses_keys a \<and> ses_recvseq b = ses_recvseq a
     \<and> ses_dh_K b = ses_dh_K a \<and> ses_dh_K_bytes b = ses_dh_K_bytes a
     \<and> kx_sentkexinit (ses_kexstate b) = kx_sentkexinit (ses_kexstate a) \<and> kx_recvkexinit (ses_kexstate b) = kx_recvkexinit (ses_kexstate a)
     \<and> kx_sentnewkeys (ses_kexstate b) = kx_sentnewkeys (ses_kexstate a) \<and> kx_recvnewkeys (ses_kexstate b) = kx_recvnewkeys (ses_kexstate a)
     \<and> kx_donefirstkex (ses_kexstate b) = kx_donefirstkex (ses_kexstate a)
     \<and> kx_recvfirstnewkeys (ses_kexstate b) = kx_recvfirstnewkeys (ses_kexstate a) \<and> ses_dataallowed b = ses_dataallowed a"

lemma flags_choosing: "post (read_kex_flags ses b) (\<lambda>(_, ses', b'). choosing ses ses' \<and> keeps b b')"
proof -
  have h: "post (buf_has_algo b' n) (\<lambda>(_, b''). keeps b b'')" if "keeps b b'" for b' n
    using keeps_has_algo [of b' n] keeps_trans [OF that] by (auto simp: post_def)
  show ?thesis
    unfolding read_kex_flags_def Let_def
    by (rule post_keeps [OF keeps_has_algo])
       (auto simp: choosing_def set_kexstate_def intro!: post_bindE post_weaken [OF h] post_if)
qed

text \<open>One rule per call of \<open>read_kex_algos\<close>.\<close>

lemma keeps_rules:
  "(\<And>b'. keeps b b' \<Longrightarrow> post (f1 b') Q) \<Longrightarrow> post (bindE (buf_incrpos b n) f1) Q"
  "(\<And>b'. keeps b b' \<Longrightarrow> post (f1 b') Q) \<Longrightarrow> post (bindE (buf_eatstring b) f1) Q"
  "(\<And>v b'. keeps b b' \<Longrightarrow> post (f2 v b') Q) \<Longrightarrow> post (bindE (buf_getbool b) (\<lambda>(v, b'). f2 v b')) Q"
  "(\<And>v b'. keeps b b' \<Longrightarrow> post (f3 v b') Q) \<Longrightarrow> post (bindE (buf_getint b) (\<lambda>(v, b'). f3 v b')) Q"
  "(\<And>r g b'. keeps b b' \<Longrightarrow> post (f4 r g b') Q) \<Longrightarrow> post (bindE (buf_match_algo srv b algos k) (\<lambda>(r, g, b'). f4 r g b')) Q"
  "(\<And>r b'. keeps b b' \<Longrightarrow> post (f5 r b') Q) \<Longrightarrow> post (bindE (match_mac ke srv e c b) (\<lambda>(r, b'). f5 r b')) Q"
  "(\<And>g ses' b'. choosing ses ses' \<Longrightarrow> keeps b b' \<Longrightarrow> post (f6 g ses' b') Q) \<Longrightarrow>
     post (bindE (read_kex_flags ses b) (\<lambda>(g, ses', b'). f6 g ses' b')) Q"
  using keeps_calls [of b] keeps_match_algo [of srv b algos k] keeps_match_mac [of ke srv e c b] flags_choosing [of ses b]
  by (auto simp: post_def bindE_eq_Inr split: prod.splits)

lemma post_nn: "(\<And>x. p = Some x \<Longrightarrow> post (f x) Q) \<Longrightarrow> post (bindE (nn p) f) Q"
  by (cases p) simp_all

lemma read_kex_algos_choosing:
  "post (read_kex_algos ke ses) (\<lambda>s. choosing ses s \<and> (\<exists>b b'. ses_payload ses = Some b \<and> ses_payload s = Some b' \<and> keeps b b')
     \<and> ses_newkeys s \<noteq> None)"
  unfolding read_kex_algos_def Let_def
  by (rule post_nn, rule keeps_rules(1), rule post_any, rule keeps_rules(7), rule keeps_rules(5), rule post_any, rule post_any,
      rule keeps_rules(5), rule post_any, rule post_any, rule keeps_rules(5), rule post_any, rule keeps_rules(5), rule post_any,
      rule keeps_rules(6), rule keeps_rules(6), rule keeps_rules(5), rule post_any, rule keeps_rules(5), rule post_any,
      rule keeps_rules(2), rule keeps_rules(2), rule keeps_rules(3), rule post_any, rule post_any, rule keeps_rules(4))
     (auto simp: keeps_def choosing_def set_kexstate_def)

section \<open>Filling the hash buffer\<close>

text \<open>A buffer at the end of the bytes that have been put into it.\<close>

definition holds :: "buffer \<Rightarrow> byte list \<Rightarrow> bool" where
  "holds b bs \<longleftrightarrow> wf_buf b \<and> b_pos b = b_len b \<and> written b = bs"

definition sstr :: "byte list \<Rightarrow> byte list" where
  "sstr bs = STORE32H (of_nat (length bs)) @ bs"

lemma holds_new: "post (buf_new sz) (\<lambda>b. holds b [])"
  by (simp add: buf_new_eq holds_def written_def wf_buf_def u32_nat)

lemma holds_overwrite:
  assumes "holds b bs" "length cs \<le> room b"
  shows "holds (overwrite b cs) (bs @ cs)"
proof -
  have b: "wf_buf b" "b_pos b = b_len b" "written b = bs" using assms(1) by (simp_all add: holds_def)
  have "b_pos (overwrite b cs) = b_len (overwrite b cs)"
    using pos_overwrite [OF b(1) assms(2)] len_overwrite [OF b(1) assms(2)] b(2) by (simp add: word_unat_eq_iff)
  then show ?thesis
    using b wf_overwrite [OF b(1) assms(2)] written_overwrite [OF b(1) assms(2)] by (simp add: holds_def)
qed

lemma holds_writes: "writes f cs \<Longrightarrow> holds b bs \<Longrightarrow> post (f b) (\<lambda>b'. holds b' (bs @ cs))"
  using holds_overwrite by (fastforce simp: writes_def post_def holds_def)

lemma writes_putstring: "unat l \<le> length xs \<Longrightarrow> writes (\<lambda>b. buf_putstring b xs l) (STORE32H l @ take (unat l) xs)"
  by (auto simp: writes_def buf_putstring_eq split: if_splits)

lemma writes_sstr:
  "length xs < 2 ^ 32 \<Longrightarrow> writes (\<lambda>b. buf_putstring b xs (of_nat (length xs))) (sstr xs)"
  "wf_buf t \<Longrightarrow> writes (\<lambda>b. buf_putstring b (b_data t) (b_len t)) (sstr (take (unat (b_len t)) (b_data t)))"
proof -
  show "length xs < 2 ^ 32 \<Longrightarrow> writes (\<lambda>b. buf_putstring b xs (of_nat (length xs))) (sstr xs)"
    using writes_putstring [of "of_nat (length xs)" xs] by (simp add: sstr_def unat_u32_of_nat)
  assume "wf_buf t"
  then have "unat (b_len t) \<le> length (b_data t)" using wf_bufD [of t] by simp
  then show "writes (\<lambda>b. buf_putstring b (b_data t) (b_len t)) (sstr (take (unat (b_len t)) (b_data t)))"
    using writes_putstring [of "b_len t" "b_data t"] by (simp add: sstr_def min.absorb2)
qed

text \<open>The payload of a packet, from where it begins.\<close>

definition payload_bytes :: "sshsession \<Rightarrow> buffer \<Rightarrow> byte list" where
  "payload_bytes ses b = drop (unat (ses_payload_beginning ses)) (take (unat (b_len b)) (b_data b))"

lemma put_payload_holds:
  assumes "ses_payload ses = Some p" "unat (b_len p) \<le> length (b_data p)" "holds h bs"
  shows "post (put_payload_string ses h) (\<lambda>(h', _). holds h' (bs @ sstr (payload_bytes ses p)))"
proof -
  let ?pb = "ses_payload_beginning ses"
  have post: "post (buf_setpos p ?pb) (\<lambda>p'. p' = p\<lparr>b_pos := ?pb\<rparr> \<and> unat ?pb \<le> unat (b_len p))"
    by (simp add: buf_setpos_eq)
  have "post (buf_putstring h (drop (unat ?pb) (b_data p)) (b_len p - ?pb)) (\<lambda>h'. holds h' (bs @ sstr (payload_bytes ses p)))"
    if "unat ?pb \<le> unat (b_len p)"
  proof -
    have l: "unat (b_len p - ?pb) = unat (b_len p) - unat ?pb" using that by (simp add: unat_u32_sub)
    note d = assms(2)
    have "take (unat (b_len p - ?pb)) (drop (unat ?pb) (b_data p)) = payload_bytes ses p"
      by (simp add: l payload_bytes_def drop_take)
    moreover have "of_nat (length (payload_bytes ses p)) = b_len p - ?pb"
      using l d by (simp add: payload_bytes_def min_def flip: l)
    ultimately have "STORE32H (b_len p - ?pb) @ take (unat (b_len p - ?pb)) (drop (unat ?pb) (b_data p)) = sstr (payload_bytes ses p)"
      by (simp add: sstr_def)
    moreover have "unat (b_len p - ?pb) \<le> length (drop (unat ?pb) (b_data p))" using l d by simp
    ultimately show ?thesis
      using holds_writes [OF writes_putstring assms(3)] by metis
  qed
  then show ?thesis
    using assms(1) post
    by (auto simp: put_payload_string_def post_def bindE_eq_Inr buf_getptr_def buf_setpos_eq split: if_splits)
qed

section \<open>Both transcripts are the same\<close>

text \<open>The part of RFC 4253's exchange hash that precedes the host key: \<open>V_C\<close>, \<open>V_S\<close>, \<open>I_C\<close>, \<open>I_S\<close>.\<close>

definition transcript :: "byte list \<Rightarrow> byte list \<Rightarrow> byte list \<Rightarrow> byte list \<Rightarrow> byte list" where
  "transcript vc vs ic is = sstr vc @ sstr vs @ sstr ic @ sstr is"

definition sent_kexinit :: "sshsession \<Rightarrow> byte list \<Rightarrow> bool" where
  "sent_kexinit ses i \<longleftrightarrow> kx_sentkexinit (ses_kexstate ses)
     \<and> (\<exists>t. ses_transkexinit ses = Some t \<and> wf_buf t \<and> take (unat (b_len t)) (b_data t) = i)"

definition holds_packet :: "sshsession \<Rightarrow> byte list \<Rightarrow> bool" where
  "holds_packet ses i \<longleftrightarrow> (\<exists>p. ses_payload ses = Some p \<and> unat (b_len p) \<le> length (b_data p) \<and> payload_bytes ses p = i)"

lemma choosing_packet:
  assumes "choosing ses s" "ses_payload ses = Some b" "ses_payload s = Some b'" "keeps b b'" "holds_packet ses i"
  shows "holds_packet s i"
  using assms by (auto simp: holds_packet_def payload_bytes_def choosing_def keeps_def)

lemma put_packet_holds:
  assumes "holds_packet ses i" "holds h bs"
  shows "post (put_payload_string ses h) (\<lambda>(h', _). holds h' (bs @ sstr i))"
  using assms put_payload_holds unfolding holds_packet_def by blast

lemma post_pair: "post m (\<lambda>(a, b). post (f a b) Q) \<Longrightarrow> post (bindE m (\<lambda>(a, b). f a b)) Q"
  by (auto simp: post_def bindE_eq_Inr)

lemma recv_kexinit_transcript:
  assumes "sent_kexinit ses mine" "holds_packet ses theirs" "ses_remoteident ses = Some rid"
    "length rid < 2 ^ 32" "length (ke_LOCAL_IDENT ke) < 2 ^ 32"
  shows "post (recv_msg_kexinit env ke ses) (\<lambda>s. choosing (set_kexstate (\<lambda>k. k\<lparr>kx_recvkexinit := True\<rparr>) ses) s \<and> ses_newkeys s \<noteq> None
     \<and> (\<exists>h. ses_kexhashbuf s = Some h \<and> holds h
       (if ses_isserver ses then transcript rid (ke_LOCAL_IDENT ke) theirs mine else transcript (ke_LOCAL_IDENT ke) rid mine theirs)))"
proof -
  obtain t where t: "ses_transkexinit ses = Some t" "wf_buf t" "take (unat (b_len t)) (b_data t) = mine" and sent: "kx_sentkexinit (ses_kexstate ses)"
    using assms(1) by (auto simp: sent_kexinit_def)
  obtain p where p: "ses_payload ses = Some p" using assms(2) by (auto simp: holds_packet_def)
  note w = holds_writes [OF writes_sstr(1) [OF assms(4)]] holds_writes [OF writes_sstr(1) [OF assms(5)]]
    holds_writes [OF writes_sstr(2) [OF t(2)], unfolded t(3)]
  show ?thesis
    unfolding recv_msg_kexinit_def Let_def
    using sent assms(3) t(1) p
    apply (simp only: not_True_eq_False if_False bindE_simps nn_simps)
    apply (rule post_if, simp)
    apply (rule post_bindE, rule post_weaken [OF holds_new])
    apply (rule post_bindE, rule post_weaken [OF read_kex_algos_choosing])
    subgoal premises prems for h s
    proof -
      have hp: "holds_packet s theirs" and srv: "ses_isserver s = ses_isserver ses"
        using prems choosing_packet [OF _ _ _ _ assms(2)] by (auto simp: choosing_def)
      let ?T = "if ses_isserver ses then transcript rid (ke_LOCAL_IDENT ke) theirs mine else transcript (ke_LOCAL_IDENT ke) rid mine theirs"
      have h: "holds h []" using prems by simp
      show ?thesis
        apply (rule post_bindE, rule post_weaken [where Q = "\<lambda>r. holds (fst r) ?T"])
         apply (rule post_if)
          apply (rule post_bindE, rule post_weaken [OF w(2) [OF h]])
          apply (rule post_bindE, rule post_weaken [OF w(1)], assumption)
          apply (rule post_bindE, rule post_weaken [OF w(3)], assumption)
          apply (rule post_pair, rule post_weaken [OF put_packet_holds [OF hp]], assumption)
          apply (clarsimp simp: transcript_def srv)
         apply (rule post_bindE, rule post_weaken [OF w(1) [OF h]])
         apply (rule post_bindE, rule post_weaken [OF w(2)], assumption)
         apply (rule post_pair, rule post_weaken [OF put_packet_holds [OF hp]], assumption)
         apply (simp only: split_paired_all prod.case)
         apply (rule post_bindE, rule post_weaken [OF w(3)], assumption)
         apply (clarsimp simp: transcript_def srv)
        using prems apply (auto simp: choosing_def set_kexstate_def)
        done
    qed
    done
qed

text \<open>
  C31. Both sides hash the same transcript.  When client and server have received each other's
  identification line and \<open>KEXINIT\<close> packet and process the packet, both have put the same bytes
  into the buffer of the exchange hash: the client's and the server's identification, then the
  client's and the server's \<open>KEXINIT\<close>, each as an SSH string.  An attacker who changes
  any of them in transit changes the hash on one side only.
\<close>

theorem transcripts_agree:
  assumes "\<not> ses_isserver c" "ses_isserver s" "sent_kexinit c ic" "sent_kexinit s is" "holds_packet c is" "holds_packet s ic"
    and "ses_remoteident c = Some (ke_LOCAL_IDENT kes)" "ses_remoteident s = Some (ke_LOCAL_IDENT kec)"
    and "length (ke_LOCAL_IDENT kec) < 2 ^ 32" "length (ke_LOCAL_IDENT kes) < 2 ^ 32"
    and "recv_msg_kexinit env kec c = Inr c'" "recv_msg_kexinit env' kes s = Inr s'"
  shows "\<exists>hc hs. ses_kexhashbuf c' = Some hc \<and> ses_kexhashbuf s' = Some hs
     \<and> holds hc (transcript (ke_LOCAL_IDENT kec) (ke_LOCAL_IDENT kes) ic is)
     \<and> holds hs (transcript (ke_LOCAL_IDENT kec) (ke_LOCAL_IDENT kes) ic is)"
  using postD [OF recv_kexinit_transcript [OF assms(3,5,7,10,9)] assms(11)]
    postD [OF recv_kexinit_transcript [OF assms(4,6,8,9,10)] assms(12)] assms(1,2) by auto

text \<open>
  The buffer of the exchange hash is large enough: \<open>recv_msg_kexinit\<close> goes on whenever the
  algorithms can be chosen.
\<close>

definition has_room :: "buffer \<Rightarrow> byte list \<Rightarrow> nat \<Rightarrow> bool" where
  "has_room b bs n \<longleftrightarrow> holds b bs \<and> length bs + n \<le> unat (b_size b)"

lemma room_putstring:
  assumes "has_room b bs (4 + n + m)" "unat l \<le> length xs" "unat l \<le> n"
  shows "\<exists>b' cs. buf_putstring b xs l = Inr b' \<and> has_room b' cs m"
proof -
  have b: "holds b bs" "wf_buf b" using assms(1) by (auto simp: has_room_def holds_def)
  have "length (written b) = unat (b_pos b)" using wf_bufD [OF b(2)] by (simp add: written_def)
  then have "length bs = unat (b_pos b)" using b(1) by (simp add: holds_def)
  then have fit: "length (STORE32H l @ take (unat l) xs) + m \<le> room b"
    using assms by (auto simp: has_room_def room_def)
  then have "buf_putstring b xs l = Inr (overwrite b (STORE32H l @ take (unat l) xs))"
    using assms(2) b(2) by (simp add: buf_putstring_eq)
  moreover have "holds (overwrite b (STORE32H l @ take (unat l) xs)) (bs @ STORE32H l @ take (unat l) xs)"
    using fit by (intro holds_overwrite b) simp
  moreover have "length (bs @ STORE32H l @ take (unat l) xs) + m \<le> unat (b_size b)"
    using fit \<open>length bs = unat (b_pos b)\<close> assms by (auto simp: has_room_def)
  ultimately show ?thesis by (auto simp: has_room_def)
qed

lemma room_payload:
  assumes "has_room b bs (4 + n + m)" "ses_payload ses = Some p" "unat (b_len p) \<le> length (b_data p)" "unat (b_len p) \<le> n" "n < 1000000000"
    "unat (ses_payload_beginning ses) \<le> unat (b_len p)"
  shows "\<exists>b' p' cs. put_payload_string ses b = Inr (b', p') \<and> has_room b' cs m"
proof -
  let ?l = "b_len p - ses_payload_beginning ses"
  have l: "unat ?l = unat (b_len p) - unat (ses_payload_beginning ses)" using assms(6) by (simp add: unat_u32_sub)
  have "ses_payload_beginning ses + ?l = b_len p" by simp
  then have g: "buf_getptr (p\<lparr>b_pos := ses_payload_beginning ses\<rparr>) ?l = Inr (unat (ses_payload_beginning ses))"
    using l assms(4,5) by (simp add: buf_getptr_def BUF_MAX_INCR_def u32_nat)
  have "unat ?l \<le> length (drop (unat (ses_payload_beginning ses)) (b_data p))" "unat ?l \<le> n" using l assms(3,4) by simp_all
  from room_putstring [OF assms(1) this]
  obtain b' cs where "buf_putstring b (drop (unat (ses_payload_beginning ses)) (b_data p)) ?l = Inr b'" "has_room b' cs m" by blast
  then show ?thesis
    using assms(2,6) g by (auto simp: put_payload_string_def buf_setpos_eq)
qed

lemma recv_kexinit_succeeds:
  assumes "kx_sentkexinit (ses_kexstate ses)" "\<not> kx_recvkexinit (ses_kexstate ses)" "ses_remoteident ses = Some rid"
    "ses_transkexinit ses = Some t" "wf_buf t" "ses_payload ses = Some p" "wf_buf p"
    "length rid < 1000000" "length (ke_LOCAL_IDENT ke) < 1000000" "unat (b_len t) < 1000000" "unat (b_len p) < 1000000"
    "unat (ses_payload_beginning ses) \<le> unat (b_len p)" "read_kex_algos ke ses = Inr s" "ses_recvseq ses = 1"
  shows "\<exists>s'. recv_msg_kexinit env ke ses = Inr s'"
proof -
  let ?sz = "of_nat (length (ke_LOCAL_IDENT ke)) + of_nat (length rid) + b_len t + b_len p + KEXHASHBUF_MAX_INTS :: u32"
  have u: "unat (of_nat (length (ke_LOCAL_IDENT ke)) :: u32) = length (ke_LOCAL_IDENT ke)" "unat (of_nat (length rid) :: u32) = length rid"
    using assms(8,9) by (simp_all add: unat_u32_of_nat)
  have k: "unat KEXHASHBUF_MAX_INTS = 3012" by (simp add: KEXHASHBUF_MAX_INTS_def MAX_PUBKEY_SIZE_def MAX_KEX_PARTS_def)
  have sz: "unat ?sz = length (ke_LOCAL_IDENT ke) + length rid + unat (b_len t) + unat (b_len p) + 3012"
    using u k assms(8-11) by (simp add: unat_u32_add)
  then obtain h where h: "buf_new ?sz = Inr h" "holds h []" "b_size h = ?sz"
    using assms(8-11) postD [OF holds_new [of ?sz]] by (simp add: buf_new_eq)
  obtain p' where s: "choosing ses s" "ses_payload s = Some p'" "keeps p p'"
    using postD [OF read_kex_algos_choosing assms(13)] assms(6) by auto
  have p': "unat (b_len p') \<le> length (b_data p')" "unat (b_len p') \<le> unat (b_len p)" "unat (ses_payload_beginning s) \<le> unat (b_len p')"
    using s assms(7,12) wf_bufD [OF assms(7)] by (auto simp: keeps_def choosing_def)
  have t: "unat (b_len t) \<le> length (b_data t)" using wf_bufD [OF assms(5)] by simp
  have lens: "unat (of_nat (length rid) :: u32) \<le> length rid" "unat (of_nat (length (ke_LOCAL_IDENT ke)) :: u32) \<le> length (ke_LOCAL_IDENT ke)"
    by (simp_all add: u)
  have sv: "ses_isserver s = ses_isserver ses" "ses_recvseq s = ses_recvseq ses" using s(1) by (simp_all add: choosing_def)
  have pn: "unat (b_len p) < 1000000000" using assms(11) by simp
  show ?thesis
  proof (cases "ses_isserver ses")
    case False
    have "has_room h [] (4 + length (ke_LOCAL_IDENT ke) + (4 + length rid + (4 + unat (b_len t) + (4 + unat (b_len p) + 0))))"
      using h sz by (simp add: has_room_def)
    from room_putstring [OF this lens(2) eq_refl [OF u(1)]] obtain h1 c1 where h1: "buf_putstring h (ke_LOCAL_IDENT ke) (of_nat (length (ke_LOCAL_IDENT ke))) = Inr h1"
      and r1: "has_room h1 c1 (4 + length rid + (4 + unat (b_len t) + (4 + unat (b_len p) + 0)))" by blast
    from room_putstring [OF r1 lens(1) eq_refl [OF u(2)]] obtain h2 c2 where h2: "buf_putstring h1 rid (of_nat (length rid)) = Inr h2"
      and r2: "has_room h2 c2 (4 + unat (b_len t) + (4 + unat (b_len p) + 0))" by blast
    from room_putstring [OF r2 t order_refl] obtain h3 c3 where h3: "buf_putstring h2 (b_data t) (b_len t) = Inr h3"
      and r3: "has_room h3 c3 (4 + unat (b_len p) + 0)" by blast
    from room_payload [OF r3 s(2) p'(1,2) pn p'(3)] obtain h4 q where h4: "put_payload_string s h3 = Inr (h4, q)" by blast
    show ?thesis
      using False assms(1-4,6,13,14) h(1) h1 h2 h3 h4 sv by (simp add: recv_msg_kexinit_def Let_def set_kexstate_def)
  next
    case True
    have "has_room h [] (4 + length rid + (4 + length (ke_LOCAL_IDENT ke) + (4 + unat (b_len p) + (4 + unat (b_len t) + 0))))"
      using h sz by (simp add: has_room_def)
    from room_putstring [OF this lens(1) eq_refl [OF u(2)]] obtain h1 c1 where h1: "buf_putstring h rid (of_nat (length rid)) = Inr h1"
      and r1: "has_room h1 c1 (4 + length (ke_LOCAL_IDENT ke) + (4 + unat (b_len p) + (4 + unat (b_len t) + 0)))" by blast
    from room_putstring [OF r1 lens(2) eq_refl [OF u(1)]] obtain h2 c2 where h2: "buf_putstring h1 (ke_LOCAL_IDENT ke) (of_nat (length (ke_LOCAL_IDENT ke))) = Inr h2"
      and r2: "has_room h2 c2 (4 + unat (b_len p) + (4 + unat (b_len t) + 0))" by blast
    from room_payload [OF r2 s(2) p'(1,2) pn p'(3)] obtain h3 q c3 where h3: "put_payload_string s h2 = Inr (h3, q)"
      and r3: "has_room h3 c3 (4 + unat (b_len t) + 0)" by blast
    from room_putstring [OF r3 t order_refl] obtain h4 where h4: "buf_putstring h3 (b_data t) (b_len t) = Inr h4" by blast
    show ?thesis
      using True assms(1-4,6,13,14) h(1) h1 h2 h3 h4 sv by (simp add: recv_msg_kexinit_def Let_def set_kexstate_def)
  qed
qed

section \<open>An example\<close>

definition hash_kexenv :: "bool \<Rightarrow> kexenv" where
  "hash_kexenv srv = (choice_kexenv srv)\<lparr>ke_LOCAL_IDENT := [83, if srv then 1 else 2]\<rparr>"

definition hash_kexinit :: "bool \<Rightarrow> byte list" where
  "hash_kexinit srv = replicate 16 0 @ kexinit_lists (choice_kexenv srv) (choice_session srv)"

definition hash_session :: "bool \<Rightarrow> sshsession" where
  "hash_session srv = (choice_session srv)\<lparr>ses_payload := Some (buf_of (hash_kexinit (\<not> srv))),
     ses_transkexinit := Some (buf_of (hash_kexinit srv)), ses_remoteident := Some [83, if srv then 2 else 1],
     ses_kexstate := zero_kexstate\<lparr>kx_sentkexinit := True\<rparr>, ses_recvseq := 1\<rparr>"

lemma hash_session_fields:
  "ses_payload (hash_session srv) = Some (buf_of (hash_kexinit (\<not> srv)))" "ses_transkexinit (hash_session srv) = Some (buf_of (hash_kexinit srv))"
  "ses_remoteident (hash_session srv) = Some (ke_LOCAL_IDENT (hash_kexenv (\<not> srv)))" "ses_recvseq (hash_session srv) = 1"
  "kx_sentkexinit (ses_kexstate (hash_session srv))" "\<not> kx_recvkexinit (ses_kexstate (hash_session srv))"
  "ses_payload_beginning (hash_session srv) = 0" "ses_isserver (hash_session srv) = srv"
  "ses_sigalgs (hash_session srv) = [sigalg ''e'' DROPBEAR_SIGNATURE_ED25519]" "ses_compress_algos_c2s (hash_session srv) = ssh_nocompress"
  "ses_compress_algos_s2c (hash_session srv) = ssh_nocompress" "ses_newkeys (hash_session srv) \<noteq> None"
  by (simp_all add: hash_session_def choice_session_def agreed_session_def hash_kexenv_def zero_kexstate_def)

lemma hash_kexinit_buf:
  "wf_buf (buf_of (hash_kexinit srv))" "before (buf_of (hash_kexinit srv)) (hash_kexinit srv)"
  "unat (b_len (buf_of (hash_kexinit srv))) = length (hash_kexinit srv)" "b_data (buf_of (hash_kexinit srv)) = hash_kexinit srv"
  "length (hash_kexinit srv) \<le> 136"
proof -
  show l: "length (hash_kexinit srv) \<le> 136" using choice_payload_before(1) [of srv] by (simp add: hash_kexinit_def)
  show "before (buf_of (hash_kexinit srv)) (hash_kexinit srv)" using choice_payload_before(2) [of srv] by (simp only: hash_kexinit_def)
  then show "wf_buf (buf_of (hash_kexinit srv))" by (simp add: before_def)
  show "unat (b_len (buf_of (hash_kexinit srv))) = length (hash_kexinit srv)" "b_data (buf_of (hash_kexinit srv)) = hash_kexinit srv"
    using l by (simp_all add: buf_of_def unat_u32_of_nat)
qed

lemma hash_steps: "\<exists>s. recv_msg_kexinit plain_env (hash_kexenv srv) (hash_session srv) = Inr s"
proof -
  note f = hash_session_fields
  have ke: "read_kex_algos (hash_kexenv srv) = read_kex_algos (choice_kexenv srv)"
    by (intro ext) (simp add: read_kex_algos_def match_mac_def hash_kexenv_def)
  obtain s where s: "read_kex_algos (hash_kexenv srv) (hash_session srv) = Inr s"
    using choice_succeeds [OF f(1) [unfolded hash_kexinit_def] hash_kexinit_buf(2) [unfolded hash_kexinit_def] length_replicate f(8-12)]
    unfolding ke by blast
  have l: "length (hash_kexinit x) < 1000000" for x using hash_kexinit_buf(5) [of x] by simp
  show ?thesis
    by (rule recv_kexinit_succeeds [OF f(5,6,3,2) hash_kexinit_buf(1) f(1) hash_kexinit_buf(1) _ _ _ _ _ s f(4)])
       (simp_all add: f(7) l hash_kexinit_buf(3), simp_all add: hash_kexenv_def)
qed

theorem transcripts_agree_witness:
  "\<exists>c' s' hc hs. recv_msg_kexinit plain_env (hash_kexenv False) (hash_session False) = Inr c'
     \<and> recv_msg_kexinit plain_env (hash_kexenv True) (hash_session True) = Inr s'
     \<and> ses_kexhashbuf c' = Some hc \<and> ses_kexhashbuf s' = Some hs \<and> written hc = written hs"
proof -
  note f = hash_session_fields and b = hash_kexinit_buf
  obtain c' where c: "recv_msg_kexinit plain_env (hash_kexenv False) (hash_session False) = Inr c'" using hash_steps by blast
  obtain s' where s: "recv_msg_kexinit plain_env (hash_kexenv True) (hash_session True) = Inr s'" using hash_steps by blast
  have sent: "sent_kexinit (hash_session srv) (hash_kexinit srv)" for srv
    using b [of srv] by (simp add: sent_kexinit_def f)
  have recv: "holds_packet (hash_session srv) (hash_kexinit (\<not> srv))" for srv
    using b [of "\<not> srv"] by (simp add: holds_packet_def payload_bytes_def f)
  have i: "length (ke_LOCAL_IDENT (hash_kexenv srv)) < 2 ^ 32" for srv by (simp add: hash_kexenv_def)
  have r: "holds_packet (hash_session False) (hash_kexinit True)" "holds_packet (hash_session True) (hash_kexinit False)"
    "ses_remoteident (hash_session False) = Some (ke_LOCAL_IDENT (hash_kexenv True))"
    "ses_remoteident (hash_session True) = Some (ke_LOCAL_IDENT (hash_kexenv False))"
    "\<not> ses_isserver (hash_session False)" "ses_isserver (hash_session True)"
    using recv [of False] recv [of True] f(3) [of False] f(3) [of True] f(8) by simp_all
  from transcripts_agree [OF r(5,6) sent sent r(1,2,3,4) i i c s]
  show ?thesis using c s by (auto simp: holds_def)
qed

end
