(* ===== verification/Kex_Dh.thy ===== *)
theory Kex_Dh
  imports Kex_Hash
begin

text \<open>
  The key exchange methods: Diffie-Hellman over a prime group, \<open>src/src/kex-dh.c\<close>, with the random
  exponents of \<open>dbrandom.c\<close>, and X25519, \<open>src/src/kex-x25519.c\<close>.  The modular power and the curve
  multiplication are arguments, as are the bytes the random generator delivers during a call and
  the encoding of the host key.
\<close>

section \<open>Definitions\<close>

subsection \<open>Random integers\<close>

text \<open>The array \<open>masks\<close>.\<close>

definition masks :: "byte list" where
  "masks = [0xff, 0x01, 0x03, 0x07, 0x0f, 0x1f, 0x3f, 0x7f]"

text \<open>
  One round of the loop: \<open>len\<close> random bytes, the first one masked.  With \<open>len\<close> 0 there is no
  first byte.
\<close>

definition random_block :: "nat \<Rightarrow> byte list \<Rightarrow> int res" where
  "random_block size_bits randbuf =
     (case randbuf of
        [] \<Rightarrow> Inl Mem_fault
      | b # bs \<Rightarrow> returnE (mp_from_ubin ((b AND masks ! (size_bits mod 8)) # bs)))"

partial_function (option) gen_random_loop :: "(nat \<Rightarrow> byte list) \<Rightarrow> nat \<Rightarrow> int \<Rightarrow> nat \<Rightarrow> int res option" where
  "gen_random_loop genrandom size_bits bound i =
     (case random_block size_bits (genrandom i) of
        Inl e \<Rightarrow> Some (Inl e)
      | Inr rand \<Rightarrow> if rand < bound \<and> rand > 0 then Some (Inr rand) else gen_random_loop genrandom size_bits bound (i + 1))"

declare gen_random_loop.simps [code]

definition gen_random_mpint :: "(nat \<Rightarrow> nat \<Rightarrow> byte list) \<Rightarrow> int \<Rightarrow> int res" where
  "gen_random_mpint genrandom bound =
     (let size_bits = mp_count_bits bound;
          len = size_bits div 8 + (if size_bits mod 8 \<noteq> 0 then 1 else 0) in
      case gen_random_loop (\<lambda>i. genrandom i len) size_bits bound 0 of
        None \<Rightarrow> Inl Diverge
      | Some r \<Rightarrow> r)"

subsection \<open>Diffie-Hellman\<close>

text \<open>
  The digits of an \<open>mp_int\<close>, the least significant first, with \<open>MP_DIGIT_BIT\<close> bits each, and the loop of
  \<open>mp_div_2\<close>, which goes from the most significant digit down and shifts the bit \<open>r\<close> in from
  above.  \<open>mp_clamp\<close> drops leading zeros and does not change the value.
\<close>

definition MP_DIGIT_BIT :: nat where "MP_DIGIT_BIT = 60"

function mp_digits :: "nat \<Rightarrow> u64 list" where
  "mp_digits n = (if n = 0 then [] else of_nat (n mod 2 ^ MP_DIGIT_BIT) # mp_digits (n div 2 ^ MP_DIGIT_BIT))"
  by pat_completeness auto
termination by (relation "measure id") (simp_all add: MP_DIGIT_BIT_def)

declare mp_digits.simps [simp del]

fun digits_value :: "u64 list \<Rightarrow> nat" where
  "digits_value [] = 0"
| "digits_value (d # ds) = unat d + 2 ^ MP_DIGIT_BIT * digits_value ds"

fun div_2_digits :: "u64 \<Rightarrow> u64 list \<Rightarrow> u64 list" where
  "div_2_digits r [] = []"
| "div_2_digits r (d # ds) = (drop_bit 1 d OR push_bit (MP_DIGIT_BIT - 1) r) # div_2_digits (d AND 1) ds"

definition mp_div_2 :: "int \<Rightarrow> int" where
  "mp_div_2 a = sgn a * int (digits_value (rev (div_2_digits 0 (rev (mp_digits (nat \<bar>a\<bar>))))))"

definition DH_G_VAL :: int where "DH_G_VAL = 2"

text \<open>\<open>mp_exptmod\<close>: base, exponent and modulus; \<open>None\<close> for a result other than \<open>MP_OKAY\<close>.\<close>

type_synonym exptmod = "int \<Rightarrow> int \<Rightarrow> int \<Rightarrow> int option"

record kex_dh_param =
  dp_pub :: int
  dp_priv :: int

definition load_dh_p :: "sshsession \<Rightarrow> int res" where
  "load_dh_p ses =
     bindE (nn (ses_newkeys ses)) (\<lambda>nk.
     bindE (nn (kc_algo_kex nk)) (\<lambda>algo_kex. returnE (mp_from_ubin (kx_dh_p_bytes algo_kex))))"

definition mp_exptmod_ok :: "exptmod \<Rightarrow> int \<Rightarrow> int \<Rightarrow> int \<Rightarrow> int res" where
  "mp_exptmod_ok mp_exptmod g x p =
     (case mp_exptmod g x p of None \<Rightarrow> dropbear_exit ''Diffie-Hellman error'' | Some y \<Rightarrow> returnE y)"

definition gen_kexdh_param :: "exptmod \<Rightarrow> (nat \<Rightarrow> nat \<Rightarrow> byte list) \<Rightarrow> sshsession \<Rightarrow> kex_dh_param res" where
  "gen_kexdh_param mp_exptmod genrandom ses =
     bindE (load_dh_p ses) (\<lambda>dh_p.
     let dh_q = mp_div_2 (dh_p - 1) in
     bindE (gen_random_mpint genrandom dh_q) (\<lambda>priv.
     bindE (mp_exptmod_ok mp_exptmod DH_G_VAL priv dh_p) (\<lambda>pub.
     returnE \<lparr>dp_pub = pub, dp_priv = priv\<rparr>)))"

text \<open>\<open>buf_put_pub_key\<close> for the host key at hand, with its type.\<close>

type_synonym put_pub_key = "int \<Rightarrow> buffer \<Rightarrow> buffer res"

definition kexdh_comb_key :: "exptmod \<Rightarrow> put_pub_key \<Rightarrow> kex_dh_param \<Rightarrow> int \<Rightarrow> sshsession \<Rightarrow> sshsession res" where
  "kexdh_comb_key mp_exptmod buf_put_pub_key param dh_pub_them ses =
     bindE (load_dh_p ses) (\<lambda>dh_p.
     let dh_p_min1 = dh_p - 1 in
     if \<not> dh_pub_them < dh_p_min1 \<or> \<not> dh_pub_them > 1 then dropbear_exit ''Diffie-Hellman error''
     else
       bindE (mp_exptmod_ok mp_exptmod dh_pub_them (dp_priv param) dh_p) (\<lambda>dh_K.
       let (dh_e, dh_f) = (if \<not> ses_isserver ses then (dp_pub param, dh_pub_them) else (dh_pub_them, dp_pub param)) in
       bindE (nn (ses_kexhashbuf ses)) (\<lambda>kexhashbuf.
       bindE (nn (ses_newkeys ses)) (\<lambda>nk.
       bindE (buf_put_pub_key (kc_algo_hostkey nk) kexhashbuf) (\<lambda>kexhashbuf.
       bindE (buf_putmpint kexhashbuf dh_e) (\<lambda>kexhashbuf.
       bindE (buf_putmpint kexhashbuf dh_f) (\<lambda>kexhashbuf.
       bindE (buf_putmpint kexhashbuf dh_K) (\<lambda>kexhashbuf.
       finish_kexhashbuf (ses\<lparr>ses_dh_K := Some dh_K, ses_kexhashbuf := Some kexhashbuf\<rparr>)))))))))"

subsection \<open>X25519\<close>

definition CURVE25519_LEN :: nat where "CURVE25519_LEN = 32"

record kex_curve25519_param =
  cp_priv :: "byte list"
  cp_pub :: "byte list"

text \<open>\<open>dropbear_curve25519_scalarmult\<close>: the scalar and the point.\<close>

type_synonym scalarmult = "byte list \<Rightarrow> byte list \<Rightarrow> byte list"

definition basepoint :: "byte list" where
  "basepoint = 9 # replicate 31 0"

definition gen_kexcurve25519_param :: "scalarmult \<Rightarrow> (nat \<Rightarrow> byte list) \<Rightarrow> kex_curve25519_param" where
  "gen_kexcurve25519_param scalarmult genrandom =
     (let priv = genrandom CURVE25519_LEN in \<lparr>cp_priv = priv, cp_pub = scalarmult priv basepoint\<rparr>)"

definition kexcurve25519_derive :: "scalarmult \<Rightarrow> kex_curve25519_param \<Rightarrow> buffer \<Rightarrow> byte list res" where
  "kexcurve25519_derive scalarmult param buf_pub_them =
     (if unat (b_len buf_pub_them) \<noteq> CURVE25519_LEN then dropbear_exit ''Bad curve25519''
      else
        bindE (mem_read (b_data buf_pub_them) 0 CURVE25519_LEN) (\<lambda>them.
        let out = scalarmult (cp_priv param) them in
        bindE (constant_time_memcmp (replicate CURVE25519_LEN 0) out CURVE25519_LEN) (\<lambda>r.
        if r = 0 then dropbear_exit ''Bad curve25519'' else returnE out)))"

definition kexcurve25519_comb_key :: "scalarmult \<Rightarrow> put_pub_key \<Rightarrow> kex_curve25519_param \<Rightarrow> buffer \<Rightarrow> sshsession \<Rightarrow> sshsession res" where
  "kexcurve25519_comb_key scalarmult buf_put_pub_key param buf_pub_them ses =
     bindE (kexcurve25519_derive scalarmult param buf_pub_them) (\<lambda>out.
     let dh_K = mp_from_ubin out;
         (Q_C, Q_S) = (if \<not> ses_isserver ses then (cp_pub param, b_data buf_pub_them) else (b_data buf_pub_them, cp_pub param)) in
     bindE (nn (ses_kexhashbuf ses)) (\<lambda>kexhashbuf.
     bindE (nn (ses_newkeys ses)) (\<lambda>nk.
     bindE (buf_put_pub_key (kc_algo_hostkey nk) kexhashbuf) (\<lambda>kexhashbuf.
     bindE (buf_putstring kexhashbuf Q_C (of_nat CURVE25519_LEN)) (\<lambda>kexhashbuf.
     bindE (buf_putstring kexhashbuf Q_S (of_nat CURVE25519_LEN)) (\<lambda>kexhashbuf.
     bindE (buf_putmpint kexhashbuf dh_K) (\<lambda>kexhashbuf.
     finish_kexhashbuf (ses\<lparr>ses_dh_K := Some dh_K, ses_kexhashbuf := Some kexhashbuf\<rparr>))))))))"

section \<open>Halving\<close>

text \<open>\<open>mp_div_2\<close> halves the magnitude.\<close>

lemma digits_value_snoc: "digits_value (ds @ [d]) = digits_value ds + 2 ^ (MP_DIGIT_BIT * length ds) * unat d"
  by (induction ds) (simp_all add: algebra_simps power_add)

lemma mp_digits_ok: "digits_value (mp_digits n) = n \<and> (\<forall>d \<in> set (mp_digits n). unat d < 2 ^ MP_DIGIT_BIT)"
proof (induction n rule: mp_digits.induct)
  case (1 n)
  have "n mod 2 ^ MP_DIGIT_BIT < 2 ^ MP_DIGIT_BIT" by simp
  then have "unat (of_nat (n mod 2 ^ MP_DIGIT_BIT) :: u64) = n mod 2 ^ MP_DIGIT_BIT"
    by (simp add: unat_of_nat MP_DIGIT_BIT_def take_bit_nat_eq_self)
  then show ?case using 1 by (subst (1 2) mp_digits.simps) auto
qed

lemma div_2_digit:
  assumes "unat (d :: u64) < 2 ^ MP_DIGIT_BIT" "r = 0 \<or> r = 1"
  shows "unat (drop_bit 1 d OR push_bit (MP_DIGIT_BIT - 1) r) = unat d div 2 + unat r * 2 ^ (MP_DIGIT_BIT - 1)"
proof -
  have "take_bit 64 (unat d) = unat d" using assms(1) by (intro take_bit_nat_eq_self) (simp add: MP_DIGIT_BIT_def)
  then have d: "unat (drop_bit 1 d) = unat d div 2" by (subst unsigned_drop_bit_eq) (simp add: drop_bit_eq_div)
  then have lt: "unat (drop_bit 1 d) < 2 ^ 59" using assms(1) by (simp add: MP_DIGIT_BIT_def)
  have p: "unat (push_bit 59 r) = unat r * 2 ^ 59" using assms(2) by auto
  then have "unat (drop_bit 1 d + push_bit 59 r) = unat d div 2 + unat r * 2 ^ 59"
    using lt d assms(2) by (subst unat_add_lem [THEN iffD1]) auto
  then show ?thesis using or_plus [OF lt, of r] by (simp add: MP_DIGIT_BIT_def)
qed

lemma div_2_digits_value:
  assumes "\<forall>d \<in> set ds. unat d < 2 ^ MP_DIGIT_BIT" "r = 0 \<or> r = 1"
  shows "digits_value (rev (div_2_digits r ds)) = (unat r * 2 ^ (MP_DIGIT_BIT * length ds) + digits_value (rev ds)) div 2"
  using assms
proof (induction ds arbitrary: r)
  case (Cons d ds)
  let ?B = "2 ^ (MP_DIGIT_BIT * length ds) :: nat" and ?V = "digits_value (rev ds)"
  have b: "unat (d AND 1) = unat d mod 2"
    by (subst unsigned_and_eq) (simp only: unsigned_1 and_one_eq)
  have b1: "d AND 1 = 0 \<or> d AND 1 = 1"
    by (simp add: and_one_eq mod_2_eq_odd)
  have l: "length (div_2_digits r ds) = length ds" for r by (induction ds arbitrary: r) simp_all
  have P: "(2 :: nat) ^ MP_DIGIT_BIT = 2 * 2 ^ (MP_DIGIT_BIT - 1)" by (simp add: MP_DIGIT_BIT_def)
  have "digits_value (rev (div_2_digits r (d # ds))) = (unat d mod 2 * ?B + ?V) div 2 + ?B * (unat d div 2 + unat r * 2 ^ (MP_DIGIT_BIT - 1))"
    using Cons.IH [of "d AND 1"] Cons.prems b b1 div_2_digit [of d r] by (simp add: digits_value_snoc l)
  also have "\<dots> = (unat d mod 2 * ?B + ?V + 2 * (?B * (unat d div 2 + unat r * 2 ^ (MP_DIGIT_BIT - 1)))) div 2"
    by simp
  also have "unat d mod 2 * ?B + ?V + 2 * (?B * (unat d div 2 + unat r * 2 ^ (MP_DIGIT_BIT - 1)))
      = unat r * (?B * 2 ^ MP_DIGIT_BIT) + ?B * unat d + ?V"
  proof -
    have "s * b + v + 2 * (b * (q + t * x)) = t * (b * (2 * x)) + b * n + v" if "n = 2 * q + s" for s b v q t x n :: nat
      unfolding that by (simp add: algebra_simps)
    from this [of "unat d" "unat d div 2" "unat d mod 2"] show ?thesis unfolding P by simp
  qed
  finally show ?case by (simp add: digits_value_snoc power_add algebra_simps)
qed auto

lemma mp_div_2_eq [code]: "mp_div_2 a = sgn a * (\<bar>a\<bar> div 2)"
  using mp_digits_ok [of "nat \<bar>a\<bar>"] div_2_digits_value [of "rev (mp_digits (nat \<bar>a\<bar>))" 0]
  by (simp add: mp_div_2_def nat_div_distrib zdiv_int)

section \<open>Random integers\<close>

text \<open>A block from which the loop takes its result.\<close>

definition acceptable :: "nat \<Rightarrow> int \<Rightarrow> byte list \<Rightarrow> bool" where
  "acceptable size_bits bound block = (case random_block size_bits block of Inl _ \<Rightarrow> False | Inr r \<Rightarrow> 0 < r \<and> r < bound)"

lemma acceptable_iff: "acceptable size_bits bound block \<longleftrightarrow> (\<exists>r. random_block size_bits block = Inr r \<and> 0 < r \<and> r < bound)"
  by (simp add: acceptable_def split: sum.split)

lemma random_loop_returns:
  assumes "\<forall>i. gr i \<noteq> []" "acceptable bits bound (gr j)" "i \<le> j"
  shows "\<exists>r. gen_random_loop gr bits bound i = Some (Inr r) \<and> 0 < r \<and> r < bound"
  using assms(3)
proof (induction "j - i" arbitrary: i)
  case 0
  then have "i = j" by simp
  then show ?case using assms(2) by (subst gen_random_loop.simps) (auto simp: acceptable_iff)
next
  case (Suc n)
  obtain r where r: "random_block bits (gr i) = Inr r" using assms(1) by (cases "gr i") (auto simp: random_block_def)
  have "\<exists>r. gen_random_loop gr bits bound (i + 1) = Some (Inr r) \<and> 0 < r \<and> r < bound"
    using Suc by (intro Suc.hyps(1)) simp_all
  then show ?case using r by (subst gen_random_loop.simps) auto
qed

lemma random_loop_needs:
  assumes "gen_random_loop gr bits bound i = Some (Inr r)"
  shows "\<exists>j. acceptable bits bound (gr j)"
proof -
  have "\<forall>r'. (Inr r :: int res) = Inr r' \<longrightarrow> (\<exists>j. acceptable bits bound (gr j))"
  proof (rule gen_random_loop.raw_induct [where P = "\<lambda>gr bits bound i x. \<forall>r. x = Inr r \<longrightarrow> (\<exists>j. acceptable bits bound (gr j))", OF _ assms])
    fix loop gr bits bound i x
    assume "\<And>gr bits bound i y. loop gr bits bound i = Some y \<Longrightarrow> \<forall>r. y = Inr r \<longrightarrow> (\<exists>j. acceptable bits bound (gr j))"
      "(case random_block bits (gr i) of Inl e \<Rightarrow> Some (Inl e) | Inr rand \<Rightarrow> if rand < bound \<and> rand > 0 then Some (Inr rand)
          else loop gr bits bound (i + 1)) = Some x"
    then show "\<forall>r. x = Inr r \<longrightarrow> (\<exists>j. acceptable bits bound (gr j))"
      unfolding acceptable_iff by (cases "random_block bits (gr i)") (auto split: if_splits, blast+)
  qed
  then show ?thesis by simp
qed

lemma random_loop_error:
  assumes "gen_random_loop gr bits bound i = Some (Inl e)"
  shows "\<exists>i. gr i = []"
proof -
  have "(Inl e :: int res) = Inl e \<longrightarrow> (\<exists>i. gr i = [])"
  proof (rule gen_random_loop.raw_induct [where P = "\<lambda>gr bits bound i x. x = Inl e \<longrightarrow> (\<exists>i. gr i = [])", OF _ assms])
    fix loop gr bits bound i x
    assume h: "\<And>gr bits bound i y. loop gr bits bound i = Some y \<Longrightarrow> y = Inl e \<longrightarrow> (\<exists>i. gr i = [])"
      "(case random_block bits (gr i) of Inl e \<Rightarrow> Some (Inl e) | Inr rand \<Rightarrow> if rand < bound \<and> rand > 0 then Some (Inr rand)
          else loop gr bits bound (i + 1)) = Some x"
    show "x = Inl e \<longrightarrow> (\<exists>i. gr i = [])"
    proof (cases "gr i")
      case (Cons b bs)
      then show ?thesis using h(2) h(1) [of gr bits bound "i + 1" x] by (auto simp: random_block_def split: if_splits)
    qed blast
  qed
  then show ?thesis by simp
qed

lemma masks_eq: "k < 8 \<Longrightarrow> 0 < k \<Longrightarrow> masks ! k = mask k"
  by (auto simp: masks_def less_Suc_eq numeral_eq_Suc mask_eq_exp_minus_1)

lemma power_256: "(2::nat) ^ (8 * m) = 256 ^ m"
  by (simp add: power_mult)

text \<open>Every value in range comes from some block: masking keeps all the bits a value needs.\<close>

lemma block_for:
  assumes "0 < v" "v < bound"
  shows "random_block (mp_count_bits bound) (ubin_bytes (mp_ubin_size bound) (nat v)) = Inr v"
proof -
  let ?bits = "mp_count_bits bound"
  have nb: "nat v < 2 ^ ?bits"
    using assms less_two_power_nat_bits [of "nat bound"] by (simp add: mp_count_bits_def)
  have pos: "0 < ?bits" using assms by (intro mp_count_bits_pos) simp
  have small: "nat v < 256 ^ mp_ubin_size bound"
  proof -
    have "nat v < nat bound" using assms by simp
    also have "\<dots> < 256 ^ mp_ubin_size bound" using assms by (intro ubin_size_bound) simp
    finally show ?thesis .
  qed
  obtain m where m: "mp_ubin_size bound = Suc m"
    using pos by (cases "mp_ubin_size bound") (auto simp: mp_ubin_size_def split: if_splits)
  obtain x xs where x: "ubin_bytes (Suc m) (nat v) = x # xs"
    using length_ubin_bytes [of "Suc m" "nat v"] by (cases "ubin_bytes (Suc m) (nat v)") auto
  have hd: "x = of_nat (nat v div 256 ^ m mod 256)" using hd_ubin_bytes [of m "nat v"] x by simp
  have "x AND masks ! (?bits mod 8) = x"
  proof (cases "?bits mod 8 = 0")
    case True
    have "(255::byte) = - 1" by simp
    then have "x AND 255 = x" by (simp only: and.right_neutral)
    then show ?thesis using True by (simp add: masks_def)
  next
    case False
    let ?k = "?bits mod 8"
    have "m = ?bits div 8" using m False by (simp add: mp_ubin_size_def)
    then have "?bits = 8 * m + ?k" by simp
    then have "(2::nat) ^ ?bits = 256 ^ m * 2 ^ ?k" by (metis (no_types) power_256 power_add)
    then have "nat v < 256 ^ m * 2 ^ ?k" using nb by simp
    then have d: "nat v div 256 ^ m < 2 ^ ?k" by (simp add: less_mult_imp_div_less mult.commute)
    have "?k \<le> 7" by simp
    then have "(2::nat) ^ ?k \<le> 2 ^ 7" by (intro power_increasing) simp_all
    then have u: "unat x = nat v div 256 ^ m" using d hd by (simp add: unat_of_nat)
    have "x AND masks ! ?k = take_bit ?k x" using False by (simp add: masks_eq take_bit_eq_mask)
    also have "\<dots> = x"
      unfolding word_unat_eq_iff unsigned_take_bit_eq using u d by (simp add: take_bit_nat_eq_self)
    finally show ?thesis .
  qed
  then have "random_block ?bits (x # xs) = Inr (mp_from_ubin (x # xs))" by (simp add: random_block_def)
  moreover have "mp_from_ubin (x # xs) = v"
    using fold_ubin_bytes [of "Suc m" "nat v"] small assms(1) unfolding m x mp_from_ubin_def by simp
  ultimately show ?thesis unfolding m x by simp
qed

text \<open>
  C32. Random exponents.  \<open>gen_random_mpint\<close> returns an integer between 0 and its bound, both
  excluded.  It returns as soon as the generator delivers a suitable block, so the loop runs for
  ever only if none ever comes; the masking excludes no value: for every integer in range
  there is a block that gives it.
\<close>

theorem gen_random_mpint_live:
  assumes "0 < bound" "\<And>i n. length (genrandom i n) = n"
  shows "(\<forall>r. gen_random_mpint genrandom bound = Inr r \<longrightarrow> 0 < r \<and> r < bound)
    \<and> (\<forall>i. acceptable (mp_count_bits bound) bound (genrandom i (mp_ubin_size bound)) \<longrightarrow> (\<exists>r. gen_random_mpint genrandom bound = Inr r))
    \<and> (\<forall>e. gen_random_mpint genrandom bound = Inl e \<longrightarrow> e = Diverge)
    \<and> (\<forall>v. 0 < v \<and> v < bound \<longrightarrow> (\<exists>block. length block = mp_ubin_size bound \<and> random_block (mp_count_bits bound) block = Inr v))"
proof -
  let ?gr = "\<lambda>i. genrandom i (mp_ubin_size bound)"
  have def: "gen_random_mpint genrandom bound = (case gen_random_loop ?gr (mp_count_bits bound) bound 0 of None \<Rightarrow> Inl Diverge | Some r \<Rightarrow> r)"
    by (simp add: gen_random_mpint_def mp_ubin_size_def Let_def)
  have "0 < mp_ubin_size bound" using mp_count_bits_pos [OF assms(1)] by (simp add: mp_ubin_size_def) presburger
  then have ne: "\<forall>i. ?gr i \<noteq> []" using assms(2) by (metis less_nat_zero_code list.size(3))
  note yes = random_loop_returns [OF ne]
  have no: "gen_random_mpint genrandom bound = Inl Diverge" if none: "\<forall>i. \<not> acceptable (mp_count_bits bound) bound (?gr i)"
  proof (cases "gen_random_loop ?gr (mp_count_bits bound) bound 0")
    case (Some x)
    show ?thesis using Some random_loop_needs [of ?gr "mp_count_bits bound" bound 0] none random_loop_error [of ?gr "mp_count_bits bound" bound 0] ne
      by (cases x) blast+
  qed (simp add: def)
  have all: "\<exists>block. length block = mp_ubin_size bound \<and> random_block (mp_count_bits bound) block = Inr v" if "0 < v" "v < bound" for v
    using block_for [OF that] length_ubin_bytes by blast
  show ?thesis
  proof (cases "\<exists>i. acceptable (mp_count_bits bound) bound (?gr i)")
    case True
    then obtain r where "gen_random_loop ?gr (mp_count_bits bound) bound 0 = Some (Inr r)" "0 < r" "r < bound" using yes [of _ _ _ 0] by blast
    then have "gen_random_mpint genrandom bound = Inr r" "0 < r" "r < bound" by (simp_all add: def)
    then show ?thesis using all by simp
  next
    case False
    then show ?thesis using no all by simp
  qed
qed

theorem gen_random_mpint_live_witness:
  "\<exists>r. gen_random_mpint (\<lambda>i n. replicate n (of_nat i)) 5 = Inr r \<and> 0 < r \<and> r < 5"
proof -
  have l: "\<And>i n. length (replicate n (of_nat i :: byte)) = n" by simp
  have a: "acceptable (mp_count_bits 5) 5 (replicate (mp_ubin_size 5) (of_nat 1))" by code_simp
  note r = gen_random_mpint_live [of 5 "\<lambda>i n. replicate n (of_nat i)", OF _ l, simplified]
  from a obtain r where "gen_random_mpint (\<lambda>i n. replicate n (of_nat i)) 5 = Inr r" using r by blast
  then show ?thesis using r by blast
qed

end
