(* ===== verification/Kex_Secret.thy ===== *)
theory Kex_Secret
  imports Kex_Dh
begin

text \<open>
  The key exchange methods give both sides the same shared secret, exchange hash and session
  identifier.  Laws of the modular power and of the curve multiplication are the hypotheses.
\<close>

section \<open>The exchange hash\<close>

text \<open>The digest buffer that \<open>finish_kexhashbuf\<close> makes of the hashed bytes.\<close>

definition kex_digest :: "hash_descriptor \<Rightarrow> byte list \<Rightarrow> buffer res" where
  "kex_digest hash_desc bytes =
     bindE (buf_new (of_nat (hd_hashsize hash_desc))) (\<lambda>hash.
     bindE (buf_getwriteptr hash (of_nat (hd_hashsize hash_desc))) (\<lambda>q.
     case hd_done hash_desc (snd (hd_process hash_desc (hd_init hash_desc) bytes)) of
       None \<Rightarrow> Inl Mem_fault
     | Some digest \<Rightarrow>
         bindE (mem_write (b_data hash) q digest) (\<lambda>d.
         buf_setlen (hash\<lparr>b_data := d\<rparr>) (of_nat (hd_hashsize hash_desc)))))"

definition derived :: "sshsession \<Rightarrow> int \<Rightarrow> byte list \<Rightarrow> sshsession \<Rightarrow> bool" where
  "derived ses K bs s \<longleftrightarrow> (\<exists>nk k hash sid. ses_newkeys ses = Some nk \<and> kc_algo_kex nk = Some k
     \<and> kex_digest (kx_hash_desc k) bs = Inr hash
     \<and> (case ses_session_id ses of None \<Rightarrow> buf_newcopy hash | Some sid \<Rightarrow> returnE sid) = Inr sid
     \<and> s = ses\<lparr>ses_dh_K := Some K, ses_kexhashbuf := None, ses_hash := Some hash, ses_session_id := Some sid\<rparr>)"

lemma finish_kexhashbuf_post:
  assumes "holds h bs"
  shows "post (finish_kexhashbuf (ses\<lparr>ses_dh_K := Some K, ses_kexhashbuf := Some h\<rparr>)) (derived ses K bs)"
proof -
  have h: "wf_buf h" "b_pos h = b_len h" "take (unat (b_len h)) (b_data h) = bs" "unat (b_len h) \<le> length (b_data h)"
    using assms wf_bufD [of h] by (auto simp: holds_def written_def)
  have g: "buf_getptr (h\<lparr>b_pos := 0\<rparr>) (b_len h) = Inr 0"
    using wf_setpos [OF h(1), of 0] h(4) by (simp add: buf_getptr_eq unread_def)
  show ?thesis
    using h(3,4) g unfolding finish_kexhashbuf_def derived_def post_def kex_digest_def
    by (cases "ses_session_id ses") (auto simp: bindE_eq_Inr nn_def buf_setpos_eq mem_read_def Let_def split: option.splits)
qed

lemma derived_agree:
  assumes "derived c K bs c'" "derived s K bs s'" "ses_newkeys c = Some nc" "ses_newkeys s = Some ns" "kc_algo_kex nc = kc_algo_kex ns"
    "ses_session_id c = ses_session_id s" "ses_dh_K_bytes c = ses_dh_K_bytes s"
  shows "same_secrets c' s'"
  using assms unfolding derived_def same_secrets_def by force

lemma post_writes:
  assumes "holds b bs" "writes f cs" "\<And>b'. holds b' (bs @ cs) \<Longrightarrow> post (F b') Q"
  shows "post (bindE (f b) F) Q"
  using holds_writes [OF assms(2,1)] assms(3) by (auto simp: post_def bindE_eq_Inr)

lemma writes_putmpint: "0 \<le> m \<Longrightarrow> mp_count_bits m < 4294967288 \<Longrightarrow> writes (\<lambda>b. buf_putmpint b m) (mpint_wire m)"
  unfolding writes_def using buf_putmpint_eq by (metis Inl_Inr_False not_le sum.inject(2))

section \<open>Diffie-Hellman\<close>

lemma random_loop_range:
  assumes "gen_random_loop gr bits bound i = Some x"
  shows "\<forall>r. x = Inr r \<longrightarrow> 0 < r \<and> r < bound"
  by (rule gen_random_loop.raw_induct [where P = "\<lambda>gr bits bound i x. \<forall>r. x = Inr r \<longrightarrow> 0 < r \<and> r < bound", OF _ assms])
     (fastforce split: sum.splits if_splits)

lemma gen_random_mpint_range: "gen_random_mpint genrandom bound = Inr r \<Longrightarrow> 0 < r \<and> r < bound"
  using random_loop_range unfolding gen_random_mpint_def Let_def by (fastforce split: option.splits)

text \<open>What \<open>mp_exptmod\<close> promises: when it succeeds, the result is the power modulo \<open>p\<close>.\<close>

definition power_law :: "exptmod \<Rightarrow> bool" where
  "power_law mp_exptmod \<longleftrightarrow> (\<forall>g x p y. 0 \<le> x \<longrightarrow> 0 < p \<longrightarrow> mp_exptmod g x p = Some y \<longrightarrow> y = g ^ nat x mod p)"

lemma power_lawD: "power_law ex \<Longrightarrow> ex g x p = Some y \<Longrightarrow> 0 \<le> x \<Longrightarrow> 0 < p \<Longrightarrow> y = g ^ nat x mod p"
  by (simp add: power_law_def)

lemma gen_kexdh_param_post:
  assumes "power_law ex" "load_dh_p ses = Inr p" "0 < p" "gen_kexdh_param ex gr ses = Inr param"
  shows "0 < dp_priv param \<and> dp_pub param = DH_G_VAL ^ nat (dp_priv param) mod p"
proof -
  obtain x y where "gen_random_mpint gr (mp_div_2 (p - 1)) = Inr x" "ex DH_G_VAL x p = Some y" "param = \<lparr>dp_pub = y, dp_priv = x\<rparr>"
    using assms(2,4) by (auto simp: gen_kexdh_param_def mp_exptmod_ok_def bindE_eq_Inr Let_def split: option.splits)
  moreover from this have "0 < x" by (blast dest: gen_random_mpint_range)
  ultimately show ?thesis using power_lawD [OF assms(1) _ _ assms(3)] by simp
qed

lemma mp_count_bits_mono:
  assumes "0 \<le> m" "m \<le> n"
  shows "mp_count_bits m \<le> mp_count_bits n"
proof -
  have "nat_bits a \<le> nat_bits b" if "a \<le> b" for a b
    using that
  proof (induction a arbitrary: b rule: nat_bits.induct)
    case (1 a)
    show ?case
    proof (cases "a = 0")
      case False
      then show ?thesis using 1 div_le_mono [OF 1(2), of 2] by (simp add: nat_bits_pos)
    qed simp
  qed
  then show ?thesis using assms by (simp add: mp_count_bits_def)
qed

lemma kexdh_comb_key_post:
  assumes "power_law ex" "load_dh_p ses = Inr p" "mp_count_bits p < 4294967288" "ses_kexhashbuf ses = Some h" "holds h bs"
    "ses_newkeys ses = Some nk" "writes (put (kc_algo_hostkey nk)) ks" "0 \<le> dp_pub param" "dp_pub param \<le> p" "0 < dp_priv param"
  shows "post (kexdh_comb_key ex put param them ses) (\<lambda>s. let K = them ^ nat (dp_priv param) mod p in
     derived ses K (bs @ ks @ (if ses_isserver ses then mpint_wire them @ mpint_wire (dp_pub param)
       else mpint_wire (dp_pub param) @ mpint_wire them) @ mpint_wire K) s)"
proof (cases "them < p - 1 \<and> 1 < them")
  case True
  have p: "0 < p" using True by simp
  have w: "writes (\<lambda>b. buf_putmpint b m) (mpint_wire m)" if "0 \<le> m" "m \<le> p" for m
    using mp_count_bits_mono [OF that] assms(3) that by (intro writes_putmpint) simp_all
  let ?ef = "if ses_isserver ses then (them, dp_pub param) else (dp_pub param, them)"
  have ef: "0 \<le> fst ?ef" "fst ?ef \<le> p" "0 \<le> snd ?ef" "snd ?ef \<le> p" using True assms(8,9) by simp_all
  have r: "post (bindE (put (kc_algo_hostkey nk) h) (\<lambda>h. bindE (buf_putmpint h (fst ?ef)) (\<lambda>h. bindE (buf_putmpint h (snd ?ef)) (\<lambda>h.
       bindE (buf_putmpint h K) (\<lambda>h. finish_kexhashbuf (ses\<lparr>ses_dh_K := Some K, ses_kexhashbuf := Some h\<rparr>))))))
     (derived ses K ((((bs @ ks) @ mpint_wire (fst ?ef)) @ mpint_wire (snd ?ef)) @ mpint_wire K))" if "0 \<le> K" "K \<le> p" for K
    by (rule post_writes [OF assms(5,7)], rule post_writes [OF _ w [OF ef(1,2)]], assumption, rule post_writes [OF _ w [OF ef(3,4)]],
        assumption, rule post_writes [OF _ w [OF that]], assumption, rule finish_kexhashbuf_post)
  have k: "0 \<le> them ^ nat (dp_priv param) mod p" "them ^ nat (dp_priv param) mod p \<le> p"
    using p less_imp_le [OF pos_mod_bound [OF p]] by simp_all
  show ?thesis
  proof (cases "ex them (dp_priv param) p")
    case None
    then show ?thesis using True assms(2) by (simp add: kexdh_comb_key_def mp_exptmod_ok_def post_def)
  next
    case (Some K)
    then have "K = them ^ nat (dp_priv param) mod p" using power_lawD [OF assms(1) Some] assms(10) p by simp
    then show ?thesis
      using True assms(2,4,6) Some r [OF k] by (simp add: kexdh_comb_key_def mp_exptmod_ok_def Let_def nn_def split: if_splits)
  qed
next
  case False
  then show ?thesis using assms(2) by (auto simp: kexdh_comb_key_def Let_def post_def)
qed

text \<open>
  C33. Diffie-Hellman gives both sides the same secrets.  Client and server have hashed the same
  transcript, agree on the group and the bytes of the host key, and each combines its own random
  exponent with the public value of the other.  Then they hold the same shared secret, which is the
  power of 2 to the product of the exponents, the same exchange hash and the same session
  identifier.
\<close>

theorem dh_secrets:
  assumes "power_law ex" "load_dh_p c = Inr p" "mp_count_bits p < 4294967288"
    and "ses_newkeys c = Some nc" "ses_newkeys s = Some ns" "kc_algo_kex nc = kc_algo_kex ns" "\<not> ses_isserver c" "ses_isserver s"
    and "ses_kexhashbuf c = Some hc" "ses_kexhashbuf s = Some hs" "holds hc t" "holds hs t"
    and "writes (put (kc_algo_hostkey nc)) ks" "writes (put' (kc_algo_hostkey ns)) ks"
    and "ses_session_id c = ses_session_id s" "ses_dh_K_bytes c = ses_dh_K_bytes s"
    and "gen_kexdh_param ex gr c = Inr pc" "gen_kexdh_param ex gr' s = Inr ps"
    and "kexdh_comb_key ex put pc (dp_pub ps) c = Inr c'" "kexdh_comb_key ex put' ps (dp_pub pc) s = Inr s'"
  shows "same_secrets c' s' \<and> ses_dh_K c' = Some (DH_G_VAL ^ nat (dp_priv pc * dp_priv ps) mod p)"
proof -
  have ld: "load_dh_p s = Inr p" using assms(2,4,5,6) by (simp add: load_dh_p_def nn_def)
  have p: "0 < p"
    using assms(2,19) by (auto simp: kexdh_comb_key_def Let_def split: if_splits)
  note pc = gen_kexdh_param_post [OF assms(1,2) p assms(17)] and ps = gen_kexdh_param_post [OF assms(1) ld p assms(18)]
  have b: "0 \<le> dp_pub pc" "dp_pub pc \<le> p" "0 \<le> dp_pub ps" "dp_pub ps \<le> p"
    using pc ps p pos_mod_bound [OF p] by (simp_all add: less_imp_le)
  have K: "dp_pub ps ^ nat (dp_priv pc) mod p = DH_G_VAL ^ nat (dp_priv pc * dp_priv ps) mod p"
    "dp_pub pc ^ nat (dp_priv ps) mod p = DH_G_VAL ^ nat (dp_priv pc * dp_priv ps) mod p"
    using pc ps by (simp_all add: power_mod nat_mult_distrib mult.commute flip: power_mult)
  note c = postD [OF kexdh_comb_key_post [where put = put, OF assms(1,2,3,9,11,4,13) b(1,2)] assms(19)]
  note s = postD [OF kexdh_comb_key_post [where put = put', OF assms(1) ld assms(3,10,12,5,14) b(3,4)] assms(20)]
  have d: "derived c (DH_G_VAL ^ nat (dp_priv pc * dp_priv ps) mod p) (t @ ks @ (mpint_wire (dp_pub pc) @ mpint_wire (dp_pub ps))
       @ mpint_wire (DH_G_VAL ^ nat (dp_priv pc * dp_priv ps) mod p)) c'"
    "derived s (DH_G_VAL ^ nat (dp_priv pc * dp_priv ps) mod p) (t @ ks @ (mpint_wire (dp_pub pc) @ mpint_wire (dp_pub ps))
       @ mpint_wire (DH_G_VAL ^ nat (dp_priv pc * dp_priv ps) mod p)) s'"
    using c s pc ps assms(7,8) unfolding K Let_def by simp_all
  then show ?thesis
    using derived_agree [OF d assms(4,5,6,15,16)] by (auto simp: derived_def)
qed

section \<open>X25519\<close>

text \<open>
  What the multiplication on the curve promises: points of 32 bytes, and the same point for two
  scalars applied to the base point in either order.
\<close>

definition curve_law :: "scalarmult \<Rightarrow> bool" where
  "curve_law scalarmult \<longleftrightarrow> (\<forall>a p. length (scalarmult a p) = CURVE25519_LEN)
     \<and> (\<forall>a b. scalarmult a (scalarmult b basepoint) = scalarmult b (scalarmult a basepoint))"

lemma mp_from_ubin_bound: "0 \<le> mp_from_ubin bs \<and> mp_from_ubin bs < 256 ^ length bs"
proof -
  have "fold (\<lambda>b a. a * 256 + unat b) bs 0 < 256 ^ length bs"
  proof (induction bs rule: rev_induct)
    case (snoc b bs)
    have "unat b < 256" using unsigned_less [of b, where 'a = nat] by simp
    then have "fold (\<lambda>b a. a * 256 + unat b) bs 0 * 256 + unat b < 256 * 256 ^ length bs" using snoc by linarith
    then show ?case by simp
  qed simp
  then have "int (fold (\<lambda>b a. a * 256 + unat b) bs 0) < int (256 ^ length bs)" by (simp only: of_nat_less_iff)
  then show ?thesis by (simp add: mp_from_ubin_def)
qed

lemma mp_count_bits_bound: "0 \<le> m \<Longrightarrow> m < 2 ^ k \<Longrightarrow> mp_count_bits m \<le> k"
proof -
  have "nat_bits n \<le> k" if "n < 2 ^ k" for n k
    using that
  proof (induction n arbitrary: k rule: nat_bits.induct)
    case (1 n)
    show ?case
    proof (cases "n = 0")
      case False
      then obtain j where "k = Suc j" using 1(2) by (cases k) auto
      then show ?thesis using 1 False less_mult_imp_div_less [of n "2 ^ j" 2] by (simp add: nat_bits_pos)
    qed simp
  qed
  then show "0 \<le> m \<Longrightarrow> m < 2 ^ k \<Longrightarrow> mp_count_bits m \<le> k"
    by (simp add: mp_count_bits_def nat_less_iff)
qed

lemma writes_secret:
  assumes "length bs = CURVE25519_LEN"
  shows "writes (\<lambda>b. buf_putmpint b (mp_from_ubin bs)) (mpint_wire (mp_from_ubin bs))"
proof (rule writes_putmpint)
  have "(256::int) ^ 32 = 2 ^ 256" by simp
  then show "mp_count_bits (mp_from_ubin bs) < 4294967288"
    using mp_from_ubin_bound [of bs] assms mp_count_bits_bound [of "mp_from_ubin bs" 256] by (simp add: CURVE25519_LEN_def)
qed (simp add: mp_from_ubin_bound)

text \<open>A received string.\<close>

definition contains :: "buffer \<Rightarrow> byte list \<Rightarrow> bool" where
  "contains b bs \<longleftrightarrow> wf_buf b \<and> take (unat (b_len b)) (b_data b) = bs"

lemma writes_point:
  assumes "take CURVE25519_LEN xs = q" "length q = CURVE25519_LEN"
  shows "writes (\<lambda>b. buf_putstring b xs (of_nat CURVE25519_LEN)) (sstr q)"
  using writes_putstring [of "of_nat CURVE25519_LEN" xs] assms by (auto simp: sstr_def CURVE25519_LEN_def)

lemma kexcurve25519_comb_key_post:
  assumes "curve_law sm" "ses_kexhashbuf ses = Some h" "holds h bs"
    "ses_newkeys ses = Some nk" "writes (put (kc_algo_hostkey nk)) ks" "length (cp_pub param) = CURVE25519_LEN" "contains them q"
  shows "post (kexcurve25519_comb_key sm put param them ses) (\<lambda>s. let K = mp_from_ubin (sm (cp_priv param) q) in
     derived ses K (bs @ ks @ (if ses_isserver ses then sstr q @ sstr (cp_pub param) else sstr (cp_pub param) @ sstr q) @ mpint_wire K) s)"
proof (cases "unat (b_len them) = CURVE25519_LEN")
  case True
  let ?out = "sm (cp_priv param) q"
  let ?Q = "if ses_isserver ses then (b_data them, cp_pub param) else (cp_pub param, b_data them)"
  let ?q = "if ses_isserver ses then (q, cp_pub param) else (cp_pub param, q)"
  have q: "CURVE25519_LEN \<le> length (b_data them)" "take CURVE25519_LEN (b_data them) = q" "length q = CURVE25519_LEN"
    using assms(7) True wf_bufD [of them] by (auto simp: contains_def)
  have d: "post (kexcurve25519_derive sm param them) (\<lambda>out. out = ?out)"
    using True q by (simp add: kexcurve25519_derive_def mem_read_def Let_def post_def bindE_eq_Inr) blast
  have w: "writes (\<lambda>b. buf_putstring b (fst ?Q) (of_nat CURVE25519_LEN)) (sstr (fst ?q))"
      "writes (\<lambda>b. buf_putstring b (snd ?Q) (of_nat CURVE25519_LEN)) (sstr (snd ?q))"
    using q assms(6) by (simp_all add: writes_point)
  have k: "writes (\<lambda>b. buf_putmpint b (mp_from_ubin ?out)) (mpint_wire (mp_from_ubin ?out))"
    using assms(1) by (intro writes_secret) (simp add: curve_law_def)
  have r: "post (bindE (put (kc_algo_hostkey nk) h) (\<lambda>h. bindE (buf_putstring h (fst ?Q) (of_nat CURVE25519_LEN)) (\<lambda>h.
       bindE (buf_putstring h (snd ?Q) (of_nat CURVE25519_LEN)) (\<lambda>h. bindE (buf_putmpint h (mp_from_ubin ?out)) (\<lambda>h.
       finish_kexhashbuf (ses\<lparr>ses_dh_K := Some (mp_from_ubin ?out), ses_kexhashbuf := Some h\<rparr>))))))
     (derived ses (mp_from_ubin ?out) ((((bs @ ks) @ sstr (fst ?q)) @ sstr (snd ?q)) @ mpint_wire (mp_from_ubin ?out)))"
    by (rule post_writes [OF assms(3,5)], rule post_writes [OF _ w(1)], assumption, rule post_writes [OF _ w(2)],
        assumption, rule post_writes [OF _ k], assumption, rule finish_kexhashbuf_post)
  show ?thesis
    unfolding kexcurve25519_comb_key_def
  proof (rule post_bindE, rule post_weaken [OF d])
    fix out assume "out = ?out"
    then show "post (let dh_K = mp_from_ubin out;
         (Q_C, Q_S) = (if \<not> ses_isserver ses then (cp_pub param, b_data them) else (b_data them, cp_pub param)) in
       bindE (nn (ses_kexhashbuf ses)) (\<lambda>kexhashbuf.
       bindE (nn (ses_newkeys ses)) (\<lambda>nk.
       bindE (put (kc_algo_hostkey nk) kexhashbuf) (\<lambda>kexhashbuf.
       bindE (buf_putstring kexhashbuf Q_C (of_nat CURVE25519_LEN)) (\<lambda>kexhashbuf.
       bindE (buf_putstring kexhashbuf Q_S (of_nat CURVE25519_LEN)) (\<lambda>kexhashbuf.
       bindE (buf_putmpint kexhashbuf dh_K) (\<lambda>kexhashbuf.
       finish_kexhashbuf (ses\<lparr>ses_dh_K := Some dh_K, ses_kexhashbuf := Some kexhashbuf\<rparr>)))))))) (\<lambda>s. let K = mp_from_ubin ?out in
     derived ses K (bs @ ks @ (if ses_isserver ses then sstr q @ sstr (cp_pub param) else sstr (cp_pub param) @ sstr q) @ mpint_wire K) s)"
      using r assms(2,4) by (simp add: Let_def nn_def split: if_splits)
  qed
next
  case False
  then show ?thesis by (simp add: kexcurve25519_comb_key_def kexcurve25519_derive_def post_def)
qed

text \<open>
  C34. X25519 gives both sides the same secrets.  Client and server have hashed the same
  transcript, agree on the method and the bytes of the host key, and each combines its own
  parameters with the public value of the other.  Then they hold the same shared secret, exchange
  hash and session identifier.
\<close>

theorem x25519_secrets:
  assumes "curve_law sm"
    and "ses_newkeys c = Some nc" "ses_newkeys s = Some ns" "kc_algo_kex nc = kc_algo_kex ns" "\<not> ses_isserver c" "ses_isserver s"
    and "ses_kexhashbuf c = Some hc" "ses_kexhashbuf s = Some hs" "holds hc t" "holds hs t"
    and "writes (put (kc_algo_hostkey nc)) ks" "writes (put' (kc_algo_hostkey ns)) ks"
    and "ses_session_id c = ses_session_id s" "ses_dh_K_bytes c = ses_dh_K_bytes s"
    and "pc = gen_kexcurve25519_param sm gr" "ps = gen_kexcurve25519_param sm gr'" "contains qs (cp_pub ps)" "contains qc (cp_pub pc)"
    and "kexcurve25519_comb_key sm put pc qs c = Inr c'" "kexcurve25519_comb_key sm put' ps qc s = Inr s'"
  shows "same_secrets c' s' \<and> ses_dh_K c' = Some (mp_from_ubin (sm (cp_priv pc) (cp_pub ps)))"
proof -
  have l: "length (cp_pub pc) = CURVE25519_LEN" "length (cp_pub ps) = CURVE25519_LEN"
    using assms(1,15,16) by (simp_all add: gen_kexcurve25519_param_def Let_def curve_law_def)
  let ?K = "sm (cp_priv pc) (cp_pub ps)"
  have K: "sm (cp_priv ps) (cp_pub pc) = ?K"
    using assms(1,15,16) by (simp add: gen_kexcurve25519_param_def Let_def curve_law_def)
  note c = postD [OF kexcurve25519_comb_key_post [where put = put, OF assms(1,7,9,2,11) l(1) assms(17)] assms(19)]
  note s = postD [OF kexcurve25519_comb_key_post [where put = put', OF assms(1,8,10,3,12) l(2) assms(18)] assms(20)]
  have d: "derived c (mp_from_ubin ?K) (t @ ks @ (sstr (cp_pub pc) @ sstr (cp_pub ps)) @ mpint_wire (mp_from_ubin ?K)) c'"
    "derived s (mp_from_ubin ?K) (t @ ks @ (sstr (cp_pub pc) @ sstr (cp_pub ps)) @ mpint_wire (mp_from_ubin ?K)) s'"
    using c s assms(5,6) unfolding K Let_def by simp_all
  then show ?thesis using derived_agree [OF d assms(2,3,4,13,14)] by (auto simp: derived_def)
qed

section \<open>An exchange\<close>

definition secret_session :: "bool \<Rightarrow> sshsession" where
  "secret_session isserver = (agreed_session isserver)
     \<lparr>ses_newkeys := Some (agreed_keys\<lparr>kc_algo_kex := Some \<lparr>kx_mode = DROPBEAR_KEX_NORMAL_DH, kx_dh_p_bytes = [23], kx_hash_desc = dull_hash\<rparr>\<rparr>),
      ses_kexhashbuf := Some \<lparr>b_data = replicate 128 0, b_len = 0, b_pos = 0, b_size = 128\<rparr>, ses_session_id := None\<rparr>"

definition small_exptmod :: exptmod where
  "small_exptmod g x p = Some (g ^ nat x mod p)"

definition small_hostkey :: put_pub_key where
  "small_hostkey type b = buf_putbyte b 5"

lemma secret_session_fields:
  "ses_newkeys (secret_session srv) = Some (agreed_keys\<lparr>kc_algo_kex := Some \<lparr>kx_mode = DROPBEAR_KEX_NORMAL_DH, kx_dh_p_bytes = [23], kx_hash_desc = dull_hash\<rparr>\<rparr>)"
  "ses_isserver (secret_session srv) = srv" "ses_session_id (secret_session srv) = None"
  "ses_kexhashbuf (secret_session srv) = Some \<lparr>b_data = replicate 128 0, b_len = 0, b_pos = 0, b_size = 128\<rparr>"
  "ses_dh_K_bytes (secret_session srv) = ses_dh_K_bytes (secret_session srv')"
  by (simp_all add: secret_session_def agreed_session_def)

lemma secret_holds: "holds \<lparr>b_data = replicate 128 0, b_len = 0, b_pos = 0, b_size = 128\<rparr> []"
  by (simp add: holds_def written_def wf_buf_def BUF_MAX_SIZE_def)

lemma writes_small_hostkey: "writes (small_hostkey type) [5]"
  unfolding small_hostkey_def by (rule writes_calls(2))

lemma dh_completes:
  "gen_kexdh_param small_exptmod (\<lambda>_ n. replicate n 3) (secret_session False) = Inr \<lparr>dp_pub = 8, dp_priv = 3\<rparr>"
  "gen_kexdh_param small_exptmod (\<lambda>_ n. replicate n 5) (secret_session True) = Inr \<lparr>dp_pub = 9, dp_priv = 5\<rparr>"
  "isl (kexdh_comb_key small_exptmod small_hostkey \<lparr>dp_pub = 8, dp_priv = 3\<rparr> 9 (secret_session False)) = False"
  "isl (kexdh_comb_key small_exptmod small_hostkey \<lparr>dp_pub = 9, dp_priv = 5\<rparr> 8 (secret_session True)) = False"
  by code_simp+

theorem dh_secrets_witness:
  "\<exists>c' s'. kexdh_comb_key small_exptmod small_hostkey \<lparr>dp_pub = 8, dp_priv = 3\<rparr> 9 (secret_session False) = Inr c'
     \<and> kexdh_comb_key small_exptmod small_hostkey \<lparr>dp_pub = 9, dp_priv = 5\<rparr> 8 (secret_session True) = Inr s'
     \<and> same_secrets c' s' \<and> ses_dh_K c' = Some 16"
proof -
  note f = secret_session_fields and h = secret_holds and w = writes_small_hostkey and d = dh_completes
  obtain c' where c: "kexdh_comb_key small_exptmod small_hostkey \<lparr>dp_pub = 8, dp_priv = 3\<rparr> 9 (secret_session False) = Inr c'"
    using d(3) by (cases "kexdh_comb_key small_exptmod small_hostkey \<lparr>dp_pub = 8, dp_priv = 3\<rparr> 9 (secret_session False)") auto
  obtain s' where s: "kexdh_comb_key small_exptmod small_hostkey \<lparr>dp_pub = 9, dp_priv = 5\<rparr> 8 (secret_session True) = Inr s'"
    using d(4) by (cases "kexdh_comb_key small_exptmod small_hostkey \<lparr>dp_pub = 9, dp_priv = 5\<rparr> 8 (secret_session True)") auto
  have p: "power_law small_exptmod" by (simp add: power_law_def small_exptmod_def)
  have l: "load_dh_p (secret_session False) = Inr 23" by code_simp
  have m: "mp_count_bits 23 < 4294967288" using mp_count_bits_bound [of 23 5] by simp
  have i: "\<not> ses_isserver (secret_session False)" "ses_isserver (secret_session True)" "ses_session_id (secret_session False) = ses_session_id (secret_session True)"
    by (simp_all add: f)
  have pub: "dp_pub \<lparr>dp_pub = 9, dp_priv = 5\<rparr> = 9" "dp_pub \<lparr>dp_pub = 8, dp_priv = 3\<rparr> = 8" by simp_all
  from dh_secrets [OF p l m f(1) f(1) refl i(1,2) f(4) f(4) h h w w i(3) f(5) d(1,2), unfolded pub, OF c s]
  show ?thesis using c s by (simp add: DH_G_VAL_def)
qed

definition small_scalarmult :: scalarmult where
  "small_scalarmult a p = replicate 31 0 @ [last a XOR last p]"

definition small_param :: "byte \<Rightarrow> kex_curve25519_param" where
  "small_param b = gen_kexcurve25519_param small_scalarmult (\<lambda>n. replicate n b)"

definition point_buf :: "byte \<Rightarrow> buffer" where
  "point_buf b = buf_of (cp_pub (small_param b))"

lemma curve_law_small: "curve_law small_scalarmult"
  by (simp add: curve_law_def small_scalarmult_def CURVE25519_LEN_def basepoint_def xor.commute)

lemma x25519_completes:
  "isl (kexcurve25519_comb_key small_scalarmult small_hostkey (small_param 1) (point_buf 2) (secret_session False)) = False"
  "isl (kexcurve25519_comb_key small_scalarmult small_hostkey (small_param 2) (point_buf 1) (secret_session True)) = False"
  by code_simp+

theorem x25519_secrets_witness:
  "\<exists>c' s'. kexcurve25519_comb_key small_scalarmult small_hostkey (small_param 1) (point_buf 2) (secret_session False) = Inr c'
     \<and> kexcurve25519_comb_key small_scalarmult small_hostkey (small_param 2) (point_buf 1) (secret_session True) = Inr s'
     \<and> same_secrets c' s'"
proof -
  note f = secret_session_fields and h = secret_holds and w = writes_small_hostkey and d = x25519_completes
  obtain c' where c: "kexcurve25519_comb_key small_scalarmult small_hostkey (small_param 1) (point_buf 2) (secret_session False) = Inr c'"
    using d(1) by (cases "kexcurve25519_comb_key small_scalarmult small_hostkey (small_param 1) (point_buf 2) (secret_session False)") auto
  obtain s' where s: "kexcurve25519_comb_key small_scalarmult small_hostkey (small_param 2) (point_buf 1) (secret_session True) = Inr s'"
    using d(2) by (cases "kexcurve25519_comb_key small_scalarmult small_hostkey (small_param 2) (point_buf 1) (secret_session True)") auto
  have q: "contains (point_buf b) (cp_pub (small_param b))" for b
    by (simp add: contains_def point_buf_def buf_of_def wf_buf_def BUF_MAX_SIZE_def small_param_def gen_kexcurve25519_param_def Let_def small_scalarmult_def)
  have i: "\<not> ses_isserver (secret_session False)" "ses_isserver (secret_session True)" "ses_session_id (secret_session False) = ses_session_id (secret_session True)"
    by (simp_all add: f)
  from x25519_secrets [OF curve_law_small f(1) f(1) refl i(1,2) f(4) f(4) h h w w i(3) f(5) small_param_def small_param_def q q c s]
  show ?thesis using c s by simp
qed

end
