(* ===== verification/Channel.thy ===== *)
theory Channel
  imports Process_Packet
begin

text \<open>
  The channels of the connection protocol, \<open>src/src/common-channel.c\<close>.  A pointer to a channel
  is its slot in \<open>ses.channels\<close>; following it when the slot is empty is a fault, as is
  using it after \<open>remove_channel\<close>.  The functions of a channel type, the option
  \<open>opts.recv_window\<close> and the calls to the kernel are arguments, together in the record \<open>chanenv\<close>:
  what \<open>writev\<close> and \<open>read\<close> do with a file descriptor, whether \<open>select\<close> finds data on it,
  and whether \<open>close\<close> works.  \<open>cancel_connect\<close>, \<open>shutdown\<close> and \<open>setnonblocking\<close>
  change nothing that is modelled.
\<close>

section \<open>Definitions\<close>

definition FD_UNINIT :: int where "FD_UNINIT = -2"
definition FD_CLOSED :: int where "FD_CLOSED = -1"
definition STDOUT_FILENO :: int where "STDOUT_FILENO = 1"
definition SHUT_RD :: nat where "SHUT_RD = 0"
definition SHUT_WR :: nat where "SHUT_WR = 1"
definition SHUT_RDWR :: nat where "SHUT_RDWR = 2"
definition RECV_MAX_CHANNEL_DATA_LEN :: u32 where "RECV_MAX_CHANNEL_DATA_LEN = RECV_MAX_PAYLOAD_LEN - (1 + 4 + 4)"
definition CHAN_EXTEND_SIZE :: nat where "CHAN_EXTEND_SIZE = 3"
definition MAX_CHANNELS :: nat where "MAX_CHANNELS = 1000"
definition SSH_OPEN_CONNECT_FAILED :: int where "SSH_OPEN_CONNECT_FAILED = 2"
definition SSH_OPEN_UNKNOWN_CHANNEL_TYPE :: int where "SSH_OPEN_UNKNOWN_CHANNEL_TYPE = 3"
definition SSH_OPEN_RESOURCE_SHORTAGE :: int where "SSH_OPEN_RESOURCE_SHORTAGE = 4"
definition SSH_OPEN_IN_PROGRESS :: int where "SSH_OPEN_IN_PROGRESS = 99"
definition SSH_EXTENDED_DATA_STDERR :: u32 where "SSH_EXTENDED_DATA_STDERR = 1"

text \<open>\<open>struct ChanType\<close>; a function that may be \<open>NULL\<close> is an option.\<close>

record ChanType =
  ct_inithandler :: "(nat \<Rightarrow> sshsession \<Rightarrow> (int \<times> sshsession) res) option"
  ct_check_close :: "(nat \<Rightarrow> sshsession \<Rightarrow> (bool \<times> sshsession) res) option"
  ct_reqhandler :: "(nat \<Rightarrow> sshsession \<Rightarrow> sshsession res) option"
  ct_closehandler :: "(nat \<Rightarrow> sshsession \<Rightarrow> sshsession res) option"
  ct_cleanup :: "(nat \<Rightarrow> sshsession \<Rightarrow> sshsession res) option"

text \<open>Outcomes of \<open>read\<close>: data, none for end of file; \<open>EINTR\<close>; another error, \<open>EAGAIN\<close> included.\<close>

datatype fd_read = Fd_data "byte list" | Fd_eintr | Fd_error

record chanenv =
  cn_env :: env
  cn_recv_window :: u32
  cn_type :: "string \<Rightarrow> ChanType"
  cn_writev :: "int \<Rightarrow> byte list \<Rightarrow> io_write"
  cn_read :: "int \<Rightarrow> u32 \<Rightarrow> fd_read"
  cn_read_pending :: "int \<Rightarrow> bool"
  cn_close :: "int \<Rightarrow> bool"

definition RECV_WINDOWEXTEND :: "chanenv \<Rightarrow> u32" where
  "RECV_WINDOWEXTEND cv = cn_recv_window cv div 3"

text \<open>Following a channel pointer, and writing to the channel it points to.\<close>

definition chan :: "sshsession \<Rightarrow> nat \<Rightarrow> Channel res" where
  "chan ses i = (if i < length (ses_channels ses) then nn (ses_channels ses ! i) else Inl Mem_fault)"

definition set_chan :: "nat \<Rightarrow> Channel \<Rightarrow> sshsession \<Rightarrow> sshsession" where
  "set_chan i c ses = ses\<lparr>ses_channels := (ses_channels ses)[i := Some c]\<rparr>"

definition ERRFD_IS_READ :: "Channel \<Rightarrow> bool" where
  "ERRFD_IS_READ c \<longleftrightarrow> ch_extrabuf c = None"

definition ERRFD_IS_WRITE :: "Channel \<Rightarrow> bool" where
  "ERRFD_IS_WRITE c \<longleftrightarrow> \<not> ERRFD_IS_READ c"

text \<open>\<open>m_close\<close> of \<open>dbutil.c\<close>.\<close>

definition m_close :: "chanenv \<Rightarrow> int \<Rightarrow> unit res" where
  "m_close cv fd = (if fd < 0 then returnE () else if cn_close cv fd then returnE () else dropbear_exit ''Error closing fd'')"

text \<open>Reading a number from the packet at hand.\<close>

definition payload_int :: "sshsession \<Rightarrow> (u32 \<times> sshsession) res" where
  "payload_int ses =
     bindE (nn (ses_payload ses)) (\<lambda>p.
     bindE (buf_getint p) (\<lambda>(v, p). returnE (v, ses\<lparr>ses_payload := Some p\<rparr>)))"

subsection \<open>The table of channels\<close>

definition chaninitialise :: "string list \<Rightarrow> sshsession \<Rightarrow> sshsession" where
  "chaninitialise chantypes ses = ses\<lparr>ses_channels := [None], ses_chancount := 0, ses_chantypes := chantypes\<rparr>"

fun free_slot :: "Channel option list \<Rightarrow> nat" where
  "free_slot [] = 0"
| "free_slot (c # cs) = (if c = None then 0 else Suc (free_slot cs))"

definition newchannel :: "chanenv \<Rightarrow> u32 \<Rightarrow> string \<Rightarrow> u32 \<Rightarrow> u32 \<Rightarrow> sshsession \<Rightarrow> (nat option \<times> sshsession) res" where
  "newchannel cv remotechan type transwindow transmaxpacket ses =
     (let i = free_slot (ses_channels ses) in
      if i = length (ses_channels ses) \<and> length (ses_channels ses) \<ge> MAX_CHANNELS then returnE (None, ses)
      else
        let channels = (if i = length (ses_channels ses) then ses_channels ses @ replicate CHAN_EXTEND_SIZE None else ses_channels ses) in
        bindE (cbuf_new (cn_recv_window cv)) (\<lambda>writebuf.
        let newchan = \<lparr>ch_index = of_nat i, ch_remotechan = remotechan, ch_recvwindow = cn_recv_window cv,
              ch_transwindow = transwindow, ch_recvdonelen = 0, ch_recvmaxpacket = RECV_MAX_CHANNEL_DATA_LEN,
              ch_transmaxpacket = transmaxpacket, ch_typedata = None, ch_writefd = FD_UNINIT, ch_readfd = FD_UNINIT,
              ch_errfd = FD_CLOSED, ch_bidir_fd = False, ch_writebuf = Some writebuf, ch_extrabuf = None,
              ch_sent_close = False, ch_recv_close = False, ch_recv_eof = False, ch_sent_eof = False, ch_flushing = False,
              ch_conn_pending = None, ch_initconn = False, ch_await_open = False, ch_read_mangler = None, ch_type = type,
              ch_prio = DROPBEAR_PRIO_NORMAL\<rparr> in
        returnE (Some i, ses\<lparr>ses_channels := channels[i := Some newchan], ses_chancount := ses_chancount ses + 1\<rparr>)))"

definition getchannel_msg :: "string \<Rightarrow> sshsession \<Rightarrow> (nat \<times> sshsession) res" where
  "getchannel_msg msg ses =
     bindE (payload_int ses) (\<lambda>(ch, ses).
     if unat ch \<ge> length (ses_channels ses) \<or> ses_channels ses ! unat ch = None then dropbear_exit msg
     else returnE (unat ch, ses))"

definition getchannel :: "sshsession \<Rightarrow> (nat \<times> sshsession) res" where
  "getchannel ses = getchannel_msg ''Unknown channel'' ses"

text \<open>The priority \<open>update_channel_prio\<close> of \<open>common-session.c\<close> gives the socket.\<close>

definition update_channel_prio :: "sshsession \<Rightarrow> dropbear_prio" where
  "update_channel_prio ses =
     (let open_chans = filter (\<lambda>c. c \<noteq> None) (ses_channels ses) in
      if open_chans = [] \<or> list_ex (\<lambda>c. map_option ch_prio c = Some DROPBEAR_PRIO_LOWDELAY) open_chans
      then DROPBEAR_PRIO_LOWDELAY else DROPBEAR_PRIO_NORMAL)"

subsection \<open>Messages\<close>

definition send_msg_channel_eof :: "chanenv \<Rightarrow> nat \<Rightarrow> sshsession \<Rightarrow> sshsession res" where
  "send_msg_channel_eof cv i ses =
     bindE (chan ses i) (\<lambda>c.
     bindE (buf_putbyte (ses_writepayload ses) SSH_MSG_CHANNEL_EOF) (\<lambda>wp.
     bindE (buf_putint wp (ch_remotechan c)) (\<lambda>wp.
     bindE (encrypt_packet (cn_env cv) (ses\<lparr>ses_writepayload := wp\<rparr>)) (\<lambda>ses.
     bindE (chan ses i) (\<lambda>c. returnE (set_chan i (c\<lparr>ch_sent_eof := True\<rparr>) ses))))))"

definition send_msg_channel_window_adjust :: "chanenv \<Rightarrow> nat \<Rightarrow> u32 \<Rightarrow> sshsession \<Rightarrow> sshsession res" where
  "send_msg_channel_window_adjust cv i incr ses =
     bindE (chan ses i) (\<lambda>c.
     bindE (buf_putbyte (ses_writepayload ses) SSH_MSG_CHANNEL_WINDOW_ADJUST) (\<lambda>wp.
     bindE (buf_putint wp (ch_remotechan c)) (\<lambda>wp.
     bindE (buf_putint wp incr) (\<lambda>wp.
     encrypt_packet (cn_env cv) (ses\<lparr>ses_writepayload := wp\<rparr>)))))"

definition send_msg_channel_failure :: "chanenv \<Rightarrow> nat \<Rightarrow> sshsession \<Rightarrow> sshsession res" where
  "send_msg_channel_failure cv i ses =
     bindE (chan ses i) (\<lambda>c.
     if ch_sent_close c then returnE ses
     else
       bindE (buf_putbyte (ses_writepayload ses) SSH_MSG_CHANNEL_FAILURE) (\<lambda>wp.
       bindE (buf_putint wp (ch_remotechan c)) (\<lambda>wp.
       encrypt_packet (cn_env cv) (ses\<lparr>ses_writepayload := wp\<rparr>))))"

definition send_msg_channel_success :: "chanenv \<Rightarrow> nat \<Rightarrow> sshsession \<Rightarrow> sshsession res" where
  "send_msg_channel_success cv i ses =
     bindE (chan ses i) (\<lambda>c.
     if ch_sent_close c then returnE ses
     else
       bindE (buf_putbyte (ses_writepayload ses) SSH_MSG_CHANNEL_SUCCESS) (\<lambda>wp.
       bindE (buf_putint wp (ch_remotechan c)) (\<lambda>wp.
       encrypt_packet (cn_env cv) (ses\<lparr>ses_writepayload := wp\<rparr>))))"

definition send_msg_channel_open_failure :: "chanenv \<Rightarrow> u32 \<Rightarrow> int \<Rightarrow> byte list \<Rightarrow> byte list \<Rightarrow> sshsession \<Rightarrow> sshsession res" where
  "send_msg_channel_open_failure cv remotechan reason txt lang ses =
     bindE (buf_putbyte (ses_writepayload ses) SSH_MSG_CHANNEL_OPEN_FAILURE) (\<lambda>wp.
     bindE (buf_putint wp remotechan) (\<lambda>wp.
     bindE (buf_putint wp (of_int reason)) (\<lambda>wp.
     bindE (buf_putstring wp txt (of_nat (length txt))) (\<lambda>wp.
     bindE (buf_putstring wp lang (of_nat (length lang))) (\<lambda>wp.
     encrypt_packet (cn_env cv) (ses\<lparr>ses_writepayload := wp\<rparr>))))))"

definition send_msg_channel_open_confirmation :: "chanenv \<Rightarrow> nat \<Rightarrow> u32 \<Rightarrow> u32 \<Rightarrow> sshsession \<Rightarrow> sshsession res" where
  "send_msg_channel_open_confirmation cv i recvwindow recvmaxpacket ses =
     bindE (chan ses i) (\<lambda>c.
     bindE (buf_putbyte (ses_writepayload ses) SSH_MSG_CHANNEL_OPEN_CONFIRMATION) (\<lambda>wp.
     bindE (buf_putint wp (ch_remotechan c)) (\<lambda>wp.
     bindE (buf_putint wp (ch_index c)) (\<lambda>wp.
     bindE (buf_putint wp recvwindow) (\<lambda>wp.
     bindE (buf_putint wp recvmaxpacket) (\<lambda>wp.
     encrypt_packet (cn_env cv) (ses\<lparr>ses_writepayload := wp\<rparr>)))))))"

definition send_msg_request_success :: "chanenv \<Rightarrow> sshsession \<Rightarrow> sshsession res" where
  "send_msg_request_success cv ses =
     bindE (buf_putbyte (ses_writepayload ses) SSH_MSG_REQUEST_SUCCESS) (\<lambda>wp.
     encrypt_packet (cn_env cv) (ses\<lparr>ses_writepayload := wp\<rparr>))"

definition send_msg_request_failure :: "chanenv \<Rightarrow> sshsession \<Rightarrow> sshsession res" where
  "send_msg_request_failure cv ses =
     bindE (buf_putbyte (ses_writepayload ses) SSH_MSG_REQUEST_FAILURE) (\<lambda>wp.
     encrypt_packet (cn_env cv) (ses\<lparr>ses_writepayload := wp\<rparr>))"

definition start_send_channel_request :: "nat \<Rightarrow> byte list \<Rightarrow> sshsession \<Rightarrow> sshsession res" where
  "start_send_channel_request i type ses =
     bindE (chan ses i) (\<lambda>c.
     bindE (buf_putbyte (ses_writepayload ses) SSH_MSG_CHANNEL_REQUEST) (\<lambda>wp.
     bindE (buf_putint wp (ch_remotechan c)) (\<lambda>wp.
     bindE (buf_putstring wp type (of_nat (length type))) (\<lambda>wp.
     returnE (ses\<lparr>ses_writepayload := wp\<rparr>)))))"

subsection \<open>Closing\<close>

text \<open>The assignments of \<open>close_chan_fd\<close>: \<open>closein\<close> and \<open>closeout\<close> are its flags.\<close>

definition mark_closed :: "bool \<Rightarrow> bool \<Rightarrow> int \<Rightarrow> Channel \<Rightarrow> Channel" where
  "mark_closed closein closeout fd c =
     (let c = (if closeout \<and> fd = ch_readfd c then c\<lparr>ch_readfd := FD_CLOSED\<rparr> else c);
          c = (if closeout \<and> ERRFD_IS_READ c \<and> fd = ch_errfd c then c\<lparr>ch_errfd := FD_CLOSED\<rparr> else c);
          c = (if closein \<and> fd = ch_writefd c then c\<lparr>ch_writefd := FD_CLOSED\<rparr> else c);
          c = (if closein \<and> ERRFD_IS_WRITE c \<and> fd = ch_errfd c then c\<lparr>ch_errfd := FD_CLOSED\<rparr> else c) in
      c)"

definition close_chan_fd :: "chanenv \<Rightarrow> nat \<Rightarrow> int \<Rightarrow> nat \<Rightarrow> sshsession \<Rightarrow> sshsession res" where
  "close_chan_fd cv i fd how ses =
     bindE (chan ses i) (\<lambda>c.
     bindE (if ch_bidir_fd c then returnE () else m_close cv fd) (\<lambda>_.
     let c = mark_closed (ch_bidir_fd c \<longrightarrow> how \<noteq> 0) (ch_bidir_fd c \<longrightarrow> how = 0) fd c in
     bindE (if ch_bidir_fd c \<and> ch_readfd c = FD_CLOSED \<and> ch_writefd c = FD_CLOSED \<and> ch_errfd c = FD_CLOSED
            then m_close cv fd else returnE ()) (\<lambda>_.
     returnE (set_chan i c ses))))"

definition call_handler :: "(nat \<Rightarrow> sshsession \<Rightarrow> sshsession res) option \<Rightarrow> nat \<Rightarrow> sshsession \<Rightarrow> sshsession res" where
  "call_handler h i ses = (case h of None \<Rightarrow> returnE ses | Some f \<Rightarrow> f i ses)"

definition send_msg_channel_close :: "chanenv \<Rightarrow> nat \<Rightarrow> sshsession \<Rightarrow> sshsession res" where
  "send_msg_channel_close cv i ses =
     bindE (chan ses i) (\<lambda>c.
     bindE (call_handler (ct_closehandler (cn_type cv (ch_type c))) i ses) (\<lambda>ses.
     bindE (chan ses i) (\<lambda>c.
     bindE (buf_putbyte (ses_writepayload ses) SSH_MSG_CHANNEL_CLOSE) (\<lambda>wp.
     bindE (buf_putint wp (ch_remotechan c)) (\<lambda>wp.
     bindE (encrypt_packet (cn_env cv) (ses\<lparr>ses_writepayload := wp\<rparr>)) (\<lambda>ses.
     bindE (chan ses i) (\<lambda>c.
     let c = c\<lparr>ch_sent_eof := True, ch_sent_close := True\<rparr> in
     bindE (close_chan_fd cv i (ch_readfd c) SHUT_RD (set_chan i c ses)) (\<lambda>ses.
     bindE (chan ses i) (\<lambda>c.
     bindE (close_chan_fd cv i (ch_errfd c) SHUT_RDWR ses) (\<lambda>ses.
     bindE (chan ses i) (\<lambda>c.
     close_chan_fd cv i (ch_writefd c) SHUT_WR ses)))))))))))"

definition remove_channel :: "chanenv \<Rightarrow> nat \<Rightarrow> sshsession \<Rightarrow> sshsession res" where
  "remove_channel cv i ses =
     bindE (chan ses i) (\<lambda>c.
     bindE (nn (ch_writebuf c)) (\<lambda>_.
     let c = c\<lparr>ch_writebuf := None, ch_extrabuf := None\<rparr>; ses = set_chan i c ses in
     bindE (if ses_isserver ses \<or> ch_writefd c \<noteq> STDOUT_FILENO
            then bindE (m_close cv (ch_writefd c)) (\<lambda>_. bindE (m_close cv (ch_readfd c)) (\<lambda>_. m_close cv (ch_errfd c)))
            else returnE ()) (\<lambda>_.
     bindE (call_handler (ct_cleanup (cn_type cv (ch_type c))) i ses) (\<lambda>ses.
     bindE (chan ses i) (\<lambda>c.
     if unat (ch_index c) < length (ses_channels ses)
     then returnE (ses\<lparr>ses_channels := (ses_channels ses)[unat (ch_index c) := None], ses_chancount := ses_chancount ses - 1\<rparr>)
     else Inl Mem_fault)))))"

definition cbuf_pending :: "circbuffer option \<Rightarrow> bool res" where
  "cbuf_pending cbuf = bindE (nn cbuf) (\<lambda>cbuf. returnE (cbuf_getused cbuf > 0))"

definition write_pending :: "Channel \<Rightarrow> bool res" where
  "write_pending c =
     bindE (if ch_writefd c \<ge> 0 then cbuf_pending (ch_writebuf c) else returnE False) (\<lambda>p.
     if p then returnE True
     else if ch_errfd c \<ge> 0 \<and> ch_extrabuf c \<noteq> None then cbuf_pending (ch_extrabuf c) else returnE False)"

text \<open>The parts of \<open>check_close\<close>, in its order.\<close>

definition close_allowed :: "chanenv \<Rightarrow> nat \<Rightarrow> sshsession \<Rightarrow> (bool \<times> sshsession) res" where
  "close_allowed cv i ses =
     bindE (chan ses i) (\<lambda>c.
     case ct_check_close (cn_type cv (ch_type c)) of
       None \<Rightarrow> returnE (True, ses)
     | Some check \<Rightarrow> if ch_sent_close c then returnE (True, ses) else check i ses)"

definition flush_fds :: "chanenv \<Rightarrow> nat \<Rightarrow> sshsession \<Rightarrow> sshsession res" where
  "flush_fds cv i ses =
     bindE (chan ses i) (\<lambda>c.
     if \<not> ch_flushing c then returnE ses
     else
       bindE (if ch_readfd c \<ge> 0 \<and> \<not> cn_read_pending cv (ch_readfd c)
              then close_chan_fd cv i (ch_readfd c) SHUT_RD ses else returnE ses) (\<lambda>ses.
       bindE (chan ses i) (\<lambda>c.
       if ERRFD_IS_READ c \<and> ch_errfd c \<ge> 0 \<and> \<not> cn_read_pending cv (ch_errfd c)
       then close_chan_fd cv i (ch_errfd c) SHUT_RD ses else returnE ses)))"

definition close_write_end :: "chanenv \<Rightarrow> bool \<Rightarrow> nat \<Rightarrow> sshsession \<Rightarrow> sshsession res" where
  "close_write_end cv allowed i ses =
     bindE (chan ses i) (\<lambda>c.
     bindE (if ch_recv_eof c then bindE (write_pending c) (\<lambda>p. returnE (\<not> p)) else returnE False) (\<lambda>eof.
     if eof \<or> (ch_writefd c \<noteq> FD_UNINIT \<and> ct_check_close (cn_type cv (ch_type c)) \<noteq> None \<and> allowed)
     then close_chan_fd cv i (ch_writefd c) SHUT_WR ses else returnE ses))"

definition maybe_send_eof :: "chanenv \<Rightarrow> nat \<Rightarrow> sshsession \<Rightarrow> sshsession res" where
  "maybe_send_eof cv i ses =
     bindE (chan ses i) (\<lambda>c.
     if \<not> ch_sent_eof c \<and> ch_readfd c = FD_CLOSED \<and> (ERRFD_IS_WRITE c \<or> ch_errfd c = FD_CLOSED)
     then send_msg_channel_eof cv i ses else returnE ses)"

definition maybe_send_close :: "chanenv \<Rightarrow> bool \<Rightarrow> nat \<Rightarrow> sshsession \<Rightarrow> sshsession res" where
  "maybe_send_close cv allowed i ses =
     bindE (chan ses i) (\<lambda>c.
     if ch_readfd c = FD_CLOSED \<and> ch_writefd c = FD_CLOSED \<and> (ERRFD_IS_WRITE c \<or> ch_errfd c = FD_CLOSED)
        \<and> \<not> ch_sent_close c \<and> allowed
     then bindE (write_pending c) (\<lambda>p. if \<not> p then send_msg_channel_close cv i ses else returnE ses)
     else returnE ses)"

definition check_close :: "chanenv \<Rightarrow> nat \<Rightarrow> sshsession \<Rightarrow> sshsession res" where
  "check_close cv i ses =
     bindE (close_allowed cv i ses) (\<lambda>(allowed, ses).
     bindE (flush_fds cv i ses) (\<lambda>ses.
     bindE (chan ses i) (\<lambda>c.
     bindE (if ch_recv_close c then bindE (write_pending c) (\<lambda>p. returnE (\<not> p \<and> allowed)) else returnE False) (\<lambda>done.
     if done then
       bindE (if \<not> ch_sent_close c then send_msg_channel_close cv i ses else returnE ses) (\<lambda>ses.
       remove_channel cv i ses)
     else
       bindE (close_write_end cv allowed i ses) (\<lambda>ses.
       bindE (maybe_send_eof cv i ses) (\<lambda>ses.
       maybe_send_close cv allowed i ses))))))"

subsection \<open>Data from the other side\<close>

text \<open>Which of its two pairs of descriptor and buffer a function is called with.\<close>

datatype chan_out = Writebuf | Extrabuf

definition out_buf :: "chan_out \<Rightarrow> Channel \<Rightarrow> circbuffer option" where
  "out_buf w c = (case w of Writebuf \<Rightarrow> ch_writebuf c | Extrabuf \<Rightarrow> ch_extrabuf c)"

definition out_fd :: "chan_out \<Rightarrow> Channel \<Rightarrow> int" where
  "out_fd w c = (case w of Writebuf \<Rightarrow> ch_writefd c | Extrabuf \<Rightarrow> ch_errfd c)"

definition set_out_buf :: "chan_out \<Rightarrow> circbuffer \<Rightarrow> Channel \<Rightarrow> Channel" where
  "set_out_buf w b c = (case w of Writebuf \<Rightarrow> c\<lparr>ch_writebuf := Some b\<rparr> | Extrabuf \<Rightarrow> c\<lparr>ch_extrabuf := Some b\<rparr>)"

text \<open>
  \<open>writechannel_writev\<close>: the return code, the number of bytes of \<open>moredata\<close> taken, and the session.
  Without \<open>moredata\<close> the number is 0.
\<close>

definition writechannel_writev :: "chanenv \<Rightarrow> nat \<Rightarrow> int \<Rightarrow> chan_out \<Rightarrow> byte list option \<Rightarrow> sshsession \<Rightarrow> (ret_code \<times> nat \<times> sshsession) res" where
  "writechannel_writev cv i fd w moredata ses =
     bindE (chan ses i) (\<lambda>c.
     bindE (nn (out_buf w c)) (\<lambda>cbuf.
     bindE (cbuf_peek cbuf) (\<lambda>circ.
     if circ = [] \<and> moredata = None then returnE (DROPBEAR_SUCCESS, 0, ses)
     else
       case cn_writev cv fd (circ @ (case moredata of None \<Rightarrow> [] | Some m \<Rightarrow> m)) of
         Wr_error \<Rightarrow> bindE (close_chan_fd cv i fd SHUT_WR ses) (\<lambda>ses. returnE (DROPBEAR_FAILURE, 0, ses))
       | Wr_again \<Rightarrow> returnE (DROPBEAR_SUCCESS, 0, ses)
       | Wr n \<Rightarrow>
           let cbuf_written = min (length circ) n in
           bindE (cbuf_incrread cbuf (of_nat cbuf_written)) (\<lambda>cbuf.
           returnE (DROPBEAR_SUCCESS, case moredata of None \<Rightarrow> 0 | Some _ \<Rightarrow> n - cbuf_written,
             set_chan i ((set_out_buf w cbuf c)\<lparr>ch_recvdonelen := ch_recvdonelen c + of_nat n\<rparr>) ses)))))"

definition writechannel :: "chanenv \<Rightarrow> nat \<Rightarrow> int \<Rightarrow> chan_out \<Rightarrow> byte list option \<Rightarrow> sshsession \<Rightarrow> (ret_code \<times> nat \<times> sshsession) res" where
  "writechannel cv i fd w moredata ses =
     bindE (writechannel_writev cv i fd w moredata ses) (\<lambda>(ret, consumed, ses).
     bindE (chan ses i) (\<lambda>c.
     bindE (if ch_recvdonelen c \<ge> RECV_WINDOWEXTEND cv then
              bindE (send_msg_channel_window_adjust cv i (ch_recvdonelen c) ses) (\<lambda>ses.
              bindE (chan ses i) (\<lambda>c.
              returnE (set_chan i (c\<lparr>ch_recvwindow := ch_recvwindow c + ch_recvdonelen c, ch_recvdonelen := 0\<rparr>) ses)))
            else returnE ses) (\<lambda>ses.
     bindE (chan ses i) (\<lambda>c.
     bindE (dropbear_assert (ch_recvwindow c \<le> cn_recv_window cv) ''channel->recvwindow <= opts.recv_window'') (\<lambda>_.
     bindE (nn (ch_writebuf c)) (\<lambda>writebuf.
     bindE (dropbear_assert (ch_recvwindow c \<le> cbuf_getavail writebuf) ''channel->recvwindow <= cbuf_getavail(channel->writebuf)'') (\<lambda>_.
     bindE (dropbear_assert (case ch_extrabuf c of None \<Rightarrow> True | Some extrabuf \<Rightarrow> ch_recvwindow c \<le> cbuf_getavail extrabuf)
              ''channel->extrabuf == NULL || channel->recvwindow <= cbuf_getavail(channel->extrabuf)'') (\<lambda>_.
     returnE (ret, consumed, ses)))))))))"

text \<open>The loop that stores what could not be written: one piece, then all of them.\<close>

definition store_piece :: "circbuffer \<Rightarrow> buffer \<Rightarrow> u32 \<Rightarrow> (circbuffer \<times> buffer \<times> u32) res" where
  "store_piece cbuf payload l =
     bindE (cbuf_writelen cbuf) (\<lambda>buflen.
     let buflen = min buflen l in
     bindE (buf_getptr payload buflen) (\<lambda>p.
     bindE (mem_read (b_data payload) p (unat buflen)) (\<lambda>bs.
     bindE (cbuf_write cbuf bs) (\<lambda>cbuf.
     bindE (buf_incrpos payload buflen) (\<lambda>payload.
     returnE (cbuf, payload, l - buflen))))))"

partial_function (option) store_loop :: "circbuffer \<Rightarrow> buffer \<Rightarrow> u32 \<Rightarrow> (circbuffer \<times> buffer) res option" where
  "store_loop cbuf payload l =
     (if l = 0 then Some (Inr (cbuf, payload))
      else case store_piece cbuf payload l of
             Inl e \<Rightarrow> Some (Inl e)
           | Inr (cbuf, payload, l) \<Rightarrow> store_loop cbuf payload l)"

declare store_loop.simps [code]

text \<open>What \<open>common_recv_msg_channel_data\<close> does after the call of \<open>writechannel\<close>.\<close>

definition store_received :: "nat \<Rightarrow> chan_out \<Rightarrow> u32 \<Rightarrow> buffer \<Rightarrow> ret_code \<Rightarrow> nat \<Rightarrow> sshsession \<Rightarrow> sshsession res" where
  "store_received i w datalen payload res consumed ses =
     bindE (buf_incrpos payload (of_nat consumed)) (\<lambda>payload.
     if res = DROPBEAR_SUCCESS then
       bindE (chan ses i) (\<lambda>c.
       bindE (nn (out_buf w c)) (\<lambda>cbuf.
       case store_loop cbuf payload (datalen - of_nat consumed) of
         None \<Rightarrow> Inl Diverge
       | Some r \<Rightarrow> bindE r (\<lambda>(cbuf, payload). returnE (set_chan i (set_out_buf w cbuf c) (ses\<lparr>ses_payload := Some payload\<rparr>)))))
     else returnE (ses\<lparr>ses_payload := Some payload\<rparr>))"

definition common_recv_msg_channel_data :: "chanenv \<Rightarrow> nat \<Rightarrow> chan_out \<Rightarrow> sshsession \<Rightarrow> sshsession res" where
  "common_recv_msg_channel_data cv i w ses =
     bindE (chan ses i) (\<lambda>c.
     let fd = out_fd w c in
     if ch_recv_eof c then dropbear_exit ''Received data after eof''
     else if fd < 0 \<or> out_buf w c = None then returnE ses
     else
       bindE (payload_int ses) (\<lambda>(datalen, ses).
       bindE (nn (out_buf w c)) (\<lambda>cbuf.
       if datalen > cbuf_getavail cbuf then dropbear_exit ''Oversized packet''
       else
         bindE (dropbear_assert (ch_recvwindow c \<ge> datalen) ''channel->recvwindow >= datalen'') (\<lambda>_.
         let c = c\<lparr>ch_recvwindow := ch_recvwindow c - datalen\<rparr> in
         bindE (dropbear_assert (ch_recvwindow c \<le> cn_recv_window cv) ''channel->recvwindow <= opts.recv_window'') (\<lambda>_.
         bindE (nn (ses_payload ses)) (\<lambda>payload.
         bindE (buf_getptr payload datalen) (\<lambda>p.
         bindE (mem_read (b_data payload) p (unat datalen)) (\<lambda>moredata.
         bindE (writechannel cv i fd w (Some moredata) (set_chan i c ses)) (\<lambda>(res, consumed, ses).
         store_received i w datalen payload res consumed ses)))))))))"

definition recv_msg_channel_data :: "chanenv \<Rightarrow> sshsession \<Rightarrow> sshsession res" where
  "recv_msg_channel_data cv ses =
     bindE (getchannel ses) (\<lambda>(i, ses). common_recv_msg_channel_data cv i Writebuf ses)"

definition recv_msg_channel_extended_data :: "chanenv \<Rightarrow> sshsession \<Rightarrow> sshsession res" where
  "recv_msg_channel_extended_data cv ses =
     bindE (getchannel ses) (\<lambda>(i, ses).
     bindE (chan ses i) (\<lambda>c.
     if ch_type c \<noteq> ''session'' then returnE ses
     else
       bindE (payload_int ses) (\<lambda>(dtype, ses).
       if dtype \<noteq> SSH_EXTENDED_DATA_STDERR then returnE ses
       else common_recv_msg_channel_data cv i Extrabuf ses)))"

subsection \<open>Data to the other side\<close>

definition reset_writepayload :: "sshsession \<Rightarrow> sshsession res" where
  "reset_writepayload ses =
     bindE (buf_setpos (ses_writepayload ses) 0) (\<lambda>wp.
     bindE (buf_setlen wp 0) (\<lambda>wp. returnE (ses\<lparr>ses_writepayload := wp\<rparr>)))"

text \<open>The length of the data after the optional \<open>read_mangler\<close> has seen it.\<close>

definition mangled_len :: "Channel \<Rightarrow> byte list \<Rightarrow> int" where
  "mangled_len c bs = (case ch_read_mangler c of None \<Rightarrow> int (length bs) | Some f \<Rightarrow> f bs)"

definition send_msg_channel_data :: "chanenv \<Rightarrow> nat \<Rightarrow> bool \<Rightarrow> sshsession \<Rightarrow> sshsession res" where
  "send_msg_channel_data cv i isextended ses =
     bindE (chan ses i) (\<lambda>c.
     bindE (dropbear_assert (\<not> ch_sent_close c) ''!channel->sent_close'') (\<lambda>_.
     let fd = (if isextended then ch_errfd c else ch_readfd c) in
     bindE (dropbear_assert (fd \<ge> 0) ''fd >= 0'') (\<lambda>_.
     let maxlen = min (min (ch_transwindow c) (ch_transmaxpacket c))
                    (b_size (ses_writepayload ses) - 1 - 4 - 4 - (if isextended then 4 else 0)) in
     if maxlen = 0 then returnE ses
     else
       bindE (buf_putbyte (ses_writepayload ses) (if isextended then SSH_MSG_CHANNEL_EXTENDED_DATA else SSH_MSG_CHANNEL_DATA)) (\<lambda>wp.
       bindE (buf_putint wp (ch_remotechan c)) (\<lambda>wp.
       bindE (if isextended then buf_putint wp SSH_EXTENDED_DATA_STDERR else returnE wp) (\<lambda>wp.
       let size_pos = b_pos wp in
       bindE (buf_putint wp 0) (\<lambda>wp.
       bindE (buf_getwriteptr wp maxlen) (\<lambda>p.
       case cn_read cv fd maxlen of
         Fd_eintr \<Rightarrow> reset_writepayload (ses\<lparr>ses_writepayload := wp\<rparr>)
       | Fd_error \<Rightarrow> bindE (close_chan_fd cv i fd SHUT_RD (ses\<lparr>ses_writepayload := wp\<rparr>)) reset_writepayload
       | Fd_data bs \<Rightarrow>
           if bs = [] then bindE (close_chan_fd cv i fd SHUT_RD (ses\<lparr>ses_writepayload := wp\<rparr>)) reset_writepayload
           else
             bindE (mem_write (b_data wp) p bs) (\<lambda>d.
             let wp = wp\<lparr>b_data := d\<rparr>; l = mangled_len c bs in
             if ch_read_mangler c \<noteq> None \<and> l = 0 then reset_writepayload (ses\<lparr>ses_writepayload := wp\<rparr>)
             else
               bindE (buf_incrwritepos wp (of_int l)) (\<lambda>wp.
               bindE (buf_setpos wp size_pos) (\<lambda>wp.
               bindE (buf_putint wp (of_int l)) (\<lambda>wp.
               encrypt_packet (cn_env cv)
                 (set_chan i (c\<lparr>ch_transwindow := ch_transwindow c - of_int l\<rparr>) (ses\<lparr>ses_writepayload := wp\<rparr>))))))))))))))"

subsection \<open>The other messages\<close>

definition recv_msg_channel_eof :: "chanenv \<Rightarrow> sshsession \<Rightarrow> sshsession res" where
  "recv_msg_channel_eof cv ses =
     bindE (getchannel_msg ''EOF for unknown channel'' ses) (\<lambda>(i, ses).
     bindE (chan ses i) (\<lambda>c.
     check_close cv i (set_chan i (c\<lparr>ch_recv_eof := True\<rparr>) ses)))"

definition recv_msg_channel_close :: "chanenv \<Rightarrow> sshsession \<Rightarrow> sshsession res" where
  "recv_msg_channel_close cv ses =
     bindE (getchannel_msg ''Close for unknown channel'' ses) (\<lambda>(i, ses).
     bindE (chan ses i) (\<lambda>c.
     check_close cv i (set_chan i (c\<lparr>ch_recv_eof := True, ch_recv_close := True\<rparr>) ses)))"

definition recv_msg_channel_request :: "chanenv \<Rightarrow> sshsession \<Rightarrow> sshsession res" where
  "recv_msg_channel_request cv ses =
     bindE (getchannel ses) (\<lambda>(i, ses).
     bindE (chan ses i) (\<lambda>c.
     case ct_reqhandler (cn_type cv (ch_type c)) of
       Some reqhandler \<Rightarrow> reqhandler i ses
     | None \<Rightarrow>
         bindE (nn (ses_payload ses)) (\<lambda>p.
         bindE (buf_eatstring p) (\<lambda>p.
         bindE (buf_getbool p) (\<lambda>(wantreply, p).
         let ses = ses\<lparr>ses_payload := Some p\<rparr> in
         if wantreply \<noteq> 0 then send_msg_channel_failure cv i ses else returnE ses)))))"

definition recv_msg_channel_window_adjust :: "sshsession \<Rightarrow> sshsession res" where
  "recv_msg_channel_window_adjust ses =
     bindE (getchannel ses) (\<lambda>(i, ses).
     bindE (payload_int ses) (\<lambda>(incr, ses).
     bindE (chan ses i) (\<lambda>c.
     let newwin = ch_transwindow c + incr;
         newwin = (if newwin < ch_transwindow c then 0xffffffff else newwin) in
     returnE (set_chan i (c\<lparr>ch_transwindow := newwin\<rparr>) ses))))"

text \<open>A \<open>char*\<close> up to its terminating 0, compared with a name.\<close>

definition same_name :: "byte list \<Rightarrow> string \<Rightarrow> bool" where
  "same_name s name \<longleftrightarrow> takeWhile (\<lambda>b. b \<noteq> 0) s = str name"

definition run_inithandler :: "chanenv \<Rightarrow> nat \<Rightarrow> sshsession \<Rightarrow> (int \<times> sshsession) res" where
  "run_inithandler cv i ses =
     bindE (chan ses i) (\<lambda>c.
     case ct_inithandler (cn_type cv (ch_type c)) of None \<Rightarrow> returnE (0, ses) | Some f \<Rightarrow> f i ses)"

definition recv_msg_channel_open :: "chanenv \<Rightarrow> sshsession \<Rightarrow> sshsession res" where
  "recv_msg_channel_open cv ses =
     bindE (nn (ses_payload ses)) (\<lambda>p.
     bindE (buf_getstring p) (\<lambda>((type, typelen), p).
     bindE (payload_int (ses\<lparr>ses_payload := Some p\<rparr>)) (\<lambda>(remotechan, ses).
     bindE (payload_int ses) (\<lambda>(transwindow, ses).
     bindE (payload_int ses) (\<lambda>(transmaxpacket, ses).
     let transmaxpacket = min transmaxpacket TRANS_MAX_PAYLOAD_LEN;
         failure = (\<lambda>errtype ses. send_msg_channel_open_failure cv remotechan errtype [] [] ses) in
     if unat typelen > MAX_NAME_LEN then failure SSH_OPEN_UNKNOWN_CHANNEL_TYPE ses
     else case find (same_name type) (ses_chantypes ses) of
       None \<Rightarrow> failure SSH_OPEN_UNKNOWN_CHANNEL_TYPE ses
     | Some chantype \<Rightarrow>
         bindE (newchannel cv remotechan chantype transwindow transmaxpacket ses) (\<lambda>(channel, ses).
         case channel of
           None \<Rightarrow> failure SSH_OPEN_RESOURCE_SHORTAGE ses
         | Some i \<Rightarrow>
             bindE (run_inithandler cv i ses) (\<lambda>(ret, ses).
             if ret = SSH_OPEN_IN_PROGRESS then returnE ses
             else if ret > 0 then bindE (remove_channel cv i ses) (failure ret)
             else
               bindE (chan ses i) (\<lambda>c.
               send_msg_channel_open_confirmation cv i (ch_recvwindow c) (ch_recvmaxpacket c) ses))))))))"

definition send_msg_channel_open_init :: "chanenv \<Rightarrow> int \<Rightarrow> string \<Rightarrow> sshsession \<Rightarrow> (ret_code \<times> sshsession) res" where
  "send_msg_channel_open_init cv fd type ses =
     bindE (newchannel cv 0 type 0 0 ses) (\<lambda>(channel, ses).
     case channel of
       None \<Rightarrow> returnE (DROPBEAR_FAILURE, ses)
     | Some i \<Rightarrow>
         bindE (chan ses i) (\<lambda>c.
         let c = c\<lparr>ch_writefd := fd, ch_readfd := fd, ch_bidir_fd := True, ch_await_open := True\<rparr>; ses = set_chan i c ses in
         bindE (buf_putbyte (ses_writepayload ses) SSH_MSG_CHANNEL_OPEN) (\<lambda>wp.
         bindE (buf_putstring wp (str type) (of_nat (length type))) (\<lambda>wp.
         bindE (buf_putint wp (ch_index c)) (\<lambda>wp.
         bindE (buf_putint wp (cn_recv_window cv)) (\<lambda>wp.
         bindE (buf_putint wp RECV_MAX_CHANNEL_DATA_LEN) (\<lambda>wp.
         returnE (DROPBEAR_SUCCESS, ses\<lparr>ses_writepayload := wp\<rparr>))))))))"

definition recv_msg_channel_open_confirmation :: "chanenv \<Rightarrow> sshsession \<Rightarrow> sshsession res" where
  "recv_msg_channel_open_confirmation cv ses =
     bindE (getchannel ses) (\<lambda>(i, ses).
     bindE (chan ses i) (\<lambda>c.
     if \<not> ch_await_open c then dropbear_exit ''Unexpected channel reply''
     else
       bindE (payload_int ses) (\<lambda>(remotechan, ses).
       bindE (payload_int ses) (\<lambda>(transwindow, ses).
       bindE (payload_int ses) (\<lambda>(transmaxpacket, ses).
       let c = c\<lparr>ch_await_open := False, ch_remotechan := remotechan, ch_transwindow := transwindow,
                 ch_transmaxpacket := transmaxpacket\<rparr> in
       bindE (run_inithandler cv i (set_chan i c ses)) (\<lambda>(ret, ses).
       if ret > 0 then remove_channel cv i ses else returnE ses))))))"

definition recv_msg_channel_open_failure :: "chanenv \<Rightarrow> sshsession \<Rightarrow> sshsession res" where
  "recv_msg_channel_open_failure cv ses =
     bindE (getchannel ses) (\<lambda>(i, ses).
     bindE (chan ses i) (\<lambda>c.
     if \<not> ch_await_open c then dropbear_exit ''Unexpected channel reply''
     else remove_channel cv i (set_chan i (c\<lparr>ch_await_open := False\<rparr>) ses)))"

definition channel_connect_done :: "chanenv \<Rightarrow> bool \<Rightarrow> int \<Rightarrow> nat \<Rightarrow> byte list \<Rightarrow> sshsession \<Rightarrow> sshsession res" where
  "channel_connect_done cv success sock i errstring ses =
     bindE (chan ses i) (\<lambda>c.
     if success then
       let c = c\<lparr>ch_readfd := sock, ch_writefd := sock, ch_bidir_fd := True, ch_conn_pending := None\<rparr> in
       send_msg_channel_open_confirmation cv i (ch_recvwindow c) (ch_recvmaxpacket c) (set_chan i c ses)
     else
       bindE (send_msg_channel_open_failure cv (ch_remotechan c) SSH_OPEN_CONNECT_FAILED errstring [] ses) (\<lambda>ses.
       remove_channel cv i ses))"

subsection \<open>The event loop\<close>

text \<open>
  The body of the loop of \<open>channelio\<close>: \<open>readfds\<close> and \<open>writefds\<close> are the results of \<open>select\<close>,
  \<open>signal_pending\<close> is \<open>ses.channel_signal_pending\<close>.
\<close>

definition channel_events :: "chanenv \<Rightarrow> (int \<Rightarrow> bool) \<Rightarrow> (int \<Rightarrow> bool) \<Rightarrow> bool \<Rightarrow> nat \<Rightarrow> sshsession \<Rightarrow> sshsession res" where
  "channel_events cv readfds writefds signal_pending i ses =
     (if ses_channels ses ! i = None then returnE ses
      else
        bindE (chan ses i) (\<lambda>c.
        let e1 = (ch_readfd c \<ge> 0 \<and> readfds (ch_readfd c)) in
        bindE (if e1 then send_msg_channel_data cv i False ses else returnE ses) (\<lambda>ses.
        bindE (chan ses i) (\<lambda>c.
        let e2 = (ERRFD_IS_READ c \<and> ch_errfd c \<ge> 0 \<and> readfds (ch_errfd c)) in
        bindE (if e2 then send_msg_channel_data cv i True ses else returnE ses) (\<lambda>ses.
        bindE (chan ses i) (\<lambda>c.
        let e3 = (ch_writefd c \<ge> 0 \<and> writefds (ch_writefd c)) in
        bindE (if e3 then bindE (writechannel cv i (ch_writefd c) Writebuf None ses) (\<lambda>(_, _, ses). returnE ses) else returnE ses) (\<lambda>ses.
        bindE (chan ses i) (\<lambda>c.
        let e4 = (ERRFD_IS_WRITE c \<and> ch_errfd c \<ge> 0 \<and> writefds (ch_errfd c)) in
        bindE (if e4 then bindE (writechannel cv i (ch_errfd c) Extrabuf None ses) (\<lambda>(_, _, ses). returnE ses) else returnE ses) (\<lambda>ses.
        if e1 \<or> e2 \<or> e3 \<or> e4 \<or> signal_pending then check_close cv i ses else returnE ses)))))))))"

text \<open>
  The table never has more than \<open>CHAN_SLOTS\<close> entries, so neither loop over it takes more steps; a
  handler may replace the table under way, and the loops read its size again in every step.
\<close>

definition CHAN_SLOTS :: nat where
  "CHAN_SLOTS = MAX_CHANNELS + CHAN_EXTEND_SIZE"

fun channelio_from :: "chanenv \<Rightarrow> (int \<Rightarrow> bool) \<Rightarrow> (int \<Rightarrow> bool) \<Rightarrow> bool \<Rightarrow> nat \<Rightarrow> nat \<Rightarrow> sshsession \<Rightarrow> sshsession res" where
  "channelio_from cv readfds writefds signal_pending 0 i ses = Inl Diverge"
| "channelio_from cv readfds writefds signal_pending (Suc n) i ses =
     (if i < length (ses_channels ses) then
        bindE (channel_events cv readfds writefds signal_pending i ses) (channelio_from cv readfds writefds signal_pending n (Suc i))
      else returnE ses)"

definition channelio :: "chanenv \<Rightarrow> (int \<Rightarrow> bool) \<Rightarrow> (int \<Rightarrow> bool) \<Rightarrow> bool \<Rightarrow> sshsession \<Rightarrow> sshsession res" where
  "channelio cv readfds writefds signal_pending ses = channelio_from cv readfds writefds signal_pending (Suc CHAN_SLOTS) 0 ses"

text \<open>The descriptors \<open>setchannelfds\<close> adds to the two sets for a channel.\<close>

definition channel_fds :: "bool \<Rightarrow> Channel \<Rightarrow> (int list \<times> int list) res" where
  "channel_fds reads c =
     (let rds = (if ch_transwindow c > 0 \<and> (reads \<or> ch_read_mangler c \<noteq> None) then
                   (if ch_readfd c \<ge> 0 then [ch_readfd c] else [])
                   @ (if ERRFD_IS_READ c \<and> ch_errfd c \<ge> 0 then [ch_errfd c] else [])
                 else []) in
      bindE (if ch_writefd c \<ge> 0 then cbuf_pending (ch_writebuf c) else returnE False) (\<lambda>w1.
      bindE (if ERRFD_IS_WRITE c \<and> ch_errfd c \<ge> 0 then cbuf_pending (ch_extrabuf c) else returnE False) (\<lambda>w2.
      returnE (rds, (if w1 then [ch_writefd c] else []) @ (if w2 then [ch_errfd c] else [])))))"

fun setchannelfds_loop :: "bool \<Rightarrow> Channel option list \<Rightarrow> (int list \<times> int list) res" where
  "setchannelfds_loop reads [] = returnE ([], [])"
| "setchannelfds_loop reads (None # cs) = setchannelfds_loop reads cs"
| "setchannelfds_loop reads (Some c # cs) =
     bindE (channel_fds reads c) (\<lambda>(r, w).
     bindE (setchannelfds_loop reads cs) (\<lambda>(rs, ws). returnE (r @ rs, w @ ws)))"

definition setchannelfds :: "bool \<Rightarrow> sshsession \<Rightarrow> (int list \<times> int list) res" where
  "setchannelfds allow_reads ses = setchannelfds_loop (ses_dataallowed ses \<and> allow_reads) (ses_channels ses)"

definition get_any_ready_channel :: "sshsession \<Rightarrow> nat option" where
  "get_any_ready_channel ses =
     (if ses_chancount ses = 0 then None
      else find (\<lambda>i. case ses_channels ses ! i of None \<Rightarrow> False
                     | Some c \<Rightarrow> \<not> (ch_sent_eof c \<or> ch_recv_eof c) \<and> \<not> ch_await_open c) [0..<length (ses_channels ses)])"

fun chancleanup_from :: "chanenv \<Rightarrow> nat \<Rightarrow> nat \<Rightarrow> sshsession \<Rightarrow> sshsession res" where
  "chancleanup_from cv 0 i ses = Inl Diverge"
| "chancleanup_from cv (Suc n) i ses =
     (if i < length (ses_channels ses) then
        bindE (if ses_channels ses ! i \<noteq> None then remove_channel cv i ses else returnE ses) (chancleanup_from cv n (Suc i))
      else returnE ses)"

definition chancleanup :: "chanenv \<Rightarrow> sshsession \<Rightarrow> sshsession res" where
  "chancleanup cv ses = chancleanup_from cv (Suc CHAN_SLOTS) 0 ses"

end
