(* ===== verification/Channel_Inv.thy ===== *)
theory Channel_Inv
  imports Channel Packet_Send Packet_Frame
begin

text \<open>
  What holds of the channels in every reachable state, and that the code never faults there: the
  table and its count, the windows against the buffers, and the order in which a
  channel closes.
\<close>

section \<open>The invariant\<close>

definition used_in :: "circbuffer option \<Rightarrow> nat" where
  "used_in b = (case b of None \<Rightarrow> 0 | Some b \<Rightarrow> unat (cb_used b))"

definition out_ok :: "u32 \<Rightarrow> circbuffer \<Rightarrow> bool" where
  "out_ok W b \<longleftrightarrow> wf_cbuf b \<and> cb_size b = W"

text \<open>
  A channel.  The window the other side may still use, what has been written out but not yet
  granted again, and what is stored never exceed the window that was announced.  After the close
  message no descriptor is left to read from.
\<close>

definition held :: "Channel \<Rightarrow> nat" where
  "held c = unat (ch_recvwindow c) + unat (ch_recvdonelen c) + used_in (ch_writebuf c) + used_in (ch_extrabuf c)"

definition chan_ok :: "u32 \<Rightarrow> nat \<Rightarrow> Channel \<Rightarrow> bool" where
  "chan_ok W i c \<longleftrightarrow> unat (ch_index c) = i
     \<and> (\<exists>b. ch_writebuf c = Some b \<and> out_ok W b) \<and> (\<forall>b. ch_extrabuf c = Some b \<longrightarrow> out_ok W b)
     \<and> held c \<le> unat W
     \<and> (ch_sent_close c \<longrightarrow> ch_sent_eof c \<and> ch_readfd c < 0 \<and> (ERRFD_IS_READ c \<longrightarrow> ch_errfd c < 0))
     \<and> (ch_recv_close c \<longrightarrow> ch_recv_eof c)
     \<and> (ch_bidir_fd c \<longrightarrow> ch_errfd c < 0)
     \<and> (\<forall>f bs. ch_read_mangler c = Some f \<longrightarrow> 0 \<le> f bs \<and> f bs \<le> int (length bs))"

definition open_slots :: "Channel option list \<Rightarrow> nat" where
  "open_slots cs = length (filter (\<lambda>c. c \<noteq> None) cs)"

definition slots_ok :: "u32 \<Rightarrow> sshsession \<Rightarrow> bool" where
  "slots_ok W ses \<longleftrightarrow> (\<forall>i c. i < length (ses_channels ses) \<longrightarrow> ses_channels ses ! i = Some c \<longrightarrow> chan_ok W i c)
     \<and> unat (ses_chancount ses) = open_slots (ses_channels ses)
     \<and> length (ses_channels ses) \<le> MAX_CHANNELS + CHAN_EXTEND_SIZE"

definition chan_inv :: "chanenv \<Rightarrow> sshsession \<Rightarrow> bool" where
  "chan_inv cv ses \<longleftrightarrow> send_ok (cn_env cv) ses \<and> payload_empty ses \<and> slots_ok (cn_recv_window cv) ses"

text \<open>The pointer points to a channel.\<close>

definition live :: "sshsession \<Rightarrow> nat \<Rightarrow> bool" where
  "live ses i \<longleftrightarrow> i < length (ses_channels ses) \<and> ses_channels ses ! i \<noteq> None"

text \<open>
  What the code relies on: compression as in \<open>zlib_ok\<close>, a sensible window, and a kernel that
  reads and writes no more than it is asked to.
\<close>

definition chanenv_ok :: "chanenv \<Rightarrow> bool" where
  "chanenv_ok cv \<longleftrightarrow> zlib_ok (cn_env cv) \<and> 0 < cn_recv_window cv \<and> cn_recv_window cv \<le> MAX_CBUF_SIZE
     \<and> (\<forall>fd bs n. cn_writev cv fd bs = Wr n \<longrightarrow> n \<le> length bs)
     \<and> (\<forall>fd l bs. cn_read cv fd l = Fd_data bs \<longrightarrow> length bs \<le> unat l)"

text \<open>
  The functions of a channel type keep the invariant and the channel they are called for.  The
  cleanup function is called when the buffers are gone; it leaves the channels alone.
\<close>

definition keeps_inv :: "chanenv \<Rightarrow> (nat \<Rightarrow> sshsession \<Rightarrow> sshsession res) \<Rightarrow> bool" where
  "keeps_inv cv f \<longleftrightarrow> (\<forall>i ses. chan_inv cv ses \<longrightarrow> live ses i \<longrightarrow> safe (f i ses) (\<lambda>s. chan_inv cv s \<and> live s i))"

definition keeps_channels :: "chanenv \<Rightarrow> (nat \<Rightarrow> sshsession \<Rightarrow> sshsession res) \<Rightarrow> bool" where
  "keeps_channels cv f \<longleftrightarrow> (\<forall>i ses. send_ok (cn_env cv) ses \<longrightarrow> payload_empty ses \<longrightarrow> live ses i \<longrightarrow>
     safe (f i ses) (\<lambda>s. send_ok (cn_env cv) s \<and> payload_empty s \<and> ses_channels s = ses_channels ses \<and> ses_chancount s = ses_chancount ses))"

definition handlers_ok :: "chanenv \<Rightarrow> bool" where
  "handlers_ok cv \<longleftrightarrow> (\<forall>t.
     (\<forall>f. ct_inithandler (cn_type cv t) = Some f \<longrightarrow> keeps_inv cv (\<lambda>i ses. bindE (f i ses) (\<lambda>(_, s). returnE s)))
   \<and> (\<forall>f. ct_check_close (cn_type cv t) = Some f \<longrightarrow> keeps_inv cv (\<lambda>i ses. bindE (f i ses) (\<lambda>(_, s). returnE s)))
   \<and> (\<forall>f. ct_reqhandler (cn_type cv t) = Some f \<longrightarrow> keeps_inv cv f)
   \<and> (\<forall>f. ct_closehandler (cn_type cv t) = Some f \<longrightarrow> keeps_inv cv f)
   \<and> (\<forall>f. ct_cleanup (cn_type cv t) = Some f \<longrightarrow> keeps_channels cv f))"

declare ERRFD_IS_READ_def [simp] ERRFD_IS_WRITE_def [simp]

section \<open>The table\<close>

lemma open_slots_update:
  "i < length cs \<Longrightarrow> cs ! i \<noteq> None \<Longrightarrow> open_slots (cs[i := Some c]) = open_slots cs"
  "i < length cs \<Longrightarrow> cs ! i \<noteq> None \<Longrightarrow> Suc (open_slots (cs[i := None])) = open_slots cs"
  "i < length cs \<Longrightarrow> cs ! i = None \<Longrightarrow> open_slots (cs[i := Some c]) = Suc (open_slots cs)"
  unfolding open_slots_def
  by (induction cs arbitrary: i) (auto split: nat.splits simp: nth_Cons')

lemma open_slots_le: "open_slots cs \<le> length cs"
  by (simp add: open_slots_def)

lemma chanI: "live ses i \<Longrightarrow> chan ses i = Inr (the (ses_channels ses ! i))"
  by (auto simp: chan_def live_def)

lemma safe_chan [safe_intros]:
  assumes "chan_inv cv ses" "live ses i"
    "\<And>c. chan ses i = Inr c \<Longrightarrow> ses_channels ses ! i = Some c \<Longrightarrow> chan_ok (cn_recv_window cv) i c \<Longrightarrow> Q c"
  shows "safe (chan ses i) Q"
  using assms by (auto simp: chanI chan_inv_def slots_ok_def live_def)

lemma live_set_chan [simp]: "live (set_chan i c ses) j \<longleftrightarrow> (if j = i then i < length (ses_channels ses) else live ses j)"
  by (auto simp: live_def set_chan_def)

lemma chan_inv_set_chan:
  assumes "chan_inv cv ses" "live ses i" "chan_ok (cn_recv_window cv) i c"
  shows "chan_inv cv (set_chan i c ses)" "live (set_chan i c ses) i"
  using assms open_slots_update(1) [of i "ses_channels ses" c]
  by (auto simp: chan_inv_def slots_ok_def live_def set_chan_def nth_list_update send_ok_def payload_empty_def)

lemma liveD: "live ses i \<Longrightarrow> i < length (ses_channels ses)"
  by (simp add: live_def)

section \<open>Sending\<close>

lemma inv_wp: "chan_inv cv ses \<Longrightarrow> wf_buf (ses_writepayload ses) \<and> b_size (ses_writepayload ses) = TRANS_MAX_PAYLOAD_LEN"
  by (simp add: chan_inv_def send_ok_def)

lemma safe_send [safe_intros]:
  assumes "chanenv_ok cv" "chan_inv cv ses" "wf_buf wp" "b_size wp = TRANS_MAX_PAYLOAD_LEN"
    "\<And>s. chan_inv cv s \<Longrightarrow> sends ses s \<Longrightarrow> Q s"
  shows "safe (encrypt_packet (cn_env cv) (ses\<lparr>ses_writepayload := wp\<rparr>)) Q"
proof -
  let ?s = "ses\<lparr>ses_writepayload := wp\<rparr>"
  have "send_ok (cn_env cv) ?s" using assms(2-4) by (simp add: chan_inv_def send_ok_def)
  moreover have "zlib_ok (cn_env cv)" using assms(1) by (simp add: chanenv_ok_def)
  ultimately have "safe (encrypt_packet (cn_env cv) ?s) (\<lambda>s. send_ok (cn_env cv) s \<and> payload_empty s)"
    by (rule encrypt_packet_safe) simp
  then show ?thesis
  proof (rule safe_weaken)
    fix s assume s: "encrypt_packet (cn_env cv) ?s = Inr s" "send_ok (cn_env cv) s \<and> payload_empty s"
    then have "sends ?s s" using postD [OF encrypt_packet_sends] by blast
    then have "sends ses s" by (simp add: sends_def)
    moreover from this have "chan_inv cv s" using s(2) assms(2) by (simp add: chan_inv_def slots_ok_def sends_def)
    ultimately show "Q s" using assms(5) by blast
  qed
qed

lemma sends_live [simp]: "sends a b \<Longrightarrow> live b i = live a i"
  by (simp add: sends_def live_def)

lemma sends_chan: "sends a b \<Longrightarrow> ses_channels b = ses_channels a"
  by (simp add: sends_def)

lemma put_by_size: "put_by n b b' \<Longrightarrow> b_size b' = b_size b"
  by (simp add: put_by_def)

lemma safe_putstring [safe_intros]:
  "wf_buf b \<Longrightarrow> unat l \<le> length bs \<Longrightarrow> (\<And>b'. wf_buf b' \<Longrightarrow> b_size b' = b_size b \<Longrightarrow> Q b') \<Longrightarrow> safe (buf_putstring b bs l) Q"
  using wf_overwrite [of b "STORE32H l @ take (unat l) bs"] by (auto simp: buf_putstring_eq overwrite_def)

lemma safe_message:
  assumes "chanenv_ok cv" "chan_inv cv ses" "\<And>s. chan_inv cv s \<Longrightarrow> sends ses s \<Longrightarrow> safe (f s) Q"
  shows "safe (bindE (buf_putbyte (ses_writepayload ses) v) (\<lambda>wp. bindE (buf_putint wp w) (\<lambda>wp.
     bindE (encrypt_packet (cn_env cv) (ses\<lparr>ses_writepayload := wp\<rparr>)) f))) Q"
  using assms(1,2) inv_wp [OF assms(2)] by (auto intro!: safe_intros assms(3) simp: put_by_size)

text \<open>The simple messages.\<close>

lemma send_messages_safe:
  assumes "chanenv_ok cv" "chan_inv cv ses" "live ses i" "\<And>s. chan_inv cv s \<Longrightarrow> sends ses s \<Longrightarrow> Q s"
  shows "safe (send_msg_channel_window_adjust cv i incr ses) Q" "safe (send_msg_channel_failure cv i ses) Q"
    "safe (send_msg_channel_success cv i ses) Q" "safe (send_msg_channel_open_confirmation cv i rw rm ses) Q"
  unfolding send_msg_channel_window_adjust_def send_msg_channel_failure_def send_msg_channel_success_def
    send_msg_channel_open_confirmation_def
  using assms(1-3) inv_wp [OF assms(2)]
  by (auto intro!: safe_intros assms(4) simp: put_by_size)

lemma send_open_failure_safe:
  assumes "chanenv_ok cv" "chan_inv cv ses" "length txt < 2 ^ 32" "length lang < 2 ^ 32" "\<And>s. chan_inv cv s \<Longrightarrow> sends ses s \<Longrightarrow> Q s"
  shows "safe (send_msg_channel_open_failure cv rc reason txt lang ses) Q"
  unfolding send_msg_channel_open_failure_def
  using assms(1-4) inv_wp [OF assms(2)]
  by (auto intro!: safe_intros assms(5) simp: put_by_size unat_u32_of_nat)

lemma chan_ok_flags:
  "chan_ok W i c \<Longrightarrow> chan_ok W i (c\<lparr>ch_sent_eof := True\<rparr>)" "chan_ok W i c \<Longrightarrow> chan_ok W i (c\<lparr>ch_recv_eof := True\<rparr>)"
  "chan_ok W i c \<Longrightarrow> chan_ok W i (c\<lparr>ch_recv_eof := True, ch_recv_close := True\<rparr>)" "chan_ok W i c \<Longrightarrow> chan_ok W i (c\<lparr>ch_transwindow := w\<rparr>)"
  "chan_ok W i c \<Longrightarrow> chan_ok W i (c\<lparr>ch_await_open := False\<rparr>)"
  "chan_ok W i c \<Longrightarrow> chan_ok W i (c\<lparr>ch_await_open := False, ch_remotechan := r, ch_transwindow := w, ch_transmaxpacket := m\<rparr>)"
  by (simp_all add: chan_ok_def held_def)

lemma send_eof_safe:
  assumes "chanenv_ok cv" "chan_inv cv ses" "live ses i" "\<And>s. chan_inv cv s \<Longrightarrow> live s i \<Longrightarrow> Q s"
  shows "safe (send_msg_channel_eof cv i ses) Q"
  unfolding send_msg_channel_eof_def
  using assms(1-3) inv_wp [OF assms(2)]
  by (auto intro!: safe_intros assms(4) chan_inv_set_chan chan_ok_flags simp: put_by_size liveD)

section \<open>Closing\<close>

definition fd_closed :: "Channel \<Rightarrow> int \<Rightarrow> nat \<Rightarrow> Channel" where
  "fd_closed c fd how = c\<lparr>
     ch_writefd := if (ch_bidir_fd c \<longrightarrow> how \<noteq> 0) \<and> fd = ch_writefd c then FD_CLOSED else ch_writefd c,
     ch_readfd := if (ch_bidir_fd c \<longrightarrow> how = 0) \<and> fd = ch_readfd c then FD_CLOSED else ch_readfd c,
     ch_errfd := if (ch_bidir_fd c \<longrightarrow> (if ERRFD_IS_READ c then how = 0 else how \<noteq> 0)) \<and> fd = ch_errfd c then FD_CLOSED else ch_errfd c\<rparr>"

lemma fd_closed_fields [simp]:
  "ch_index (fd_closed c fd how) = ch_index c" "ch_writebuf (fd_closed c fd how) = ch_writebuf c"
  "ch_extrabuf (fd_closed c fd how) = ch_extrabuf c" "ch_recvwindow (fd_closed c fd how) = ch_recvwindow c"
  "ch_recvdonelen (fd_closed c fd how) = ch_recvdonelen c" "ch_sent_close (fd_closed c fd how) = ch_sent_close c"
  "ch_sent_eof (fd_closed c fd how) = ch_sent_eof c" "ch_recv_close (fd_closed c fd how) = ch_recv_close c"
  "ch_recv_eof (fd_closed c fd how) = ch_recv_eof c" "ch_bidir_fd (fd_closed c fd how) = ch_bidir_fd c"
  "ch_read_mangler (fd_closed c fd how) = ch_read_mangler c" "ch_type (fd_closed c fd how) = ch_type c"
  "ch_transwindow (fd_closed c fd how) = ch_transwindow c"
  by (simp_all add: fd_closed_def)

lemma fd_closed_fds:
  "ch_readfd (fd_closed c fd how) = (if (ch_bidir_fd c \<longrightarrow> how = 0) \<and> fd = ch_readfd c then FD_CLOSED else ch_readfd c)"
  "ch_writefd (fd_closed c fd how) = (if (ch_bidir_fd c \<longrightarrow> how \<noteq> 0) \<and> fd = ch_writefd c then FD_CLOSED else ch_writefd c)"
  "ch_errfd (fd_closed c fd how) =
     (if (ch_bidir_fd c \<longrightarrow> (if ERRFD_IS_READ c then how = 0 else how \<noteq> 0)) \<and> fd = ch_errfd c then FD_CLOSED else ch_errfd c)"
  by (simp_all add: fd_closed_def)

lemma mark_closed_eq:
  "mark_closed closein closeout fd c =
   c\<lparr>ch_writefd := if closein \<and> fd = ch_writefd c then FD_CLOSED else ch_writefd c,
     ch_readfd := if closeout \<and> fd = ch_readfd c then FD_CLOSED else ch_readfd c,
     ch_errfd := if (if ERRFD_IS_READ c then closeout else closein) \<and> fd = ch_errfd c then FD_CLOSED else ch_errfd c\<rparr>"
  unfolding mark_closed_def
  by (cases c; cases "fd = ch_readfd c"; cases "fd = ch_errfd c"; cases "fd = ch_writefd c"; cases "ch_extrabuf c"; cases closein; cases closeout)
     (simp_all add: Let_def)

lemma mark_closed_fd: "mark_closed (ch_bidir_fd c \<longrightarrow> how \<noteq> 0) (ch_bidir_fd c \<longrightarrow> how = 0) fd c = fd_closed c fd how"
proof -
  have "(if ERRFD_IS_READ c then ch_bidir_fd c \<longrightarrow> how = 0 else ch_bidir_fd c \<longrightarrow> how \<noteq> 0)
     = (ch_bidir_fd c \<longrightarrow> (if ERRFD_IS_READ c then how = 0 else how \<noteq> 0))" by (cases "ERRFD_IS_READ c") (simp_all only: if_True if_False)
  then show ?thesis by (simp only: mark_closed_eq fd_closed_def)
qed

lemma fd_closed_neg [simp]: "FD_CLOSED < 0" "\<not> 0 \<le> FD_CLOSED"
  by (simp_all add: FD_CLOSED_def)

lemma chan_ok_closed: "chan_ok W i c \<Longrightarrow> chan_ok W i (fd_closed c fd how)"
  by (simp add: chan_ok_def held_def fd_closed_fds)

lemma chan_set_chan [simp]: "i < length (ses_channels ses) \<Longrightarrow> chan (set_chan i c ses) i = Inr c"
  by (simp add: chan_def set_chan_def)

lemma set_chan_twice [simp]: "set_chan i c' (set_chan i c ses) = set_chan i c' ses"
  by (simp add: set_chan_def)

lemma set_chan_length [simp]: "length (ses_channels (set_chan i c ses)) = length (ses_channels ses)"
  by (simp add: set_chan_def)

lemma safe_m_close [safe_intros]: "Q () \<Longrightarrow> safe (m_close cv fd) Q"
  by (simp add: m_close_def)

lemma safe_close [safe_intros]:
  assumes "chan ses i = Inr c" "Q (set_chan i (fd_closed c fd how) ses)"
  shows "safe (close_chan_fd cv i fd how ses) Q"
  unfolding close_chan_fd_def assms(1) bindE_simps mark_closed_fd Let_def
  by (intro safe_intros) (simp_all add: assms(2))

text \<open>The channel after the close message.\<close>

definition after_close :: "Channel \<Rightarrow> Channel" where
  "after_close c =
     (let c = c\<lparr>ch_sent_eof := True, ch_sent_close := True\<rparr>;
          c = fd_closed c (ch_readfd c) SHUT_RD;
          c = fd_closed c (ch_errfd c) SHUT_RDWR in
      fd_closed c (ch_writefd c) SHUT_WR)"

lemma chan_ok_after_close: "chan_ok W i c \<Longrightarrow> chan_ok W i (after_close c)"
  by (auto simp: after_close_def Let_def chan_ok_def held_def fd_closed_fds SHUT_RD_def SHUT_RDWR_def SHUT_WR_def)

lemma handler_safe:
  assumes "chan_inv cv ses" "live ses i" "\<And>f. h = Some f \<Longrightarrow> keeps_inv cv f" "\<And>s. chan_inv cv s \<Longrightarrow> live s i \<Longrightarrow> Q s"
  shows "safe (call_handler h i ses) Q"
  using assms by (cases h) (auto simp: call_handler_def keeps_inv_def intro: safe_weaken)

lemma send_close_safe:
  assumes "chanenv_ok cv" "handlers_ok cv" "chan_inv cv ses" "live ses i"
    "\<And>s c. chan_inv cv s \<Longrightarrow> live s i \<Longrightarrow> ses_channels s ! i = Some (after_close c) \<Longrightarrow> Q s"
  shows "safe (send_msg_channel_close cv i ses) Q"
proof -
  have rest: "safe (bindE (chan s i) (\<lambda>c. let c = c\<lparr>ch_sent_eof := True, ch_sent_close := True\<rparr> in
       bindE (close_chan_fd cv i (ch_readfd c) SHUT_RD (set_chan i c s)) (\<lambda>ses.
       bindE (chan ses i) (\<lambda>c.
       bindE (close_chan_fd cv i (ch_errfd c) SHUT_RDWR ses) (\<lambda>ses.
       bindE (chan ses i) (\<lambda>c. close_chan_fd cv i (ch_writefd c) SHUT_WR ses)))))) Q" if "chan_inv cv s" "live s i" for s
  proof (rule safe_bindE, rule safe_chan [OF that])
    fix c assume c: "chan s i = Inr c" "ses_channels s ! i = Some c" "chan_ok (cn_recv_window cv) i c"
    have "Q (set_chan i (after_close c) s)"
      using chan_inv_set_chan [OF that chan_ok_after_close [OF c(3)]] liveD [OF that(2)] by (intro assms(5)) (simp_all add: set_chan_def)
    then show "safe (let c = c\<lparr>ch_sent_eof := True, ch_sent_close := True\<rparr> in
       bindE (close_chan_fd cv i (ch_readfd c) SHUT_RD (set_chan i c s)) (\<lambda>ses.
       bindE (chan ses i) (\<lambda>c.
       bindE (close_chan_fd cv i (ch_errfd c) SHUT_RDWR ses) (\<lambda>ses.
       bindE (chan ses i) (\<lambda>c. close_chan_fd cv i (ch_writefd c) SHUT_WR ses))))) Q"
      using liveD [OF that(2)] unfolding Let_def after_close_def
      by (intro safe_bindE) (rule safe_close, simp, simp, rule safe_bindE, rule safe_close, simp, simp, rule safe_close, simp, simp)
  qed
  have closeh: "\<And>f t. ct_closehandler (cn_type cv t) = Some f \<Longrightarrow> keeps_inv cv f" using assms(2) by (simp add: handlers_ok_def)
  show ?thesis
    unfolding send_msg_channel_close_def
    by (rule safe_bindE, rule safe_chan [OF assms(3,4)], rule safe_bindE, rule handler_safe [OF assms(3,4) closeh], assumption,
        rule safe_bindE, rule safe_chan, assumption, assumption, rule safe_message [OF assms(1)], assumption, rule rest, assumption)
       simp
qed

lemma chan_inv_remove:
  assumes "chan_inv cv ses" "live ses i" "send_ok (cn_env cv) s" "payload_empty s" "ses_channels s = (ses_channels ses)[i := None]"
    "ses_chancount s = ses_chancount ses - 1"
  shows "chan_inv cv s"
proof -
  have n: "Suc (open_slots ((ses_channels ses)[i := None])) = unat (ses_chancount ses)"
    using assms(1,2) open_slots_update(2) [of i "ses_channels ses"] by (simp add: chan_inv_def slots_ok_def live_def)
  then have "unat (ses_chancount ses - 1) = open_slots ((ses_channels ses)[i := None])"
    by (subst unat_u32_sub) (simp_all flip: n)
  then show ?thesis
    using assms by (auto simp: chan_inv_def slots_ok_def live_def nth_list_update split: if_splits)
qed

lemma remove_channel_safe:
  assumes "handlers_ok cv" "chan_inv cv ses" "live ses i" "\<And>s. chan_inv cv s \<Longrightarrow> \<not> live s i \<Longrightarrow> Q s"
  shows "safe (remove_channel cv i ses) Q"
proof -
  obtain c where c: "chan ses i = Inr c" "ses_channels ses ! i = Some c" "chan_ok (cn_recv_window cv) i c"
    using safe_chan [OF assms(2,3), of "\<lambda>_. True"] assms(2,3) by (auto simp: chanI live_def chan_inv_def slots_ok_def)
  let ?c = "c\<lparr>ch_writebuf := None, ch_extrabuf := None\<rparr>" and ?s = "set_chan i (c\<lparr>ch_writebuf := None, ch_extrabuf := None\<rparr>) ses"
  have len: "i < length (ses_channels ses)" using liveD [OF assms(3)] .
  have idx: "unat (ch_index c) = i" "ch_writebuf c \<noteq> None" using c(3) by (auto simp: chan_ok_def)
  have s: "send_ok (cn_env cv) ?s" "payload_empty ?s" "live ?s i"
    using assms(2) len by (simp_all add: chan_inv_def send_ok_def payload_empty_def set_chan_def live_def)
  have cleanup: "safe (call_handler (ct_cleanup (cn_type cv (ch_type c))) i ?s)
      (\<lambda>s. send_ok (cn_env cv) s \<and> payload_empty s \<and> ses_channels s = ses_channels ?s \<and> ses_chancount s = ses_chancount ?s)"
    using assms(1) s by (cases "ct_cleanup (cn_type cv (ch_type c))") (auto simp: call_handler_def handlers_ok_def keeps_channels_def)
  have fin: "safe (bindE (chan s i) (\<lambda>c. if unat (ch_index c) < length (ses_channels s)
        then returnE (s\<lparr>ses_channels := (ses_channels s)[unat (ch_index c) := None], ses_chancount := ses_chancount s - 1\<rparr>)
        else Inl Mem_fault)) Q"
    if "send_ok (cn_env cv) s" "payload_empty s" "ses_channels s = ses_channels ?s" "ses_chancount s = ses_chancount ?s" for s
  proof -
    have cs: "chan s i = Inr ?c" "ses_channels s = (ses_channels ses)[i := Some ?c]" "ses_chancount s = ses_chancount ses"
      using that len by (simp_all add: chan_def set_chan_def)
    have "Q (s\<lparr>ses_channels := (ses_channels s)[i := None], ses_chancount := ses_chancount s - 1\<rparr>)"
      using that(1,2) len by (intro assms(4) chan_inv_remove [OF assms(2,3)])
        (simp_all add: cs(2,3) send_ok_def payload_empty_def live_def)
    then show ?thesis using cs(1) idx len by (simp add: cs(2))
  qed
  obtain wb where wb: "ch_writebuf c = Some wb" using idx by auto
  show ?thesis
    unfolding remove_channel_def c(1) bindE_simps Let_def wb nn_simps
    by (rule safe_bindE, rule safe_weaken [where P = "\<lambda>_. True"], (simp add: m_close_def), rule safe_bindE,
        rule safe_weaken, simp, rule cleanup) (use fin in auto)
qed

lemma cbuf_pending_safe: "ch_writebuf c = Some b \<Longrightarrow> safe (cbuf_pending (ch_writebuf c)) (\<lambda>_. True)"
  by (simp add: cbuf_pending_def)

lemma write_pending_safe [safe_intros]:
  assumes "chan_ok W i c" "\<And>p. Q p"
  shows "safe (write_pending c) Q"
  using assms by (auto simp: write_pending_def cbuf_pending_def chan_ok_def)

lemma close_allowed_safe:
  assumes "handlers_ok cv" "chan_inv cv ses" "live ses i" "\<And>a s. chan_inv cv s \<Longrightarrow> live s i \<Longrightarrow> Q (a, s)"
  shows "safe (close_allowed cv i ses) Q"
proof -
  have h: "safe (f i ses) Q" if "ct_check_close (cn_type cv t) = Some f" for f t
  proof -
    have "keeps_inv cv (\<lambda>i ses. bindE (f i ses) (\<lambda>(_, s). returnE s))" using assms(1) that by (simp add: handlers_ok_def)
    then have "safe (bindE (f i ses) (\<lambda>(_, s). returnE s)) (\<lambda>s. chan_inv cv s \<and> live s i)"
      using assms(2,3) by (simp add: keeps_inv_def)
    then show ?thesis using assms(4) by (cases "f i ses") auto
  qed
  show ?thesis
    unfolding close_allowed_def
    by (rule safe_bindE, rule safe_chan [OF assms(2,3)]) (use h assms(2-4) in \<open>auto split: option.split\<close>)
qed

lemma safe_close_inv:
  assumes "chan_inv cv ses" "live ses i" "\<And>s. chan_inv cv s \<Longrightarrow> live s i \<Longrightarrow> Q s"
  shows "safe (close_chan_fd cv i fd how ses) Q"
proof -
  obtain c where c: "chan ses i = Inr c" "chan_ok (cn_recv_window cv) i c"
    using assms(1,2) by (auto simp: chanI live_def chan_inv_def slots_ok_def)
  show ?thesis
    using chan_inv_set_chan [OF assms(1,2) chan_ok_closed [OF c(2)]] by (intro safe_close [of _ _ c] c(1) assms(3))
qed

lemma flush_fds_safe:
  assumes "chan_inv cv ses" "live ses i" "\<And>s. chan_inv cv s \<Longrightarrow> live s i \<Longrightarrow> Q s"
  shows "safe (flush_fds cv i ses) Q"
  unfolding flush_fds_def
  by (rule safe_bindE, rule safe_chan [OF assms(1,2)], intro safe_if safe_bindE safe_return assms; (rule safe_close_inv)?)
     (use assms in \<open>auto intro!: safe_bindE safe_chan safe_close_inv\<close>)

lemma close_write_end_safe:
  assumes "chan_inv cv ses" "live ses i" "\<And>s. chan_inv cv s \<Longrightarrow> live s i \<Longrightarrow> Q s"
  shows "safe (close_write_end cv allowed i ses) Q"
  unfolding close_write_end_def
  by (rule safe_bindE, rule safe_chan [OF assms(1,2)])
     (use assms in \<open>auto intro!: safe_bindE safe_if safe_close_inv write_pending_safe\<close>)

lemma maybe_send_eof_safe:
  assumes "chanenv_ok cv" "chan_inv cv ses" "live ses i" "\<And>s. chan_inv cv s \<Longrightarrow> live s i \<Longrightarrow> Q s"
  shows "safe (maybe_send_eof cv i ses) Q"
  unfolding maybe_send_eof_def
  by (rule safe_bindE, rule safe_chan [OF assms(2,3)]) (use assms in \<open>auto intro!: safe_if send_eof_safe\<close>)

lemma maybe_send_close_safe:
  assumes "chanenv_ok cv" "handlers_ok cv" "chan_inv cv ses" "live ses i" "\<And>s. chan_inv cv s \<Longrightarrow> live s i \<Longrightarrow> Q s"
  shows "safe (maybe_send_close cv allowed i ses) Q"
  unfolding maybe_send_close_def
  by (rule safe_bindE, rule safe_chan [OF assms(3,4)])
     (use assms in \<open>auto intro!: safe_if safe_bindE write_pending_safe send_close_safe\<close>)

lemma check_close_safe:
  assumes "chanenv_ok cv" "handlers_ok cv" "chan_inv cv ses" "live ses i" "\<And>s. chan_inv cv s \<Longrightarrow> Q s"
  shows "safe (check_close cv i ses) Q"
proof -
  have fin: "safe (bindE (if \<not> b then send_msg_channel_close cv i s else returnE s) (remove_channel cv i)) Q"
    if "chan_inv cv s" "live s i" for b s
    using that by (intro safe_bindE safe_if safe_return send_close_safe [OF assms(1,2)] remove_channel_safe [OF assms(2)] assms(5))
  have rest: "safe (bindE (close_write_end cv a i s) (\<lambda>s. bindE (maybe_send_eof cv i s) (\<lambda>s. maybe_send_close cv a i s))) Q"
    if "chan_inv cv s" "live s i" for a s
    using that by (intro safe_bindE close_write_end_safe maybe_send_eof_safe [OF assms(1)] maybe_send_close_safe [OF assms(1,2)] assms(5))
  have dn: "safe (if ch_recv_close c then bindE (write_pending c) (\<lambda>p. returnE (\<not> p \<and> a)) else returnE False) (\<lambda>_. True)"
    if "chan_ok W i c" for a c W
    using that by (intro safe_if safe_bindE write_pending_safe safe_return) simp_all
  show ?thesis
    unfolding check_close_def
    by (rule safe_bindE, rule close_allowed_safe [OF assms(2,3,4)], simp only: prod.case, rule safe_bindE, rule flush_fds_safe, assumption+,
        rule safe_bindE, rule safe_chan, assumption+, rule safe_bindE, rule safe_weaken, rule dn, assumption, rule safe_if, rule fin, assumption+,
        rule rest)
qed

end
