(* ===== verification/Channel_Data.thy ===== *)
theory Channel_Data
  imports Channel_Inv
begin

text \<open>
  Data on a channel: what arrives is written out or stored, in order and within the window, and
  what is sent keeps to the window of the other side.
\<close>

section \<open>Writing out\<close>

text \<open>How many of the bytes it is offered the kernel takes.\<close>

definition taken :: "chanenv \<Rightarrow> int \<Rightarrow> byte list \<Rightarrow> nat" where
  "taken cv fd bs = (case cn_writev cv fd bs of Wr n \<Rightarrow> n | _ \<Rightarrow> 0)"

lemma taken_le: "chanenv_ok cv \<Longrightarrow> taken cv fd bs \<le> length bs"
  by (simp add: taken_def chanenv_ok_def split: io_write.split)

lemma out_buf_ok: "chan_ok W i c \<Longrightarrow> out_buf w c = Some b \<Longrightarrow> wf_cbuf b \<and> cb_size b = W"
  by (auto simp: chan_ok_def out_buf_def out_ok_def split: chan_out.splits)

lemma held_window: "chan_ok W i c \<Longrightarrow> out_buf w c = Some b \<Longrightarrow> unat (ch_recvwindow c) + unat (ch_recvdonelen c) + unat (cb_used b) \<le> held c"
  by (auto simp: held_def out_buf_def used_in_def split: chan_out.splits)

text \<open>A channel after some stored bytes have been written, or some more stored.\<close>

lemma set_out_buf_ok:
  assumes "chan_ok W i c" "out_buf w c = Some b" "wf_cbuf b'" "cb_size b' = W"
    "unat d + unat (cb_used b') + held c \<le> unat W + unat (ch_recvdonelen c) + unat (cb_used b)"
  shows "chan_ok W i ((set_out_buf w b' c)\<lparr>ch_recvdonelen := d\<rparr>)"
    "held ((set_out_buf w b' c)\<lparr>ch_recvdonelen := d\<rparr>) + unat (ch_recvdonelen c) + unat (cb_used b) = held c + unat d + unat (cb_used b')"
    "out_buf w ((set_out_buf w b' c)\<lparr>ch_recvdonelen := d\<rparr>) = Some b'"
  using assms by (auto simp: chan_ok_def out_ok_def set_out_buf_def out_buf_def held_def used_in_def split: chan_out.splits)

definition more_len :: "byte list option \<Rightarrow> nat" where
  "more_len md = (case md of None \<Rightarrow> 0 | Some m \<Rightarrow> length m)"

definition more_bytes :: "byte list option \<Rightarrow> byte list" where
  "more_bytes md = (case md of None \<Rightarrow> [] | Some m \<Rightarrow> m)"

text \<open>
  What a channel is like when \<open>n\<close> of the bytes \<open>old @ new\<close> have been written out: the rest of the old
  ones is still stored, and the rest of the new ones still fits.
\<close>

definition wrote :: "u32 \<Rightarrow> chan_out \<Rightarrow> byte list \<Rightarrow> byte list \<Rightarrow> nat \<Rightarrow> nat \<Rightarrow> Channel \<Rightarrow> bool" where
  "wrote W w old new n consumed c \<longleftrightarrow> consumed = n - length old \<and> consumed \<le> length new \<and> held c + (length new - consumed) \<le> unat W
     \<and> (\<exists>b. out_buf w c = Some b \<and> cbuf_contents b = drop n old)"

lemma writechannel_writev_safe:
  assumes "chanenv_ok cv" "chan_inv cv ses" "live ses i" "ses_channels ses ! i = Some c" "out_buf w c = Some b"
    "held c + more_len md \<le> unat (cn_recv_window cv)"
    "\<And>ret consumed s c'. chan_inv cv s \<Longrightarrow> live s i \<Longrightarrow> ses_payload s = ses_payload ses \<Longrightarrow> ses_channels s ! i = Some c' \<Longrightarrow>
       (ret = DROPBEAR_SUCCESS \<Longrightarrow> wrote (cn_recv_window cv) w (cbuf_contents b) (more_bytes md) (taken cv fd (cbuf_contents b @ more_bytes md)) consumed c') \<Longrightarrow>
       (ret = DROPBEAR_FAILURE \<Longrightarrow> consumed = 0 \<and> cn_writev cv fd (cbuf_contents b @ more_bytes md) = Wr_error) \<Longrightarrow> Q (ret, consumed, s)"
  shows "safe (writechannel_writev cv i fd w md ses) Q"
proof -
  let ?W = "cn_recv_window cv" and ?all = "cbuf_contents b @ more_bytes md"
  have ok: "chan_ok ?W i c" using assms(2-4) by (simp add: chan_inv_def slots_ok_def live_def)
  have ch: "chan ses i = Inr c" using assms(3,4) by (simp add: chanI)
  have b: "wf_cbuf b" "cb_size b = ?W" using out_buf_ok [OF ok assms(5)] by simp_all
  have len: "length (more_bytes md) = more_len md" by (simp add: more_bytes_def more_len_def split: option.split)
  have same: "Q (DROPBEAR_SUCCESS, 0, ses)" if "taken cv fd ?all = 0 \<or> ?all = []"
  proof -
    have "taken cv fd ?all = 0" using that taken_le [OF assms(1), of fd "[]"] by auto
    then show ?thesis using assms(2-6) by (intro assms(7)) (auto simp: wrote_def len)
  qed
  have wr: "safe (bindE (cbuf_incrread b (of_nat (min (length (cbuf_contents b)) n))) (\<lambda>b'. returnE (DROPBEAR_SUCCESS,
      case md of None \<Rightarrow> 0 | Some _ \<Rightarrow> n - min (length (cbuf_contents b)) n,
      set_chan i ((set_out_buf w b' c)\<lparr>ch_recvdonelen := ch_recvdonelen c + of_nat n\<rparr>) ses))) Q"
    if "cn_writev cv fd ?all = Wr n" for n
  proof -
    define k where "k = min (length (cbuf_contents b)) n"
    have W: "unat ?W \<le> 100000000" using wf_cbufD [OF b(1)] b(2) by simp
    have n: "n \<le> length (cbuf_contents b) + more_len md"
      using that taken_le [OF assms(1), of fd ?all] len by (simp add: taken_def)
    have used: "length (cbuf_contents b) = unat (cb_used b)" using length_contents [OF b(1)] .
    have hw: "unat (ch_recvwindow c) + unat (ch_recvdonelen c) + unat (cb_used b) \<le> held c" using held_window [OF ok assms(5)] .
    have k: "k \<le> unat (cb_used b)" "unat (of_nat k :: u32) = k" "n - k \<le> more_len md"
      using n used hw assms(6) W by (auto simp: k_def unat_u32_of_nat)
    obtain b' where b': "cbuf_incrread b (of_nat k) = Inr b'" "wf_cbuf b'" "cbuf_contents b' = drop k (cbuf_contents b)"
      "unat (cb_size b') = unat (cb_size b)"
      using cbuf.skip_law [OF b(1), of "of_nat k"] k used by auto
    have used': "unat (cb_used b') = unat (cb_used b) - k" "cb_size b' = ?W"
      using length_contents [OF b'(2)] b'(3,4) used b(2) by (simp_all add: u32_eq_nat)
    have d: "unat (ch_recvdonelen c + of_nat n) = unat (ch_recvdonelen c) + n"
      using n used hw assms(6) W by (subst unat_u32_add) (simp_all add: unat_u32_of_nat)
    let ?c = "(set_out_buf w b' c)\<lparr>ch_recvdonelen := ch_recvdonelen c + of_nat n\<rparr>"
    have le: "unat (ch_recvdonelen c + of_nat n) + unat (cb_used b') + held c \<le> unat ?W + unat (ch_recvdonelen c) + unat (cb_used b)"
      using d used'(1) k assms(6) by linarith
    note c' = set_out_buf_ok [OF ok assms(5) b'(2) used'(2) le]
    have dr: "drop k (cbuf_contents b) = drop n (cbuf_contents b)" by (simp add: k_def min_def)
    have cons: "(case md of None \<Rightarrow> 0 | Some _ \<Rightarrow> n - k) = n - length (cbuf_contents b)"
      using n by (auto simp: k_def more_len_def split: option.splits)
    have h: "held ?c + (more_len md - (n - length (cbuf_contents b))) \<le> unat ?W"
      using c'(2) d used' k used assms(6) n by (auto simp: k_def min_def split: if_splits)
    have "Q (DROPBEAR_SUCCESS, n - length (cbuf_contents b), set_chan i ?c ses)"
    proof (rule assms(7))
      show "chan_inv cv (set_chan i ?c ses)" "live (set_chan i ?c ses) i" using chan_inv_set_chan [OF assms(2,3) c'(1)] by simp_all
      show "ses_channels (set_chan i ?c ses) ! i = Some ?c" using liveD [OF assms(3)] by (simp add: set_chan_def)
      show "wrote ?W w (cbuf_contents b) (more_bytes md) (taken cv fd ?all) (n - length (cbuf_contents b)) ?c"
        unfolding wrote_def using that n h c'(3) b'(3) dr len by (auto simp: taken_def)
    qed (simp_all add: set_chan_def)
    then show ?thesis unfolding k_def [symmetric] b'(1) bindE_simps safe_simps cons .
  qed
  have peek: "cbuf_peek b = Inr (cbuf_contents b)" using cbuf.peek_law [OF b(1)] .
  show ?thesis
    unfolding writechannel_writev_def ch bindE_simps assms(5) nn_simps peek Let_def more_bytes_def [symmetric]
  proof (rule safe_if)
    assume "cbuf_contents b = [] \<and> md = None"
    then show "safe (returnE (DROPBEAR_SUCCESS, 0, ses)) Q" using same by (simp add: more_bytes_def)
  next
    show "safe (case cn_writev cv fd ?all of
         Wr n \<Rightarrow> bindE (cbuf_incrread b (of_nat (min (length (cbuf_contents b)) n))) (\<lambda>b'. returnE (DROPBEAR_SUCCESS,
           case md of None \<Rightarrow> 0 | Some _ \<Rightarrow> n - min (length (cbuf_contents b)) n,
           set_chan i ((set_out_buf w b' c)\<lparr>ch_recvdonelen := ch_recvdonelen c + of_nat n\<rparr>) ses))
       | Wr_again \<Rightarrow> returnE (DROPBEAR_SUCCESS, 0, ses)
       | Wr_error \<Rightarrow> bindE (close_chan_fd cv i fd SHUT_WR ses) (\<lambda>ses. returnE (DROPBEAR_FAILURE, 0, ses))) Q"
    proof (cases "cn_writev cv fd ?all")
      case (Wr n)
      then show ?thesis using wr by simp
    next
      case Wr_again
      then show ?thesis using same by (simp add: taken_def)
    next
      case Wr_error
      have "safe (close_chan_fd cv i fd SHUT_WR ses) (\<lambda>s. Q (DROPBEAR_FAILURE, 0, s))"
        using chan_inv_set_chan [OF assms(2,3) chan_ok_closed [OF ok]] liveD [OF assms(3)] Wr_error
        by (intro safe_close [OF ch] assms(7)) (simp_all add: set_chan_def)
      then show ?thesis using Wr_error by (simp add: safe_bindE)
    qed
  qed
qed

text \<open>Granting the window again changes nothing else.\<close>

definition adjusted :: "chanenv \<Rightarrow> nat \<Rightarrow> sshsession \<Rightarrow> Channel \<Rightarrow> sshsession \<Rightarrow> bool" where
  "adjusted cv i s c t \<longleftrightarrow> chan_inv cv t \<and> live t i \<and> ses_payload t = ses_payload s
     \<and> (\<exists>c'. ses_channels t ! i = Some c' \<and> held c' = held c \<and> ch_writebuf c' = ch_writebuf c \<and> ch_extrabuf c' = ch_extrabuf c)"

lemma writechannel_safe:
  assumes "chanenv_ok cv" "chan_inv cv ses" "live ses i" "ses_channels ses ! i = Some c" "out_buf w c = Some b"
    "held c + more_len md \<le> unat (cn_recv_window cv)"
    "\<And>ret consumed s c'. chan_inv cv s \<Longrightarrow> live s i \<Longrightarrow> ses_payload s = ses_payload ses \<Longrightarrow> ses_channels s ! i = Some c' \<Longrightarrow>
       (ret = DROPBEAR_SUCCESS \<Longrightarrow> wrote (cn_recv_window cv) w (cbuf_contents b) (more_bytes md) (taken cv fd (cbuf_contents b @ more_bytes md)) consumed c') \<Longrightarrow>
       (ret = DROPBEAR_FAILURE \<Longrightarrow> consumed = 0 \<and> cn_writev cv fd (cbuf_contents b @ more_bytes md) = Wr_error) \<Longrightarrow> Q (ret, consumed, s)"
  shows "safe (writechannel cv i fd w md ses) Q"
proof -
  let ?W = "cn_recv_window cv"
  have adj: "safe (if ch_recvdonelen c' \<ge> RECV_WINDOWEXTEND cv then
              bindE (send_msg_channel_window_adjust cv i (ch_recvdonelen c') s) (\<lambda>ses.
              bindE (chan ses i) (\<lambda>c.
              returnE (set_chan i (c\<lparr>ch_recvwindow := ch_recvwindow c + ch_recvdonelen c, ch_recvdonelen := 0\<rparr>) ses)))
            else returnE s) (adjusted cv i s c')"
    if s: "chan_inv cv s" "live s i" "ses_channels s ! i = Some c'" for s c'
  proof -
    let ?c = "c'\<lparr>ch_recvwindow := ch_recvwindow c' + ch_recvdonelen c', ch_recvdonelen := 0\<rparr>"
    have ok: "chan_ok ?W i c'" using s by (simp add: chan_inv_def slots_ok_def live_def)
    obtain wb where wb: "ch_writebuf c' = Some wb" "wf_cbuf wb" "cb_size wb = ?W" using ok by (auto simp: chan_ok_def out_ok_def)
    then have "held c' \<le> 100000000" using ok wf_cbufD [of wb] by (simp add: chan_ok_def)
    then have a: "unat (ch_recvwindow c' + ch_recvdonelen c') = unat (ch_recvwindow c') + unat (ch_recvdonelen c')"
      by (intro unat_u32_add) (simp add: held_def)
    have h: "held ?c = held c'" using a by (simp add: held_def)
    then have ok': "chan_ok ?W i ?c" using ok by (simp add: chan_ok_def)
    have sent: "chan t i = Inr c'" "chan_inv cv (set_chan i ?c t)" "live (set_chan i ?c t) i" "ses_channels (set_chan i ?c t) ! i = Some ?c"
      "ses_payload (set_chan i ?c t) = ses_payload s" if "chan_inv cv t" "sends s t" for t
    proof -
      have l: "live t i" "ses_channels t ! i = Some c'" using that s by (simp_all add: sends_chan)
      show "chan t i = Inr c'" using l by (simp add: chanI)
      show "chan_inv cv (set_chan i ?c t)" "live (set_chan i ?c t) i" using chan_inv_set_chan [OF that(1) l(1) ok'] .
      show "ses_channels (set_chan i ?c t) ! i = Some ?c" "ses_payload (set_chan i ?c t) = ses_payload s"
        using liveD [OF l(1)] that(2) by (simp_all add: set_chan_def sends_def)
    qed
    show ?thesis
    proof (rule safe_if)
      show "safe (bindE (send_msg_channel_window_adjust cv i (ch_recvdonelen c') s) (\<lambda>ses.
              bindE (chan ses i) (\<lambda>c.
              returnE (set_chan i (c\<lparr>ch_recvwindow := ch_recvwindow c + ch_recvdonelen c, ch_recvdonelen := 0\<rparr>) ses)))) (adjusted cv i s c')"
      proof (rule safe_bindE, rule send_messages_safe(1) [OF assms(1) s(1,2)])
        fix t assume t: "chan_inv cv t" "sends s t"
        show "safe (bindE (chan t i) (\<lambda>c.
              returnE (set_chan i (c\<lparr>ch_recvwindow := ch_recvwindow c + ch_recvdonelen c, ch_recvdonelen := 0\<rparr>) t))) (adjusted cv i s c')"
          unfolding sent(1) [OF t] bindE_simps safe_simps adjusted_def using sent(2-) [OF t] h by simp
      qed
      show "safe (returnE s) (adjusted cv i s c')" using s by (simp add: adjusted_def)
    qed
  qed
  have asserts: "ch_recvwindow c'' \<le> ?W" "\<exists>wb. ch_writebuf c'' = Some wb \<and> ch_recvwindow c'' \<le> cbuf_getavail wb"
    "case ch_extrabuf c'' of None \<Rightarrow> True | Some eb \<Rightarrow> ch_recvwindow c'' \<le> cbuf_getavail eb" if "chan_ok ?W i c''" for c''
  proof -
    have av: "unat (cbuf_getavail x) = unat ?W - unat (cb_used x)" if "out_ok ?W x" for x
      using that wf_cbufD(3) [of x] by (simp add: out_ok_def cbuf_getavail_def unat_u32_sub)
    show "ch_recvwindow c'' \<le> ?W" using that by (simp add: chan_ok_def held_def u32_nat)
    show "\<exists>wb. ch_writebuf c'' = Some wb \<and> ch_recvwindow c'' \<le> cbuf_getavail wb"
      using that av by (auto simp: chan_ok_def held_def used_in_def u32_nat)
    show "case ch_extrabuf c'' of None \<Rightarrow> True | Some eb \<Rightarrow> ch_recvwindow c'' \<le> cbuf_getavail eb"
      using that av by (auto simp: chan_ok_def held_def used_in_def u32_nat split: option.split)
  qed
  have rest: "safe (bindE (chan t i) (\<lambda>c.
       bindE (dropbear_assert (ch_recvwindow c \<le> ?W) m1) (\<lambda>_.
       bindE (nn (ch_writebuf c)) (\<lambda>writebuf.
       bindE (dropbear_assert (ch_recvwindow c \<le> cbuf_getavail writebuf) m2) (\<lambda>_.
       bindE (dropbear_assert (case ch_extrabuf c of None \<Rightarrow> True | Some extrabuf \<Rightarrow> ch_recvwindow c \<le> cbuf_getavail extrabuf) m3) (\<lambda>_.
       returnE r)))))) Q" if "chan_inv cv t" "live t i" "Q r" for t r m1 m2 m3
  proof (rule safe_bindE, rule safe_chan [OF that(1,2)])
    fix c'' assume "chan_ok ?W i c''"
    note a = asserts [OF this]
    then obtain wb where "ch_writebuf c'' = Some wb" "ch_recvwindow c'' \<le> cbuf_getavail wb" by blast
    then show "safe (bindE (dropbear_assert (ch_recvwindow c'' \<le> ?W) m1) (\<lambda>_.
       bindE (nn (ch_writebuf c'')) (\<lambda>writebuf.
       bindE (dropbear_assert (ch_recvwindow c'' \<le> cbuf_getavail writebuf) m2) (\<lambda>_.
       bindE (dropbear_assert (case ch_extrabuf c'' of None \<Rightarrow> True | Some extrabuf \<Rightarrow> ch_recvwindow c'' \<le> cbuf_getavail extrabuf) m3) (\<lambda>_.
       returnE r))))) Q"
      using a(1,3) that(3) by simp
  qed
  show ?thesis
    unfolding writechannel_def
  proof (rule safe_bindE, rule writechannel_writev_safe [OF assms(1-6)], simp only: prod.case)
    fix ret consumed s c'
    let ?wrote = "\<lambda>c'. wrote ?W w (cbuf_contents b) (more_bytes md) (taken cv fd (cbuf_contents b @ more_bytes md)) consumed c'"
    assume s: "chan_inv cv s" "live s i" "ses_payload s = ses_payload ses" "ses_channels s ! i = Some c'"
      and r: "ret = DROPBEAR_SUCCESS \<Longrightarrow> ?wrote c'"
        "ret = DROPBEAR_FAILURE \<Longrightarrow> consumed = 0 \<and> cn_writev cv fd (cbuf_contents b @ more_bytes md) = Wr_error"
    have q: "Q (ret, consumed, t)" if adj_t: "adjusted cv i s c' t" for t
    proof -
      obtain c'' where t: "chan_inv cv t" "live t i" "ses_payload t = ses_payload s" "ses_channels t ! i = Some c''" "held c'' = held c'"
        "ch_writebuf c'' = ch_writebuf c'" "ch_extrabuf c'' = ch_extrabuf c'" using adj_t by (auto simp: adjusted_def)
      have "out_buf w c'' = out_buf w c'" using t(6,7) by (simp add: out_buf_def split: chan_out.split)
      then have "?wrote c'' = ?wrote c'" using t(5) by (simp add: wrote_def)
      then show ?thesis using assms(7) [OF t(1,2) _ t(4)] r s(3) t(3) by simp
    qed
    have ch: "chan s i = Inr c'" using s(2,4) by (simp add: chanI)
    show "safe (bindE (chan s i) (\<lambda>c.
       bindE (if ch_recvdonelen c \<ge> RECV_WINDOWEXTEND cv then
              bindE (send_msg_channel_window_adjust cv i (ch_recvdonelen c) s) (\<lambda>ses.
              bindE (chan ses i) (\<lambda>c.
              returnE (set_chan i (c\<lparr>ch_recvwindow := ch_recvwindow c + ch_recvdonelen c, ch_recvdonelen := 0\<rparr>) ses)))
            else returnE s) (\<lambda>ses.
       bindE (chan ses i) (\<lambda>c.
       bindE (dropbear_assert (ch_recvwindow c \<le> ?W) ''channel->recvwindow <= opts.recv_window'') (\<lambda>_.
       bindE (nn (ch_writebuf c)) (\<lambda>writebuf.
       bindE (dropbear_assert (ch_recvwindow c \<le> cbuf_getavail writebuf) ''channel->recvwindow <= cbuf_getavail(channel->writebuf)'') (\<lambda>_.
       bindE (dropbear_assert (case ch_extrabuf c of None \<Rightarrow> True | Some extrabuf \<Rightarrow> ch_recvwindow c \<le> cbuf_getavail extrabuf)
              ''channel->extrabuf == NULL || channel->recvwindow <= cbuf_getavail(channel->extrabuf)'') (\<lambda>_.
       returnE (ret, consumed, ses))))))))) Q"
      unfolding ch bindE_simps
      by (rule safe_bindE, rule safe_weaken [OF adj [OF s(1,2,4)]], rule rest) (simp_all add: q, simp_all add: adjusted_def)
  qed
qed

section \<open>Storing\<close>

lemma store_loop_ok:
  assumes "wf_cbuf b" "wf_buf p" "unat l \<le> length (unread p)" "unat l + unat (cb_used b) \<le> unat (cb_size b)"
  shows "\<exists>b' p'. store_loop b p l = Some (Inr (b', p')) \<and> wf_cbuf b' \<and> cbuf_contents b' = cbuf_contents b @ take (unat l) (unread p)
     \<and> cb_size b' = cb_size b \<and> wf_buf p'"
  using assms
proof (induction "unat l" arbitrary: b p l rule: less_induct)
  case less
  show ?case
  proof (cases "l = 0")
    case True
    then show ?thesis using less.prems by (subst store_loop.simps) simp
  next
    case False
    define n where "n = min (linear_room b) (unat l)"
    have l: "0 < unat l" using False by (simp add: unat_gt_0)
    have n: "0 < n" "n \<le> unat l" "n \<le> length (unread p)"
      using l linear_room_pos [OF less.prems(1)] less.prems(3,4) by (auto simp: n_def)
    have m: "min (of_nat (linear_room b)) l = of_nat n" "unat (of_nat n :: u32) = n"
      using unat_writelen [OF less.prems(1)] by (auto simp: n_def min_def u32_nat)
    have r: "mem_read (b_data p) (unat (b_pos p)) n = Inr (take n (unread p))"
      using n(3) read_at_pos [OF less.prems(2)] by simp
    obtain b1 where b1: "cbuf_write b (take n (unread p)) = Inr b1" "wf_cbuf b1" "cbuf_contents b1 = cbuf_contents b @ take n (unread p)"
      "unat (cb_size b1) = unat (cb_size b)"
      using cbuf.put_law [OF less.prems(1), of "take n (unread p)"] n by (auto simp: n_def)
    have p: "store_piece b p l = Inr (b1, advance p n, l - of_nat n)"
      using less.prems n r b1(1) by (simp add: store_piece_def cbuf_writelen_eq m buf_getptr_eq buf_incrpos_eq Let_def)
    have used: "unat (cb_used b1) = unat (cb_used b) + n"
      using length_contents [OF b1(2)] length_contents [OF less.prems(1)] b1(3) n by simp
    have l1: "unat (l - of_nat n) = unat l - n" using n m(2) by (subst unat_u32_sub) simp_all
    have "\<exists>b' p'. store_loop b1 (advance p n) (l - of_nat n) = Some (Inr (b', p')) \<and> wf_cbuf b'
       \<and> cbuf_contents b' = cbuf_contents b1 @ take (unat (l - of_nat n)) (unread (advance p n)) \<and> cb_size b' = cb_size b1 \<and> wf_buf p'"
      using less.prems n b1 l1 used by (intro less.hyps) (simp_all add: wf_advance unread_advance)
    moreover have "take n (unread p) @ take (unat l - n) (drop n (unread p)) = take (unat l) (unread p)"
      using n by (metis take_drop_split)
    ultimately show ?thesis
      using p False b1(3,4) l1 unread_advance [OF less.prems(2) n(3)] by (subst store_loop.simps) (auto simp: u32_eq_nat)
  qed
qed

section \<open>Receiving\<close>

text \<open>The other side sends more than its window.\<close>

definition overruns :: "Channel \<Rightarrow> sshsession \<Rightarrow> bool" where
  "overruns c ses \<longleftrightarrow> (\<exists>datalen s. payload_int ses = Inr (datalen, s) \<and> datalen > ch_recvwindow c)"

lemma safe_payload_int:
  assumes "ses_payload ses = Some p" "wf_buf p"
    "\<And>v rest. unread p = STORE32H v @ rest \<Longrightarrow> payload_int ses = Inr (v, ses\<lparr>ses_payload := Some (advance p 4)\<rparr>) \<Longrightarrow>
       wf_buf (advance p 4) \<Longrightarrow> unread (advance p 4) = rest \<Longrightarrow> Q (v, ses\<lparr>ses_payload := Some (advance p 4)\<rparr>)"
  shows "safe (payload_int ses) Q"
  using assms(2)
proof (cases rule: string_cases)
  case 1
  then show ?thesis by (simp add: payload_int_def assms(1,2) buf_getint_short)
next
  case (2 v rest)
  have "payload_int ses = Inr (v, ses\<lparr>ses_payload := Some (advance p 4)\<rparr>)"
    using 2 by (simp add: payload_int_def assms(1,2) buf_getint_eq)
  moreover have "wf_buf (advance p 4)" "unread (advance p 4) = rest"
    using 2 wf_advance [OF assms(2), of 4] unread_advance [OF assms(2), of 4] by simp_all
  ultimately show ?thesis using assms(3) [OF 2] by simp
qed

text \<open>
  What becomes of \<open>new\<close> bytes that arrive when \<open>old\<close> ones are stored: the kernel takes a first part of
  all of them, and the rest is stored; after an error the channel takes no more.
\<close>

definition passed_on :: "chanenv \<Rightarrow> int \<Rightarrow> chan_out \<Rightarrow> byte list \<Rightarrow> byte list \<Rightarrow> Channel \<Rightarrow> bool" where
  "passed_on cv fd w old new c \<longleftrightarrow> cn_writev cv fd (old @ new) \<noteq> Wr_error \<longrightarrow>
     (\<exists>b. out_buf w c = Some b \<and> cbuf_contents b = drop (taken cv fd (old @ new)) (old @ new))"

lemma inv_payload [simp]: "chan_inv cv (ses\<lparr>ses_payload := q\<rparr>) = chan_inv cv ses" "live (ses\<lparr>ses_payload := q\<rparr>) i = live ses i"
  by (simp_all add: chan_inv_def slots_ok_def send_ok_def payload_empty_def live_def)

lemma store_rest_safe:
  assumes "chan_inv cv s" "live s i" "ses_channels s ! i = Some c" "out_buf w c = Some b" "wf_buf q" "unat l \<le> length (unread q)"
    "held c + unat l \<le> unat (cn_recv_window cv)"
    "\<And>c' b' t. chan_inv cv t \<Longrightarrow> live t i \<Longrightarrow> ses_channels t ! i = Some c' \<Longrightarrow> out_buf w c' = Some b' \<Longrightarrow>
       cbuf_contents b' = cbuf_contents b @ take (unat l) (unread q) \<Longrightarrow> Q t"
  shows "safe (bindE (chan s i) (\<lambda>c. bindE (nn (out_buf w c)) (\<lambda>cbuf.
       case store_loop cbuf q l of
         None \<Rightarrow> Inl Diverge
       | Some r \<Rightarrow> bindE r (\<lambda>(cbuf, payload). returnE (set_chan i (set_out_buf w cbuf c) (s\<lparr>ses_payload := Some payload\<rparr>)))))) Q"
proof -
  let ?W = "cn_recv_window cv"
  have ok: "chan_ok ?W i c" using assms(1-3) by (simp add: chan_inv_def slots_ok_def live_def)
  have ch: "chan s i = Inr c" using assms(2,3) by (simp add: chanI)
  have b: "wf_cbuf b" "cb_size b = ?W" "unat (cb_used b) \<le> held c"
    using out_buf_ok [OF ok assms(4)] held_window [OF ok assms(4)] by simp_all
  obtain b' q' where st: "store_loop b q l = Some (Inr (b', q'))" "wf_cbuf b'" "cbuf_contents b' = cbuf_contents b @ take (unat l) (unread q)"
    "cb_size b' = cb_size b"
    using store_loop_ok [OF b(1) assms(5,6)] assms(7) b by auto
  have used: "unat (cb_used b') = unat (cb_used b) + unat l"
    using length_contents [OF st(2)] length_contents [OF b(1)] st(3) assms(6) by simp
  let ?c = "set_out_buf w b' c"
  have id: "?c\<lparr>ch_recvdonelen := ch_recvdonelen c\<rparr> = ?c" by (cases w) (simp_all add: set_out_buf_def)
  have le: "unat (ch_recvdonelen c) + unat (cb_used b') + held c \<le> unat ?W + unat (ch_recvdonelen c) + unat (cb_used b)"
    using assms(7) used by simp
  have "chan_ok ?W i ?c" "out_buf w ?c = Some b'"
    using set_out_buf_ok(1,3) [OF ok assms(4) st(2) _ le] st(4) b(2) unfolding id by simp_all
  then have "Q (set_chan i ?c (s\<lparr>ses_payload := Some q'\<rparr>))"
    using chan_inv_set_chan [of cv "s\<lparr>ses_payload := Some q'\<rparr>" i ?c] assms(1,2) liveD [OF assms(2)] st(3)
    by (intro assms(8)) (simp_all add: set_chan_def)
  then show ?thesis by (simp add: ch assms(4) st(1))
qed

lemma store_received_safe:
  assumes "chan_inv cv t" "live t i" "ses_channels t ! i = Some c" "wf_buf q" "unat v \<le> length (unread q)"
    and ok: "ret = DROPBEAR_SUCCESS \<Longrightarrow> wrote (cn_recv_window cv) w old (take (unat v) (unread q)) (taken cv fd (old @ take (unat v) (unread q))) consumed c"
    and bad: "ret = DROPBEAR_FAILURE \<Longrightarrow> consumed = 0 \<and> cn_writev cv fd (old @ take (unat v) (unread q)) = Wr_error"
    and Q: "\<And>x c'. chan_inv cv x \<Longrightarrow> live x i \<Longrightarrow> ses_channels x ! i = Some c' \<Longrightarrow> passed_on cv fd w old (take (unat v) (unread q)) c' \<Longrightarrow> Q x"
  shows "safe (store_received i w v q ret consumed t) Q"
proof -
  let ?new = "take (unat v) (unread q)"
  let ?n = "taken cv fd (old @ ?new)"
  have cons: "consumed \<le> unat v" using ok bad assms(5) by (cases ret) (auto simp: wrote_def)
  have u: "unat (of_nat consumed :: u32) = consumed"
    by (intro unat_u32_of_nat le_less_trans [OF cons]) (use unsigned_less [of v, where 'a = nat] in simp)
  have ul: "unat (v - of_nat consumed) = unat v - consumed" using cons u by (simp add: unat_u32_sub)
  have adv: "unread (advance q consumed) = drop consumed (unread q)" "wf_buf (advance q consumed)"
    using assms(4,5) cons by (simp_all add: unread_advance wf_advance)
  have st: "safe (bindE (chan t i) (\<lambda>c. bindE (nn (out_buf w c)) (\<lambda>cbuf.
       case store_loop cbuf (advance q consumed) (v - of_nat consumed) of
         None \<Rightarrow> Inl Diverge
       | Some r \<Rightarrow> bindE r (\<lambda>(cbuf, payload). returnE (set_chan i (set_out_buf w cbuf c) (t\<lparr>ses_payload := Some payload\<rparr>)))))) Q"
    if ret: "ret = DROPBEAR_SUCCESS"
  proof -
    obtain b where b: "consumed = ?n - length old" "held c + (unat v - consumed) \<le> unat (cn_recv_window cv)"
      "out_buf w c = Some b" "cbuf_contents b = drop ?n old"
      using ok [OF ret] assms(5) by (auto simp: wrote_def)
    show ?thesis
    proof (rule store_rest_safe [OF assms(1-3) b(3)])
      fix c' b' x
      assume x: "chan_inv cv x" "live x i" "ses_channels x ! i = Some c'" "out_buf w c' = Some b'"
        "cbuf_contents b' = cbuf_contents b @ take (unat (v - of_nat consumed)) (unread (advance q consumed))"
      have "cbuf_contents b' = drop ?n (old @ ?new)" using x(5) b(1,4) ul adv(1) by (simp add: drop_take)
      then show "Q x" using x by (intro Q [OF x(1,2,3)]) (simp add: passed_on_def)
    qed (use adv ul assms(5) cons b(2) in \<open>simp_all add: diff_le_mono\<close>)
  qed
  show ?thesis
    unfolding store_received_def
  proof (rule safe_bindE, rule safe_incrpos [OF assms(4)], unfold u, rule safe_if)
    assume "ret \<noteq> DROPBEAR_SUCCESS"
    then have "ret = DROPBEAR_FAILURE" by (cases ret) simp_all
    then have "cn_writev cv fd (old @ ?new) = Wr_error" using bad by simp
    then show "safe (returnE (t\<lparr>ses_payload := Some (advance q consumed)\<rparr>)) Q"
      using assms(1-3) unfolding safe_simps by (intro Q [of _ c]) (simp_all add: passed_on_def)
  qed (rule st)
qed

text \<open>
  Receiving data: it is ignored, or \<open>datalen\<close> bytes are in the packet and are passed on.
\<close>

lemma common_recv_safe:
  assumes "chanenv_ok cv" "chan_inv cv ses" "live ses i" "ses_channels ses ! i = Some c" "ses_payload ses = Some p" "wf_buf p" "\<not> overruns c ses"
    and ign: "out_fd w c < 0 \<or> out_buf w c = None \<Longrightarrow> Q ses"
    and Q: "\<And>x b datalen rest c'. chan_inv cv x \<Longrightarrow> live x i \<Longrightarrow> out_buf w c = Some b \<Longrightarrow> unread p = STORE32H datalen @ rest \<Longrightarrow>
      unat datalen \<le> length rest \<Longrightarrow> ses_channels x ! i = Some c' \<Longrightarrow>
      passed_on cv (out_fd w c) w (cbuf_contents b) (take (unat datalen) rest) c' \<Longrightarrow> Q x"
  shows "safe (common_recv_msg_channel_data cv i w ses) Q"
proof (cases "ch_recv_eof c \<or> out_fd w c < 0 \<or> out_buf w c = None")
  case True
  then show ?thesis using assms(3,4) ign by (auto simp: common_recv_msg_channel_data_def chanI Let_def)
next
  case False
  let ?W = "cn_recv_window cv" and ?s = "ses\<lparr>ses_payload := Some (advance p 4)\<rparr>"
  have ok: "chan_ok ?W i c" using assms(2-4) by (simp add: chan_inv_def slots_ok_def live_def)
  have ch: "chan ses i = Inr c" using assms(3,4) by (simp add: chanI)
  obtain b where b: "out_buf w c = Some b" using False by auto
  have e: "\<not> ch_recv_eof c" "\<not> (out_fd w c < 0 \<or> out_buf w c = None)" using False by simp_all
  have main: "safe (bindE (writechannel cv i (out_fd w c) w (Some (take (unat v) rest)) (set_chan i (c\<lparr>ch_recvwindow := ch_recvwindow c - v\<rparr>) ?s))
      (\<lambda>(res, consumed, ses). store_received i w v (advance p 4) res consumed ses)) Q"
    if v: "unread p = STORE32H v @ rest" "wf_buf (advance p 4)" "unread (advance p 4) = rest" "v \<le> ch_recvwindow c" "unat v \<le> length rest" for v rest
  proof -
    let ?c = "c\<lparr>ch_recvwindow := ch_recvwindow c - v\<rparr>"
    have held: "held ?c + unat v = held c" using v(4) by (simp add: held_def unat_u32_sub u32_nat)
    have okc: "chan_ok ?W i ?c" using ok held by (simp add: chan_ok_def)
    have s: "chan_inv cv (set_chan i ?c ?s)" "live (set_chan i ?c ?s) i" "ses_channels (set_chan i ?c ?s) ! i = Some ?c"
      "out_buf w ?c = Some b" "held ?c + more_len (Some (take (unat v) rest)) \<le> unat ?W"
      using chan_inv_set_chan [of cv ?s i ?c] assms(2,3) okc liveD [OF assms(3)] b held ok v(5)
      by (simp_all add: set_chan_def out_buf_def more_len_def chan_ok_def split: chan_out.splits)
    have mb: "more_bytes (Some (take (unat v) rest)) = take (unat v) (unread (advance p 4))" by (simp add: more_bytes_def v(3))
    show ?thesis
      by (rule safe_bindE, rule writechannel_safe [OF assms(1) s, where fd = "out_fd w c", unfolded mb], simp only: prod.case,
          rule store_received_safe [OF _ _ _ v(2)], assumption+, simp add: v, assumption, assumption, rule Q, assumption, assumption, rule b, rule v(1), rule v(5))
         (simp_all add: v(3))
  qed
  have lt: "v \<le> ch_recvwindow c" if "payload_int ses = Inr (v, s)" for v s
    using assms(7) that by (auto simp: overruns_def not_less)
  have W: "ch_recvwindow c - v \<le> ?W" if "v \<le> ch_recvwindow c" for v
    using ok that by (auto simp: chan_ok_def held_def unat_u32_sub u32_nat)
  show ?thesis
    unfolding common_recv_msg_channel_data_def ch bindE_simps Let_def if_not_P [OF e(1)] if_not_P [OF e(2)]
    apply (rule safe_bindE, rule safe_payload_int [OF assms(5,6)])
    apply (simp only: prod.case b nn_simps bindE_simps)
    apply (rule safe_if, rule safe_exit(1))
    subgoal premises v for v rest
      apply (rule safe_bindE, rule safe_assert, rule lt [OF v(2)], rule safe_bindE, rule safe_assert)
      using W [OF lt [OF v(2)]] apply simp
      apply (rule safe_bindE, rule safe_nn [of _ "advance p 4"], simp)
      apply (rule safe_bindE, rule safe_getptr [OF v(3)], rule safe_bindE)
      apply (simp only: read_at_pos [OF v(3)] safe_simps v(4))
      using main [OF v(1,3,4) lt [OF v(2)]] by blast
    done
qed

end
