(* ===== verification/Channel_Safe.thy ===== *)
theory Channel_Safe
  imports Channel_Data
begin

text \<open>
  The handlers of the channel messages and the event loop keep the invariant of the channels and
  never fault.
\<close>

section \<open>Opening\<close>

lemma free_slot_bounds:
  "free_slot cs \<le> length cs" "free_slot cs < length cs \<Longrightarrow> cs ! free_slot cs = None"
  by (induction cs) auto

lemma chan_inv_add:
  assumes "chan_inv cv ses" "length cs \<le> MAX_CHANNELS + CHAN_EXTEND_SIZE" "i < length cs" "cs ! i = None" "chan_ok (cn_recv_window cv) i c"
    "open_slots cs = open_slots (ses_channels ses)"
    "\<And>j d. j < length cs \<Longrightarrow> cs ! j = Some d \<Longrightarrow> chan_ok (cn_recv_window cv) j d"
  shows "chan_inv cv (ses\<lparr>ses_channels := cs[i := Some c], ses_chancount := ses_chancount ses + 1\<rparr>)"
proof -
  have n: "open_slots (cs[i := Some c]) = Suc (open_slots (ses_channels ses))"
    using open_slots_update(3) [OF assms(3,4)] assms(6) by simp
  have "open_slots (ses_channels ses) \<le> 1003" using open_slots_le [of cs] assms(2,6) by (simp add: MAX_CHANNELS_def CHAN_EXTEND_SIZE_def)
  then have "unat (ses_chancount ses + 1) = Suc (open_slots (ses_channels ses))"
    using assms(1) by (subst unat_u32_add) (simp_all add: chan_inv_def slots_ok_def)
  then show ?thesis
    using assms n by (auto simp: chan_inv_def slots_ok_def send_ok_def payload_empty_def nth_list_update split: if_splits)
qed

lemma newchannel_safe:
  assumes "chanenv_ok cv" "chan_inv cv ses" "Q (None, ses)"
    "\<And>i s c. chan_inv cv s \<Longrightarrow> live s i \<Longrightarrow> ses_channels s ! i = Some c \<Longrightarrow> \<not> ch_sent_close c \<Longrightarrow> ch_errfd c = FD_CLOSED \<Longrightarrow> ch_extrabuf c = None \<Longrightarrow>
       ses_payload s = ses_payload ses \<Longrightarrow> Q (Some i, s)"
  shows "safe (newchannel cv remotechan type tw tm ses) Q"
proof -
  let ?cs = "ses_channels ses" and ?W = "cn_recv_window cv"
  let ?i = "free_slot ?cs"
  define cs where "cs = (if ?i = length ?cs then ?cs @ replicate CHAN_EXTEND_SIZE None else ?cs)"
  show ?thesis
  proof (cases "?i = length ?cs \<and> MAX_CHANNELS \<le> length ?cs")
    case True
    then show ?thesis using assms(3) by (simp add: newchannel_def)
  next
    case False
    have slots: "length ?cs \<le> MAX_CHANNELS + CHAN_EXTEND_SIZE" "\<And>j d. j < length ?cs \<Longrightarrow> ?cs ! j = Some d \<Longrightarrow> chan_ok ?W j d"
      using assms(2) by (auto simp: chan_inv_def slots_ok_def)
    have len: "length cs \<le> MAX_CHANNELS + CHAN_EXTEND_SIZE" "?i < length cs" "cs ! ?i = None" "open_slots cs = open_slots ?cs"
      "\<And>j d. j < length cs \<Longrightarrow> cs ! j = Some d \<Longrightarrow> chan_ok ?W j d"
      using False slots free_slot_bounds [of ?cs]
      by (auto simp: cs_def open_slots_def nth_append CHAN_EXTEND_SIZE_def less_Suc_eq numeral_eq_Suc split: if_splits)
    have W: "0 < ?W" "\<not> ?W > MAX_CBUF_SIZE" using assms(1) by (auto simp: chanenv_ok_def not_less)
    obtain wb where wb: "cbuf_new ?W = Inr wb" "wf_cbuf wb" "cb_size wb = ?W" "cb_used wb = 0"
      using wf_cbuf_new [of ?W] W by (auto simp: cbuf_new_def)
    have idx: "unat (of_nat ?i :: u32) = ?i" using len(1,2) by (intro unat_u32_of_nat) (simp add: MAX_CHANNELS_def CHAN_EXTEND_SIZE_def)
    define c where "c = \<lparr>ch_index = of_nat ?i, ch_remotechan = remotechan, ch_recvwindow = ?W,
              ch_transwindow = tw, ch_recvdonelen = 0, ch_recvmaxpacket = RECV_MAX_CHANNEL_DATA_LEN,
              ch_transmaxpacket = tm, ch_typedata = None, ch_writefd = FD_UNINIT, ch_readfd = FD_UNINIT,
              ch_errfd = FD_CLOSED, ch_bidir_fd = False, ch_writebuf = Some wb, ch_extrabuf = None,
              ch_sent_close = False, ch_recv_close = False, ch_recv_eof = False, ch_sent_eof = False, ch_flushing = False,
              ch_conn_pending = None, ch_initconn = False, ch_await_open = False, ch_read_mangler = None, ch_type = type,
              ch_prio = DROPBEAR_PRIO_NORMAL\<rparr>"
    have ok: "chan_ok ?W ?i c" using wb idx by (simp add: c_def chan_ok_def held_def used_in_def out_ok_def)
    have "Q (Some ?i, ses\<lparr>ses_channels := cs[?i := Some c], ses_chancount := ses_chancount ses + 1\<rparr>)"
      using chan_inv_add [OF assms(2) len(1-3) ok len(4,5)] len(2)
      by (intro assms(4) [where c = c]) (simp_all add: live_def, simp_all add: c_def)
    then show ?thesis
      unfolding newchannel_def Let_def if_not_P [OF False] wb(1) bindE_simps safe_simps cs_def [symmetric] c_def [symmetric] .
  qed
qed

lemma inithandler_safe:
  assumes "handlers_ok cv" "chan_inv cv ses" "live ses i" "\<And>r s. chan_inv cv s \<Longrightarrow> live s i \<Longrightarrow> Q (r, s)"
  shows "safe (run_inithandler cv i ses) Q"
proof -
  have h: "safe (f i ses) Q" if "ct_inithandler (cn_type cv t) = Some f" for f t
  proof -
    have "keeps_inv cv (\<lambda>i ses. bindE (f i ses) (\<lambda>(_, s). returnE s))" using assms(1) that by (simp add: handlers_ok_def)
    then have "safe (bindE (f i ses) (\<lambda>(_, s). returnE s)) (\<lambda>s. chan_inv cv s \<and> live s i)"
      using assms(2,3) by (simp add: keeps_inv_def)
    then show ?thesis using assms(4) by (cases "f i ses") auto
  qed
  show ?thesis
    unfolding run_inithandler_def
    by (rule safe_bindE, rule safe_chan [OF assms(2,3)]) (use h assms(2-4) in \<open>auto split: option.split\<close>)
qed

section \<open>Messages\<close>

text \<open>A session with a packet to read.\<close>

definition has_packet :: "sshsession \<Rightarrow> bool" where
  "has_packet ses \<longleftrightarrow> (\<exists>p. ses_payload ses = Some p \<and> wf_buf p)"

lemma payload_int_safe:
  assumes "chan_inv cv ses" "has_packet ses" "\<And>v p. wf_buf p \<Longrightarrow> payload_int ses = Inr (v, ses\<lparr>ses_payload := Some p\<rparr>) \<Longrightarrow> Q (v, ses\<lparr>ses_payload := Some p\<rparr>)"
  shows "safe (payload_int ses) Q"
  using assms by (auto simp: has_packet_def intro!: safe_payload_int)

lemma getchannel_safe:
  assumes "chan_inv cv ses" "has_packet ses"
    "\<And>i p. wf_buf p \<Longrightarrow> live ses i \<Longrightarrow> getchannel_msg msg ses = Inr (i, ses\<lparr>ses_payload := Some p\<rparr>) \<Longrightarrow> Q (i, ses\<lparr>ses_payload := Some p\<rparr>)"
  shows "safe (getchannel_msg msg ses) Q"
proof -
  have "safe (payload_int ses) (\<lambda>(ch, s). safe (if unat ch \<ge> length (ses_channels s) \<or> ses_channels s ! unat ch = None then dropbear_exit msg
     else returnE (unat ch, s)) Q)"
    using assms(1,2)
    by (rule payload_int_safe) (use assms(3) in \<open>auto simp: live_def not_le getchannel_msg_def\<close>)
  then show ?thesis unfolding getchannel_msg_def by (intro safe_bindE) (rule safe_weaken, assumption, simp only: case_prod_beta)
qed

lemma has_packet_simps [simp]: "has_packet (ses\<lparr>ses_payload := Some p\<rparr>) = wf_buf p" "has_packet (set_chan i c ses) = has_packet ses"
  by (simp_all add: has_packet_def set_chan_def)

lemma set_chan_payload: "set_chan i c (ses\<lparr>ses_payload := q\<rparr>) = (set_chan i c ses)\<lparr>ses_payload := q\<rparr>"
  by (simp add: set_chan_def)

lemma recv_eof_safe:
  assumes "chanenv_ok cv" "handlers_ok cv" "chan_inv cv ses" "has_packet ses"
  shows "safe (recv_msg_channel_eof cv ses) (chan_inv cv)" "safe (recv_msg_channel_close cv ses) (chan_inv cv)"
  unfolding recv_msg_channel_eof_def recv_msg_channel_close_def
  by (rule safe_bindE, rule getchannel_safe [OF assms(3,4)], simp only: prod.case, rule safe_bindE, rule safe_chan [where cv = cv],
      simp add: assms(3), simp, rule check_close_safe [OF assms(1,2)], rule chan_inv_set_chan, simp add: assms(3), simp, erule chan_ok_flags,
      simp add: liveD, assumption)+

lemma recv_request_safe:
  assumes "chanenv_ok cv" "handlers_ok cv" "chan_inv cv ses" "has_packet ses"
  shows "safe (recv_msg_channel_request cv ses) (chan_inv cv)"
proof -
  have req: "safe (f i s) (chan_inv cv)" if "ct_reqhandler (cn_type cv t) = Some f" "chan_inv cv s" "live s i" for f t i s
    using assms(2) that unfolding handlers_ok_def keeps_inv_def by (blast intro: safe_weaken)
  have none: "safe (bindE (buf_eatstring p) (\<lambda>p. bindE (buf_getbool p) (\<lambda>(wantreply, p).
         let ses = s\<lparr>ses_payload := Some p\<rparr> in
         if wantreply \<noteq> 0 then send_msg_channel_failure cv i ses else returnE ses))) (chan_inv cv)"
    if "chan_inv cv s" "live s i" "wf_buf p" for s i p
    using that assms(1)
    by (auto simp: has_packet_def read_from_def Let_def intro!: safe_bindE safe_buf_eatstring [THEN safe_weaken] safe_buf_getbool [THEN safe_weaken]
        send_messages_safe split: prod.split)
  show ?thesis
    unfolding recv_msg_channel_request_def getchannel_def
    by (rule safe_bindE, rule getchannel_safe [OF assms(3,4)], simp only: prod.case, rule safe_bindE, rule safe_chan [where cv = cv],
        simp add: assms(3), simp) (use none req assms(3) in \<open>auto split: option.split\<close>)
qed

lemma recv_window_safe:
  assumes "chan_inv cv ses" "has_packet ses"
  shows "safe (recv_msg_channel_window_adjust ses) (chan_inv cv)"
  unfolding recv_msg_channel_window_adjust_def getchannel_def
  by (rule safe_bindE, rule getchannel_safe [OF assms], simp only: prod.case, rule safe_bindE, rule payload_int_safe [where cv = cv],
      simp add: assms(1), simp, simp only: prod.case, rule safe_bindE, rule safe_chan [where cv = cv], simp add: assms(1), simp)
     (use assms(1) in \<open>auto simp: Let_def intro!: chan_inv_set_chan chan_ok_flags\<close>)

lemma recv_open_failure_safe:
  assumes "handlers_ok cv" "chan_inv cv ses" "has_packet ses"
  shows "safe (recv_msg_channel_open_failure cv ses) (chan_inv cv)"
  unfolding recv_msg_channel_open_failure_def getchannel_def
  by (rule safe_bindE, rule getchannel_safe [OF assms(2,3)], simp only: prod.case, rule safe_bindE, rule safe_chan [where cv = cv],
      simp add: assms(2), simp, rule safe_if, rule safe_exit, rule remove_channel_safe [OF assms(1)], rule chan_inv_set_chan, simp add: assms(2), simp,
      erule chan_ok_flags, simp add: liveD, assumption)

lemma recv_confirmation_safe:
  assumes "handlers_ok cv" "chan_inv cv ses" "has_packet ses"
  shows "safe (recv_msg_channel_open_confirmation cv ses) (chan_inv cv)"
proof -
  have fin: "safe (bindE (run_inithandler cv i (set_chan i (c\<lparr>ch_await_open := False, ch_remotechan := r, ch_transwindow := w, ch_transmaxpacket := m\<rparr>) s))
      (\<lambda>(ret, ses). if ret > 0 then remove_channel cv i ses else returnE ses)) (chan_inv cv)"
    if "chan_inv cv s" "live s i" "chan_ok (cn_recv_window cv) i c" for s i c r w m
    by (rule safe_bindE, rule inithandler_safe [OF assms(1) chan_inv_set_chan [OF that(1,2) chan_ok_flags(6) [OF that(3)]]])
       (auto intro!: safe_if remove_channel_safe [OF assms(1)])
  show ?thesis
    unfolding recv_msg_channel_open_confirmation_def getchannel_def Let_def
    by (rule safe_bindE, rule getchannel_safe [OF assms(2,3)], simp only: prod.case, rule safe_bindE, rule safe_chan [where cv = cv],
        simp add: assms(2), simp, rule safe_if, rule safe_exit, rule safe_bindE, rule payload_int_safe [where cv = cv], simp add: assms(2), simp,
        simp only: prod.case, rule safe_bindE, rule payload_int_safe [where cv = cv], simp add: assms(2), simp,
        simp only: prod.case, rule safe_bindE, rule payload_int_safe [where cv = cv], simp add: assms(2), simp, simp only: prod.case, rule fin)
       (simp_all add: assms(2))
qed

lemma safe_getstring: "wf_buf b \<Longrightarrow> (\<And>s l b'. wf_buf b' \<Longrightarrow> Q ((s, l), b')) \<Longrightarrow> safe (buf_getstring b) Q"
  by (rule safe_weaken [OF safe_buf_getstring]) (auto simp: read_from_def)

lemma recv_open_safe:
  assumes "chanenv_ok cv" "handlers_ok cv" "chan_inv cv ses" "has_packet ses"
  shows "safe (recv_msg_channel_open cv ses) (chan_inv cv)"
proof -
  have fail: "safe (send_msg_channel_open_failure cv rc e [] [] s) (chan_inv cv)" if "chan_inv cv s" for rc e s
    by (rule send_open_failure_safe [OF assms(1) that]) simp_all
  have fin: "safe (bindE (run_inithandler cv i s) (\<lambda>(ret, ses).
             if ret = SSH_OPEN_IN_PROGRESS then returnE ses
             else if ret > 0 then bindE (remove_channel cv i ses) (\<lambda>ses. send_msg_channel_open_failure cv rc ret [] [] ses)
             else bindE (chan ses i) (\<lambda>c. send_msg_channel_open_confirmation cv i (ch_recvwindow c) (ch_recvmaxpacket c) ses))) (chan_inv cv)"
    if "chan_inv cv s" "live s i" for s i rc
    by (rule safe_bindE, rule inithandler_safe [OF assms(2) that], simp only: prod.case)
       (auto intro!: safe_if safe_bindE remove_channel_safe [OF assms(2)] fail safe_chan send_messages_safe(4) [OF assms(1)])
  have opened: "safe (bindE (newchannel cv rc ty tw tm s) (\<lambda>(channel, ses). case channel of
           None \<Rightarrow> send_msg_channel_open_failure cv rc SSH_OPEN_RESOURCE_SHORTAGE [] [] ses
         | Some i \<Rightarrow> bindE (run_inithandler cv i ses) (\<lambda>(ret, ses).
             if ret = SSH_OPEN_IN_PROGRESS then returnE ses
             else if ret > 0 then bindE (remove_channel cv i ses) (\<lambda>ses. send_msg_channel_open_failure cv rc ret [] [] ses)
             else bindE (chan ses i) (\<lambda>c. send_msg_channel_open_confirmation cv i (ch_recvwindow c) (ch_recvmaxpacket c) ses)))) (chan_inv cv)"
    if "chan_inv cv s" for s rc ty tw tm
    by (rule safe_bindE, rule newchannel_safe [OF assms(1) that]) (simp_all only: prod.case option.case fail [OF that] fin)
  have ints: "safe (bindE (payload_int s) (\<lambda>(rc, s). bindE (payload_int s) (\<lambda>(tw, s). bindE (payload_int s) (\<lambda>(tm, s). f rc tw tm s)))) (chan_inv cv)"
    if "chan_inv cv s" "has_packet s" "\<And>rc tw tm s. chan_inv cv s \<Longrightarrow> safe (f rc tw tm s) (chan_inv cv)" for s f
    by (rule safe_bindE, rule payload_int_safe [OF that(1,2)], simp only: prod.case, rule safe_bindE, rule payload_int_safe [where cv = cv],
        simp add: that(1), simp, simp only: prod.case, rule safe_bindE, rule payload_int_safe [where cv = cv],
        simp add: that(1), simp, simp only: prod.case, rule that(3), simp add: that(1))
  obtain p where p: "ses_payload ses = Some p" "wf_buf p" using assms(4) by (auto simp: has_packet_def)
  show ?thesis
    unfolding recv_msg_channel_open_def Let_def p(1) nn_simps bindE_simps
    by (rule safe_bindE, rule safe_getstring [OF p(2)], simp only: prod.case, rule ints)
       (use assms(3) in \<open>auto intro!: fail opened split: option.split\<close>)
qed

text \<open>The data messages, when the other side keeps to its window.\<close>

lemma recv_data_safe:
  assumes "chanenv_ok cv" "chan_inv cv ses" "has_packet ses"
    "\<And>i s c. getchannel ses = Inr (i, s) \<Longrightarrow> ses_channels s ! i = Some c \<Longrightarrow> \<not> overruns c s"
  shows "safe (recv_msg_channel_data cv ses) (chan_inv cv)"
proof -
  have "safe (common_recv_msg_channel_data cv i Writebuf (ses\<lparr>ses_payload := Some p\<rparr>)) (chan_inv cv)"
    if a: "wf_buf p" "live ses i" "getchannel ses = Inr (i, ses\<lparr>ses_payload := Some p\<rparr>)" for i p
  proof -
    obtain c where c: "ses_channels ses ! i = Some c" using a(2) by (auto simp: live_def)
    have "\<not> overruns c (ses\<lparr>ses_payload := Some p\<rparr>)" using assms(4) [OF a(3)] c by simp
    then show ?thesis using c a(1,2) assms(1,2) by (intro common_recv_safe [of _ _ _ c p]) simp_all
  qed
  then show ?thesis
    unfolding recv_msg_channel_data_def getchannel_def
    by (intro safe_bindE getchannel_safe [OF assms(2,3)]) simp
qed

lemma recv_extended_safe:
  assumes "chanenv_ok cv" "chan_inv cv ses" "has_packet ses"
    "\<And>i s c t s'. getchannel ses = Inr (i, s) \<Longrightarrow> ses_channels s ! i = Some c \<Longrightarrow> payload_int s = Inr (t, s') \<Longrightarrow> \<not> overruns c s'"
  shows "safe (recv_msg_channel_extended_data cv ses) (chan_inv cv)"
proof -
  have "safe (common_recv_msg_channel_data cv i Extrabuf (ses\<lparr>ses_payload := Some q\<rparr>)) (chan_inv cv)"
    if a: "wf_buf q" "live ses i" "getchannel ses = Inr (i, ses\<lparr>ses_payload := Some p\<rparr>)"
      "payload_int (ses\<lparr>ses_payload := Some p\<rparr>) = Inr (t, ses\<lparr>ses_payload := Some q\<rparr>)" for i p q t
  proof -
    obtain c where c: "ses_channels ses ! i = Some c" using a(2) by (auto simp: live_def)
    have "\<not> overruns c (ses\<lparr>ses_payload := Some q\<rparr>)" using assms(4) [OF a(3) _ a(4)] c by simp
    then show ?thesis using c a(1,2) assms(1,2) by (intro common_recv_safe [of _ _ _ c q]) simp_all
  qed
  note data = this
  show ?thesis
    unfolding recv_msg_channel_extended_data_def getchannel_def
    by (rule safe_bindE, rule getchannel_safe [OF assms(2,3)], simp only: prod.case, rule safe_bindE, rule safe_chan [where cv = cv],
        simp add: assms(2), simp, rule safe_if, simp add: assms(2), rule safe_bindE, rule payload_int_safe [where cv = cv], simp add: assms(2), simp)
       (use assms(2) in \<open>auto intro: data [unfolded getchannel_def]\<close>)
qed

section \<open>The event loop\<close>

lemma inv_reset:
  assumes "chan_inv cv ses" "wf_buf wp" "b_size wp = TRANS_MAX_PAYLOAD_LEN"
  shows "safe (reset_writepayload (ses\<lparr>ses_writepayload := wp\<rparr>)) (\<lambda>s. \<exists>wp. s = ses\<lparr>ses_writepayload := wp\<rparr> \<and> chan_inv cv s)"
  unfolding reset_writepayload_def
  using assms by (auto intro!: safe_intros simp: chan_inv_def slots_ok_def send_ok_def payload_empty_def)

lemma live_wp [simp]: "live (ses\<lparr>ses_writepayload := wp\<rparr>) i = live ses i"
  by (simp add: live_def)

lemma reset_safe:
  assumes "chan_inv cv ses" "live ses i" "wf_buf wp" "b_size wp = TRANS_MAX_PAYLOAD_LEN" "\<And>s. chan_inv cv s \<Longrightarrow> live s i \<Longrightarrow> Q s"
  shows "safe (reset_writepayload (ses\<lparr>ses_writepayload := wp\<rparr>)) Q"
  by (rule safe_weaken [OF inv_reset [OF assms(1,3,4)]]) (use assms(2,5) in auto)

lemma set_chan_wp: "set_chan i c (ses\<lparr>ses_writepayload := wp\<rparr>) = (set_chan i c ses)\<lparr>ses_writepayload := wp\<rparr>"
  by (simp add: set_chan_def)

lemma send_data_safe:
  assumes "chanenv_ok cv" "chan_inv cv ses" "live ses i" "ses_channels ses ! i = Some c" "0 \<le> (if ext then ch_errfd c else ch_readfd c)"
    "ext \<longrightarrow> ERRFD_IS_READ c" "\<And>s. chan_inv cv s \<Longrightarrow> live s i \<Longrightarrow> Q s"
  shows "safe (send_msg_channel_data cv i ext ses) Q"
proof -
  have ok: "chan_ok (cn_recv_window cv) i c" using assms(2-4) by (simp add: chan_inv_def slots_ok_def live_def)
  have ch: "chan ses i = Inr c" using assms(3,4) by (simp add: chanI)
  have a: "\<not> ch_sent_close c" using ok assms(5,6) by (auto simp: chan_ok_def split: if_splits)
  have wp: "wf_buf (ses_writepayload ses)" "b_size (ses_writepayload ses) = TRANS_MAX_PAYLOAD_LEN" using inv_wp [OF assms(2)] by simp_all
  have close: "safe (bindE (close_chan_fd cv i fd SHUT_RD (ses\<lparr>ses_writepayload := wp\<rparr>)) reset_writepayload) Q"
    if "wf_buf wp" "b_size wp = TRANS_MAX_PAYLOAD_LEN" for wp fd
  proof -
    have "chan (ses\<lparr>ses_writepayload := wp\<rparr>) i = Inr c" using assms(3,4) by (simp add: chanI)
    then show ?thesis
      by (intro safe_bindE safe_close, assumption, unfold set_chan_wp)
         (rule reset_safe [OF chan_inv_set_chan [OF assms(2,3) chan_ok_closed [OF ok]] that assms(7)])
  qed
  have data: "safe (bindE (mem_write (b_data wp) p bs) (\<lambda>d.
             if ch_read_mangler c \<noteq> None \<and> mangled_len c bs = 0 then reset_writepayload (ses\<lparr>ses_writepayload := wp\<lparr>b_data := d\<rparr>\<rparr>)
             else
               bindE (buf_incrwritepos (wp\<lparr>b_data := d\<rparr>) (word_of_int (mangled_len c bs))) (\<lambda>wp.
               bindE (buf_setpos wp sp) (\<lambda>wp.
               bindE (buf_putint wp (word_of_int (mangled_len c bs))) (\<lambda>wp.
               encrypt_packet (cn_env cv)
                 (set_chan i (c\<lparr>ch_transwindow := ch_transwindow c - word_of_int (mangled_len c bs)\<rparr>) (ses\<lparr>ses_writepayload := wp\<rparr>))))))) Q"
    if "wf_buf wp" "b_size wp = TRANS_MAX_PAYLOAD_LEN" "p + length bs \<le> length (b_data wp)" for wp p bs sp
    unfolding set_chan_wp
    using that chan_inv_set_chan [OF assms(2,3) chan_ok_flags(4) [OF ok]] assms(1-3) liveD [OF assms(3)]
    by (auto intro!: safe_intros reset_safe assms(7) wf_data simp: put_by_size)
  have kernel: "safe (case cn_read cv fd maxlen of
         Fd_eintr \<Rightarrow> reset_writepayload (ses\<lparr>ses_writepayload := wp\<rparr>)
       | Fd_error \<Rightarrow> bindE (close_chan_fd cv i fd SHUT_RD (ses\<lparr>ses_writepayload := wp\<rparr>)) reset_writepayload
       | Fd_data bs \<Rightarrow>
           if bs = [] then bindE (close_chan_fd cv i fd SHUT_RD (ses\<lparr>ses_writepayload := wp\<rparr>)) reset_writepayload
           else
             bindE (mem_write (b_data wp) p bs) (\<lambda>d.
             if ch_read_mangler c \<noteq> None \<and> mangled_len c bs = 0 then reset_writepayload (ses\<lparr>ses_writepayload := wp\<lparr>b_data := d\<rparr>\<rparr>)
             else
               bindE (buf_incrwritepos (wp\<lparr>b_data := d\<rparr>) (word_of_int (mangled_len c bs))) (\<lambda>wp.
               bindE (buf_setpos wp sp) (\<lambda>wp.
               bindE (buf_putint wp (word_of_int (mangled_len c bs))) (\<lambda>wp.
               encrypt_packet (cn_env cv)
                 (set_chan i (c\<lparr>ch_transwindow := ch_transwindow c - word_of_int (mangled_len c bs)\<rparr>) (ses\<lparr>ses_writepayload := wp\<rparr>))))))) Q"
    if w: "wf_buf wp" "b_size wp = TRANS_MAX_PAYLOAD_LEN" "p + unat maxlen \<le> length (b_data wp)" for wp p sp maxlen fd
  proof (cases "cn_read cv fd maxlen")
    case (Fd_data bs)
    then have "length bs \<le> unat maxlen" using assms(1) by (auto simp: chanenv_ok_def)
    then show ?thesis unfolding Fd_data fd_read.case using close [OF w(1,2)] data [OF w(1,2), of p bs] w(3) by (intro safe_if) simp_all
  next
    case Fd_eintr
    then show ?thesis using reset_safe [OF assms(2,3) w(1,2) assms(7)] by simp
  next
    case Fd_error
    then show ?thesis using close [OF w(1,2)] by simp
  qed
  show ?thesis
    unfolding send_msg_channel_data_def ch bindE_simps Let_def
    using wp a assms(2,3,5) by (auto intro!: safe_intros assms(7) kernel simp: put_by_size)
qed

lemma write_event_safe:
  assumes "chanenv_ok cv" "chan_inv cv ses" "live ses i" "ses_channels ses ! i = Some c" "out_buf w c \<noteq> None" "\<And>s. chan_inv cv s \<Longrightarrow> live s i \<Longrightarrow> Q s"
  shows "safe (bindE (writechannel cv i fd w None ses) (\<lambda>(_, _, s). returnE s)) Q"
proof -
  obtain b where "out_buf w c = Some b" using assms(5) by auto
  moreover have "held c + more_len None \<le> unat (cn_recv_window cv)"
    using assms(2-4) by (auto simp: chan_inv_def slots_ok_def chan_ok_def live_def more_len_def)
  ultimately show ?thesis
    by (intro safe_bindE writechannel_safe [OF assms(1-4)]) (auto intro!: assms(6))
qed

text \<open>Steps of the loop that keep the channel alive.\<close>

lemma event_bind:
  assumes "chan_inv cv ses" "live ses i" "\<And>c. chan_inv cv ses \<Longrightarrow> ses_channels ses ! i = Some c \<Longrightarrow> chan_ok (cn_recv_window cv) i c \<Longrightarrow> P c \<Longrightarrow>
      safe (f c) (\<lambda>s. chan_inv cv s \<and> live s i)"
    "\<And>c s. chan_inv cv s \<Longrightarrow> live s i \<Longrightarrow> safe (g c s) Q"
  shows "safe (bindE (chan ses i) (\<lambda>c. bindE (if P c then f c else returnE ses) (g c))) Q"
  by (rule safe_bindE, rule safe_chan [OF assms(1,2)], rule safe_bindE, rule safe_if)
     (use assms in \<open>auto intro: safe_weaken\<close>)

lemma channel_events_safe:
  assumes "chanenv_ok cv" "handlers_ok cv" "chan_inv cv ses" "i < length (ses_channels ses)"
  shows "safe (channel_events cv readfds writefds sig i ses) (chan_inv cv)"
proof (cases "ses_channels ses ! i")
  case None
  then show ?thesis using assms(3) by (simp add: channel_events_def)
next
  case (Some c)
  then have "live ses i" using assms(4) by (simp add: live_def)
  then show ?thesis
    unfolding channel_events_def Let_def using Some assms(3)
    by (auto intro!: event_bind [where cv = cv] send_data_safe [OF assms(1)] write_event_safe [OF assms(1)] safe_if check_close_safe [OF assms(1,2)] safe_return
        simp: out_buf_def chan_ok_def)
qed

lemma inv_slots: "chan_inv cv ses \<Longrightarrow> length (ses_channels ses) \<le> CHAN_SLOTS"
  by (simp add: chan_inv_def slots_ok_def CHAN_SLOTS_def)

lemma channelio_from_safe:
  assumes "chanenv_ok cv" "handlers_ok cv"
  shows "chan_inv cv ses \<Longrightarrow> CHAN_SLOTS < n + i \<Longrightarrow> 0 < n \<Longrightarrow> safe (channelio_from cv readfds writefds sig n i ses) (chan_inv cv)"
proof (induction n arbitrary: i ses)
  case (Suc n)
  then show ?case using inv_slots [OF Suc.prems(1)]
    by (auto intro!: safe_bindE safe_weaken [OF channel_events_safe [OF assms]] Suc.IH)
qed simp

lemma channelio_safe:
  "chanenv_ok cv \<Longrightarrow> handlers_ok cv \<Longrightarrow> chan_inv cv ses \<Longrightarrow> safe (channelio cv readfds writefds sig ses) (chan_inv cv)"
  unfolding channelio_def by (rule channelio_from_safe) simp_all

lemma chancleanup_from_safe:
  assumes "handlers_ok cv"
  shows "chan_inv cv ses \<Longrightarrow> CHAN_SLOTS < n + i \<Longrightarrow> 0 < n \<Longrightarrow> safe (chancleanup_from cv n i ses) (chan_inv cv)"
proof (induction n arbitrary: i ses)
  case (Suc n)
  then show ?case using inv_slots [OF Suc.prems(1)]
    by (auto intro!: safe_bindE remove_channel_safe [OF assms] Suc.IH simp: live_def)
qed simp

lemma chancleanup_safe: "handlers_ok cv \<Longrightarrow> chan_inv cv ses \<Longrightarrow> safe (chancleanup cv ses) (chan_inv cv)"
  unfolding chancleanup_def by (rule chancleanup_from_safe) simp_all

text \<open>
  A connection that is up hands its socket to the channel; the channel must not have sent its
  close message.
\<close>

lemma connect_done_safe:
  assumes "chanenv_ok cv" "handlers_ok cv" "chan_inv cv ses" "live ses i" "ses_channels ses ! i = Some c" "ch_errfd c < 0"
    "success \<longrightarrow> \<not> ch_sent_close c" "length err < 2 ^ 32"
  shows "safe (channel_connect_done cv success sock i err ses) (chan_inv cv)"
proof -
  have "chan_ok (cn_recv_window cv) i c" using assms(3-5) by (simp add: chan_inv_def slots_ok_def live_def)
  then have up: "chan_ok (cn_recv_window cv) i (c\<lparr>ch_readfd := sock, ch_writefd := sock, ch_bidir_fd := True, ch_conn_pending := None\<rparr>)"
    if success using assms(6,7) that by (simp add: chan_ok_def held_def)
  have ch: "chan ses i = Inr c" using assms(4,5) by (simp add: chanI)
  show ?thesis
  proof (cases success)
    case True
    show ?thesis unfolding channel_connect_done_def ch bindE_simps Let_def
      using True chan_inv_set_chan [OF assms(3,4) up [OF True]] by (simp add: send_messages_safe(4) [OF assms(1)])
  next
    case False
    then show ?thesis unfolding channel_connect_done_def ch bindE_simps
      by (auto intro!: safe_bindE send_open_failure_safe [OF assms(1,3,8)] remove_channel_safe [OF assms(2)] simp: assms(4))
  qed
qed

lemma setchannelfds_safe:
  assumes "chan_inv cv ses"
  shows "safe (setchannelfds reads ses) (\<lambda>_. True)"
proof -
  have one: "safe (channel_fds r c) (\<lambda>_. True)" if "chan_ok W i c" for r c W i
  proof -
    have p: "safe (if ch_writefd c \<ge> 0 then cbuf_pending (ch_writebuf c) else returnE False) (\<lambda>_. True)"
      "safe (if ERRFD_IS_WRITE c \<and> ch_errfd c \<ge> 0 then cbuf_pending (ch_extrabuf c) else returnE False) (\<lambda>_. True)"
      using that by (auto simp: chan_ok_def cbuf_pending_def)
    show ?thesis unfolding channel_fds_def Let_def
      by (rule safe_bindE, rule safe_weaken [OF p(1)], rule safe_bindE, rule safe_weaken [OF p(2)], rule safe_return, rule TrueI)
  qed
  have "safe (setchannelfds_loop r cs) (\<lambda>_. True)" if "\<And>c. Some c \<in> set cs \<Longrightarrow> \<exists>i. chan_ok W i c" for r cs W
    using that
  proof (induction cs)
    case (Cons x cs)
    have rest: "safe (setchannelfds_loop r cs) (\<lambda>_. True)" using Cons by simp
    show ?case
    proof (cases x)
      case None
      then show ?thesis using rest by simp
    next
      case (Some c)
      then obtain i where ok: "chan_ok W i c" using Cons.prems [of c] by auto
      show ?thesis unfolding Some setchannelfds_loop.simps
        by (rule safe_bindE, rule safe_weaken [OF one [OF ok]])
           (auto intro!: safe_bindE safe_weaken [OF rest] split: prod.split)
    qed
  qed simp
  note loop = this [where W = "cn_recv_window cv"]
  show ?thesis unfolding setchannelfds_def
    by (rule loop) (use assms in \<open>auto simp: chan_inv_def slots_ok_def in_set_conv_nth\<close>)
qed

end
