(* ===== verification/Channel_Steps.thy ===== *)
theory Channel_Steps
  imports Channel_Safe
begin

text \<open>
  The channels over time.  A step handles a packet, runs the event loop, opens a channel, or
  finishes a connection attempt; the answers of the kernel, the clock and the functions of the
  channel types may be others in every step.  Every session that is reached keeps the invariant,
  and in every such session all handlers are free of faults.
\<close>

section \<open>Definitions\<close>

text \<open>The entries for channel messages of \<open>cli_packettypes\<close>; \<open>svr_packettypes\<close> has all but the extended data.\<close>

definition channel_packettypes :: "chanenv \<Rightarrow> packettype list" where
  "channel_packettypes cv =
     [(SSH_MSG_CHANNEL_DATA, recv_msg_channel_data cv),
      (SSH_MSG_CHANNEL_EXTENDED_DATA, recv_msg_channel_extended_data cv),
      (SSH_MSG_CHANNEL_WINDOW_ADJUST, recv_msg_channel_window_adjust),
      (SSH_MSG_CHANNEL_REQUEST, recv_msg_channel_request cv),
      (SSH_MSG_CHANNEL_OPEN, recv_msg_channel_open cv),
      (SSH_MSG_CHANNEL_EOF, recv_msg_channel_eof cv),
      (SSH_MSG_CHANNEL_CLOSE, recv_msg_channel_close cv),
      (SSH_MSG_CHANNEL_OPEN_CONFIRMATION, recv_msg_channel_open_confirmation cv),
      (SSH_MSG_CHANNEL_OPEN_FAILURE, recv_msg_channel_open_failure cv)]"

text \<open>The environment of a step: only the window, the cryptography and the compression stay.\<close>

definition setting :: "chanenv \<Rightarrow> chanenv \<Rightarrow> bool" where
  "setting cv cv' \<longleftrightarrow> chanenv_ok cv' \<and> handlers_ok cv' \<and> cn_recv_window cv' = cn_recv_window cv
     \<and> cn_env cv' = (cn_env cv)\<lparr>ce_now := ce_now (cn_env cv'), ce_rnd := ce_rnd (cn_env cv')\<rparr>"

inductive chan_step :: "chanenv \<Rightarrow> sshsession \<Rightarrow> sshsession \<Rightarrow> bool" for cv where
  packet: "setting cv cv' \<Longrightarrow> (t, h) \<in> set (channel_packettypes cv') \<Longrightarrow> wf_buf p \<Longrightarrow>
    h (ses\<lparr>ses_payload := Some p\<rparr>) = Inr s \<Longrightarrow> chan_step cv ses s"
| events: "setting cv cv' \<Longrightarrow> channelio cv' readfds writefds sig ses = Inr s \<Longrightarrow> chan_step cv ses s"
| opened: "setting cv cv' \<Longrightarrow> length type < 2 ^ 32 \<Longrightarrow> send_msg_channel_open_init cv' fd type ses = Inr (DROPBEAR_SUCCESS, s') \<Longrightarrow>
    encrypt_packet (cn_env cv') s' = Inr s \<Longrightarrow> chan_step cv ses s"
| connected: "setting cv cv' \<Longrightarrow> live ses i \<Longrightarrow> ses_channels ses ! i = Some c \<Longrightarrow> ch_errfd c < 0 \<Longrightarrow> (success \<longrightarrow> \<not> ch_sent_close c) \<Longrightarrow>
    length err < 2 ^ 32 \<Longrightarrow> channel_connect_done cv' success sock i err ses = Inr s \<Longrightarrow> chan_step cv ses s"
| cleanup: "setting cv cv' \<Longrightarrow> chancleanup cv' ses = Inr s \<Longrightarrow> chan_step cv ses s"

inductive_cases chan_stepE: "chan_step cv ses s"

text \<open>A data message that is longer than the window the other side has been given.\<close>

definition overrun_msg :: "byte \<Rightarrow> sshsession \<Rightarrow> bool" where
  "overrun_msg t ses \<longleftrightarrow> (case getchannel ses of
     Inl _ \<Rightarrow> False
   | Inr (i, s) \<Rightarrow> (case ses_channels s ! i of
       None \<Rightarrow> False
     | Some c \<Rightarrow> if t = SSH_MSG_CHANNEL_DATA then overruns c s
         else t = SSH_MSG_CHANNEL_EXTENDED_DATA \<and> (case payload_int s of Inl _ \<Rightarrow> False | Inr (_, s') \<Rightarrow> overruns c s')))"

lemma overrun_msgD: "overrun_msg t ses \<Longrightarrow> t = SSH_MSG_CHANNEL_DATA \<or> t = SSH_MSG_CHANNEL_EXTENDED_DATA"
  by (cases "getchannel ses") (auto simp: overrun_msg_def split: option.splits if_splits)

section \<open>The invariant does not depend on the kernel\<close>

lemma setting_env:
  assumes "setting cv cv'"
  obtains n r where "cn_env cv' = (cn_env cv)\<lparr>ce_now := n, ce_rnd := r\<rparr>" "cn_recv_window cv' = cn_recv_window cv"
  using assms unfolding setting_def by blast

lemma setting_inv: "setting cv cv' \<Longrightarrow> chan_inv cv' ses = chan_inv cv ses"
  by (erule setting_env) (simp add: chan_inv_def send_ok_def wf_dir_def)

lemma settingD: "setting cv cv' \<Longrightarrow> chanenv_ok cv'" "setting cv cv' \<Longrightarrow> handlers_ok cv'"
  unfolding setting_def by blast+

lemma setting_refl: "chanenv_ok cv \<Longrightarrow> handlers_ok cv \<Longrightarrow> setting cv cv"
  by (simp add: setting_def)

section \<open>Overrunning messages\<close>

lemma getchannelD:
  assumes "getchannel ses = Inr (i, s)"
  obtains p where "s = ses\<lparr>ses_payload := Some p\<rparr>" "live s i"
  using assms by (auto simp: getchannel_def getchannel_msg_def payload_int_def bindE_eq_Inr live_def split: if_splits)

lemma common_recv_overrun:
  assumes "live ses i" "ses_channels ses ! i = Some c" "overruns c ses" "common_recv_msg_channel_data cv i w ses = Inr s"
  shows "s = ses"
proof -
  have "\<not> dl \<le> ch_recvwindow c" if "payload_int ses = Inr (dl, t)" for dl t using assms(3) that by (auto simp: overruns_def)
  then show ?thesis using assms(1,2,4)
    by (auto simp: common_recv_msg_channel_data_def chanI bindE_eq_Inr dropbear_assert_def Let_def split: if_splits)
qed

lemma recv_data_inv:
  assumes "chanenv_ok cv" "chan_inv cv ses" "has_packet ses" "recv_msg_channel_data cv ses = Inr t"
  shows "chan_inv cv t"
proof (cases "\<exists>i s c. getchannel ses = Inr (i, s) \<and> ses_channels s ! i = Some c \<and> overruns c s")
  case True
  then obtain i s c where g: "getchannel ses = Inr (i, s)" "ses_channels s ! i = Some c" "overruns c s" by blast
  then obtain p where p: "s = ses\<lparr>ses_payload := Some p\<rparr>" "live s i" by (elim getchannelD)
  have "common_recv_msg_channel_data cv i Writebuf s = Inr t" using assms(4) g(1) by (simp add: recv_msg_channel_data_def)
  then have "t = s" by (rule common_recv_overrun [OF p(2) g(2,3)])
  then show ?thesis using assms(2) p(1) by simp
next
  case False
  then have "safe (recv_msg_channel_data cv ses) (chan_inv cv)" by (intro recv_data_safe assms) blast
  then show ?thesis using assms(4) by simp
qed

lemma recv_extended_inv:
  assumes "chanenv_ok cv" "chan_inv cv ses" "has_packet ses" "recv_msg_channel_extended_data cv ses = Inr t"
  shows "chan_inv cv t"
proof (cases "\<exists>i s c n s'. getchannel ses = Inr (i, s) \<and> ses_channels s ! i = Some c \<and> payload_int s = Inr (n, s') \<and> overruns c s'")
  case True
  then obtain i s c n s' where g: "getchannel ses = Inr (i, s)" "ses_channels s ! i = Some c" "payload_int s = Inr (n, s')" "overruns c s'" by blast
  then obtain p where p: "s = ses\<lparr>ses_payload := Some p\<rparr>" "live s i" by (elim getchannelD)
  then obtain q where q: "s' = ses\<lparr>ses_payload := Some q\<rparr>" using g(3) by (auto simp: payload_int_def bindE_eq_Inr)
  have "t = s \<or> t = s' \<or> common_recv_msg_channel_data cv i Extrabuf s' = Inr t"
    using assms(4) g p by (auto simp: recv_msg_channel_extended_data_def bindE_eq_Inr split: if_splits)
  moreover have "t = s'" if "common_recv_msg_channel_data cv i Extrabuf s' = Inr t"
    using common_recv_overrun [OF _ _ g(4) that] p g(2) q by simp
  ultimately show ?thesis using assms(2) p(1) q by auto
next
  case False
  then have "safe (recv_msg_channel_extended_data cv ses) (chan_inv cv)" by (intro recv_extended_safe assms) blast
  then show ?thesis using assms(4) by simp
qed

section \<open>Opening a channel\<close>

lemma open_init_safe:
  assumes "chanenv_ok cv" "chan_inv cv ses" "length type < 2 ^ 32"
  shows "safe (send_msg_channel_open_init cv fd type ses) (\<lambda>(r, s). if r = DROPBEAR_SUCCESS
     then \<exists>t wp. s = t\<lparr>ses_writepayload := wp\<rparr> \<and> chan_inv cv t \<and> wf_buf wp \<and> b_size wp = TRANS_MAX_PAYLOAD_LEN else s = ses)"
    (is "safe _ ?Q")
proof -
  have msg: "safe (bindE (buf_putbyte (ses_writepayload s) SSH_MSG_CHANNEL_OPEN) (\<lambda>wp.
         bindE (buf_putstring wp (str type) (of_nat (length type))) (\<lambda>wp.
         bindE (buf_putint wp x) (\<lambda>wp. bindE (buf_putint wp y) (\<lambda>wp. bindE (buf_putint wp z) (\<lambda>wp.
         returnE (DROPBEAR_SUCCESS, s\<lparr>ses_writepayload := wp\<rparr>))))))) ?Q" if "chan_inv cv s" for s x y z
    using inv_wp [OF that] that assms(3)
    by (auto intro!: safe_intros exI [of _ s] simp: put_by_size unat_u32_of_nat)
  show ?thesis
    unfolding send_msg_channel_open_init_def
    apply (rule safe_bindE, rule newchannel_safe [OF assms(1,2)])
     apply simp
    apply (simp only: prod.case option.case Let_def)
    apply (rule safe_bindE, rule safe_chan [where cv = cv], assumption, assumption)
    apply (rule msg, rule chan_inv_set_chan, assumption, assumption)
    by (simp add: chan_ok_def held_def)
qed

lemma opened_inv:
  assumes "chanenv_ok cv" "chan_inv cv ses" "length type < 2 ^ 32" "send_msg_channel_open_init cv fd type ses = Inr (DROPBEAR_SUCCESS, s')"
  shows "safe (encrypt_packet (cn_env cv) s') (chan_inv cv)"
proof -
  obtain t wp where "s' = t\<lparr>ses_writepayload := wp\<rparr>" "chan_inv cv t" "wf_buf wp" "b_size wp = TRANS_MAX_PAYLOAD_LEN"
    using open_init_safe [OF assms(1-3), of fd] assms(4) by auto
  then show ?thesis using assms(1) by (auto intro!: safe_intros)
qed

section \<open>Every step\<close>

text \<open>The handlers, unless the message overruns the window.\<close>

lemma message_safe:
  assumes "chanenv_ok cv" "handlers_ok cv" "chan_inv cv ses" "has_packet ses" "(t, h) \<in> set (channel_packettypes cv)" "\<not> overrun_msg t ses"
  shows "safe (h ses) (chan_inv cv)"
proof -
  have d: "\<not> overruns c s" if "t = SSH_MSG_CHANNEL_DATA" "getchannel ses = Inr (i, s)" "ses_channels s ! i = Some c" for i s c
    using assms(6) that by (simp add: overrun_msg_def)
  have e: "\<not> overruns c s'" if "t = SSH_MSG_CHANNEL_EXTENDED_DATA" "getchannel ses = Inr (i, s)" "ses_channels s ! i = Some c"
      "payload_int s = Inr (n, s')" for i s c n s'
    using assms(6) that by (simp add: overrun_msg_def SSH_MSG_CHANNEL_DATA_def SSH_MSG_CHANNEL_EXTENDED_DATA_def)
  show ?thesis
    using assms(5) d e unfolding channel_packettypes_def
    by (auto intro: recv_data_safe [OF assms(1,3,4)] recv_extended_safe [OF assms(1,3,4)] recv_window_safe [OF assms(3,4)]
        recv_request_safe [OF assms(1-4)] recv_open_safe [OF assms(1-4)] recv_eof_safe [OF assms(1-4)] recv_confirmation_safe [OF assms(2-4)]
        recv_open_failure_safe [OF assms(2-4)])
qed

lemma handler_inv:
  assumes "chanenv_ok cv" "handlers_ok cv" "chan_inv cv ses" "has_packet ses" "(t, h) \<in> set (channel_packettypes cv)" "h ses = Inr s"
  shows "chan_inv cv s"
proof -
  consider "h = recv_msg_channel_data cv" | "h = recv_msg_channel_extended_data cv"
    | "t \<noteq> SSH_MSG_CHANNEL_DATA" "t \<noteq> SSH_MSG_CHANNEL_EXTENDED_DATA"
    using assms(5) by (auto simp: channel_packettypes_def msg_defs)
  then show ?thesis
  proof cases
    case 3
    then have "\<not> overrun_msg t ses" by (blast dest: overrun_msgD)
    then show ?thesis using message_safe [OF assms(1-5)] assms(6) by simp
  qed (use recv_data_inv [OF assms(1,3,4)] recv_extended_inv [OF assms(1,3,4)] assms(6) in auto)
qed

lemma chan_step_inv:
  assumes "chan_step cv ses s" "chan_inv cv ses"
  shows "chan_inv cv s"
  using assms(1)
proof (cases rule: chan_step.cases)
  case (packet cv' t h p)
  have "chan_inv cv' s"
    by (rule handler_inv [OF settingD [OF packet(1)] _ _ packet(2,4)]) (simp_all add: setting_inv [OF packet(1)] assms(2) packet(3))
  then show ?thesis by (simp add: setting_inv [OF packet(1)])
next
  case (events cv' readfds writefds sig)
  then show ?thesis
    using channelio_safe [OF settingD [OF events(1)], of ses readfds writefds sig] assms(2) by (simp add: setting_inv [OF events(1)])
next
  case (opened cv' type fd s')
  then show ?thesis
    using opened_inv [OF settingD(1) [OF opened(1)] _ opened(2,3)] assms(2) by (simp add: setting_inv [OF opened(1)])
next
  case (connected cv' i c success err sock)
  then show ?thesis
    using connect_done_safe [OF settingD [OF connected(1)] _ connected(2-6), of sock] assms(2) by (simp add: setting_inv [OF connected(1)])
next
  case (cleanup cv')
  then show ?thesis using chancleanup_safe [OF settingD(2) [OF cleanup(1)], of ses] assms(2) by (simp add: setting_inv [OF cleanup(1)])
qed

lemma init_inv: "send_ok (cn_env cv) ses \<Longrightarrow> payload_empty ses \<Longrightarrow> chan_inv cv (chaninitialise types ses)"
  by (simp add: chan_inv_def chaninitialise_def send_ok_def payload_empty_def slots_ok_def open_slots_def MAX_CHANNELS_def nth_Cons')

lemma reached_inv: "(chan_step cv)\<^sup>*\<^sup>* ses s \<Longrightarrow> chan_inv cv ses \<Longrightarrow> chan_inv cv s"
  by (induction rule: rtranclp_induct) (auto intro: chan_step_inv)

end
