(* ===== verification/Channel_Late.thy ===== *)
theory Channel_Late
  imports Channel_Steps
begin

text \<open>
  A connection that comes up late.  While the connection of a channel is being made its
  descriptors are not there yet, and an end of file from the other side makes \<open>check_close\<close> send
  the close message.  The channel stays in the table, and when the connection is up afterwards the
  channel gets its descriptor.
\<close>

definition slot :: "sshsession \<Rightarrow> nat \<Rightarrow> Channel \<Rightarrow> bool" where
  "slot ses i c \<longleftrightarrow> i < length (ses_channels ses) \<and> ses_channels ses ! i = Some c"

text \<open>A channel whose connection is being made, as \<open>newchannel\<close> and \<open>newtcpdirect\<close> leave it.\<close>

definition connecting :: "Channel \<Rightarrow> bool" where
  "connecting c \<longleftrightarrow> ch_readfd c = FD_UNINIT \<and> ch_writefd c = FD_UNINIT \<and> ch_errfd c = FD_CLOSED \<and> ch_extrabuf c = None
     \<and> \<not> ch_bidir_fd c \<and> \<not> ch_flushing c \<and> \<not> ch_sent_eof c \<and> \<not> ch_sent_close c \<and> \<not> ch_recv_close c"

lemma slot_chan: "slot ses i c \<Longrightarrow> chan ses i = Inr c"
  by (simp add: slot_def chan_def)

lemma slot_set: "slot ses i c \<Longrightarrow> slot (set_chan i c' ses) i c'"
  by (simp add: slot_def set_chan_def)

lemma slot_wp [simp]: "slot (ses\<lparr>ses_writepayload := wp\<rparr>) i c = slot ses i c" "slot (ses\<lparr>ses_payload := q\<rparr>) i c = slot ses i c"
  by (simp_all add: slot_def)

lemma slot_send: "slot ses i c \<Longrightarrow> post (encrypt_packet env (ses\<lparr>ses_writepayload := wp\<rparr>)) (\<lambda>s. slot s i c)"
  by (rule post_weaken [OF encrypt_packet_sends]) (simp add: slot_def sends_def)

lemma slot_message:
  assumes "slot ses i c" "\<And>s. slot s i c \<Longrightarrow> post (f s) Q"
  shows "post (bindE (encrypt_packet env (ses\<lparr>ses_writepayload := wp\<rparr>)) f) Q"
  by (rule post_bindE, rule post_weaken [OF slot_send [OF assms(1)] assms(2)])

lemma send_eof_slot:
  assumes "slot ses i c"
  shows "post (send_msg_channel_eof cv i ses) (\<lambda>s. slot s i (c\<lparr>ch_sent_eof := True\<rparr>))"
  unfolding send_msg_channel_eof_def slot_chan [OF assms] bindE_simps
  by (rule post_any, rule post_any, rule slot_message [OF assms]) (simp add: slot_chan slot_set)

lemma close_fd_slot:
  assumes "slot ses i c"
  shows "post (close_chan_fd cv i fd how ses) (\<lambda>s. slot s i (fd_closed c fd how))"
  by (rule post_safe, rule safe_close [OF slot_chan [OF assms]]) (rule slot_set [OF assms])

lemma close_fd_then:
  assumes "slot ses i c" "\<And>s. slot s i (fd_closed c fd how) \<Longrightarrow> post (f s) Q"
  shows "post (bindE (close_chan_fd cv i fd how ses) f) Q"
  by (rule post_bindE, rule post_weaken [OF close_fd_slot [OF assms(1)] assms(2)])

lemma send_close_slot:
  assumes "slot ses i c" "ct_closehandler (cn_type cv (ch_type c)) = None"
  shows "post (send_msg_channel_close cv i ses) (\<lambda>s. \<exists>c'. slot s i c' \<and> ch_sent_close c')"
proof -
  have "post (close_chan_fd cv i fd how s) (\<lambda>s. \<exists>c'. slot s i c' \<and> ch_sent_close c')"
    if "slot s i d" "ch_sent_close d" for fd how s d
    by (rule post_weaken [OF close_fd_slot [OF that(1)]]) (use that(2) in auto)
  note last = this
  show ?thesis
    unfolding send_msg_channel_close_def slot_chan [OF assms(1)] bindE_simps assms(2) call_handler_def option.case Let_def
    apply (rule post_any, rule post_any, rule slot_message [OF assms(1)])
    apply (simp only: slot_chan bindE_simps)
    apply (rule close_fd_then, erule slot_set)
    apply (simp only: slot_chan bindE_simps)
    apply (rule close_fd_then, assumption)
    apply (simp only: slot_chan bindE_simps)
    by (rule last, assumption) simp
qed

lemma eof_while_connecting:
  assumes "slot ses i c" "connecting c" "ch_recv_eof c" "ct_check_close (cn_type cv (ch_type c)) = None" "ct_closehandler (cn_type cv (ch_type c)) = None"
  shows "post (check_close cv i ses) (\<lambda>s. \<exists>c'. slot s i c' \<and> ch_sent_close c')"
proof -
  let ?c = "fd_closed c FD_UNINIT SHUT_WR"
  have c: "ch_readfd ?c = FD_CLOSED" "ch_writefd ?c = FD_CLOSED" "ch_errfd ?c = FD_CLOSED" "\<not> ch_sent_eof ?c" "\<not> ch_sent_close ?c"
    using assms(2) by (simp_all add: connecting_def fd_closed_fds FD_UNINIT_def FD_CLOSED_def)
  have wp: "write_pending c = Inr False" using assms(2) by (simp add: connecting_def write_pending_def FD_UNINIT_def FD_CLOSED_def)
  have close: "post (maybe_send_close cv True i s) (\<lambda>s. \<exists>c'. slot s i c' \<and> ch_sent_close c')" if "slot s i (?c\<lparr>ch_sent_eof := True\<rparr>)" for s
    unfolding maybe_send_close_def slot_chan [OF that] bindE_simps
    using c assms(2,5) send_close_slot [OF that] by (simp add: write_pending_def connecting_def)
  have eof: "post (bindE (maybe_send_eof cv i s) (maybe_send_close cv True i)) (\<lambda>s. \<exists>c'. slot s i c' \<and> ch_sent_close c')" if "slot s i ?c" for s
    unfolding maybe_send_eof_def slot_chan [OF that] bindE_simps
    using c post_bindE [OF post_weaken [OF send_eof_slot [OF that] close]] by simp
  have "post (bindE (close_chan_fd cv i FD_UNINIT SHUT_WR ses) (\<lambda>s. bindE (maybe_send_eof cv i s) (maybe_send_close cv True i)))
      (\<lambda>s. \<exists>c'. slot s i c' \<and> ch_sent_close c')"
    by (rule close_fd_then [OF assms(1) eof])
  then show ?thesis
    using assms(2-4) wp slot_chan [OF assms(1)]
    by (simp add: check_close_def close_allowed_def flush_fds_def close_write_end_def connecting_def)
qed

lemma connected_after_close:
  assumes "slot ses i c" "ch_sent_close c"
  shows "post (channel_connect_done cv True sock i err ses) (\<lambda>s. \<exists>c'. slot s i c' \<and> ch_sent_close c' \<and> ch_readfd c' = sock)"
proof -
  let ?c = "c\<lparr>ch_readfd := sock, ch_writefd := sock, ch_bidir_fd := True, ch_conn_pending := None\<rparr>"
  have s: "slot (set_chan i ?c ses) i ?c" by (rule slot_set [OF assms(1)])
  show ?thesis
    unfolding channel_connect_done_def slot_chan [OF assms(1)] bindE_simps Let_def if_True send_msg_channel_open_confirmation_def slot_chan [OF s]
    by (intro post_any post_weaken [OF slot_send [OF s]]) (use assms(2) in auto)
qed

end
