(* ===== verification/Channel_Props.thy ===== *)
theory Channel_Props
  imports Channel_Late Buffer_Exact Kex_Agree
begin

text \<open>
  What the channels promise: the invariant in every session that is reached, no faults, data that
  is passed on in order, data that is sent as it was read and within the window, and a connection
  that comes up after the close message.
\<close>

section \<open>Data that is sent\<close>

text \<open>The message \<open>send_msg_channel_data\<close> builds, and how much it may carry.\<close>

definition data_head :: "bool \<Rightarrow> Channel \<Rightarrow> byte list" where
  "data_head ext c = (if ext then [SSH_MSG_CHANNEL_EXTENDED_DATA] else [SSH_MSG_CHANNEL_DATA]) @ STORE32H (ch_remotechan c)
     @ (if ext then STORE32H SSH_EXTENDED_DATA_STDERR else [])"

definition send_max :: "bool \<Rightarrow> Channel \<Rightarrow> u32" where
  "send_max ext c = min (min (ch_transwindow c) (ch_transmaxpacket c)) (TRANS_MAX_PAYLOAD_LEN - 1 - 4 - 4 - (if ext then 4 else 0))"

lemma length_data_head: "length (data_head ext c) = (if ext then 9 else 5)"
  by (simp add: data_head_def)

lemma send_max_le:
  "unat (send_max ext c) \<le> unat (ch_transwindow c)" "unat (send_max ext c) \<le> unat (ch_transmaxpacket c)"
  "unat (send_max ext c) + 9 + (if ext then 4 else 0) \<le> unat TRANS_MAX_PAYLOAD_LEN"
proof -
  have a: "unat (min (min x y) z) \<le> unat x" "unat (min (min x y) z) \<le> unat y" "unat (min (min x y) z) \<le> unat z" for x y z :: u32
    by (auto simp: min_def u32_nat)
  show "unat (send_max ext c) \<le> unat (ch_transwindow c)" "unat (send_max ext c) \<le> unat (ch_transmaxpacket c)"
    unfolding send_max_def by (rule a)+
  have "unat (send_max ext c) \<le> unat (TRANS_MAX_PAYLOAD_LEN - 1 - 4 - 4 - (if ext then 4 else 0))"
    unfolding send_max_def by (rule a)
  then show "unat (send_max ext c) + 9 + (if ext then 4 else 0) \<le> unat TRANS_MAX_PAYLOAD_LEN"
    by (simp add: TRANS_MAX_PAYLOAD_LEN_def split: if_splits)
qed

lemma put_nbuf_end:
  assumes "nbuf_ok d p p" "take p d = bs"
  shows "p + 4 \<le> length d \<Longrightarrow> \<exists>d'. buf_putint (nbuf d p p) v = Inr (nbuf d' (p + 4) (p + 4)) \<and> nbuf_ok d' (p + 4) (p + 4)
      \<and> take (p + 4) d' = bs @ STORE32H v \<and> length d' = length d"
    "p + 1 \<le> length d \<Longrightarrow> \<exists>d'. buf_putbyte (nbuf d p p) x = Inr (nbuf d' (p + 1) (p + 1)) \<and> nbuf_ok d' (p + 1) (p + 1)
      \<and> take (p + 1) d' = bs @ [x] \<and> length d' = length d"
  using assms by (auto simp: putint_nbuf putbyte_nbuf nbuf_ok_def splice_def)

lemma data_header:
  assumes "wf_buf wp" "b_len wp = 0" "b_pos wp = 0" "b_size wp = TRANS_MAX_PAYLOAD_LEN"
  shows "\<exists>d. length d = unat TRANS_MAX_PAYLOAD_LEN \<and> take (length (data_head ext c)) d = data_head ext c
     \<and> (\<forall>f. bindE (buf_putbyte wp (if ext then SSH_MSG_CHANNEL_EXTENDED_DATA else SSH_MSG_CHANNEL_DATA)) (\<lambda>wp.
       bindE (buf_putint wp (ch_remotechan c)) (\<lambda>wp.
       bindE (if ext then buf_putint wp SSH_EXTENDED_DATA_STDERR else returnE wp) f))
       = f (nbuf d (length (data_head ext c)) (length (data_head ext c))))"
proof -
  have l: "length (b_data wp) = unat TRANS_MAX_PAYLOAD_LEN" "unat TRANS_MAX_PAYLOAD_LEN = 16384"
    using wf_bufD [OF assms(1)] assms(4) by (simp_all add: TRANS_MAX_PAYLOAD_LEN_def)
  have wp: "wp = nbuf (b_data wp) 0 0" "nbuf_ok (b_data wp) 0 0" using nbuf_exists [OF assms(1)] assms(2,3) by simp_all
  obtain d1 where d1: "buf_putbyte wp (if ext then SSH_MSG_CHANNEL_EXTENDED_DATA else SSH_MSG_CHANNEL_DATA) = Inr (nbuf d1 1 1)" "nbuf_ok d1 1 1"
    "take 1 d1 = [if ext then SSH_MSG_CHANNEL_EXTENDED_DATA else SSH_MSG_CHANNEL_DATA]" "length d1 = 16384"
    using put_nbuf_end(2) [OF wp(2), of "[]"] wp(1) l by auto
  obtain d2 where d2: "buf_putint (nbuf d1 1 1) (ch_remotechan c) = Inr (nbuf d2 5 5)" "nbuf_ok d2 5 5" "take 5 d2 = data_head False c \<or> ext"
    "take 5 d2 = (if ext then [SSH_MSG_CHANNEL_EXTENDED_DATA] else [SSH_MSG_CHANNEL_DATA]) @ STORE32H (ch_remotechan c)" "length d2 = 16384"
    using put_nbuf_end(1) [OF d1(2,3), of "ch_remotechan c"] d1(4) by (auto simp: data_head_def)
  show ?thesis
  proof (cases ext)
    case True
    obtain d3 where d3: "buf_putint (nbuf d2 5 5) SSH_EXTENDED_DATA_STDERR = Inr (nbuf d3 9 9)" "length d3 = 16384"
      "take 9 d3 = data_head ext c"
      using put_nbuf_end(1) [OF d2(2,4), of SSH_EXTENDED_DATA_STDERR] d2(5) True by (auto simp: data_head_def)
    show ?thesis
      by (intro exI [of _ d3] conjI allI) (use True d1(1) d2(1) d3 l in \<open>simp_all add: length_data_head\<close>)
  next
    case False
    show ?thesis
      by (intro exI [of _ d2] conjI allI) (use False d1(1) d2 l in \<open>simp_all add: length_data_head data_head_def\<close>)
  qed
qed

lemma splice_middle: "length h = k \<Longrightarrow> length y = length x \<Longrightarrow> splice (h @ x @ r) k y = h @ y @ r"
  by (simp add: splice_def)

lemma splice_size:
  assumes "length d = n" "take k d = h" "k + 4 + length bs \<le> n" "length s = 4" "length z = 4"
  shows "take (k + 4 + length bs) (splice (splice (splice d k z) (k + 4) bs) k s) = h @ s @ bs"
proof -
  define x where "x = take 4 (drop k d)"
  define y where "y = take (length bs) (drop (k + 4) d)"
  define r where "r = drop (k + 4 + length bs) d"
  have "drop k d = x @ y @ r"
    unfolding x_def y_def r_def
    using append_take_drop_id [of 4 "drop k d"] append_take_drop_id [of "length bs" "drop (k + 4) d"]
    by (simp only: drop_drop add.commute add.left_commute append.assoc)
  then have d: "d = h @ x @ y @ r" using assms(2) append_take_drop_id [of k d] by simp
  have l: "length h = k" "length x = 4" "length y = length bs" using assms(1-3) by (auto simp: x_def y_def)
  have "splice d k z = (h @ z) @ y @ r" using splice_middle [of h k z x "y @ r"] l assms(5) d by simp
  then have "splice (splice d k z) (k + 4) bs = h @ z @ bs @ r" using splice_middle [of "h @ z" "k + 4" bs y r] l assms(5) by simp
  then have "splice (splice (splice d k z) (k + 4) bs) k s = (h @ s @ bs) @ r" using splice_middle [of h k s z "bs @ r"] l assms(4,5) by simp
  then show ?thesis using l assms(4) by (simp only: append.assoc) simp
qed

lemma send_data_message:
  assumes "chanenv_ok cv" "chan_inv cv ses" "live ses i" "ses_channels ses ! i = Some c" "\<not> ch_sent_close c"
    "0 \<le> fd" "fd = (if ext then ch_errfd c else ch_readfd c)" "ch_read_mangler c = None" "send_max ext c \<noteq> 0"
    "cn_read cv fd (send_max ext c) = Fd_data bs" "bs \<noteq> []"
  shows "\<exists>wp. send_msg_channel_data cv i ext ses = encrypt_packet (cn_env cv)
       (set_chan i (c\<lparr>ch_transwindow := ch_transwindow c - of_nat (length bs)\<rparr>) (ses\<lparr>ses_writepayload := wp\<rparr>))
     \<and> wf_buf wp \<and> take (unat (b_len wp)) (b_data wp) = data_head ext c @ STORE32H (of_nat (length bs)) @ bs"
proof -
  let ?h = "length (data_head ext c)" and ?n = "length bs"
  have ch: "chan ses i = Inr c" using assms(3,4) by (simp add: chanI)
  have wp: "wf_buf (ses_writepayload ses)" "b_len (ses_writepayload ses) = 0" "b_pos (ses_writepayload ses) = 0"
    "b_size (ses_writepayload ses) = TRANS_MAX_PAYLOAD_LEN"
    using assms(2) by (simp_all add: chan_inv_def send_ok_def payload_empty_def)
  have bs: "?n \<le> unat (send_max ext c)" using assms(1,10) by (auto simp: chanenv_ok_def)
  note m = send_max_le(3) [of ext c]
  have T: "unat TRANS_MAX_PAYLOAD_LEN = 16384" by (simp add: TRANS_MAX_PAYLOAD_LEN_def)
  obtain d where d0: "length d = unat TRANS_MAX_PAYLOAD_LEN \<and> take ?h d = data_head ext c
     \<and> (\<forall>f. bindE (buf_putbyte (ses_writepayload ses) (if ext then SSH_MSG_CHANNEL_EXTENDED_DATA else SSH_MSG_CHANNEL_DATA)) (\<lambda>wp.
       bindE (buf_putint wp (ch_remotechan c)) (\<lambda>wp.
       bindE (if ext then buf_putint wp SSH_EXTENDED_DATA_STDERR else returnE wp) f))
       = (f (nbuf d ?h ?h) :: sshsession res))"
    using data_header [OF wp, of ext c] by (elim exE)
  note d = d0 [THEN conjunct1, unfolded T] d0 [THEN conjunct2, THEN conjunct1] d0 [THEN conjunct2, THEN conjunct2, THEN spec]
  let ?d1 = "splice d ?h (STORE32H 0)"
  let ?d2 = "splice ?d1 (?h + 4) bs"
  let ?d3 = "splice ?d2 ?h (STORE32H (of_nat ?n))"
  have h: "?h + 4 + unat (send_max ext c) \<le> 16384" using m T by (auto simp: length_data_head)
  have hb: "?h + 4 + ?n \<le> 16384" using h bs by linarith
  have len: "length ?d1 = 16384" "length ?d2 = 16384" "length ?d3 = 16384" using hb d(1) by simp_all
  have ok: "nbuf_ok d ?h ?h" "nbuf_ok ?d1 (?h + 4) (?h + 4)" "nbuf_ok ?d2 (?h + 4) (?h + 4)"
    "nbuf_ok ?d2 (?h + 4 + ?n) (?h + 4 + ?n)" "nbuf_ok ?d2 (?h + 4 + ?n) ?h" "nbuf_ok ?d3 (?h + 4 + ?n) (?h + 4)"
    using hb len d(1) by (simp_all add: nbuf_ok_def)
  have n: "unat (of_nat ?n :: u32) = ?n" "unat (of_nat ?h :: u32) = ?h" using hb by (simp_all add: unat_u32_of_nat)
  have ml: "mangled_len c bs = int ?n" using assms(8) by (simp add: mangled_len_def)
  have steps:
    "buf_putint (nbuf d ?h ?h) 0 = Inr (nbuf ?d1 (?h + 4) (?h + 4))"
    "buf_getwriteptr (nbuf ?d1 (?h + 4) (?h + 4)) (send_max ext c) = Inr (?h + 4)"
    "mem_write ?d1 (?h + 4) bs = Inr ?d2" "(nbuf ?d1 (?h + 4) (?h + 4))\<lparr>b_data := ?d2\<rparr> = nbuf ?d2 (?h + 4) (?h + 4)"
    "buf_incrwritepos (nbuf ?d2 (?h + 4) (?h + 4)) (of_nat ?n) = Inr (nbuf ?d2 (?h + 4 + ?n) (?h + 4 + ?n))"
    "buf_setpos (nbuf ?d2 (?h + 4 + ?n) (?h + 4 + ?n)) (of_nat ?h) = Inr (nbuf ?d2 (?h + 4 + ?n) ?h)"
    "buf_putint (nbuf ?d2 (?h + 4 + ?n) ?h) (of_nat ?n) = Inr (nbuf ?d3 (?h + 4 + ?n) (?h + 4))"
    using h hb len d(1) n
    by (simp_all add: putint_nbuf [OF ok(1)] getwriteptr_nbuf [OF ok(2)] mem_write_splice incrwritepos_nbuf [OF ok(3)] setpos_nbuf [OF ok(4)]
        putint_nbuf [OF ok(5)])
  have "send_msg_channel_data cv i ext ses = encrypt_packet (cn_env cv)
       (set_chan i (c\<lparr>ch_transwindow := ch_transwindow c - of_nat ?n\<rparr>) (ses\<lparr>ses_writepayload := nbuf ?d3 (?h + 4 + ?n) (?h + 4)\<rparr>))"
    unfolding send_msg_channel_data_def ch bindE_simps Let_def wp(4) send_max_def [symmetric] assms(7) [symmetric]
    using assms(5,6,8-11)
    by (simp only: dropbear_assert_def d(3) steps ml bindE_simps if_True not_False_eq_True if_False nbuf_sel fd_read.case of_int_of_nat_eq simp_thms)
  moreover have "take (?h + 4 + ?n) ?d3 = data_head ext c @ STORE32H (of_nat ?n) @ bs"
    by (rule splice_size [OF d(1,2) hb]) simp_all
  ultimately show ?thesis
    using wf_nbuf [OF ok(6)] nbuf_unat(1) [OF ok(6)] by (intro exI [of _ "nbuf ?d3 (?h + 4 + ?n) (?h + 4)"]) (simp only: nbuf_sel simp_thms)
qed

section \<open>A small session\<close>

text \<open>
  Channels of the type the session has are left waiting for their connection by the init
  handler.  The kernel takes one byte of what is written, and has two bytes to read.
\<close>

definition waiting_type :: ChanType where
  "waiting_type = \<lparr>ct_inithandler = Some (\<lambda>_ ses. Inr (SSH_OPEN_IN_PROGRESS, ses)), ct_check_close = None, ct_reqhandler = None,
     ct_closehandler = None, ct_cleanup = None\<rparr>"

definition small_cv :: chanenv where
  "small_cv = \<lparr>cn_env = plain_env, cn_recv_window = 16, cn_type = (\<lambda>_. waiting_type),
     cn_writev = (\<lambda>fd bs. Wr (min 1 (length bs))), cn_read = (\<lambda>fd l. Fd_data (take (unat l) [104, 105])),
     cn_read_pending = (\<lambda>_. False), cn_close = (\<lambda>_. True)\<rparr>"

definition payload_buf :: buffer where
  "payload_buf = \<lparr>b_data = replicate 16384 0, b_len = 0, b_pos = 0, b_size = 16384\<rparr>"

definition small_ses :: "buffer \<Rightarrow> sshsession" where
  "small_ses wp = (agreed_session False)\<lparr>ses_writepayload := wp\<rparr>"

lemma small_cv_ok: "chanenv_ok small_cv" "handlers_ok small_cv"
proof -
  show "chanenv_ok small_cv"
    by (auto simp: chanenv_ok_def small_cv_def zlib_ok_def plain_env_def MAX_CBUF_SIZE_def)
  show "handlers_ok small_cv"
    by (simp add: handlers_ok_def small_cv_def waiting_type_def keeps_inv_def)
qed

lemma small_ses_ok: "send_ok (cn_env small_cv) (small_ses payload_buf)" "payload_empty (small_ses payload_buf)"
  using wf_init_dir
  by (simp_all add: send_ok_def payload_empty_def small_ses_def agreed_session_def payload_buf_def small_cv_def wf_buf_def
      TRANS_MAX_PAYLOAD_LEN_def BUF_MAX_SIZE_def queue_ok_def pending_def zero_keys_def)




text \<open>A session with one channel; its descriptor is \<open>fd\<close>.\<close>

definition small_chan :: "int \<Rightarrow> Channel" where
  "small_chan fd = \<lparr>ch_index = 0, ch_remotechan = 7, ch_recvwindow = 16, ch_transwindow = 100, ch_recvdonelen = 0,
     ch_recvmaxpacket = RECV_MAX_CHANNEL_DATA_LEN, ch_transmaxpacket = 50, ch_typedata = None, ch_writefd = fd, ch_readfd = fd,
     ch_errfd = FD_CLOSED, ch_bidir_fd = False, ch_writebuf = Some \<lparr>cb_size = 16, cb_readpos = 0, cb_writepos = 0, cb_used = 0, cb_data = None\<rparr>,
     ch_extrabuf = None, ch_sent_close = False, ch_recv_close = False, ch_recv_eof = False, ch_sent_eof = False, ch_flushing = False,
     ch_conn_pending = None, ch_initconn = False, ch_await_open = False, ch_read_mangler = None, ch_type = ''s'', ch_prio = DROPBEAR_PRIO_NORMAL\<rparr>"

definition one_channel :: "int \<Rightarrow> byte list \<Rightarrow> buffer \<Rightarrow> sshsession" where
  "one_channel fd bs wp = (small_ses wp)\<lparr>ses_channels := [Some (small_chan fd)], ses_chancount := 1, ses_payload := Some (buf_of bs)\<rparr>"

lemma one_channel_inv: "chan_inv small_cv (one_channel fd bs payload_buf)"
proof -
  have "chan_ok 16 0 (small_chan fd)"
    by (simp add: chan_ok_def small_chan_def held_def used_in_def out_ok_def wf_cbuf_def FD_CLOSED_def)
  then show ?thesis
    using small_ses_ok
    by (simp add: chan_inv_def one_channel_def send_ok_def payload_empty_def slots_ok_def open_slots_def MAX_CHANNELS_def small_cv_def)
qed


section \<open>Properties\<close>





text \<open>
  C37. Data reaches its descriptor in order.  When a data message arrives for a channel with an open
  descriptor, with no more data than the window allows, the handler offers the kernel what the channel
  had stored followed by the new data, and what the kernel does not take of that, and nothing else, is
  stored afterwards, in the same order; nothing faults.  This holds unless the kernel
  reports an error, when the data is dropped with the descriptor.
\<close>

theorem channel_data_in_order:
  assumes "chanenv_ok cv" "chan_inv cv ses" "has_packet ses" "getchannel ses = Inr (i, s)" "ses_payload s = Some p"
    and "ses_channels ses ! i = Some c" "ch_writebuf c = Some b" "0 \<le> ch_writefd c"
    and "unread p = STORE32H datalen @ rest" "datalen \<le> ch_recvwindow c"
    and "cn_writev cv (ch_writefd c) (cbuf_contents b @ take (unat datalen) rest) \<noteq> Wr_error"
  shows "safe (recv_msg_channel_data cv ses) (\<lambda>t. \<exists>c' b'. ses_channels t ! i = Some c' \<and> ch_writebuf c' = Some b'
     \<and> cbuf_contents b' = drop (taken cv (ch_writefd c) (cbuf_contents b @ take (unat datalen) rest)) (cbuf_contents b @ take (unat datalen) rest))"
    (is "safe _ ?Q")
proof -
  have s: "live ses i" "s = ses\<lparr>ses_payload := Some p\<rparr>" "wf_buf p"
  proof -
    have "safe (getchannel ses) (\<lambda>(j, t). \<exists>q. wf_buf q \<and> live ses j \<and> t = ses\<lparr>ses_payload := Some q\<rparr>)"
      unfolding getchannel_def by (rule getchannel_safe [OF assms(2,3)]) auto
    then obtain q where "wf_buf q" "live ses i" "s = ses\<lparr>ses_payload := Some q\<rparr>" using assms(4) by auto
    then show "live ses i" "s = ses\<lparr>ses_payload := Some p\<rparr>" "wf_buf p" using assms(5) by simp_all
  qed
  have over: "\<not> overruns c s"
    using assms(9,10) s buf_getint_eq [OF s(3)] by (auto simp: overruns_def payload_int_def bindE_eq_Inr)
  have "safe (common_recv_msg_channel_data cv i Writebuf s) ?Q"
  proof (rule common_recv_safe [OF assms(1) _ _ _ assms(5) s(3) over])
    show "chan_inv cv s" "live s i" "ses_channels s ! i = Some c" using assms(2,6) s by simp_all
    show "?Q s" if "out_fd Writebuf c < 0 \<or> out_buf Writebuf c = None" using that assms(7,8) by (simp add: out_fd_def out_buf_def)
    show "?Q x" if "out_buf Writebuf c = Some b0" "unread p = STORE32H l @ r" "ses_channels x ! i = Some c'"
      "passed_on cv (out_fd Writebuf c) Writebuf (cbuf_contents b0) (take (unat l) r) c'" for x b0 l r c'
    proof -
      have "b0 = b" "STORE32H l = STORE32H datalen" "r = rest"
        using that(1,2) assms(7,9) by (simp_all add: out_buf_def)
      moreover from this have "l = datalen" by (blast dest: STORE32H_inj)
      ultimately show ?thesis using that(3,4) assms(11) by (auto simp: passed_on_def out_fd_def out_buf_def)
    qed
  qed
  then show ?thesis using assms(4) by (simp add: recv_msg_channel_data_def)
qed

definition data_packet :: "byte list" where
  "data_packet = STORE32H 0 @ STORE32H 2 @ [11, 12]"

lemma data_packet_runs:
  "getchannel (one_channel 5 data_packet wp) = Inr (0, (one_channel 5 data_packet wp)\<lparr>ses_payload := Some ((buf_of data_packet)\<lparr>b_pos := 4\<rparr>)\<rparr>)"
  "isl (recv_msg_channel_data small_cv (one_channel 5 data_packet wp)) = False"
proof -
  have "buf_getint (buf_of data_packet) = Inr (0, (buf_of data_packet)\<lparr>b_pos := 4\<rparr>)" by code_simp
  then show "getchannel (one_channel 5 data_packet wp) = Inr (0, (one_channel 5 data_packet wp)\<lparr>ses_payload := Some ((buf_of data_packet)\<lparr>b_pos := 4\<rparr>)\<rparr>)"
    by (simp add: getchannel_def getchannel_msg_def payload_int_def one_channel_def)
  show "isl (recv_msg_channel_data small_cv (one_channel 5 data_packet wp)) = False" by code_simp
qed

theorem channel_data_in_order_witness:
  "\<exists>t c' b'. recv_msg_channel_data small_cv (one_channel 5 data_packet payload_buf) = Inr t
     \<and> ses_channels t ! 0 = Some c' \<and> ch_writebuf c' = Some b' \<and> cbuf_contents b' = [12]"
proof -
  let ?p = "(buf_of data_packet)\<lparr>b_pos := 4\<rparr>" and ?b = "\<lparr>cb_size = 16, cb_readpos = 0, cb_writepos = 0, cb_used = 0, cb_data = None\<rparr>"
  have "wf_buf (buf_of data_packet)" unfolding data_packet_def by (rule wf_buf_of) simp
  then have pkt: "has_packet (one_channel 5 data_packet payload_buf)" by (simp add: has_packet_def one_channel_def)
  have u: "unread ?p = STORE32H 2 @ [11, 12]" by code_simp
  have c: "ses_channels (one_channel 5 data_packet payload_buf) ! 0 = Some (small_chan 5)" "ch_writebuf (small_chan 5) = Some ?b"
    "0 \<le> ch_writefd (small_chan 5)" "2 \<le> ch_recvwindow (small_chan 5)" "cbuf_contents ?b = []"
    "cn_writev small_cv (ch_writefd (small_chan 5)) (cbuf_contents ?b @ take (unat (2 :: u32)) [11, 12]) \<noteq> Wr_error"
    by (simp_all add: one_channel_def small_chan_def small_cv_def cbuf_contents_def)
  have tk: "taken small_cv (ch_writefd (small_chan 5)) [11, 12] = 1" by (simp add: taken_def small_cv_def)
  obtain t where t: "recv_msg_channel_data small_cv (one_channel 5 data_packet payload_buf) = Inr t"
    using data_packet_runs(2) [of payload_buf] by (cases "recv_msg_channel_data small_cv (one_channel 5 data_packet payload_buf)") auto
  show ?thesis
    using channel_data_in_order [OF small_cv_ok(1) one_channel_inv pkt data_packet_runs(1) _ c(1,2,3) u c(4,6)] t tk c(5)
    by simp
qed

text \<open>
  C38. Data is sent as it was read, and within the window.  When the event loop finds data on the
  descriptor of a channel, at most as many bytes are read as the other side's window, its largest
  packet and the payload buffer allow; the message that is given to \<open>encrypt_packet\<close> is the message
  type, the other side's number of the channel, for extended data its type, the length and exactly
  the bytes that were read; and the window shrinks by their number, without wrapping around.
  (Channels with a read mangler, the escape handling of the client, are not covered.)
\<close>

theorem channel_data_sent:
  assumes "chanenv_ok cv" "chan_inv cv ses" "live ses i" "ses_channels ses ! i = Some c" "\<not> ch_sent_close c"
    "0 \<le> fd" "fd = (if ext then ch_errfd c else ch_readfd c)" "ch_read_mangler c = None" "send_max ext c \<noteq> 0"
    "cn_read cv fd (send_max ext c) = Fd_data bs" "bs \<noteq> []"
  shows "\<exists>wp tw. send_msg_channel_data cv i ext ses = encrypt_packet (cn_env cv)
       (set_chan i (c\<lparr>ch_transwindow := tw\<rparr>) (ses\<lparr>ses_writepayload := wp\<rparr>))
     \<and> wf_buf wp \<and> take (unat (b_len wp)) (b_data wp) = data_head ext c @ STORE32H (of_nat (length bs)) @ bs
     \<and> length bs \<le> unat (ch_transmaxpacket c) \<and> unat tw + length bs = unat (ch_transwindow c)"
proof -
  have le: "length bs \<le> unat (send_max ext c)" using assms(1,10) by (auto simp: chanenv_ok_def)
  then have "unat (of_nat (length bs) :: u32) = length bs"
    using send_max_le(3) [of ext c] by (intro unat_u32_of_nat) (simp add: TRANS_MAX_PAYLOAD_LEN_def)
  then have "unat (ch_transwindow c - of_nat (length bs)) = unat (ch_transwindow c) - length bs"
    using le send_max_le(1) [of ext c] by (subst unat_u32_sub) simp_all
  then show ?thesis
    using send_data_message [OF assms] le send_max_le(1,2) [of ext c] by fastforce
qed

theorem channel_data_sent_witness:
  "\<exists>wp. send_msg_channel_data small_cv 0 False (one_channel 5 [] payload_buf) = encrypt_packet (cn_env small_cv)
       (set_chan 0 ((small_chan 5)\<lparr>ch_transwindow := 98\<rparr>) ((one_channel 5 [] payload_buf)\<lparr>ses_writepayload := wp\<rparr>))
     \<and> take (unat (b_len wp)) (b_data wp) = [94, 0, 0, 0, 7, 0, 0, 0, 2, 104, 105]"
proof -
  have c: "live (one_channel 5 [] payload_buf) 0" "ses_channels (one_channel 5 [] payload_buf) ! 0 = Some (small_chan 5)"
    "\<not> ch_sent_close (small_chan 5)" "5 = (if False then ch_errfd (small_chan 5) else ch_readfd (small_chan 5))"
    "ch_read_mangler (small_chan 5) = None" "ch_transwindow (small_chan 5) = 100" "ch_remotechan (small_chan 5) = 7"
    by (simp_all add: live_def one_channel_def small_chan_def)
  have m: "send_max False (small_chan 5) = 50"
    by (simp add: send_max_def small_chan_def TRANS_MAX_PAYLOAD_LEN_def)
  then have r: "send_max False (small_chan 5) \<noteq> 0" "cn_read small_cv 5 (send_max False (small_chan 5)) = Fd_data [104, 105]"
    by (simp_all add: small_cv_def)
  have h: "data_head False (small_chan 5) @ STORE32H (of_nat (length [104, 105 :: byte])) @ [104, 105] = [94, 0, 0, 0, 7, 0, 0, 0, 2, 104, 105]"
    by code_simp
  obtain wp tw where w: "send_msg_channel_data small_cv 0 False (one_channel 5 [] payload_buf) = encrypt_packet (cn_env small_cv)
       (set_chan 0 ((small_chan 5)\<lparr>ch_transwindow := tw\<rparr>) ((one_channel 5 [] payload_buf)\<lparr>ses_writepayload := wp\<rparr>))"
    "take (unat (b_len wp)) (b_data wp) = data_head False (small_chan 5) @ STORE32H (of_nat (length [104, 105 :: byte])) @ [104, 105]"
    "unat tw + length [104, 105 :: byte] = unat (ch_transwindow (small_chan 5))"
    using channel_data_sent [OF small_cv_ok(1) one_channel_inv c(1-3) _ c(4,5) r] by auto
  have "unat tw = unat (98 :: u32)" using w(3) c(6) by simp
  then have "tw = 98" by (simp only: word_unat_eq_iff)
  then show ?thesis using w(1,2) unfolding h by blast
qed

text \<open>
  C39. A connection that comes up after an end of file ends the session in a failed assertion.  While the
  connection of a channel is still being made, an end of file from the other side makes \<open>check_close\<close>
  send the end of file and the close message of a channel that has no descriptors yet.  If the
  connection comes up after that, \<open>channel_connect_done\<close> gives the channel its descriptor, and as soon as
  there is data on it the event loop runs into \<open>dropbear_assert(!channel->sent_close)\<close>.
\<close>

theorem late_connect_assertion:
  assumes "slot ses i c" "connecting c" "ct_check_close (cn_type cv (ch_type c)) = None" "ct_closehandler (cn_type cv (ch_type c)) = None"
    and "getchannel_msg ''EOF for unknown channel'' ses = Inr (i, s0)" "recv_msg_channel_eof cv ses = Inr s1"
    and "channel_connect_done cv' True sock i err s1 = Inr s2" "0 \<le> sock" "readfds sock"
  shows "channel_events cv'' readfds writefds sig i s2 = Inl (Assert_fail ''!channel->sent_close'')"
proof -
  let ?c = "c\<lparr>ch_recv_eof := True\<rparr>"
  have s0: "slot s0 i c"
    using assms(1,5) by (auto simp: getchannel_msg_def payload_int_def bindE_eq_Inr slot_def split: if_splits)
  have "check_close cv i (set_chan i ?c s0) = Inr s1"
    using assms(5,6) slot_chan [OF s0] by (simp add: recv_msg_channel_eof_def)
  then obtain c1 where c1: "slot s1 i c1" "ch_sent_close c1"
    using postD [OF eof_while_connecting [OF slot_set [OF s0, of ?c]]] assms(2-4) by (auto simp: connecting_def)
  obtain c2 where c2: "slot s2 i c2" "ch_sent_close c2" "ch_readfd c2 = sock"
    using postD [OF connected_after_close [OF c1] assms(7)] by blast
  show ?thesis
    using c2 assms(8,9) slot_chan [OF c2(1)]
    by (simp add: channel_events_def slot_def send_msg_channel_data_def dropbear_assert_def)
qed

text \<open>A session with room for small messages, and a channel that waits for its connection.\<close>

definition small_payload :: buffer where
  "small_payload = \<lparr>b_data = replicate 32 0, b_len = 0, b_pos = 0, b_size = 32\<rparr>"

definition waiting_ses :: sshsession where
  "waiting_ses = one_channel FD_UNINIT [0, 0, 0, 0] small_payload"

lemma waiting_runs:
  "isl (bindE (recv_msg_channel_eof small_cv waiting_ses) (channel_connect_done small_cv True 9 0 [])) = False"
  by code_simp

theorem late_connect_assertion_witness:
  "\<exists>s1 s2. recv_msg_channel_eof small_cv waiting_ses = Inr s1 \<and> channel_connect_done small_cv True 9 0 [] s1 = Inr s2
     \<and> channel_events small_cv (\<lambda>fd. fd = 9) (\<lambda>_. False) False 0 s2 = Inl (Assert_fail ''!channel->sent_close'')"
proof -
  obtain s1 s2 where r: "recv_msg_channel_eof small_cv waiting_ses = Inr s1" "channel_connect_done small_cv True 9 0 [] s1 = Inr s2"
    using waiting_runs
    by (cases "bindE (recv_msg_channel_eof small_cv waiting_ses) (channel_connect_done small_cv True 9 0 [])") (auto simp: bindE_eq_Inr)
  have c: "slot waiting_ses 0 (small_chan FD_UNINIT)" "connecting (small_chan FD_UNINIT)"
    "ct_check_close (cn_type small_cv (ch_type (small_chan FD_UNINIT))) = None"
    "ct_closehandler (cn_type small_cv (ch_type (small_chan FD_UNINIT))) = None"
    by (simp_all add: slot_def waiting_ses_def one_channel_def connecting_def small_chan_def small_cv_def waiting_type_def)
  have "buf_getint (buf_of [0, 0, 0, 0]) = Inr (0, (buf_of [0, 0, 0, 0])\<lparr>b_pos := 4\<rparr>)" by code_simp
  then have g: "getchannel_msg ''EOF for unknown channel'' waiting_ses = Inr (0, waiting_ses\<lparr>ses_payload := Some ((buf_of [0, 0, 0, 0])\<lparr>b_pos := 4\<rparr>)\<rparr>)"
    by (simp add: getchannel_msg_def payload_int_def waiting_ses_def one_channel_def)
  show ?thesis
    using late_connect_assertion [OF c g r, of "\<lambda>fd. fd = 9"] r by simp
qed

end
