(* ===== verification/Spec2Isabelle.thy ===== *)
theory Spec2Isabelle
  imports Packet_Ciphers Linked Wire Kex_Secret Channel_Props
begin

text \<open>
  A verification library of Dropbear, the SSH client and server under \<open>src/\<close>.  It follows the
  protocol from the bytes on the socket up to the channels.

  \<^bold>\<open>The program.\<close>  All state of a connection is the global \<open>struct sshsession ses\<close>.  The socket
  delivers bytes to \<open>read_packet\<close> (\<open>packet.c\<close>), which decrypts a packet, checks its MAC and
  leaves the payload in \<open>ses.payload\<close>.  \<open>process_packet\<close> (\<open>process-packet.c\<close>) filters packets by the
  state of key exchange and authentication and calls a handler: those of the key
  exchange (\<open>common-kex.c\<close>, \<open>kex-dh.c\<close>, \<open>kex-x25519.c\<close>) negotiate algorithms (\<open>common-algo.c\<close>) and
  replace the keys, those of the channels (\<open>common-channel.c\<close>) move data between the peer and local
  descriptors.  A handler writes its answer into \<open>ses.writepayload\<close>; \<open>encrypt_packet\<close> pads,
  authenticates and encrypts it and puts it into the write queue, which \<open>write_packet\<close> (\<open>netio.c\<close>
  and \<open>packet.c\<close>) empties.  Underneath are the byte buffers (\<open>buffer.c\<close>), the circular buffers
  (\<open>circbuffer.c\<close>), the queue and the list (\<open>queue.c\<close>, \<open>list.c\<close>) and the algorithms of libtomcrypt.

  \<^bold>\<open>How C is translated.\<close>  A C function is a function of the state that returns a value of
  \<open>'a res\<close>: \<open>Inr\<close> a result, or \<open>Inl\<close> the way the process ends.  \<open>Exit\<close> and \<open>Close\<close> are calls of \<open>dropbear_exit\<close> and \<open>dropbear_close\<close>.  The
  faults are \<open>Assert_fail\<close>, \<open>Mem_fault\<close> (an access outside a block of memory), \<open>Arith_fault\<close> and
  \<open>Diverge\<close>.  \<open>safe m Q\<close> says that \<open>m\<close> does not fault and that its result satisfies \<open>Q\<close>.  Integers of
  C are words of their width and wrap.  Structures are records, tables of functions are records
  with function fields, pointers into the heap are keys of a map, and a pointer to a channel is its
  index.

  \<^bold>\<open>The theories.\<close>
  \<^item> \<open>Prelude\<close>: the result type, the rules for \<open>safe\<close>, blocks of memory.  \<open>Endian\<close>: loading and storing
    words (\<open>tomcrypt_macros.h\<close>).
  \<^item> \<open>Buffer\<close>, \<open>Wire\<close>: \<open>buffer.c\<close>, every operation.  Any sequence of calls stays within the block (C1).
    The locale \<open>codec\<close> states what a pair of put and get promises; it is interpreted for bytes,
    booleans, integers, strings and multiple precision integers, and gives the round trip of
    whole messages (C4).  \<open>Safe_Rules\<close> and \<open>Buffer_Exact\<close> hold the rules by which later theories
    reason about buffers.
  \<^item> \<open>Circbuffer\<close>: \<open>circbuffer.c\<close>.  The ring is a bounded queue of bytes (C5), through the locale \<open>fifo\<close>.
  \<^item> \<open>Linked\<close>: \<open>queue.c\<close> and \<open>list.c\<close> on an explicit heap, as lists (C6 through the locale
    \<open>queue_spec\<close>, C7).
  \<^item> \<open>Algo\<close>: \<open>common-algo.c\<close>.  Both sides select the same algorithm (C3); the algorithm lists of the
    user (C9), and the overrun at a trailing comma (C10).
  \<^item> \<open>Chacha\<close>, \<open>Poly1305\<close>, \<open>Poly1305_Mac\<close>, \<open>Chachapoly\<close>: the AEAD cipher (\<open>chachapoly.c\<close> and
    libtomcrypt).  The limbs of \<open>poly1305.c\<close> compute the RFC's function (C16), the stream cipher is its
    own inverse (C17), decryption inverts encryption (C14) and checks the tag (C15).
  \<^item> \<open>Cipher_Modes\<close>: \<open>ctr_*.c\<close> and \<open>cbc_*.c\<close> over any block cipher (C18, C19, C20).
  \<^item> \<open>Hash_Process\<close>, \<open>Sha2\<close>, \<open>Sha1\<close>, \<open>Hash_Desc\<close>, \<open>Hmac\<close>: the hashes and HMAC of libtomcrypt.  The locale
    \<open>md_hash\<close> has the argument about the macro \<open>HASH_PROCESS\<close> once for all hashes, \<open>stream_hash\<close> the
    contract of a hash descriptor (C23, C24, C25, C26).
  \<^item> \<open>Session_State\<close>, \<open>Session_Init\<close>: \<open>session.h\<close> and \<open>common_session_init\<close>.
  \<^item> \<open>Packet\<close>: \<open>packet.c\<close> and the write queue of \<open>netio.c\<close>.  \<open>Packet_Safety\<close>: no input from the network
    makes reading fault (C2), the padding rule (C8).  \<open>Packet_Send\<close>: sending (C12) and the write
    queue (C13).  \<open>Packet_Frame\<close>: what sending leaves alone.  \<open>Packet_Roundtrip\<close> and \<open>Packet_Ciphers\<close>: a
    packet arrives as it was sent in any fragmentation (C11); the locale \<open>stream_mode\<close> is interpreted
    for counter mode and for the null cipher.
  \<^item> \<open>Process_Packet\<close>: \<open>process-packet.c\<close> and the tables of handlers.  Nothing of the connection protocol
    before authentication (C21), nothing but the required packet in strict key exchange (C22).
  \<^item> \<open>Kex\<close>: \<open>common-kex.c\<close>.  \<open>Kex_Keys\<close>: the derivation of keys ends and is that of RFC 4253 (C27, C28).
    \<open>Kex_Agree\<close>, \<open>Kex_Choice\<close>, \<open>Kex_Hash\<close>: both sides take the same keys into use (C29), choose the same
    algorithms (C30) and hash the same transcript (C31).  \<open>Kex_Dh\<close>, \<open>Kex_Secret\<close>: the methods, with
    the random exponents (C32), give both sides the same secret (C33, C34).
  \<^item> \<open>Channel\<close>: \<open>common-channel.c\<close>.  \<open>Channel_Inv\<close>, \<open>Channel_Data\<close> and \<open>Channel_Safe\<close>: the invariant of the
    channels and, operation by operation, that it is kept without a fault.  \<open>Channel_Steps\<close>: the
    steps of a session as an inductive relation, and the invariant by rule induction over it.
    \<open>Channel_Late\<close>: connections that come up late.  \<open>Channel_Props\<close>: the invariant and the absence of
    faults in every reachable session (C35, C36), data in order (C37) and within the window (C38), and
    the failed assertion after a late connection (C39).

  \<^bold>\<open>Loops.\<close>  Most loops are structural or have a termination proof.  \<open>hashkeys\<close> and \<open>gen_random_mpint\<close>
  may run forever in C, because an offset wraps or because the generator never delivers a suitable
  block; they are partial functions into \<open>option\<close>, and C27 and C32 say when they return.  So is the
  loop of \<open>common_recv_msg_channel_data\<close> that stores data, where not returning is the fault
  \<open>Diverge\<close>.  The loops of \<open>channelio\<close> and \<open>chancleanup\<close> read the size of the table again in each
  round.  They have fuel for one round more than the \<open>CHAN_SLOTS\<close> entries the table can have, and
  end in \<open>Diverge\<close> when it is used up.  \<open>Diverge\<close> counts as a fault, so C36 includes that these loops
  end.

  \<^bold>\<open>Arguments of the model.\<close>  Block ciphers, zlib, the modular power, the multiplication on the
  curve, the bytes of the random generator, and the answers of the kernel to reads, writes and
  closes are arguments.  What the properties need of them are hypotheses, each with an instance in
  the witness of the property.

  \<^bold>\<open>Not modelled.\<close>  Authentication, signatures, host keys and their files, the drivers \<open>svr-kex.c\<close> and
  \<open>cli-kex.c\<close>, the ECDH and post-quantum methods, the arithmetic of libtommath beyond conversions,
  counting bits and halving, GCM, processes and terminals of sessions, listeners and the sockets of
  forwarding, the select loop with its timeouts, options, logging, \<open>scp\<close> and the key tools.  These
  are input and output, files and processes, or arithmetic of third parties.
\<close>

end
